(* ===== verification/Utp_Prelude.thy ===== *)
theory Utp_Prelude
  imports Main "HOL-Library.Word" "HOL-Library.Monad_Syntax"
begin

section \<open>Shared types, faults and machine arithmetic\<close>

text \<open>
  What every component theory shares: the machine integer types of \<^verbatim>\<open>utp_types.h\<close>,
  the treatment of faults, and the arithmetic of masked ring indices.

  A C++ operation that can abort (a failed \<^verbatim>\<open>assert\<close>, which the shipped build keeps
  enabled) or leave defined behaviour (a read outside an array, a NULL dereference) is a function
  into \<open>option\<close>: \<open>None\<close> is the fault. The predicate \<open>wpo m Q\<close> says that \<open>m\<close> does not
  fault and its result satisfies \<open>Q\<close>; its rules (collection \<open>wpo_simps\<close>) push it through
  the do-notation, so that a lemma about an operation is a goal about its steps.
\<close>

unbundle bit_operations_syntax

named_theorems wpo_simps \<open>weakest preconditions of fault-prone computations\<close>
named_theorems ring_simps \<open>arithmetic of masked ring indices\<close>

subsection \<open>Machine integers\<close>

type_synonym byte = "8 word"
type_synonym uint16 = "16 word"
type_synonym uint32 = "32 word"
type_synonym uint64 = "64 word"
type_synonym size_t = "64 word"

text \<open>
  The C cast \<^verbatim>\<open>(int)x\<close> of an unsigned 64-bit value: the low 32 bits read as two's
  complement.
\<close>

definition as_int :: "uint64 \<Rightarrow> int" where
  "as_int x = sint (ucast x :: uint32)"

subsection \<open>Faults\<close>

definition cassert :: "bool \<Rightarrow> unit option" where
  "cassert b = (if b then Some () else None)"

lemma cassert_simps [simp]: "cassert True = Some ()" "cassert False = None"
  by (simp_all add: cassert_def)

definition wpo :: "'a option \<Rightarrow> ('a \<Rightarrow> bool) \<Rightarrow> bool" where
  "wpo m Q = (case m of None \<Rightarrow> False | Some x \<Rightarrow> Q x)"

lemma wpo_Some [wpo_simps, simp]: "wpo (Some x) Q = Q x"
  by (simp add: wpo_def)

lemma wpo_None [wpo_simps, simp]: "wpo None Q = False"
  by (simp add: wpo_def)

lemma wpo_bind [wpo_simps]: "wpo (Option.bind m f) Q = wpo m (\<lambda>x. wpo (f x) Q)"
  by (cases m) simp_all

lemma wpo_cassert [wpo_simps]: "wpo (cassert b) Q = (b \<and> Q ())"
  by (simp add: cassert_def)

lemma wpo_if [wpo_simps]:
  "wpo (if b then m else n) Q = ((b \<longrightarrow> wpo m Q) \<and> (\<not> b \<longrightarrow> wpo n Q))"
  by simp

lemma wpo_let [wpo_simps]: "wpo (Let x f) Q = wpo (f x) Q"
  by simp

lemma wpo_mono: "wpo m P \<Longrightarrow> (\<And>x. P x \<Longrightarrow> Q x) \<Longrightarrow> wpo m Q"
  by (cases m) simp_all

lemma wpo_bindI: "wpo m P \<Longrightarrow> (\<And>x. P x \<Longrightarrow> wpo (f x) Q) \<Longrightarrow> wpo (Option.bind m f) Q"
  by (cases m) simp_all

lemma wpoI: "m = Some x \<Longrightarrow> Q x \<Longrightarrow> wpo m Q"
  by simp

lemma wpo_ex: "wpo m Q \<longleftrightarrow> (\<exists>x. m = Some x \<and> Q x)"
  by (cases m) simp_all

lemma wpo_conj: "wpo m P \<Longrightarrow> wpo m Q \<Longrightarrow> wpo m (\<lambda>x. P x \<and> Q x)"
  by (cases m) simp_all

lemma unat_less_pow: "unat (x :: 'a::len word) < 2 ^ LENGTH('a)"
  by (rule unsigned_less)

lemma unat_of_nat_small: "n < 2 ^ LENGTH('a) \<Longrightarrow> unat (word_of_nat n :: 'a::len word) = n"
  by (simp add: unsigned_of_nat take_bit_nat_eq_self)

lemma unat_ucast_small:
  fixes x :: "'a::len word"
  assumes "unat x < 2 ^ LENGTH('b)"
  shows "unat (ucast x :: 'b::len word) = unat x"
proof -
  have "unat (ucast x :: 'b word) = take_bit LENGTH('b) (unat x)" by (rule unsigned_ucast_eq)
  then show ?thesis using assms by (simp add: take_bit_nat_eq_self)
qed

lemma unat_ucast_up:
  fixes x :: "'a::len word"
  assumes "LENGTH('a) \<le> LENGTH('b)"
  shows "unat (ucast x :: 'b::len word) = unat x"
proof (rule unat_ucast_small)
  have "(2::nat) ^ LENGTH('a) \<le> 2 ^ LENGTH('b)" using assms by (rule power_increasing) simp
  then show "unat x < 2 ^ LENGTH('b)" using unat_less_pow [of x] by linarith
qed

subsection \<open>Successors below a bound\<close>

lemma unat_Suc_less:
  fixes x y :: "'a::len word"
  assumes "x < y"
  shows "unat (x + 1) = Suc (unat x)"
proof -
  have "Suc (unat x) < 2 ^ LENGTH('a)"
    using assms unsigned_less [of y] by (metis Suc_lessI less_trans order_less_asym word_less_nat_alt)
  then show ?thesis by (simp add: unat_word_ariths)
qed

subsection \<open>Masked indices\<close>

lemma unat_and_mask [ring_simps]:
  fixes x :: "'a::len word"
  shows "unat (x AND (2 ^ k - 1)) = unat x mod 2 ^ k"
proof -
  have "x AND (2 ^ k - 1) = take_bit k x"
    by (simp add: take_bit_eq_mask mask_eq_exp_minus_1)
  moreover have "unat (take_bit k x) = take_bit k (unat x)"
    by (rule unsigned_take_bit_eq)
  ultimately show ?thesis by (simp only: take_bit_eq_mod [of k "unat x"])
qed

lemma unat_pow2: "k < LENGTH('a) \<Longrightarrow> unat ((2 :: 'a::len word) ^ k) = 2 ^ k"
  by (metis of_nat_numeral of_nat_power take_bit_nat_eq_self_iff unsigned_of_nat power_strict_increasing_iff one_less_numeral_iff semiring_norm(76))

lemma unat_pow2_minus_1:
  assumes "k < LENGTH('a)"
  shows "unat ((2 :: 'a::len word) ^ k - 1) = 2 ^ k - 1"
proof -
  have "(1 :: 'a word) \<le> 2 ^ k"
    using assms by (simp add: word_le_nat_alt unat_pow2)
  then show ?thesis using assms by (simp add: unat_sub unat_pow2)
qed

lemma unat_add_of_nat_mod [ring_simps]:
  fixes x :: "'a::len word"
  assumes "k \<le> LENGTH('a)"
  shows "unat (x + of_nat n) mod 2 ^ k = (unat x + n) mod 2 ^ k"
proof -
  have "(2::nat) ^ k dvd 2 ^ LENGTH('a)" using assms by (rule le_imp_power_dvd)
  then show ?thesis
    by (simp add: unat_word_ariths unsigned_of_nat take_bit_eq_mod mod_mod_cancel mod_add_right_eq)
qed

text \<open>Two indices at distance less than the ring size share a slot only when they are equal.\<close>

lemma mod_pow2_add_inj:
  fixes x :: "'a::len word"
  assumes k: "k \<le> LENGTH('a)" and i: "i < 2 ^ k" and j: "j < 2 ^ k"
  shows "unat (x + of_nat i) mod 2 ^ k = unat (x + of_nat j) mod 2 ^ k \<longleftrightarrow> i = j"
proof -
  have "(unat x + i) mod 2 ^ k = (unat x + j) mod 2 ^ k \<longleftrightarrow> i mod 2 ^ k = j mod 2 ^ k"
    by (simp add: nat_mod_eq_iff)
  then show ?thesis using i j by (simp add: unat_add_of_nat_mod [OF k])
qed

end
