(* ===== verification/Circular_Buffer.thy ===== *)
theory Circular_Buffer
  imports Utp_Prelude
begin

section \<open>The sizable circular buffer\<close>

text \<open>
  \<^verbatim>\<open>struct SizableCircularBuffer\<close> of \<^verbatim>\<open>utp_internal.cpp\<close>: a power-of-two array of
  pointers addressed by sequence number modulo its size, which doubles on demand. A socket keeps
  two of them, \<^verbatim>\<open>inbuf\<close> (reordered incoming data) and \<^verbatim>\<open>outbuf\<close> (unacknowledged packets).

  A pointer is an \<open>option\<close>; the array is allocated once by \<^verbatim>\<open>utp_create_socket\<close> and never
  NULL afterwards, so the \<^verbatim>\<open>elements ? ... : NULL\<close> test of \<^verbatim>\<open>get\<close> has no model.
  The client-side view is the list \<open>ring_window get b base n\<close> of the \<open>n\<close> slots from
  sequence number \<open>base\<close> on; the locale \<open>ring_buffer\<close> states what \<open>get\<close>, \<open>put\<close> and
  \<open>ensure_size\<close> promise and derives the list operations they amount to.
\<close>

record 'a SizableCircularBuffer =
  cb_mask :: size_t
  elements :: "'a option list"

definition cb_get :: "'a SizableCircularBuffer \<Rightarrow> size_t \<Rightarrow> 'a option" where
  "cb_get b i = elements b ! unat (i AND cb_mask b)"

definition cb_put :: "'a SizableCircularBuffer \<Rightarrow> size_t \<Rightarrow> 'a option \<Rightarrow> 'a SizableCircularBuffer" where
  "cb_put b i d = b\<lparr>elements := (elements b)[unat (i AND cb_mask b) := d]\<rparr>"

definition cb_size :: "'a SizableCircularBuffer \<Rightarrow> size_t" where
  "cb_size b = cb_mask b + 1"

text \<open>
  The loop \<^verbatim>\<open>do size *= 2; while (index >= size);\<close>. Once the doubling has wrapped to zero
  it runs forever, which is the value \<open>None\<close>.
\<close>

partial_function (option) grow_size :: "size_t \<Rightarrow> size_t \<Rightarrow> size_t option" where
  "grow_size sz index =
     (if sz * 2 \<le> index then grow_size (sz * 2) index else Some (sz * 2))"

declare grow_size.simps [code]

definition cb_grow ::
    "'a SizableCircularBuffer \<Rightarrow> size_t \<Rightarrow> size_t \<Rightarrow> 'a SizableCircularBuffer option" where
  "cb_grow b item index = do {
     sz \<leftarrow> grow_size (cb_mask b + 1) index;
     let buf = replicate (unat sz) None;
     let sz' = sz - 1;
     let buf' = fold (\<lambda>i bf. bf[unat ((item - index + of_nat i) AND sz') :=
                                cb_get b (item - index + of_nat i)])
                  [0..<unat (cb_mask b) + 1] buf;
     Some \<lparr>cb_mask = sz', elements = buf'\<rparr>
   }"

definition cb_ensure_size ::
    "'a SizableCircularBuffer \<Rightarrow> size_t \<Rightarrow> size_t \<Rightarrow> 'a SizableCircularBuffer option" where
  "cb_ensure_size b item index = (if cb_mask b < index then cb_grow b item index else Some b)"

text \<open>The size is a power of two that fits the 16-bit sequence number space.\<close>

definition cb_ok :: "'a SizableCircularBuffer \<Rightarrow> bool" where
  "cb_ok b \<longleftrightarrow> (\<exists>k\<in>{..16}. cb_mask b = 2 ^ k - 1 \<and> length (elements b) = 2 ^ k)"

text \<open>A freshly allocated buffer of \<open>2 ^ k\<close> empty slots.\<close>

definition cb_new :: "nat \<Rightarrow> 'a SizableCircularBuffer" where
  "cb_new k = \<lparr>cb_mask = 2 ^ k - 1, elements = replicate (2 ^ k) None\<rparr>"

subsection \<open>The interface\<close>

definition ring_window :: "('b \<Rightarrow> size_t \<Rightarrow> 'a option) \<Rightarrow> 'b \<Rightarrow> size_t \<Rightarrow> nat \<Rightarrow> 'a option list" where
  "ring_window get b base n = map (\<lambda>j. get b (base + of_nat j)) [0..<n]"

lemma length_ring_window [simp]: "length (ring_window get b base n) = n"
  by (simp add: ring_window_def)

lemma nth_ring_window [simp]:
  "j < n \<Longrightarrow> ring_window get b base n ! j = get b (base + of_nat j)"
  by (simp add: ring_window_def)

lemma ring_window_0 [simp]: "ring_window get b base 0 = []"
  by (simp add: ring_window_def)

lemma ring_window_Suc:
  "ring_window get b base (Suc n) = get b base # ring_window get b (base + 1) n"
  by (rule nth_equalityI) (auto simp: nth_Cons algebra_simps split: nat.splits)

locale ring_buffer =
  fixes get :: "'b \<Rightarrow> size_t \<Rightarrow> 'a option"
    and put :: "'b \<Rightarrow> size_t \<Rightarrow> 'a option \<Rightarrow> 'b"
    and ensure :: "'b \<Rightarrow> size_t \<Rightarrow> size_t \<Rightarrow> 'b option"
    and bits :: "'b \<Rightarrow> nat"
    and ok :: "'b \<Rightarrow> bool"
  assumes bits_le: "ok b \<Longrightarrow> bits b \<le> 16"
    and get_slot: "ok b \<Longrightarrow> unat i mod 2 ^ bits b = unat j mod 2 ^ bits b \<Longrightarrow> get b i = get b j"
    and get_put: "ok b \<Longrightarrow> get (put b i v) j =
        (if unat i mod 2 ^ bits b = unat j mod 2 ^ bits b then v else get b j)"
    and ok_put: "ok b \<Longrightarrow> ok (put b i v)"
    and bits_put: "ok b \<Longrightarrow> bits (put b i v) = bits b"
    and ensure_spec: "ok b \<Longrightarrow> unat index < 2 ^ 16 \<Longrightarrow>
        wpo (ensure b item index) (\<lambda>b'. ok b' \<and> bits b \<le> bits b' \<and> unat index < 2 ^ bits b' \<and>
          (\<forall>j < 2 ^ bits b'. get b' (item - index + of_nat j) =
             (if j < 2 ^ bits b then get b (item - index + of_nat j) else None)))"
begin

lemma bits_le_64: "ok b \<Longrightarrow> bits b \<le> LENGTH(64)"
  using bits_le [of b] by simp

lemma get_put_offset:
  assumes "ok b" and "i < 2 ^ bits b" and "j < 2 ^ bits b"
  shows "get (put b (base + of_nat i) v) (base + of_nat j) =
         (if i = j then v else get b (base + of_nat j))"
  using assms mod_pow2_add_inj [OF bits_le_64 assms(2,3), of base] by (simp add: get_put)

lemma window_put:
  assumes "ok b" and "n \<le> 2 ^ bits b" and "i < n"
  shows "ring_window get (put b (base + of_nat i) v) base n = (ring_window get b base n)[i := v]"
  by (rule nth_equalityI) (use assms in \<open>auto simp: get_put_offset nth_list_update\<close>)

lemma window_put_outside:
  assumes "ok b" and "n \<le> i" and "i < 2 ^ bits b"
  shows "ring_window get (put b (base + of_nat i) v) base n = ring_window get b base n"
  by (rule nth_equalityI) (use assms in \<open>auto simp: get_put_offset\<close>)

lemma window_snoc:
  assumes "ok b" and "n < 2 ^ bits b"
  shows "ring_window get (put b (base + of_nat n) v) base (Suc n) = ring_window get b base n @ [v]"
  by (rule nth_equalityI)
    (use assms in \<open>auto simp: get_put_offset nth_append less_Suc_eq\<close>)

lemma window_cong:
  assumes "ok b" and "unat base mod 2 ^ 16 = unat base' mod 2 ^ 16"
  shows "ring_window get b base n = ring_window get b base' n"
proof (rule nth_equalityI)
  fix j assume j: "j < length (ring_window get b base n)"
  have dvd: "(2::nat) ^ bits b dvd 2 ^ 16"
    using assms(1) by (intro le_imp_power_dvd bits_le)
  have eq: "unat base mod 2 ^ bits b = unat base' mod 2 ^ bits b"
    using arg_cong [OF assms(2), of "\<lambda>n. n mod 2 ^ bits b"] by (simp only: mod_mod_cancel [OF dvd])
  have "(unat base + j) mod 2 ^ bits b = (unat base' + j) mod 2 ^ bits b"
    using eq by (rule mod_add_cong) (rule refl)
  then have "get b (base + of_nat j) = get b (base' + of_nat j)"
    using assms(1) by (intro get_slot) (simp_all only: unat_add_of_nat_mod [OF bits_le_64])
  with j show "ring_window get b base n ! j = ring_window get b base' n ! j" by simp
qed simp

lemma window_ensure:
  assumes "ok b" and "unat index < 2 ^ 16" and "n \<le> 2 ^ bits b"
  shows "wpo (ensure b item index) (\<lambda>b'. ok b' \<and> bits b \<le> bits b' \<and> unat index < 2 ^ bits b' \<and>
           ring_window get b' (item - index) n = ring_window get b (item - index) n)"
proof (rule wpo_mono [OF ensure_spec [OF assms(1,2)]], safe)
  fix b'
  assume ok': "ok b'" and le: "bits b \<le> bits b'"
    and get': "\<forall>j<2 ^ bits b'. get b' (item - index + of_nat j) =
         (if j < 2 ^ bits b then get b (item - index + of_nat j) else None)"
  have le': "(2::nat) ^ bits b \<le> 2 ^ bits b'" using le by (simp add: power_increasing)
  have "get b' (item - index + of_nat j) = get b (item - index + of_nat j)" if "j < n" for j
  proof -
    have "j < 2 ^ bits b" using that assms(3) by linarith
    moreover from this have "j < 2 ^ bits b'" using le' by linarith
    ultimately show ?thesis using get' by simp
  qed
  then show "ring_window get b' (item - index) n = ring_window get b (item - index) n"
    by (intro nth_equalityI) auto
qed

text \<open>Growing the whole ring appends empty slots at its end.\<close>

lemma full_window_ensure:
  assumes "ok b" and "unat index < 2 ^ 16"
  shows "wpo (ensure b item index) (\<lambda>b'. ok b' \<and> bits b \<le> bits b' \<and> unat index < 2 ^ bits b' \<and>
           ring_window get b' (item - index) (2 ^ bits b') =
           ring_window get b (item - index) (2 ^ bits b) @ replicate (2 ^ bits b' - 2 ^ bits b) None)"
proof (rule wpo_mono [OF ensure_spec [OF assms]], safe)
  fix b'
  assume le: "bits b \<le> bits b'"
    and get': "\<forall>j<2 ^ bits b'. get b' (item - index + of_nat j) =
         (if j < 2 ^ bits b then get b (item - index + of_nat j) else None)"
  have "(2::nat) ^ bits b \<le> 2 ^ bits b'" using le by (simp add: power_increasing)
  with get' show "ring_window get b' (item - index) (2 ^ bits b') =
      ring_window get b (item - index) (2 ^ bits b) @ replicate (2 ^ bits b' - 2 ^ bits b) None"
    by (intro nth_equalityI) (auto simp: nth_append)
qed

end

subsection \<open>The buffer implements the interface\<close>

text \<open>The exponent of the size, read off the mask.\<close>

definition cb_bits :: "'a SizableCircularBuffer \<Rightarrow> nat" where
  "cb_bits b = length (filter (\<lambda>j. 2 ^ j \<le> unat (cb_mask b)) [0..<64])"

lemma pow2_le_minus_1_iff: "(2::nat) ^ j \<le> 2 ^ k - 1 \<longleftrightarrow> j < k"
proof -
  have "0 < (2::nat) ^ k" by simp
  then have "(2::nat) ^ j \<le> 2 ^ k - 1 \<longleftrightarrow> (2::nat) ^ j < 2 ^ k" by linarith
  then show ?thesis by simp
qed

lemma filter_less_upt: "k \<le> n \<Longrightarrow> filter (\<lambda>j. j < k) [0..<n] = [0..<k]"
  by (induction n) (auto simp: le_Suc_eq)

lemma cb_bits_pow2: "k \<le> 16 \<Longrightarrow> cb_mask b = 2 ^ k - 1 \<Longrightarrow> cb_bits b = k"
  by (simp add: cb_bits_def unat_pow2_minus_1 pow2_le_minus_1_iff filter_less_upt
      del: One_nat_def)

lemma cb_okE:
  assumes "cb_ok b"
  obtains "cb_bits b \<le> 16" "cb_mask b = 2 ^ cb_bits b - 1" "length (elements b) = 2 ^ cb_bits b"
  using assms cb_bits_pow2 unfolding cb_ok_def by (metis atMost_iff)

lemma cb_slot: "cb_ok b \<Longrightarrow> unat (i AND cb_mask b) = unat i mod 2 ^ cb_bits b"
  by (erule cb_okE) (metis unat_and_mask)

lemma cb_get_eq: "cb_ok b \<Longrightarrow> cb_get b i = elements b ! (unat i mod 2 ^ cb_bits b)"
  by (simp add: cb_get_def cb_slot)

lemma cb_ok_put: "cb_ok b \<Longrightarrow> cb_ok (cb_put b i v)"
  by (simp add: cb_ok_def cb_put_def)

lemma cb_bits_put [simp]: "cb_bits (cb_put b i v) = cb_bits b"
  by (simp add: cb_bits_def cb_put_def)

lemma cb_mask_put [simp]: "cb_mask (cb_put b i v) = cb_mask b"
  by (simp add: cb_put_def)

lemma cb_get_put:
  assumes "cb_ok b"
  shows "cb_get (cb_put b i v) j =
         (if unat i mod 2 ^ cb_bits b = unat j mod 2 ^ cb_bits b then v else cb_get b j)"
proof -
  have "length (elements b) = 2 ^ cb_bits b" using assms by (rule cb_okE)
  then show ?thesis
    by (simp add: cb_get_def cb_put_def cb_slot [OF assms] nth_list_update)
qed

lemma cb_ok_new: "k \<le> 16 \<Longrightarrow> cb_ok (cb_new k)"
  by (auto simp: cb_ok_def cb_new_def)

lemma cb_bits_new: "k \<le> 16 \<Longrightarrow> cb_bits (cb_new k :: 'a SizableCircularBuffer) = k"
  by (rule cb_bits_pow2) (simp_all add: cb_new_def)

lemma cb_get_new: "k \<le> 16 \<Longrightarrow> cb_get (cb_new k) i = None"
  by (subst cb_get_eq) (simp_all add: cb_ok_new cb_bits_new, simp add: cb_new_def)

subsubsection \<open>The size of a grown buffer\<close>

lemma pow2_mult2: "(2::size_t) ^ k * 2 = 2 ^ Suc k"
  by simp

lemma grow_size_pow2:
  assumes "k < m" and "m \<le> 16" and "unat index < 2 ^ m"
  shows "\<exists>j. k < j \<and> j \<le> m \<and> unat index < 2 ^ j \<and> grow_size (2 ^ k) index = Some (2 ^ j)"
  using assms
proof (induction "m - k" arbitrary: k)
  case (Suc d)
  show ?case
  proof (cases "(2::size_t) ^ k * 2 \<le> index")
    case True
    then have "(2::nat) ^ Suc k \<le> unat index"
      using Suc.prems by (simp add: word_le_nat_alt pow2_mult2 unat_pow2 del: power_Suc)
    then have "(2::nat) ^ Suc k < 2 ^ m" using Suc.prems(3) by linarith
    then have "Suc k < m" by (rule power_less_imp_less_exp [rotated]) simp
    moreover have "d = m - Suc k" using Suc.hyps(2) by simp
    ultimately obtain j where "Suc k < j" "j \<le> m" "unat index < 2 ^ j"
        "grow_size (2 ^ Suc k) index = Some (2 ^ j)"
      using Suc.hyps(1) Suc.prems(2,3) by blast
    with True show ?thesis
      by (intro exI [of _ j]) (simp add: grow_size.simps [of "2 ^ k"] mult.commute)
  next
    case False
    then have "unat index < 2 ^ Suc k"
      using Suc.prems by (simp add: word_le_nat_alt pow2_mult2 unat_pow2 del: power_Suc)
    with False Suc.prems show ?thesis
      by (intro exI [of _ "Suc k"]) (simp add: grow_size.simps [of "2 ^ k"] mult.commute)
  qed
qed simp

subsubsection \<open>The copy into the grown buffer\<close>

lemma length_fold_update [simp]:
  "length (fold (\<lambda>i bf. bf[f i := g i]) is buf) = length buf"
  by (induction "is" arbitrary: buf) auto

lemma nth_fold_update_other:
  "p \<notin> f ` set is \<Longrightarrow> fold (\<lambda>i bf. bf[f i := g i]) is buf ! p = buf ! p"
  by (induction "is" arbitrary: buf) auto

lemma nth_fold_update:
  assumes "inj_on f (set is)" and "i \<in> set is" and "f i < length buf" and "distinct is"
  shows "fold (\<lambda>i bf. bf[f i := g i]) is buf ! f i = g i"
  using assms
proof (induction "is" arbitrary: buf)
  case (Cons a "is")
  show ?case
  proof (cases "i = a")
    case True
    then have "f i \<notin> f ` set is" using Cons.prems by (auto simp: inj_on_def)
    then show ?thesis using True Cons.prems by (simp add: nth_fold_update_other)
  next
    case False
    then show ?thesis using Cons by auto
  qed
qed simp

lemma cb_grow_spec:
  fixes b :: "'a SizableCircularBuffer"
  assumes ok: "cb_ok b" and idx: "unat index < 2 ^ 16" and big: "cb_mask b < index"
  shows "wpo (cb_grow b item index) (\<lambda>b'. cb_ok b' \<and> cb_bits b \<le> cb_bits b' \<and>
           unat index < 2 ^ cb_bits b' \<and>
           (\<forall>j < 2 ^ cb_bits b'. cb_get b' (item - index + of_nat j) =
              (if j < 2 ^ cb_bits b then cb_get b (item - index + of_nat j) else None)))"
proof -
  obtain kb: "cb_bits b \<le> 16" and mb: "cb_mask b = 2 ^ cb_bits b - 1"
    and lb: "length (elements b) = 2 ^ cb_bits b"
    using ok by (rule cb_okE)
  let ?k = "cb_bits b" and ?base = "item - index"
  have um: "unat (cb_mask b) = 2 ^ ?k - 1"
    using kb by (simp add: mb unat_pow2_minus_1)
  have "(2::nat) ^ ?k \<le> unat index"
    using big um by (simp add: word_less_nat_alt)
  then have "(2::nat) ^ ?k < 2 ^ 16" using idx by linarith
  then have "?k < 16" by (rule power_less_imp_less_exp [rotated]) simp
  then obtain m where m: "?k < m" "m \<le> 16" "unat index < 2 ^ m"
      and gs: "grow_size (cb_mask b + 1) index = Some (2 ^ m)"
    using grow_size_pow2 [of ?k 16 index] idx by (auto simp: mb)
  let ?f = "\<lambda>i. unat (?base + of_nat i) mod 2 ^ m"
  let ?buf = "fold (\<lambda>i bf. bf[?f i := cb_get b (?base + of_nat i)]) [0..<2 ^ ?k]
                (replicate (2 ^ m) None) :: 'a option list"
  let ?b = "\<lparr>cb_mask = 2 ^ m - 1, elements = ?buf\<rparr> :: 'a SizableCircularBuffer"
  have grow: "cb_grow b item index = Some ?b"
    using m um by (simp add: cb_grow_def gs unat_pow2 unat_and_mask Let_def)
  have bits': "cb_bits ?b = m" using m by (intro cb_bits_pow2) auto
  have ok': "cb_ok ?b" using m by (auto simp: cb_ok_def)
  have "(2::nat) ^ ?k < 2 ^ m" using m by simp
  then have less: "i < 2 ^ m" if "i < 2 ^ ?k" for i :: nat using that by linarith
  have inj: "?f i = ?f j \<longleftrightarrow> i = j" if "i < 2 ^ m" "j < 2 ^ m" for i j
    using that m by (intro mod_pow2_add_inj) auto
  have "cb_get ?b (?base + of_nat j) =
        (if j < 2 ^ ?k then cb_get b (?base + of_nat j) else None)" if j: "j < 2 ^ m" for j
  proof -
    have get': "cb_get ?b (?base + of_nat j) = ?buf ! ?f j"
      using cb_get_eq [OF ok', of "?base + of_nat j"] by (simp add: bits')
    show ?thesis
    proof (cases "j < 2 ^ ?k")
      case True
      have "?buf ! ?f j = cb_get b (?base + of_nat j)"
      proof (rule nth_fold_update)
        show "inj_on ?f (set [0..<2 ^ ?k])" 
        proof (rule inj_onI)
          fix x y assume xy: "x \<in> set [0..<2 ^ ?k]" "y \<in> set [0..<2 ^ ?k]" "?f x = ?f y"
          then have "x < 2 ^ m" "y < 2 ^ m" using less by simp_all
          then show "x = y" using inj xy(3) by blast
        qed
      qed (use True in auto)
      with True show ?thesis by (simp add: get')
    next
      case False
      have "?f j \<noteq> ?f x" if "x < 2 ^ ?k" for x
        using inj [OF j less [OF that]] that False by blast
      then have "?f j \<notin> ?f ` set [0..<2 ^ ?k]" unfolding image_iff by fastforce
      then have "?buf ! ?f j = replicate (2 ^ m) None ! ?f j" by (rule nth_fold_update_other)
      with False show ?thesis by (simp add: get')
    qed
  qed
  with grow ok' bits' m show ?thesis by simp
qed

lemma cb_ensure_size_spec:
  assumes ok: "cb_ok b" and "unat index < 2 ^ 16"
  shows "wpo (cb_ensure_size b item index) (\<lambda>b'. cb_ok b' \<and> cb_bits b \<le> cb_bits b' \<and>
           unat index < 2 ^ cb_bits b' \<and>
           (\<forall>j < 2 ^ cb_bits b'. cb_get b' (item - index + of_nat j) =
              (if j < 2 ^ cb_bits b then cb_get b (item - index + of_nat j) else None)))"
proof (cases "cb_mask b < index")
  case True
  then show ?thesis using cb_grow_spec [OF assms True] by (simp add: cb_ensure_size_def)
next
  case False
  have "unat (cb_mask b) = 2 ^ cb_bits b - 1"
    using ok by (rule cb_okE) (simp add: unat_pow2_minus_1)
  moreover have "0 < (2::nat) ^ cb_bits b" by simp
  ultimately have "unat index < 2 ^ cb_bits b"
    using False unfolding word_less_nat_alt by linarith
  then show ?thesis using False ok by (simp add: cb_ensure_size_def word_less_nat_alt)
qed

interpretation cb: ring_buffer cb_get cb_put cb_ensure_size cb_bits cb_ok
proof unfold_locales
  show "\<And>b :: 'a SizableCircularBuffer. cb_ok b \<Longrightarrow> cb_bits b \<le> 16" by (erule cb_okE)
next
  fix b :: "'a SizableCircularBuffer" and i j
  show "cb_ok b \<Longrightarrow> unat i mod 2 ^ cb_bits b = unat j mod 2 ^ cb_bits b \<Longrightarrow> cb_get b i = cb_get b j"
    by (simp add: cb_get_eq)
qed (simp_all only: cb_get_put cb_ok_put cb_bits_put cb_ensure_size_spec)

subsection \<open>Growing keeps the contents\<close>

text \<open>C14: \<^verbatim>\<open>ensure_size\<close> on a well-formed buffer returns (the doubling loop ends and no
  index leaves the arrays), makes room for \<open>index + 1\<close> elements that end at sequence number
  \<open>item\<close>, and the elements of the old ring, read from the oldest sequence number
  \<open>item - index\<close> on, are found at the same sequence numbers followed by empty slots.\<close>

theorem ensure_size_keeps_ring:
  assumes "cb_ok b" and "unat index < 2 ^ 16"
  shows "wpo (cb_ensure_size b item index) (\<lambda>b'. cb_ok b' \<and> cb_bits b \<le> cb_bits b' \<and>
           unat index < 2 ^ cb_bits b' \<and>
           ring_window cb_get b' (item - index) (2 ^ cb_bits b') =
           ring_window cb_get b (item - index) (2 ^ cb_bits b) @
             replicate (2 ^ cb_bits b' - 2 ^ cb_bits b) None)"
  using assms by (rule cb.full_window_ensure)

text \<open>At a buffer of 16 slots, holding one packet, that has to make room for 18.\<close>

theorem ensure_size_keeps_ring_witness:
  "cb_ok (cb_put (cb_new 4) 5 (Some (7::nat))) \<and>
   wpo (cb_ensure_size (cb_put (cb_new 4) 5 (Some (7::nat))) 20 17)
     (\<lambda>b'. cb_ok b' \<and> cb_bits (cb_put (cb_new 4) 5 (Some (7::nat))) \<le> cb_bits b' \<and>
        unat (17::size_t) < 2 ^ cb_bits b' \<and>
        ring_window cb_get b' (20 - 17) (2 ^ cb_bits b') =
        ring_window cb_get (cb_put (cb_new 4) 5 (Some 7)) (20 - 17)
          (2 ^ cb_bits (cb_put (cb_new 4) 5 (Some (7::nat)))) @
          replicate (2 ^ cb_bits b' - 2 ^ cb_bits (cb_put (cb_new 4) 5 (Some (7::nat)))) None)"
proof -
  have ok: "cb_ok (cb_put (cb_new 4) 5 (Some (7::nat)))" by (simp add: cb_ok_put cb_ok_new)
  show ?thesis using ok ensure_size_keeps_ring [OF ok, of 17 20] by simp
qed

end
