(* ===== verification/Utp_Hash.thy ===== *)
theory Utp_Hash
  imports Utp_Prelude
begin

section \<open>The chained hash table\<close>

text \<open>
  \<^verbatim>\<open>utp_hash.cpp\<close>: a hash table in one block of memory. \<open>inits\<close> holds the first element of
  every bucket's chain, the elements form one array in which each element carries the link to the
  next one of its chain, deleted elements are chained into a free list, and the array doubles when
  it is full. Links and chain heads are 32-bit indices, \<^verbatim>\<open>0xffffffff\<close> ends a chain.

  The model keeps exactly this representation (indices, links, free list, counters); a pointer to
  an element is its index. A chain that leaves the array is the fault \<open>None\<close> and a chain that
  never ends is the same value \<open>None\<close>, so the refinement lemmas below also show that neither
  happens. The byte sizes \<^verbatim>\<open>K\<close> and \<^verbatim>\<open>E\<close> of an element, which only matter for address
  computation, are not represented, and \<^verbatim>\<open>realloc\<close> is taken to succeed.
\<close>

definition LIBUTP_HASH_UNUSED :: uint32 where
  "LIBUTP_HASH_UNUSED = - 1"

record ('k, 'v) hash_entry =
  entry_key :: 'k
  entry_val :: "'v option"
  entry_link :: uint32

record ('k, 'v) utp_hash_t =
  hash_N :: uint32
  hash_count :: size_t
  hash_compute :: "'k \<Rightarrow> uint32"
  hash_equal :: "'k \<Rightarrow> 'k \<Rightarrow> bool"
  hash_allocated :: uint32
  hash_used :: uint32
  hash_free :: uint32
  hash_inits :: "uint32 list"
  hash_entries :: "('k, 'v) hash_entry list"

record utp_hash_iterator_t =
  it_bucket :: uint32
  it_elem :: uint32

definition utp_hash_iterator_init :: utp_hash_iterator_t where
  "utp_hash_iterator_init = \<lparr>it_bucket = 0xffffffff, it_elem = 0xffffffff\<rparr>"

subsection \<open>Hashing memory\<close>

text \<open>\<^verbatim>\<open>Read32\<close> on a little-endian host, and the two loops of \<^verbatim>\<open>utp_hash_mem\<close>.\<close>

definition Read32 :: "byte \<Rightarrow> byte \<Rightarrow> byte \<Rightarrow> byte \<Rightarrow> uint32" where
  "Read32 a b c d = ucast a OR push_bit 8 (ucast b) OR push_bit 16 (ucast c) OR push_bit 24 (ucast d)"

fun utp_hash_mem_from :: "uint32 \<Rightarrow> byte list \<Rightarrow> uint32" where
  "utp_hash_mem_from h (a # b # c # d # xs) =
     (let h1 = h XOR Read32 a b c d in
      utp_hash_mem_from (push_bit 13 h1 OR drop_bit 19 h1) xs)"
| "utp_hash_mem_from h [] = h"
| "utp_hash_mem_from h (a # xs) =
     (let h1 = h XOR ucast a in utp_hash_mem_from (push_bit 8 h1 OR drop_bit 24 h1) xs)"

definition utp_hash_mem :: "byte list \<Rightarrow> uint32" where
  "utp_hash_mem bs = utp_hash_mem_from 0 bs"

subsection \<open>Operations\<close>

definition utp_hash_create ::
    "uint32 \<Rightarrow> uint32 \<Rightarrow> ('k \<Rightarrow> uint32) \<Rightarrow> ('k \<Rightarrow> 'k \<Rightarrow> bool) \<Rightarrow> ('k, 'v) utp_hash_t option" where
  "utp_hash_create N initial hashfun compfun = do {
     cassert (odd (unat N));
     Some \<lparr>hash_N = N, hash_count = 0, hash_compute = hashfun, hash_equal = compfun,
       hash_allocated = initial, hash_used = 0, hash_free = LIBUTP_HASH_UNUSED,
       hash_inits = replicate (unat N + 1) LIBUTP_HASH_UNUSED, hash_entries = []\<rparr>
   }"

definition utp_hash_mkidx :: "('k, 'v) utp_hash_t \<Rightarrow> 'k \<Rightarrow> uint32" where
  "utp_hash_mkidx h key = hash_compute h key mod hash_N h"

definition entry_at :: "('k, 'v) utp_hash_t \<Rightarrow> uint32 \<Rightarrow> ('k, 'v) hash_entry option" where
  "entry_at h i = (if unat i < length (hash_entries h) then Some (hash_entries h ! unat i) else None)"

definition set_link :: "('k, 'v) utp_hash_t \<Rightarrow> uint32 \<Rightarrow> uint32 \<Rightarrow> ('k, 'v) utp_hash_t" where
  "set_link h i l = h\<lparr>hash_entries :=
     (hash_entries h)[unat i := (hash_entries h ! unat i)\<lparr>entry_link := l\<rparr>]\<rparr>"

partial_function (option) utp_hash_lookup_from ::
    "('k, 'v) utp_hash_t \<Rightarrow> 'k \<Rightarrow> uint32 \<Rightarrow> uint32 option option" where
  "utp_hash_lookup_from h key cur =
     (if cur = LIBUTP_HASH_UNUSED then Some None
      else Option.bind (entry_at h cur) (\<lambda>e.
        if hash_equal h key (entry_key e) then Some (Some cur)
        else utp_hash_lookup_from h key (entry_link e)))"

declare utp_hash_lookup_from.simps [code]

definition utp_hash_lookup :: "('k, 'v) utp_hash_t \<Rightarrow> 'k \<Rightarrow> uint32 option option" where
  "utp_hash_lookup h key = utp_hash_lookup_from h key (hash_inits h ! unat (utp_hash_mkidx h key))"

text \<open>The growth branch of \<^verbatim>\<open>utp_hash_add\<close>: the new number of allocated elements.\<close>

definition hash_grow_allocated :: "uint32 \<Rightarrow> uint32 option" where
  "hash_grow_allocated al =
     (if al \<le> LIBUTP_HASH_UNUSED div 2 then Some (al * 2)
      else if al \<noteq> LIBUTP_HASH_UNUSED then Some LIBUTP_HASH_UNUSED
      else None)"

definition hash_new_elem :: "('k, 'v) utp_hash_t \<Rightarrow> 'k \<Rightarrow> (('k, 'v) utp_hash_t \<times> uint32) option" where
  "hash_new_elem h key =
     (if hash_free h = LIBUTP_HASH_UNUSED then do {
        al \<leftarrow> (if hash_used h = hash_allocated h then hash_grow_allocated (hash_allocated h)
              else Some (hash_allocated h));
        let elem = hash_used h;
        Some (h\<lparr>hash_allocated := al, hash_used := hash_used h + 1,
                hash_entries := hash_entries h @
                  [\<lparr>entry_key = key, entry_val = None, entry_link = 0\<rparr>]\<rparr>, elem)
      } else do {
        let elem = hash_free h;
        e \<leftarrow> entry_at h elem;
        Some (h\<lparr>hash_free := entry_link e\<rparr>, elem)
      })"

definition utp_hash_add :: "('k, 'v) utp_hash_t \<Rightarrow> 'k \<Rightarrow> (('k, 'v) utp_hash_t \<times> uint32) option" where
  "utp_hash_add h key = do {
     let idx = utp_hash_mkidx h key;
     (h1, elem) \<leftarrow> hash_new_elem h key;
     let h2 = set_link h1 elem (hash_inits h1 ! unat idx);
     let h3 = h2\<lparr>hash_inits := (hash_inits h2)[unat idx := elem], hash_count := hash_count h2 + 1\<rparr>;
     Some (h3\<lparr>hash_entries := (hash_entries h3)[unat elem :=
             (hash_entries h3 ! unat elem)\<lparr>entry_key := key\<rparr>]\<rparr>, elem)
   }"

text \<open>
  \<^verbatim>\<open>utp_hash_del\<close> walks the chain with a pointer to the incoming link, which is either the
  bucket's head (\<open>None\<close>) or the link field of the previous element (\<open>Some p\<close>).
\<close>

definition set_incoming :: "('k, 'v) utp_hash_t \<Rightarrow> uint32 \<Rightarrow> uint32 option \<Rightarrow> uint32 \<Rightarrow> ('k, 'v) utp_hash_t" where
  "set_incoming h idx curp l = (case curp of
      None \<Rightarrow> h\<lparr>hash_inits := (hash_inits h)[unat idx := l]\<rparr>
    | Some p \<Rightarrow> set_link h p l)"

partial_function (option) utp_hash_del_from ::
    "('k, 'v) utp_hash_t \<Rightarrow> 'k \<Rightarrow> uint32 \<Rightarrow> uint32 option \<Rightarrow> uint32 \<Rightarrow>
     (('k, 'v) utp_hash_t \<times> uint32 option) option" where
  "utp_hash_del_from h key idx curp cur =
     (if cur = LIBUTP_HASH_UNUSED then Some (h, None)
      else Option.bind (entry_at h cur) (\<lambda>e.
        if hash_equal h key (entry_key e)
        then let h1 = set_incoming h idx curp (entry_link e);
                 h2 = set_link h1 cur (hash_free h1)
             in Some (h2\<lparr>hash_free := cur, hash_count := hash_count h2 - 1\<rparr>, Some cur)
        else utp_hash_del_from h key idx (Some cur) (entry_link e)))"

declare utp_hash_del_from.simps [code]

definition utp_hash_del ::
    "('k, 'v) utp_hash_t \<Rightarrow> 'k \<Rightarrow> (('k, 'v) utp_hash_t \<times> uint32 option) option" where
  "utp_hash_del h key = (let idx = utp_hash_mkidx h key in
     utp_hash_del_from h key idx None (hash_inits h ! unat idx))"

text \<open>The bucket search of \<^verbatim>\<open>utp_hash_iterate\<close>.\<close>

function utp_hash_next_bucket :: "('k, 'v) utp_hash_t \<Rightarrow> uint32 \<Rightarrow> uint32 option" where
  "utp_hash_next_bucket h buck =
     (if hash_N h \<le> buck then None
      else if hash_inits h ! unat buck \<noteq> LIBUTP_HASH_UNUSED then Some buck
      else utp_hash_next_bucket h (buck + 1))"
  by pat_completeness auto
termination
proof (relation "measure (\<lambda>(h, buck). unat (hash_N h) - unat buck)")
  fix h :: "('k, 'v) utp_hash_t" and buck :: uint32
  assume "\<not> hash_N h \<le> buck"
  then have lt: "buck < hash_N h" by simp
  then have "unat (buck + 1) = Suc (unat buck)" by (rule unat_Suc_less)
  with lt show "((h, buck + 1), h, buck) \<in> measure (\<lambda>(h, buck). unat (hash_N h) - unat buck)"
    by (simp add: word_less_nat_alt)
qed simp

definition utp_hash_iterate ::
    "('k, 'v) utp_hash_t \<Rightarrow> utp_hash_iterator_t \<Rightarrow> (utp_hash_iterator_t \<times> uint32 option) option" where
  "utp_hash_iterate h iter = do {
     let start = (if it_elem iter = LIBUTP_HASH_UNUSED
        then map_option (\<lambda>b. (b, hash_inits h ! unat b)) (utp_hash_next_bucket h (it_bucket iter + 1))
        else Some (it_bucket iter, it_elem iter));
     case start of
       None \<Rightarrow> Some (iter, None)
     | Some (b, elem) \<Rightarrow> do {
         e \<leftarrow> entry_at h elem;
         Some (\<lparr>it_bucket = b, it_elem = entry_link e\<rparr>, Some elem)
       }
   }"

text \<open>Reading and storing the value of an element through its pointer.\<close>

definition hash_set_val :: "('k, 'v) utp_hash_t \<Rightarrow> uint32 \<Rightarrow> 'v \<Rightarrow> ('k, 'v) utp_hash_t" where
  "hash_set_val h i v = h\<lparr>hash_entries :=
     (hash_entries h)[unat i := (hash_entries h ! unat i)\<lparr>entry_val := Some v\<rparr>]\<rparr>"

subsection \<open>Representation invariant\<close>

text \<open>
  \<open>chain es c xs\<close>: following the links from \<open>c\<close> visits exactly the elements \<open>xs\<close>, in order,
  and then ends. \<open>hash_rep h bs fl\<close>: \<open>bs i\<close> is the chain of bucket \<open>i\<close>, \<open>fl\<close> the free list;
  every element is in exactly one of them, live elements have distinct keys, sit in the bucket
  their key hashes to and hold a value, and \<open>hash_count\<close> counts them.
\<close>

primrec chain :: "('k, 'v) hash_entry list \<Rightarrow> uint32 \<Rightarrow> nat list \<Rightarrow> bool" where
  "chain es c [] = (c = LIBUTP_HASH_UNUSED)"
| "chain es c (x # xs) =
     (c \<noteq> LIBUTP_HASH_UNUSED \<and> unat c = x \<and> x < length es \<and> chain es (entry_link (es ! x)) xs)"

definition live :: "('k, 'v) utp_hash_t \<Rightarrow> (nat \<Rightarrow> nat list) \<Rightarrow> nat set" where
  "live h bs = (\<Union>i < unat (hash_N h). set (bs i))"

definition hash_rep :: "('k, 'v) utp_hash_t \<Rightarrow> (nat \<Rightarrow> nat list) \<Rightarrow> nat list \<Rightarrow> bool" where
  "hash_rep h bs fl \<longleftrightarrow>
     0 < unat (hash_N h) \<and> length (hash_inits h) = unat (hash_N h) + 1 \<and>
     length (hash_entries h) = unat (hash_used h) \<and> hash_used h \<le> hash_allocated h \<and>
     0 < hash_allocated h \<and>
     (\<forall>i < unat (hash_N h). chain (hash_entries h) (hash_inits h ! i) (bs i) \<and> distinct (bs i)) \<and>
     chain (hash_entries h) (hash_free h) fl \<and> distinct fl \<and>
     set fl = {..<length (hash_entries h)} - live h bs \<and>
     hash_count h = of_nat (card (live h bs)) \<and>
     (\<forall>i < unat (hash_N h). \<forall>x \<in> set (bs i).
        unat (utp_hash_mkidx h (entry_key (hash_entries h ! x))) = i) \<and>
     inj_on (\<lambda>x. entry_key (hash_entries h ! x)) (live h bs) \<and>
     (\<forall>x \<in> live h bs. entry_val (hash_entries h ! x) \<noteq> None) \<and>
     (\<forall>a b. hash_equal h a b \<longleftrightarrow> a = b)"

definition hash_ok :: "('k, 'v) utp_hash_t \<Rightarrow> bool" where
  "hash_ok h \<longleftrightarrow> (\<exists>bs fl. hash_rep h bs fl)"

text \<open>The abstract content: what a lookup reads.\<close>

definition hash_abs :: "('k, 'v) utp_hash_t \<Rightarrow> 'k \<rightharpoonup> 'v" where
  "hash_abs h k = (case utp_hash_lookup h k of
      Some (Some i) \<Rightarrow> entry_val (hash_entries h ! unat i)
    | _ \<Rightarrow> None)"

subsection \<open>Chains\<close>

lemma chain_set: "chain es c xs \<Longrightarrow> set xs \<subseteq> {..<length es}"
  by (induction xs arbitrary: c) auto

lemma chain_update_other [simp]: "x \<notin> set xs \<Longrightarrow> chain (es[x := e]) c xs = chain es c xs"
  by (induction xs arbitrary: c) auto

lemma chain_cong:
  assumes "length es' = length es" and "\<And>y. y < length es \<Longrightarrow> entry_link (es' ! y) = entry_link (es ! y)"
  shows "chain es' c xs = chain es c xs"
  by (induction xs arbitrary: c) (simp_all add: assms cong: conj_cong)

lemma chain_append: "chain es c xs \<Longrightarrow> chain (es @ fs) c xs"
  by (induction xs arbitrary: c) (auto simp: nth_append)

lemma chain_unlink:
  assumes "chain es c (ys @ x # zs)" and "distinct (ys @ x # zs)" and "ys \<noteq> []"
  shows "chain (es[last ys := (es ! last ys)\<lparr>entry_link := entry_link (es ! x)\<rparr>]) c (ys @ zs)"
  using assms
proof (induction ys arbitrary: c)
  case (Cons y ys)
  show ?case
  proof (cases "ys = []")
    case True
    then show ?thesis using Cons.prems by auto
  next
    case False
    then have "last ys \<in> set ys" by simp
    then have "last ys \<noteq> y" using Cons.prems(2) by force
    then show ?thesis using Cons False by auto
  qed
qed simp

lemma of_nat_unat32 [simp]: "word_of_nat (unat (c :: uint32)) = c"
  by simp

lemma lookup_from_chain:
  assumes "chain (hash_entries h) c xs" and "\<And>a b. hash_equal h a b \<longleftrightarrow> a = b"
  shows "utp_hash_lookup_from h k c =
         Some (map_option of_nat (find (\<lambda>x. entry_key (hash_entries h ! x) = k) xs))"
  using assms(1)
proof (induction xs arbitrary: c)
  case Nil
  then show ?case by (simp add: utp_hash_lookup_from.simps)
next
  case (Cons x xs)
  then show ?case
    by (subst utp_hash_lookup_from.simps) (auto simp: entry_at_def assms(2))
qed

subsection \<open>Lookup\<close>

lemma mkidx_less: "0 < unat (hash_N h) \<Longrightarrow> unat (utp_hash_mkidx h k) < unat (hash_N h)"
  by (simp add: utp_hash_mkidx_def unat_mod_distrib)

lemma hash_rep_live_lt: "hash_rep h bs fl \<Longrightarrow> x \<in> live h bs \<Longrightarrow> x < length (hash_entries h)"
proof -
  assume rep: "hash_rep h bs fl" and "x \<in> live h bs"
  then obtain i where "i < unat (hash_N h)" "x \<in> set (bs i)" by (auto simp: live_def)
  moreover from this rep have "chain (hash_entries h) (hash_inits h ! i) (bs i)"
    by (simp add: hash_rep_def)
  ultimately show ?thesis using chain_set by blast
qed

lemma hash_rep_lookup:
  assumes rep: "hash_rep h bs fl"
  shows "utp_hash_lookup h k =
         Some (map_option of_nat (find (\<lambda>x. entry_key (hash_entries h ! x) = k)
                                    (bs (unat (utp_hash_mkidx h k)))))"
proof -
  have "unat (utp_hash_mkidx h k) < unat (hash_N h)"
    using rep by (intro mkidx_less) (simp add: hash_rep_def)
  then show ?thesis
    unfolding utp_hash_lookup_def
    using rep by (intro lookup_from_chain) (auto simp: hash_rep_def)
qed

lemma hash_rep_lookup_Some:
  assumes rep: "hash_rep h bs fl" and x: "x \<in> live h bs" "entry_key (hash_entries h ! x) = k"
  shows "utp_hash_lookup h k = Some (Some (of_nat x))"
proof -
  let ?P = "\<lambda>x. entry_key (hash_entries h ! x) = k" and ?i = "unat (utp_hash_mkidx h k)"
  have i: "?i < unat (hash_N h)" using rep by (intro mkidx_less) (simp add: hash_rep_def)
  have mem: "x \<in> set (bs ?i)" using rep x by (auto simp: hash_rep_def live_def)
  have uniq: "y = x" if "y \<in> set (bs ?i)" "?P y" for y
    using rep x i that by (auto simp: hash_rep_def live_def inj_on_def)
  obtain y where y: "find ?P (bs ?i) = Some y"
    using mem x(2) by (cases "find ?P (bs ?i)") (auto simp: find_None_iff)
  then have "y \<in> set (bs ?i) \<and> ?P y" by (auto simp: find_Some_iff)
  then have "y = x" using uniq by blast
  with y show ?thesis by (simp add: hash_rep_lookup [OF rep])
qed

lemma hash_rep_lookup_None:
  assumes rep: "hash_rep h bs fl" and k: "\<And>x. x \<in> live h bs \<Longrightarrow> entry_key (hash_entries h ! x) \<noteq> k"
  shows "utp_hash_lookup h k = Some None"
proof -
  let ?i = "unat (utp_hash_mkidx h k)"
  have "?i < unat (hash_N h)" using rep by (intro mkidx_less) (simp add: hash_rep_def)
  then have "find (\<lambda>x. entry_key (hash_entries h ! x) = k) (bs ?i) = None"
    using k by (auto simp: find_None_iff live_def)
  then show ?thesis by (simp add: hash_rep_lookup [OF rep])
qed

lemma unat_of_nat_entry:
  "hash_rep h bs fl \<Longrightarrow> x \<in> live h bs \<Longrightarrow> unat (of_nat x :: uint32) = x"
proof -
  assume rep: "hash_rep h bs fl" and "x \<in> live h bs"
  then have "x < unat (hash_used h)" using hash_rep_live_lt [of h bs fl x] by (simp add: hash_rep_def)
  also have "\<dots> < 2 ^ LENGTH(32)" by (rule unat_less_pow)
  finally show ?thesis by (rule unat_of_nat_small)
qed

lemma hash_abs_Some_iff:
  assumes rep: "hash_rep h bs fl"
  shows "hash_abs h k = Some v \<longleftrightarrow>
         (\<exists>x \<in> live h bs. entry_key (hash_entries h ! x) = k \<and> entry_val (hash_entries h ! x) = Some v)"
proof (cases "\<exists>x \<in> live h bs. entry_key (hash_entries h ! x) = k")
  case True
  then obtain x where x: "x \<in> live h bs" "entry_key (hash_entries h ! x) = k" by blast
  have "inj_on (\<lambda>x. entry_key (hash_entries h ! x)) (live h bs)"
    using rep by (simp add: hash_rep_def)
  then have uniq: "y = x" if "y \<in> live h bs" "entry_key (hash_entries h ! y) = k" for y
    using x that by (blast dest: inj_onD)
  have "hash_abs h k = entry_val (hash_entries h ! x)"
    by (simp add: hash_abs_def hash_rep_lookup_Some [OF rep x] unat_of_nat_entry [OF rep x(1)])
  then show ?thesis using x uniq by metis
next
  case False
  then show ?thesis by (auto simp: hash_abs_def hash_rep_lookup_None [OF rep])
qed

lemma hash_abs_None_iff:
  assumes rep: "hash_rep h bs fl"
  shows "hash_abs h k = None \<longleftrightarrow> (\<forall>x \<in> live h bs. entry_key (hash_entries h ! x) \<noteq> k)"
  using hash_abs_Some_iff [OF rep, of k] rep
  by (auto simp: hash_rep_def) (metis not_Some_eq)

subsection \<open>Insertion\<close>

text \<open>\<^verbatim>\<open>table->Add(key)->socket = v\<close>: add an element and store its value.\<close>

definition utp_hash_insert :: "('k, 'v) utp_hash_t \<Rightarrow> 'k \<Rightarrow> 'v \<Rightarrow> ('k, 'v) utp_hash_t option" where
  "utp_hash_insert h key v = do {
     (h1, elem) \<leftarrow> utp_hash_add h key;
     Some (hash_set_val h1 elem v)
   }"

lemma chain_frame:
  assumes "chain es c xs" and "\<And>y. y \<in> set xs \<Longrightarrow> y < length es' \<and> entry_link (es' ! y) = entry_link (es ! y)"
  shows "chain es' c xs"
  using assms by (induction xs arbitrary: c) auto

text \<open>Linking a detached element \<open>x\<close> in front of bucket \<open>i\<close>.\<close>

lemma hash_rep_link:
  assumes rep: "hash_rep h bs fl"
    and fresh: "hash_abs h k = None"
    and N: "hash_N h' = hash_N h" and cmp: "hash_compute h' = hash_compute h"
    and eq: "hash_equal h' = hash_equal h"
    and len: "length (hash_entries h') = unat (hash_used h')"
    and al: "hash_used h' \<le> hash_allocated h'" "0 < hash_allocated h'"
    and x: "x < length (hash_entries h')" "x \<notin> live h bs" "unat c = x" "c \<noteq> LIBUTP_HASH_UNUSED"
    and e: "hash_entries h' ! x =
            \<lparr>entry_key = k, entry_val = Some v, entry_link = hash_inits h ! unat (utp_hash_mkidx h k)\<rparr>"
    and old: "\<And>y. y < length (hash_entries h) \<Longrightarrow> y \<noteq> x \<Longrightarrow>
              y < length (hash_entries h') \<and> hash_entries h' ! y = hash_entries h ! y"
    and inits: "hash_inits h' = (hash_inits h)[unat (utp_hash_mkidx h k) := c]"
    and cnt: "hash_count h' = hash_count h + 1"
    and free: "chain (hash_entries h') (hash_free h') fl'" "distinct fl'"
        "set fl' = {..<length (hash_entries h')} - insert x (live h bs)"
  defines "bs' \<equiv> bs(unat (utp_hash_mkidx h k) := x # bs (unat (utp_hash_mkidx h k)))"
  shows "hash_rep h' bs' fl'" and "live h' bs' = insert x (live h bs)"
proof -
  let ?i = "unat (utp_hash_mkidx h k)" and ?es = "hash_entries h" and ?es' = "hash_entries h'"
  have i: "?i < unat (hash_N h)" using rep by (intro mkidx_less) (simp add: hash_rep_def)
  show live': "live h' bs' = insert x (live h bs)"
    using i by (auto simp: live_def bs'_def N split: if_splits)
  have liveD: "y < length ?es \<and> y \<noteq> x" if "y \<in> live h bs" for y
    using that x(2) hash_rep_live_lt [OF rep] by blast
  have idx': "utp_hash_mkidx h' = utp_hash_mkidx h" by (rule ext) (simp add: utp_hash_mkidx_def N cmp)
  have sub: "set (bs j) \<subseteq> live h bs" if "j < unat (hash_N h)" for j
    using that by (auto simp: live_def)
  have chains: "chain ?es' (hash_inits h ! j) (bs j)" if "j < unat (hash_N h)" for j
  proof (rule chain_frame)
    show "chain ?es (hash_inits h ! j) (bs j)" using rep that by (simp add: hash_rep_def)
  qed (use sub [OF that] liveD old in auto)
  have len_inits: "length (hash_inits h) = unat (hash_N h) + 1" using rep by (simp add: hash_rep_def)
  have C1: "chain ?es' (hash_inits h' ! j) (bs' j) \<and> distinct (bs' j)" if j: "j < unat (hash_N h)" for j
  proof -
    have "distinct (bs j)" using rep j by (simp add: hash_rep_def)
    then show ?thesis
      using j i len_inits chains x e sub [OF i] by (auto simp: inits bs'_def nth_list_update)
  qed
  have key_ne: "entry_key (?es ! y) \<noteq> k" if "y \<in> live h bs" for y
    using fresh that by (simp add: hash_abs_None_iff [OF rep])
  have K1: "unat (utp_hash_mkidx h' (entry_key (?es' ! y))) = j"
    if "j < unat (hash_N h)" "y \<in> set (bs' j)" for j y
  proof (cases "y = x")
    case True
    have "x \<notin> set (bs j)" using sub [OF that(1)] x(2) by blast
    with True that have "j = ?i" by (auto simp: bs'_def split: if_splits)
    then show ?thesis using True e by (simp add: idx')
  next
    case False
    then have y: "y \<in> set (bs j)" using that by (auto simp: bs'_def split: if_splits)
    then have "unat (utp_hash_mkidx h (entry_key (?es ! y))) = j" using rep that(1) by (simp add: hash_rep_def)
    moreover have "?es' ! y = ?es ! y" using y sub [OF that(1)] liveD old by blast
    ultimately show ?thesis by (simp add: idx')
  qed
  have inj0: "inj_on (\<lambda>y. entry_key (?es ! y)) (live h bs)" using rep by (simp add: hash_rep_def)
  have same: "?es' ! y = ?es ! y" if "y \<in> live h bs" for y using that liveD old by blast
  have inj1: "inj_on (\<lambda>y. entry_key (?es' ! y)) (live h bs)"
    using inj0 same by (simp add: inj_on_def)
  have inj2: "inj_on (\<lambda>y. entry_key (?es' ! y)) (insert x (live h bs))"
    using inj1 key_ne same e x(2) by (auto simp: inj_on_insert image_iff)
  have vals: "\<forall>y \<in> live h bs. entry_val (?es ! y) \<noteq> None" using rep by (simp add: hash_rep_def)
  have fin: "finite (live h bs)" by (simp add: live_def)
  have cnt0: "hash_count h = of_nat (card (live h bs))" using rep by (simp add: hash_rep_def)
  have N0: "0 < unat (hash_N h)" using rep by (simp add: hash_rep_def)
  have heq: "\<forall>a b. hash_equal h a b \<longleftrightarrow> a = b" using rep by (simp add: hash_rep_def)
  have "hash_count h' = of_nat (card (insert x (live h bs)))"
    using fin x(2) by (simp add: cnt cnt0 add.commute)
  moreover have "\<forall>y \<in> insert x (live h bs). entry_val (?es' ! y) \<noteq> None"
    using vals same e by auto
  ultimately show "hash_rep h' bs' fl'"
    using N0 heq len al C1 K1 inj2 free len_inits
    unfolding hash_rep_def live' by (auto simp: N eq inits)
qed

lemma hash_grow_allocated_spec:
  assumes "0 < al" and "al \<noteq> LIBUTP_HASH_UNUSED"
  shows "wpo (hash_grow_allocated al) (\<lambda>al'. al < al')"
proof (cases "al \<le> LIBUTP_HASH_UNUSED div 2")
  case True
  then have "unat al \<le> 2147483647"
    by (simp add: LIBUTP_HASH_UNUSED_def word_le_nat_alt)
  then have "unat (al * 2) = unat al * 2" by (simp add: unat_word_ariths)
  then show ?thesis using True assms(1) by (simp add: hash_grow_allocated_def word_less_nat_alt)
next
  case False
  have "al < LIBUTP_HASH_UNUSED"
    using assms(2) by (simp add: LIBUTP_HASH_UNUSED_def order_less_le)
  then show ?thesis using False assms by (simp add: hash_grow_allocated_def)
qed

lemma hash_abs_link:
  assumes rep: "hash_rep h bs fl" and rep': "hash_rep h' bs' fl'"
    and live': "live h' bs' = insert x (live h bs)" and x: "x \<notin> live h bs"
    and e: "entry_key (hash_entries h' ! x) = k" "entry_val (hash_entries h' ! x) = Some v"
    and old: "\<And>y. y \<in> live h bs \<Longrightarrow> hash_entries h' ! y = hash_entries h ! y"
  shows "hash_abs h' = (hash_abs h)(k \<mapsto> v)"
proof (rule ext)
  have inj: "inj_on (\<lambda>y. entry_key (hash_entries h' ! y)) (insert x (live h bs))"
    using rep' by (simp add: hash_rep_def live')
  have ne: "entry_key (hash_entries h ! y) \<noteq> k" if "y \<in> live h bs" for y
    using inj that x e(1) old [OF that] by (auto simp: inj_on_def)
  fix k'
  have "hash_abs h' k' = Some w \<longleftrightarrow> ((hash_abs h)(k \<mapsto> v)) k' = Some w" for w
    using ne e old
    by (cases "k' = k") (auto simp: hash_abs_Some_iff [OF rep] hash_abs_Some_iff [OF rep'] live')
  then show "hash_abs h' k' = ((hash_abs h)(k \<mapsto> v)) k'" by (metis not_Some_eq)
qed

lemma hash_entry_overwrite:
  "(e :: ('k, 'v) hash_entry)\<lparr>entry_link := l, entry_key := k, entry_val := v\<rparr> =
   \<lparr>entry_key = k, entry_val = v, entry_link = l\<rparr>"
  by simp

text \<open>An element taken from the end of the used part, and one taken from the free list.\<close>

lemma utp_hash_insert_fresh:
  assumes rep: "hash_rep h bs fl" and fresh: "hash_abs h k = None"
    and room: "hash_count h < 0xffffffff" and free: "hash_free h = LIBUTP_HASH_UNUSED"
  shows "wpo (utp_hash_insert h k v) (\<lambda>h'. hash_ok h' \<and> hash_abs h' = (hash_abs h)(k \<mapsto> v) \<and>
           hash_count h' = hash_count h + 1)"
proof -
  let ?i = "unat (utp_hash_mkidx h k)" and ?u = "unat (hash_used h)"
  let ?e = "\<lparr>entry_key = k, entry_val = Some v, entry_link = hash_inits h ! ?i\<rparr>"
  have len: "length (hash_entries h) = ?u"
    and al: "hash_used h \<le> hash_allocated h" "0 < hash_allocated h"
    and fl: "chain (hash_entries h) (hash_free h) fl" "set fl = {..<length (hash_entries h)} - live h bs"
    and cnt: "hash_count h = of_nat (card (live h bs))"
    using rep by (simp_all add: hash_rep_def)
  have "fl = []" using fl(1) free by (cases fl) auto
  then have live: "live h bs = {..<length (hash_entries h)}"
    using fl(2) hash_rep_live_lt [OF rep] by auto
  then have "hash_count h = ucast (hash_used h)" using cnt len by simp
  moreover have "ucast LIBUTP_HASH_UNUSED = (0xffffffff :: size_t)"
    by (simp add: LIBUTP_HASH_UNUSED_def unsigned_minus_1_eq_mask mask_eq_exp_minus_1)
  ultimately have used: "hash_used h \<noteq> LIBUTP_HASH_UNUSED" using room by auto
  define al' where "al' = (if hash_used h = hash_allocated h
      then hash_grow_allocated (hash_allocated h) else Some (hash_allocated h))"
  have "wpo al' (\<lambda>a. hash_used h < a)"
    using hash_grow_allocated_spec [OF al(2)] used al(1) by (auto simp: al'_def)
  then obtain a where a: "al' = Some a" "hash_used h < a" by (auto simp: wpo_ex)
  let ?h = "h\<lparr>hash_allocated := a, hash_used := hash_used h + 1, hash_count := hash_count h + 1,
      hash_inits := (hash_inits h)[?i := hash_used h], hash_entries := hash_entries h @ [?e]\<rparr>"
  have ins: "utp_hash_insert h k v = Some ?h"
    using free a(1)
    by (simp add: utp_hash_insert_def utp_hash_add_def hash_new_elem_def al'_def [symmetric]
        set_link_def hash_set_val_def len [symmetric] Let_def)
  have us: "unat (hash_used h + 1) = Suc ?u" using a(2) by (rule unat_Suc_less)
  have le: "hash_used h + 1 \<le> a" "0 < a"
    using a(2) us by (simp_all add: word_le_nat_alt word_less_nat_alt)
  have fl': "{..<Suc ?u} - insert ?u (live h bs) = {}"
    unfolding live len by auto
  note R = hash_rep_link [OF rep fresh, of ?h ?u "hash_used h" v "[]"]
  have rep': "hash_rep ?h (bs(?i := ?u # bs ?i)) []"
    and live': "live ?h (bs(?i := ?u # bs ?i)) = insert ?u (live h bs)"
    by (rule R; use us le used len live fl' free in \<open>auto simp: nth_append\<close>)+
  have "hash_abs ?h = (hash_abs h)(k \<mapsto> v)"
    by (rule hash_abs_link [OF rep rep' live']) (use live len in \<open>auto simp: nth_append\<close>)
  then show ?thesis using rep' by (auto simp: ins hash_ok_def)
qed

lemma utp_hash_insert_reuse:
  assumes rep: "hash_rep h bs fl" and fresh: "hash_abs h k = None"
    and free: "hash_free h \<noteq> LIBUTP_HASH_UNUSED"
  shows "wpo (utp_hash_insert h k v) (\<lambda>h'. hash_ok h' \<and> hash_abs h' = (hash_abs h)(k \<mapsto> v) \<and>
           hash_count h' = hash_count h + 1)"
proof -
  let ?i = "unat (utp_hash_mkidx h k)" and ?x = "unat (hash_free h)"
  let ?e = "\<lparr>entry_key = k, entry_val = Some v, entry_link = hash_inits h ! ?i\<rparr>"
  have len: "length (hash_entries h) = unat (hash_used h)"
    and al: "hash_used h \<le> hash_allocated h" "0 < hash_allocated h"
    and fl: "chain (hash_entries h) (hash_free h) fl" "distinct fl"
      "set fl = {..<length (hash_entries h)} - live h bs"
    using rep by (simp_all add: hash_rep_def)
  obtain fl' where fl': "fl = ?x # fl'" using fl(1) free by (cases fl) auto
  have x: "?x < length (hash_entries h)" "?x \<notin> live h bs" "?x \<notin> set fl'" "distinct fl'"
      "chain (hash_entries h) (entry_link (hash_entries h ! ?x)) fl'"
    using fl fl' by auto
  let ?h = "h\<lparr>hash_free := entry_link (hash_entries h ! ?x),
      hash_inits := (hash_inits h)[?i := hash_free h], hash_count := hash_count h + 1,
      hash_entries := (hash_entries h)[?x := ?e]\<rparr>"
  have ins: "utp_hash_insert h k v = Some ?h"
    using free x(1)
    by (simp add: utp_hash_insert_def utp_hash_add_def hash_new_elem_def entry_at_def
        set_link_def hash_set_val_def Let_def hash_entry_overwrite)
  have fs: "set fl' = {..<length (hash_entries h)} - insert ?x (live h bs)"
    using fl(2,3) fl' by auto
  note R = hash_rep_link [OF rep fresh, of ?h ?x "hash_free h" v fl']
  have rep': "hash_rep ?h (bs(?i := ?x # bs ?i)) fl'"
    and live': "live ?h (bs(?i := ?x # bs ?i)) = insert ?x (live h bs)"
    by (rule R; use x fs len al free in auto)+
  have "hash_abs ?h = (hash_abs h)(k \<mapsto> v)"
    by (rule hash_abs_link [OF rep rep' live']) (use x in \<open>auto simp: nth_list_update\<close>)
  then show ?thesis using rep' by (auto simp: ins hash_ok_def)
qed

lemma utp_hash_insert_spec:
  assumes "hash_ok h" and "hash_abs h k = None" and "hash_count h < 0xffffffff"
  shows "wpo (utp_hash_insert h k v) (\<lambda>h'. hash_ok h' \<and> hash_abs h' = (hash_abs h)(k \<mapsto> v) \<and>
           hash_count h' = hash_count h + 1)"
proof -
  obtain bs fl where "hash_rep h bs fl" using assms(1) by (auto simp: hash_ok_def)
  then show ?thesis
    by (cases "hash_free h = LIBUTP_HASH_UNUSED")
      (rule utp_hash_insert_fresh utp_hash_insert_reuse; use assms in simp)+
qed

subsection \<open>Deletion\<close>

text \<open>
  The walk of \<^verbatim>\<open>utp_hash_del\<close> over a chain that holds the key: the elements \<open>ys\<close> in front are
  passed, and the incoming link of the match is the last of them (or the one it started with).
\<close>

lemma del_from_chain_found:
  assumes "chain (hash_entries h) c (ys @ x # zs)" and "\<And>a b. hash_equal h a b \<longleftrightarrow> a = b"
    and "\<And>y. y \<in> set ys \<Longrightarrow> entry_key (hash_entries h ! y) \<noteq> k"
    and "entry_key (hash_entries h ! x) = k"
  shows "utp_hash_del_from h k idx curp c =
    (let h1 = set_incoming h idx (if ys = [] then curp else Some (of_nat (last ys)))
                (entry_link (hash_entries h ! x));
         h2 = set_link h1 (of_nat x) (hash_free h1)
     in Some (h2\<lparr>hash_free := of_nat x, hash_count := hash_count h2 - 1\<rparr>, Some (of_nat x)))"
  using assms(1,3)
proof (induction ys arbitrary: c curp)
  case Nil
  then show ?case
    by (subst utp_hash_del_from.simps) (auto simp: entry_at_def assms(2,4) Let_def)
next
  case (Cons y ys)
  then have c: "c \<noteq> LIBUTP_HASH_UNUSED" "y < length (hash_entries h)" "unat c = y" "of_nat y = c"
      "entry_key (hash_entries h ! y) \<noteq> k" by auto
  have "utp_hash_del_from h k idx curp c =
        utp_hash_del_from h k idx (Some c) (entry_link (hash_entries h ! y))"
    by (subst utp_hash_del_from.simps) (use c in \<open>auto simp: entry_at_def assms(2)\<close>)
  then show ?case using Cons c by (simp add: Let_def split: if_splits)
qed

lemma del_from_chain_absent:
  assumes "chain (hash_entries h) c xs" and "\<And>a b. hash_equal h a b \<longleftrightarrow> a = b"
    and "\<And>y. y \<in> set xs \<Longrightarrow> entry_key (hash_entries h ! y) \<noteq> k"
  shows "utp_hash_del_from h k idx curp c = Some (h, None)"
  using assms(1,3)
proof (induction xs arbitrary: c curp)
  case Nil
  then show ?case by (subst utp_hash_del_from.simps) simp
next
  case (Cons x xs)
  then show ?case
    by (subst utp_hash_del_from.simps) (auto simp: entry_at_def assms(2))
qed

text \<open>Moving an element from its bucket's chain to the front of the free list.\<close>

lemma hash_rep_unlink:
  assumes rep: "hash_rep h bs fl" and i: "i < unat (hash_N h)"
    and split: "bs i = ys @ x # zs" and c: "unat c = x" "c \<noteq> LIBUTP_HASH_UNUSED"
    and flds: "hash_N h' = hash_N h" "hash_compute h' = hash_compute h" "hash_equal h' = hash_equal h"
      "hash_used h' = hash_used h" "hash_allocated h' = hash_allocated h" "hash_free h' = c"
      "hash_count h' = hash_count h - 1" "length (hash_inits h') = length (hash_inits h)"
      "length (hash_entries h') = length (hash_entries h)"
    and kv: "\<And>y. entry_key (hash_entries h' ! y) = entry_key (hash_entries h ! y)"
      "\<And>y. entry_val (hash_entries h' ! y) = entry_val (hash_entries h ! y)"
    and ci: "chain (hash_entries h') (hash_inits h' ! i) (ys @ zs)"
    and inits: "\<And>j. j \<noteq> i \<Longrightarrow> hash_inits h' ! j = hash_inits h ! j"
    and links: "\<And>y. y \<notin> set (bs i) \<Longrightarrow> entry_link (hash_entries h' ! y) = entry_link (hash_entries h ! y)"
    and xl: "entry_link (hash_entries h' ! x) = hash_free h"
  defines "bs' \<equiv> bs(i := ys @ zs)"
  shows "hash_rep h' bs' (x # fl)" and "live h' bs' = live h bs - {x}" and "x \<in> live h bs"
proof -
  let ?es = "hash_entries h" and ?es' = "hash_entries h'"
  have chs: "chain ?es (hash_inits h ! j) (bs j)" "distinct (bs j)" if "j < unat (hash_N h)" for j
    using rep that by (simp_all add: hash_rep_def)
  have idx: "unat (utp_hash_mkidx h (entry_key (?es ! y))) = j"
    if "j < unat (hash_N h)" "y \<in> set (bs j)" for j y
    using rep that by (simp add: hash_rep_def)
  have xi: "x \<in> set (bs i)" by (simp add: split)
  have disj: "y \<notin> set (bs i)" if "j < unat (hash_N h)" "j \<noteq> i" "y \<in> set (bs j)" for j y
    using idx [OF that(1,3)] idx [OF i] that(2) by blast
  show xlive: "x \<in> live h bs" using i xi by (auto simp: live_def)
  have dist: "distinct (ys @ x # zs)" using chs(2) [OF i] by (simp add: split)
  show live': "live h' bs' = live h bs - {x}"
  proof -
    have "set (bs' j) = set (bs j) - {x}" if "j < unat (hash_N h)" for j
    proof (cases "j = i")
      case True
      then show ?thesis using dist by (auto simp: bs'_def split)
    next
      case False
      then show ?thesis using disj [OF that False] xi by (auto simp: bs'_def)
    qed
    then show ?thesis by (auto simp: live_def flds)
  qed
  have idx': "utp_hash_mkidx h' = utp_hash_mkidx h" by (rule ext) (simp add: utp_hash_mkidx_def flds)
  have C1: "chain ?es' (hash_inits h' ! j) (bs' j) \<and> distinct (bs' j)" if j: "j < unat (hash_N h)" for j
  proof (cases "j = i")
    case True
    then show ?thesis using ci dist by (simp add: bs'_def)
  next
    case False
    have "chain ?es' (hash_inits h ! j) (bs j)"
      by (rule chain_frame [OF chs(1) [OF j]])
        (use disj [OF j False] links flds(9) chain_set [OF chs(1) [OF j]] in auto)
    then show ?thesis using False chs(2) [OF j] by (simp add: bs'_def inits)
  qed
  have fl: "chain ?es (hash_free h) fl" "distinct fl" "set fl = {..<length ?es} - live h bs"
    using rep by (simp_all add: hash_rep_def)
  have sub: "set (bs i) \<subseteq> live h bs" using i by (auto simp: live_def)
  have "chain ?es' (hash_free h) fl"
    by (rule chain_frame [OF fl(1)]) (use fl(3) sub links flds(9) in auto)
  moreover have "x < length ?es" using xlive hash_rep_live_lt [OF rep] by blast
  ultimately have C2: "chain ?es' (hash_free h') (x # fl)" using c xl flds by simp
  have fin: "finite (live h bs)" by (simp add: live_def)
  have "card (live h bs) = Suc (card (live h bs - {x}))"
    using fin xlive by (rule card.remove)
  moreover have "hash_count h = of_nat (card (live h bs))" using rep by (simp add: hash_rep_def)
  ultimately have cnt: "hash_count h' = of_nat (card (live h bs - {x}))" by (simp add: flds(7))
  have K1: "unat (utp_hash_mkidx h' (entry_key (?es' ! y))) = j"
    if "j < unat (hash_N h)" "y \<in> set (bs' j)" for j y
    using that idx by (auto simp: idx' kv bs'_def split split: if_splits)
  have "inj_on (\<lambda>y. entry_key (?es ! y)) (live h bs)" using rep by (simp add: hash_rep_def)
  then have inj: "inj_on (\<lambda>y. entry_key (?es' ! y)) (live h bs - {x})"
    by (auto simp: kv intro: inj_on_subset)
  have fl': "set (x # fl) = {..<length ?es} - (live h bs - {x})" "distinct (x # fl)"
    using fl xlive hash_rep_live_lt [OF rep] by auto
  show "hash_rep h' bs' (x # fl)"
    unfolding hash_rep_def live'
    using rep C1 C2 cnt K1 inj fl' by (simp add: hash_rep_def flds kv)
qed

lemma set_link_simps [simp]:
  "hash_N (set_link h i l) = hash_N h" "hash_compute (set_link h i l) = hash_compute h"
  "hash_equal (set_link h i l) = hash_equal h" "hash_used (set_link h i l) = hash_used h"
  "hash_allocated (set_link h i l) = hash_allocated h" "hash_free (set_link h i l) = hash_free h"
  "hash_count (set_link h i l) = hash_count h" "hash_inits (set_link h i l) = hash_inits h"
  "length (hash_entries (set_link h i l)) = length (hash_entries h)"
  by (simp_all add: set_link_def)

lemma set_link_nth [simp]:
  "entry_key (hash_entries (set_link h i l) ! y) = entry_key (hash_entries h ! y)"
  "entry_val (hash_entries (set_link h i l) ! y) = entry_val (hash_entries h ! y)"
  by (cases "unat i < length (hash_entries h)";
      simp add: set_link_def nth_list_update list_update_beyond)+

lemma set_link_link:
  "unat i < length (hash_entries h) \<Longrightarrow>
   entry_link (hash_entries (set_link h i l) ! y) = (if y = unat i then l else entry_link (hash_entries h ! y))"
  by (simp add: set_link_def nth_list_update)

lemma hash_abs_unlink:
  assumes rep: "hash_rep h bs fl" and rep': "hash_rep h' bs' fl'"
    and live': "live h' bs' = live h bs - {x}" and x: "x \<in> live h bs"
    and k: "entry_key (hash_entries h ! x) = k"
    and kv: "\<And>y. entry_key (hash_entries h' ! y) = entry_key (hash_entries h ! y)"
      "\<And>y. entry_val (hash_entries h' ! y) = entry_val (hash_entries h ! y)"
  shows "hash_abs h' = (hash_abs h)(k := None)"
proof (rule ext)
  have "inj_on (\<lambda>y. entry_key (hash_entries h ! y)) (live h bs)" using rep by (simp add: hash_rep_def)
  then have uniq: "y = x" if "y \<in> live h bs" "entry_key (hash_entries h ! y) = k" for y
    using that x k by (blast dest: inj_onD)
  fix k'
  have "hash_abs h' k' = Some w \<longleftrightarrow> ((hash_abs h)(k := None)) k' = Some w" for w
    using uniq k by (auto simp: hash_abs_Some_iff [OF rep] hash_abs_Some_iff [OF rep'] live' kv)
  then show "hash_abs h' k' = ((hash_abs h)(k := None)) k'" by (metis not_Some_eq)
qed

lemma of_nat_entry_used:
  assumes "hash_rep h bs fl" and "x \<in> live h bs"
  shows "(of_nat x :: uint32) \<noteq> LIBUTP_HASH_UNUSED"
proof
  assume "(of_nat x :: uint32) = LIBUTP_HASH_UNUSED"
  then have "x = unat LIBUTP_HASH_UNUSED" using unat_of_nat_entry [OF assms] by simp
  also have "\<dots> = 2 ^ 32 - 1" by (simp add: LIBUTP_HASH_UNUSED_def unsigned_minus_1_eq_mask mask_eq_exp_minus_1)
  finally show False
    using hash_rep_live_lt [OF assms] assms(1) unat_less_pow [of "hash_used h"]
    by (simp add: hash_rep_def)
qed

text \<open>The element leaves its chain; nothing else moves, so an iterator stays valid.\<close>

lemma utp_hash_del_rep:
  assumes rep: "hash_rep h bs fl" and x: "x \<in> live h bs" "entry_key (hash_entries h ! x) = k"
  defines "i \<equiv> unat (utp_hash_mkidx h k)"
  shows "wpo (utp_hash_del h k) (\<lambda>(h', r). r = Some (of_nat x) \<and> hash_rep h' (bs(i := remove1 x (bs i))) (x # fl) \<and>
           hash_abs h' = (hash_abs h)(k := None) \<and> hash_count h' = hash_count h - 1 \<and> hash_N h' = hash_N h \<and>
           (\<forall>y. entry_key (hash_entries h' ! y) = entry_key (hash_entries h ! y) \<and>
                entry_val (hash_entries h' ! y) = entry_val (hash_entries h ! y)))"
proof -
  let ?i = "unat (utp_hash_mkidx h k)" and ?es = "hash_entries h"
  have i: "?i < unat (hash_N h)" using rep by (intro mkidx_less) (simp add: hash_rep_def)
  have ch: "chain ?es (hash_inits h ! ?i) (bs ?i)" and dist: "distinct (bs ?i)"
    and li: "length (hash_inits h) = unat (hash_N h) + 1"
    using rep i by (simp_all add: hash_rep_def)
  have "x \<in> set (bs ?i)" using rep x by (auto simp: hash_rep_def live_def)
  then obtain ys zs where sp: "bs ?i = ys @ x # zs" by (meson split_list)
  have inj: "inj_on (\<lambda>y. entry_key (?es ! y)) (live h bs)" using rep by (simp add: hash_rep_def)
  have ys: "entry_key (?es ! y) \<noteq> k" if "y \<in> set ys" for y
  proof
    assume "entry_key (?es ! y) = k"
    moreover have "y \<in> set (bs ?i)" using that sp by simp
    then have "y \<in> live h bs" using i by (auto simp: live_def)
    ultimately have "y = x" using inj x by (blast dest: inj_onD)
    then show False using that dist sp by simp
  qed
  have heq: "\<And>a b. hash_equal h a b \<longleftrightarrow> a = b" using rep by (simp add: hash_rep_def)
  have ux: "unat (of_nat x :: uint32) = x" by (rule unat_of_nat_entry [OF rep x(1)])
  have xlt: "x < length ?es" by (rule hash_rep_live_lt [OF rep x(1)])
  define p where "p = last ys"
  have p: "ys \<noteq> [] \<Longrightarrow> p \<in> set (bs ?i) \<and> p \<noteq> x \<and> unat (of_nat p :: uint32) = p"
  proof -
    assume "ys \<noteq> []"
    then have "p \<in> set ys" by (simp add: p_def)
    then have "p \<in> set (bs ?i)" "p \<noteq> x" using sp dist by auto
    moreover from this i have "p \<in> live h bs" by (auto simp: live_def)
    ultimately show ?thesis using unat_of_nat_entry [OF rep] by blast
  qed
  define h1 where "h1 = set_incoming h (utp_hash_mkidx h k)
      (if ys = [] then None else Some (of_nat p)) (entry_link (?es ! x))"
  define h' where "h' = (set_link h1 (of_nat x) (hash_free h1))
      \<lparr>hash_free := of_nat x, hash_count := hash_count (set_link h1 (of_nat x) (hash_free h1)) - 1\<rparr>"
  have del: "utp_hash_del h k = Some (h', Some (of_nat x))"
    unfolding utp_hash_del_def Let_def
    by (subst del_from_chain_found [of h _ ys x zs])
      (use ch sp ys heq x in \<open>auto simp: h'_def h1_def p_def Let_def\<close>)
  have xp: "x \<notin> set ys" "x \<notin> set zs" using dist sp by auto
  have C: "chain (hash_entries h') (hash_inits h' ! ?i) (ys @ zs)"
  proof (cases "ys = []")
    case True
    then show ?thesis using ch sp ux xp li i
      by (simp add: h'_def h1_def set_incoming_def set_link_def)
  next
    case False
    have "chain (?es[p := (?es ! p)\<lparr>entry_link := entry_link (?es ! x)\<rparr>]) (hash_inits h ! ?i) (ys @ zs)"
      unfolding p_def using ch dist sp False by (intro chain_unlink) auto
    then show ?thesis using False p xp ux
      by (simp add: h'_def h1_def set_incoming_def set_link_def)
  qed
  have plt: "ys \<noteq> [] \<Longrightarrow> p < length ?es" using p chain_set [OF ch] by auto
  have kv: "entry_key (hash_entries h' ! y) = entry_key (?es ! y)"
    "entry_val (hash_entries h' ! y) = entry_val (?es ! y)" for y
    by (simp_all add: h'_def h1_def set_incoming_def)
  have lk: "entry_link (hash_entries h' ! y) = entry_link (?es ! y)" if "y \<notin> set (bs ?i)" for y
    using that p plt ux xlt sp by (auto simp: h'_def h1_def set_incoming_def set_link_link)
  have lx: "entry_link (hash_entries h' ! x) = hash_free h"
    using p plt ux xlt by (auto simp: h'_def h1_def set_incoming_def set_link_link)
  have U: "hash_rep h' (bs(?i := ys @ zs)) (x # fl)" "live h' (bs(?i := ys @ zs)) = live h bs - {x}"
    by (rule hash_rep_unlink [OF rep i sp ux of_nat_entry_used [OF rep x(1)]];
        use C kv lk lx in \<open>auto simp: h'_def h1_def set_incoming_def\<close>)+
  have "hash_abs h' = (hash_abs h)(k := None)"
    by (rule hash_abs_unlink [OF rep U x kv])
  moreover have "ys @ zs = remove1 x (bs ?i)" using sp xp by (simp add: remove1_append)
  moreover have "hash_count h' = hash_count h - 1" "hash_N h' = hash_N h"
    by (simp_all add: h'_def h1_def set_incoming_def split: option.split)
  ultimately show ?thesis using U(1) kv by (simp add: del i_def)
qed

lemma utp_hash_del_found:
  assumes rep: "hash_rep h bs fl" and x: "x \<in> live h bs" "entry_key (hash_entries h ! x) = k"
  shows "wpo (utp_hash_del h k) (\<lambda>(h', r). r = Some (of_nat x) \<and> hash_ok h' \<and>
           hash_abs h' = (hash_abs h)(k := None) \<and> hash_count h' = hash_count h - 1)"
  by (rule wpo_mono [OF utp_hash_del_rep [OF assms]]) (auto simp: hash_ok_def)

lemma utp_hash_del_spec:
  assumes ok: "hash_ok h"
  shows "wpo (utp_hash_del h k) (\<lambda>(h', r). hash_ok h' \<and> hash_abs h' = (hash_abs h)(k := None) \<and>
           (r = None \<longleftrightarrow> hash_abs h k = None) \<and>
           hash_count h' = (if hash_abs h k = None then hash_count h else hash_count h - 1))"
proof -
  obtain bs fl where rep: "hash_rep h bs fl" using ok by (auto simp: hash_ok_def)
  show ?thesis
  proof (cases "hash_abs h k")
    case None
    let ?i = "unat (utp_hash_mkidx h k)"
    have "?i < unat (hash_N h)" using rep by (intro mkidx_less) (simp add: hash_rep_def)
    then have "utp_hash_del h k = Some (h, None)"
      unfolding utp_hash_del_def Let_def using rep None
      by (intro del_from_chain_absent [of h _ "bs ?i"])
        (auto simp: hash_rep_def hash_abs_None_iff [OF rep] live_def)
    then show ?thesis using ok None by (auto simp: fun_upd_idem)
  next
    case (Some v)
    then obtain x where x: "x \<in> live h bs" "entry_key (hash_entries h ! x) = k"
      by (auto simp: hash_abs_Some_iff [OF rep])
    show ?thesis
      by (rule wpo_mono [OF utp_hash_del_found [OF rep x]]) (auto simp: Some)
  qed
qed

subsection \<open>Lookup of a value, creation\<close>

text \<open>\<^verbatim>\<open>table->Lookup(key)\<close> followed by a read of \<^verbatim>\<open>->socket\<close>.\<close>

definition utp_hash_find :: "('k, 'v) utp_hash_t \<Rightarrow> 'k \<Rightarrow> 'v option option" where
  "utp_hash_find h key = do {
     r \<leftarrow> utp_hash_lookup h key;
     case r of None \<Rightarrow> Some None
     | Some i \<Rightarrow> do { e \<leftarrow> entry_at h i; Some (entry_val e) }
   }"

lemma utp_hash_find_spec:
  assumes "hash_ok h"
  shows "utp_hash_find h k = Some (hash_abs h k)"
proof -
  obtain bs fl where rep: "hash_rep h bs fl" using assms by (auto simp: hash_ok_def)
  show ?thesis
  proof (cases "\<exists>x \<in> live h bs. entry_key (hash_entries h ! x) = k")
    case True
    then obtain x where x: "x \<in> live h bs" "entry_key (hash_entries h ! x) = k" by blast
    note lk = hash_rep_lookup_Some [OF rep x] and ux = unat_of_nat_entry [OF rep x(1)]
    show ?thesis
      using hash_rep_live_lt [OF rep x(1)] by (simp add: utp_hash_find_def hash_abs_def lk ux entry_at_def)
  next
    case False
    then have "utp_hash_lookup h k = Some None" by (intro hash_rep_lookup_None [OF rep]) auto
    then show ?thesis by (simp add: utp_hash_find_def hash_abs_def)
  qed
qed

lemma utp_hash_create_spec:
  assumes "odd (unat N)" and "0 < initial" and "\<And>a b. eqf a b \<longleftrightarrow> a = b"
  shows "wpo (utp_hash_create N initial hf eqf) (\<lambda>h. hash_ok h \<and> hash_abs h = Map.empty \<and> hash_count h = 0)"
proof -
  let ?h = "\<lparr>hash_N = N, hash_count = 0, hash_compute = hf, hash_equal = eqf,
       hash_allocated = initial, hash_used = 0, hash_free = LIBUTP_HASH_UNUSED,
       hash_inits = replicate (unat N + 1) LIBUTP_HASH_UNUSED, hash_entries = []\<rparr>"
  have init: "replicate (unat N + 1) LIBUTP_HASH_UNUSED ! i = LIBUTP_HASH_UNUSED" if "i < unat N" for i
    using that by (intro nth_replicate) simp
  have "0 < unat N" using assms(1) by (rule odd_pos)
  with assms(2,3) init have rep: "hash_rep ?h (\<lambda>_. []) []"
    by (simp add: hash_rep_def live_def)
  then have "hash_abs ?h k = None" for k
    unfolding hash_abs_None_iff [OF rep] by (simp add: live_def)
  then have "hash_abs ?h = Map.empty" by (rule ext)
  moreover have "hash_ok ?h" using rep unfolding hash_ok_def by blast
  ultimately show ?thesis using assms(1) by (simp add: utp_hash_create_def)
qed

subsection \<open>The table interface\<close>

text \<open>
  What the socket table promises its client, the context: it behaves as a finite map. A run of
  insertions and deletions of the table is then a run of map updates.
\<close>

datatype ('k, 'v) table_op = TInsert 'k 'v | TDelete 'k

fun map_op :: "('k, 'v) table_op \<Rightarrow> ('k \<rightharpoonup> 'v) \<Rightarrow> ('k \<rightharpoonup> 'v)" where
  "map_op (TInsert k v) m = m(k \<mapsto> v)"
| "map_op (TDelete k) m = m(k := None)"

text \<open>The client's obligation: it never adds a key that is already present.\<close>

fun fresh_ops :: "('k, 'v) table_op list \<Rightarrow> ('k \<rightharpoonup> 'v) \<Rightarrow> bool" where
  "fresh_ops [] m = True"
| "fresh_ops (TInsert k v # ops) m = (m k = None \<and> fresh_ops ops (m(k \<mapsto> v)))"
| "fresh_ops (TDelete k # ops) m = fresh_ops ops (m(k := None))"

fun run_table_ops ::
    "('t \<Rightarrow> 'k \<Rightarrow> 'v \<Rightarrow> 't option) \<Rightarrow> ('t \<Rightarrow> 'k \<Rightarrow> ('t \<times> 'r) option) \<Rightarrow>
     ('k, 'v) table_op list \<Rightarrow> 't \<Rightarrow> 't option" where
  "run_table_ops ins del [] h = Some h"
| "run_table_ops ins del (TInsert k v # ops) h = Option.bind (ins h k v) (run_table_ops ins del ops)"
| "run_table_ops ins del (TDelete k # ops) h =
     Option.bind (del h k) (\<lambda>(h', _). run_table_ops ins del ops h')"

locale key_table =
  fixes ok :: "'t \<Rightarrow> bool" and abs :: "'t \<Rightarrow> 'k \<rightharpoonup> 'v" and count :: "'t \<Rightarrow> size_t"
    and find :: "'t \<Rightarrow> 'k \<Rightarrow> 'v option option"
    and ins :: "'t \<Rightarrow> 'k \<Rightarrow> 'v \<Rightarrow> 't option"
    and del :: "'t \<Rightarrow> 'k \<Rightarrow> ('t \<times> uint32 option) option"
  assumes find_abs: "ok h \<Longrightarrow> find h k = Some (abs h k)"
    and ins_abs: "ok h \<Longrightarrow> abs h k = None \<Longrightarrow> count h < 0xffffffff \<Longrightarrow>
        wpo (ins h k v) (\<lambda>h'. ok h' \<and> abs h' = (abs h)(k \<mapsto> v) \<and> count h' = count h + 1)"
    and del_abs: "ok h \<Longrightarrow> wpo (del h k) (\<lambda>(h', r). ok h' \<and> abs h' = (abs h)(k := None) \<and>
        (r = None \<longleftrightarrow> abs h k = None) \<and>
        count h' = (if abs h k = None then count h else count h - 1))"
    and count_card: "ok h \<Longrightarrow> finite (dom (abs h)) \<and> count h = of_nat (card (dom (abs h))) \<and>
        card (dom (abs h)) < 2 ^ 32"
begin

lemma find_after_ins:
  assumes "ok h" and "abs h k = None" and "count h < 0xffffffff"
  shows "wpo (ins h k v) (\<lambda>h'. find h' k = Some (Some v) \<and> (\<forall>k'. k' \<noteq> k \<longrightarrow> find h' k' = find h k'))"
  by (rule wpo_mono [OF ins_abs [OF assms]]) (use assms(1) in \<open>auto simp: find_abs\<close>)

lemma find_after_del:
  assumes "ok h"
  shows "wpo (del h k) (\<lambda>(h', _). find h' k = Some None \<and> (\<forall>k'. k' \<noteq> k \<longrightarrow> find h' k' = find h k'))"
  by (rule wpo_mono [OF del_abs [OF assms]]) (use assms in \<open>auto simp: find_abs\<close>)

lemma run_ops_refine:
  assumes "ok h" and "fresh_ops ops (abs h)" and "card (dom (abs h)) + length ops < 2 ^ 32"
  shows "wpo (run_table_ops ins del ops h) (\<lambda>h'. ok h' \<and> abs h' = fold map_op ops (abs h))"
  using assms
proof (induction ops arbitrary: h)
  case (Cons op ops)
  note fin = count_card [OF Cons.prems(1)]
  show ?case
  proof (cases op)
    case (TInsert k v)
    have room: "count h < 0xffffffff"
      using fin Cons.prems(3) by (simp add: word_less_nat_alt unat_of_nat_small)
    have absent: "abs h k = None" using Cons.prems(2) TInsert by simp
    have "card (dom ((abs h)(k \<mapsto> v))) \<le> Suc (card (dom (abs h)))"
      by (simp add: card_insert_if fin)
    note * = this
    have "wpo (run_table_ops ins del ops h') (\<lambda>h''. ok h'' \<and> abs h'' = fold map_op (op # ops) (abs h))"
      if h': "ok h' \<and> abs h' = (abs h)(k \<mapsto> v) \<and> count h' = count h + 1" for h'
    proof -
      from h' have eq: "abs h' = (abs h)(k \<mapsto> v)" by blast
      have "fold map_op (op # ops) (abs h) = fold map_op ops (abs h')" unfolding eq by (simp add: TInsert)
      moreover have "fresh_ops ops (abs h')" unfolding eq using Cons.prems(2) by (simp add: TInsert)
      moreover have "card (dom (abs h')) + length ops < 2 ^ 32" unfolding eq using * Cons.prems(3) by simp
      ultimately show ?thesis using Cons.IH [of h'] h' by metis
    qed
    from wpo_mono [OF ins_abs [OF Cons.prems(1) absent room, of v] this] show ?thesis
      by (simp add: TInsert wpo_bind)
  next
    case (TDelete k)
    have "card (dom ((abs h)(k := None))) \<le> card (dom (abs h))"
      using fin by (intro card_mono) auto
    note * = this
    have "wpo (run_table_ops ins del ops h') (\<lambda>h''. ok h'' \<and> abs h'' = fold map_op (op # ops) (abs h))"
      if h': "ok h' \<and> abs h' = (abs h)(k := None)" for h'
    proof -
      from h' have eq: "abs h' = (abs h)(k := None)" by blast
      have "fold map_op (op # ops) (abs h) = fold map_op ops (abs h')" unfolding eq by (simp add: TDelete)
      moreover have "fresh_ops ops (abs h')" unfolding eq using Cons.prems(2) by (simp add: TDelete)
      moreover have "card (dom (abs h')) + length ops < 2 ^ 32" unfolding eq using * Cons.prems(3) by simp
      ultimately show ?thesis using Cons.IH [of h'] h' by metis
    qed
    then show ?thesis
      using wpo_mono [OF del_abs [OF Cons.prems(1), of k],
          of "\<lambda>(h', r). wpo (run_table_ops ins del ops h') (\<lambda>h''. ok h'' \<and> abs h'' = fold map_op (op # ops) (abs h))"]
      by (auto simp: TDelete wpo_bind split_def)
  qed
qed simp

end

lemma hash_count_card:
  assumes "hash_ok h"
  shows "finite (dom (hash_abs h)) \<and> hash_count h = of_nat (card (dom (hash_abs h))) \<and>
         card (dom (hash_abs h)) < 2 ^ 32"
proof -
  obtain bs fl where rep: "hash_rep h bs fl" using assms by (auto simp: hash_ok_def)
  let ?key = "\<lambda>x. entry_key (hash_entries h ! x)"
  have inj: "inj_on ?key (live h bs)" and cnt: "hash_count h = of_nat (card (live h bs))"
    using rep by (simp_all add: hash_rep_def)
  have fin: "finite (live h bs)" by (simp add: live_def)
  have "hash_abs h k \<noteq> None \<longleftrightarrow> k \<in> ?key ` live h bs" for k
    unfolding hash_abs_None_iff [OF rep] by blast
  then have dom: "dom (hash_abs h) = ?key ` live h bs" by blast
  have "card (live h bs) \<le> card {..<length (hash_entries h)}"
    using hash_rep_live_lt [OF rep] by (intro card_mono) auto
  also have "\<dots> < 2 ^ LENGTH(32)" using rep unat_less_pow [of "hash_used h"] by (simp add: hash_rep_def)
  finally show ?thesis using inj cnt fin by (simp add: dom card_image)
qed

interpretation ht: key_table hash_ok hash_abs hash_count utp_hash_find utp_hash_insert utp_hash_del
  by (rule key_table.intro)
    (erule utp_hash_find_spec, erule (2) utp_hash_insert_spec, erule utp_hash_del_spec, erule hash_count_card)

subsection \<open>The table of a context is a finite map\<close>

text \<open>C6: a table created as the context creates its own (79 buckets, room for 15 elements)
  and put through any sequence of insertions of absent keys and deletions, shorter than the
  32-bit link space, never faults or loops, and every lookup then returns what the finite map
  built by the same sequence of updates holds.\<close>

theorem hash_table_refines_map:
  assumes "\<And>a b. eqf a b \<longleftrightarrow> a = b" and "fresh_ops ops Map.empty" and "length ops < 2 ^ 32"
  shows "wpo (do { h \<leftarrow> utp_hash_create 79 15 hf eqf;
                   run_table_ops utp_hash_insert utp_hash_del ops h })
           (\<lambda>h. \<forall>k. utp_hash_find h k = Some (fold map_op ops Map.empty k))"
proof -
  have created: "wpo (utp_hash_create 79 15 hf eqf)
      (\<lambda>h. hash_ok h \<and> hash_abs h = Map.empty \<and> hash_count h = 0)"
    by (rule utp_hash_create_spec) (simp_all add: assms(1))
  have "wpo (run_table_ops utp_hash_insert utp_hash_del ops h)
          (\<lambda>h'. \<forall>k. utp_hash_find h' k = Some (fold map_op ops Map.empty k))"
    if h: "hash_ok h \<and> hash_abs h = Map.empty \<and> hash_count h = 0" for h
  proof -
    have "wpo (run_table_ops utp_hash_insert utp_hash_del ops h)
            (\<lambda>h'. hash_ok h' \<and> hash_abs h' = fold map_op ops (hash_abs h))"
      using h assms by (intro ht.run_ops_refine) auto
    then show ?thesis by (rule wpo_mono) (use h in \<open>auto simp: ht.find_abs\<close>)
  qed
  with created show ?thesis unfolding wpo_bind by (rule wpo_mono)
qed

text \<open>Two sockets in one bucket, the first of them deleted again.\<close>

theorem hash_table_refines_map_witness:
  "wpo (do { h \<leftarrow> utp_hash_create 79 15 (\<lambda>k :: uint32. k) (=);
             run_table_ops utp_hash_insert utp_hash_del
               [TInsert 1 ''a'', TInsert 80 ''b'', TDelete 1] h })
     (\<lambda>h. \<forall>k. utp_hash_find h k =
              Some (fold map_op [TInsert 1 ''a'', TInsert 80 ''b'', TDelete 1] Map.empty k))"
  by (rule hash_table_refines_map) simp_all

end
