(* ===== verification/Packed_Sock_Addr.thy ===== *)
theory Packed_Sock_Addr
  imports Utp_Hash
begin

section \<open>Packed socket addresses and the socket table's key\<close>

text \<open>
  \<^verbatim>\<open>utp_packedsockaddr.cpp\<close> and the key type \<^verbatim>\<open>UTPSocketKey\<close> of
  \<^verbatim>\<open>utp_internal.h\<close>. An address is kept as 16 bytes in network order, an IPv4 address in
  its IPv6-mapped form, plus a port in host order. The host is little-endian. The socket address
  structures of the operating system are the two variants the code distinguishes; their fields
  that the code never reads (flow label, scope) are not represented. The textual form
  (\<^verbatim>\<open>fmt\<close>, only used in log messages) is not modelled.
\<close>

unbundle bit_operations_syntax

text \<open>\<^verbatim>\<open>sin_port\<close> and \<^verbatim>\<open>sin6_port\<close> hold network order.\<close>

datatype SOCKADDR_STORAGE =
  Sockaddr_in (sa_port: uint16) (s_addr: "byte list")
| Sockaddr_in6 (sa_port: uint16) (sin6_addr: "byte list")

datatype sa_family_t = AF_INET | AF_INET6

fun ss_family :: "SOCKADDR_STORAGE \<Rightarrow> sa_family_t" where
  "ss_family (Sockaddr_in _ _) = AF_INET"
| "ss_family (Sockaddr_in6 _ _) = AF_INET6"

definition sizeof_sockaddr_in :: nat where "sizeof_sockaddr_in = 16"
definition sizeof_sockaddr_in6 :: nat where "sizeof_sockaddr_in6 = 28"

lemmas sockaddr_sizes = sizeof_sockaddr_in_def sizeof_sockaddr_in6_def

definition ntohs :: "uint16 \<Rightarrow> uint16" where
  "ntohs x = push_bit 8 x OR drop_bit 8 x"

record PackedSockAddr =
  in6 :: "byte list"
  port :: uint16

definition psa_get_family :: "PackedSockAddr \<Rightarrow> sa_family_t" where
  "psa_get_family a = (if take 12 (in6 a) = replicate 10 0 @ [0xff, 0xff] then AF_INET else AF_INET6)"

definition psa_eq :: "PackedSockAddr \<Rightarrow> PackedSockAddr \<Rightarrow> bool" where
  "psa_eq a b = (if port a \<noteq> port b then False else in6 a = in6 b)"

definition psa_compute_hash :: "PackedSockAddr \<Rightarrow> uint32" where
  "psa_compute_hash a = utp_hash_mem (in6 a) XOR ucast (port a)"

definition psa_set :: "SOCKADDR_STORAGE \<Rightarrow> nat \<Rightarrow> PackedSockAddr option" where
  "psa_set sa len = (case sa of
      Sockaddr_in p s \<Rightarrow> do {
        cassert (sizeof_sockaddr_in \<le> len);
        Some \<lparr>in6 = replicate 10 0 @ [0xff, 0xff] @ s, port = ntohs p\<rparr>
      }
    | Sockaddr_in6 p s \<Rightarrow> do {
        cassert (sizeof_sockaddr_in6 \<le> len);
        Some \<lparr>in6 = s, port = ntohs p\<rparr>
      })"

definition psa_default :: "PackedSockAddr option" where
  "psa_default = psa_set (Sockaddr_in 0 [0, 0, 0, 0]) 128"

definition psa_get_sockaddr_storage :: "PackedSockAddr \<Rightarrow> SOCKADDR_STORAGE \<times> nat" where
  "psa_get_sockaddr_storage a = (case psa_get_family a of
      AF_INET \<Rightarrow> (Sockaddr_in (ntohs (port a)) (drop 12 (in6 a)), sizeof_sockaddr_in)
    | AF_INET6 \<Rightarrow> (Sockaddr_in6 (ntohs (port a)) (in6 a), sizeof_sockaddr_in6))"

subsection \<open>Well-formed addresses and round trips\<close>

definition psa_ok :: "PackedSockAddr \<Rightarrow> bool" where
  "psa_ok a \<longleftrightarrow> length (in6 a) = 16"

fun sockaddr_ok :: "SOCKADDR_STORAGE \<Rightarrow> bool" where
  "sockaddr_ok (Sockaddr_in _ s) = (length s = 4)"
| "sockaddr_ok (Sockaddr_in6 _ s) = (length s = 16)"

lemma ntohs_ntohs [simp]: "ntohs (ntohs p) = p"
  by (rule bit_eqI) (auto simp: ntohs_def bit_simps)

lemma psa_eq_iff: "psa_eq a b \<longleftrightarrow> a = b"
  by (auto simp: psa_eq_def)

lemma psa_set_ok:
  assumes "sockaddr_ok sa" and "sizeof_sockaddr_in6 \<le> len"
  shows "wpo (psa_set sa len) psa_ok"
  using assms by (cases sa) (auto simp: psa_set_def psa_ok_def sockaddr_sizes)

lemma psa_get_ok: "psa_ok a \<Longrightarrow> sockaddr_ok (fst (psa_get_sockaddr_storage a))"
  by (auto simp: psa_get_sockaddr_storage_def psa_ok_def split: sa_family_t.splits)

text \<open>The IPv6 form of an IPv4 address is the one address that does not keep its family.\<close>

fun unmap :: "SOCKADDR_STORAGE \<Rightarrow> SOCKADDR_STORAGE" where
  "unmap (Sockaddr_in p s) = Sockaddr_in p s"
| "unmap (Sockaddr_in6 p s) =
     (if take 12 s = replicate 10 0 @ [0xff, 0xff] then Sockaddr_in p (drop 12 s) else Sockaddr_in6 p s)"

lemma psa_set_get:
  assumes "sockaddr_ok sa" and "sizeof_sockaddr_in6 \<le> len"
  shows "wpo (psa_set sa len) (\<lambda>a. fst (psa_get_sockaddr_storage a) = unmap sa)"
  using assms
  by (cases sa) (auto simp: psa_set_def psa_get_sockaddr_storage_def psa_get_family_def sockaddr_sizes)

text \<open>C33: packing is lossless. Every packed address survives the trip through a system socket
  address (any length argument the code passes is accepted), and every system address comes back
  as itself, except that an IPv4-mapped IPv6 address comes back as the IPv4 address it denotes.\<close>

theorem sockaddr_round_trip:
  assumes "psa_ok a" and "sockaddr_ok sa" and "sizeof_sockaddr_in6 \<le> len"
  shows "(let (st, l) = psa_get_sockaddr_storage a in psa_set st l = Some a) \<and>
         wpo (psa_set sa len) (\<lambda>b. psa_ok b \<and> fst (psa_get_sockaddr_storage b) = unmap sa)"
proof
  have "take 12 (in6 a) @ drop 12 (in6 a) = in6 a" by (rule append_take_drop_id)
  then show "let (st, l) = psa_get_sockaddr_storage a in psa_set st l = Some a"
    by (auto simp: psa_get_sockaddr_storage_def psa_set_def psa_get_family_def sockaddr_sizes
        simp del: append_take_drop_id split: sa_family_t.splits)
  show "wpo (psa_set sa len) (\<lambda>b. psa_ok b \<and> fst (psa_get_sockaddr_storage b) = unmap sa)"
    using assms(2,3) by (intro wpo_conj psa_set_ok psa_set_get)
qed

theorem sockaddr_round_trip_witness:
  "(let (st, l) = psa_get_sockaddr_storage \<lparr>in6 = [0x20, 1] @ replicate 14 7, port = 6881\<rparr>
    in psa_set st l = Some \<lparr>in6 = [0x20, 1] @ replicate 14 7, port = 6881\<rparr>) \<and>
   wpo (psa_set (Sockaddr_in 0xE11A [127, 0, 0, 1]) 128)
     (\<lambda>b. psa_ok b \<and> fst (psa_get_sockaddr_storage b) = unmap (Sockaddr_in 0xE11A [127, 0, 0, 1]))"
  by (rule sockaddr_round_trip) (simp_all add: psa_ok_def sockaddr_sizes)

subsection \<open>The key of the socket table\<close>

record UTPSocketKey =
  key_addr :: PackedSockAddr
  recv_id :: uint32

definition key_eq :: "UTPSocketKey \<Rightarrow> UTPSocketKey \<Rightarrow> bool" where
  "key_eq k other \<longleftrightarrow> recv_id k = recv_id other \<and> psa_eq (key_addr k) (key_addr other)"

definition key_compute_hash :: "UTPSocketKey \<Rightarrow> uint32" where
  "key_compute_hash k = recv_id k XOR psa_compute_hash (key_addr k)"

definition UTP_SOCKET_BUCKETS :: uint32 where "UTP_SOCKET_BUCKETS = 79"
definition UTP_SOCKET_INIT :: uint32 where "UTP_SOCKET_INIT = 15"

definition UTPSocketHT_new :: "(UTPSocketKey, 'v) utp_hash_t option" where
  "UTPSocketHT_new = utp_hash_create UTP_SOCKET_BUCKETS UTP_SOCKET_INIT key_compute_hash key_eq"

lemma key_eq_iff: "key_eq a b \<longleftrightarrow> a = b"
  by (auto simp: key_eq_def psa_eq_iff)

lemma UTPSocketHT_new_spec:
  "wpo UTPSocketHT_new (\<lambda>h. hash_ok h \<and> hash_abs h = Map.empty \<and> hash_count h = 0)"
  unfolding UTPSocketHT_new_def
  by (rule utp_hash_create_spec) (simp_all add: UTP_SOCKET_BUCKETS_def UTP_SOCKET_INIT_def key_eq_iff)

end
