(* ===== verification/Packet_Format.thy ===== *)
theory Packet_Format
  imports Utp_Prelude
begin

section \<open>Packet headers and extensions\<close>

text \<open>
  \<^verbatim>\<open>PacketFormatV1\<close> and \<^verbatim>\<open>PacketFormatAckV1\<close> of \<^verbatim>\<open>utp_internal.cpp\<close> with the
  big-endian integers of \<^verbatim>\<open>utp_templates.h\<close>: the 20 header bytes and their decoding, the
  type and version nibbles, and the extension parser of \<^verbatim>\<open>utp_process_incoming\<close>. A received
  packet is a list of bytes; a read outside it is the fault \<open>None\<close>, so the lemmas about the
  parser also show that it never reads past the end of the packet.
\<close>

unbundle bit_operations_syntax

subsection \<open>Big-endian integers\<close>

definition be16_bytes :: "uint16 \<Rightarrow> byte list" where
  "be16_bytes w = [ucast (drop_bit 8 w), ucast w]"

definition be16_of :: "byte \<Rightarrow> byte \<Rightarrow> uint16" where
  "be16_of a b = push_bit 8 (ucast a) OR ucast b"

definition be32_bytes :: "uint32 \<Rightarrow> byte list" where
  "be32_bytes w = [ucast (drop_bit 24 w), ucast (drop_bit 16 w), ucast (drop_bit 8 w), ucast w]"

definition be32_of :: "byte \<Rightarrow> byte \<Rightarrow> byte \<Rightarrow> byte \<Rightarrow> uint32" where
  "be32_of a b c d =
     push_bit 24 (ucast a) OR push_bit 16 (ucast b) OR push_bit 8 (ucast c) OR ucast d"

lemma be16_round [simp]:
  "be16_of (ucast (drop_bit 8 w)) (ucast w) = w"
  by (rule bit_eqI) (auto simp: be16_of_def bit_simps)

lemma be16_bytes_of [simp]: "be16_bytes (be16_of a b) = [a, b]"
  by (auto simp: be16_bytes_def be16_of_def bit_eq_iff bit_simps dest: bit_imp_le_length)

lemma be32_round [simp]:
  "be32_of (ucast (drop_bit 24 w)) (ucast (drop_bit 16 w)) (ucast (drop_bit 8 w)) (ucast w) = w"
proof (rule bit_eqI)
  fix n :: nat
  consider "n < 8" | "8 \<le> n" "n < 16" | "16 \<le> n" "n < 24" | "24 \<le> n" by linarith
  then show "bit (be32_of (ucast (drop_bit 24 w)) (ucast (drop_bit 16 w)) (ucast (drop_bit 8 w)) (ucast w)) n = bit w n"
    by cases (auto simp: be32_of_def bit_simps dest: bit_imp_le_length)
qed

lemma be32_bytes_of [simp]: "be32_bytes (be32_of a b c d) = [a, b, c, d]"
  by (auto simp: be32_bytes_def be32_of_def bit_eq_iff bit_simps dest: bit_imp_le_length)

subsection \<open>The header\<close>

record PacketFormatV1 =
  ver_type :: byte
  pf_ext :: byte
  pf_connid :: uint16
  pf_tv_usec :: uint32
  pf_reply_micro :: uint32
  pf_windowsize :: uint32
  pf_seq_nr :: uint16
  pf_ack_nr :: uint16

definition pf_version :: "PacketFormatV1 \<Rightarrow> byte" where
  "pf_version p = ver_type p AND 0xf"

definition pf_type :: "PacketFormatV1 \<Rightarrow> byte" where
  "pf_type p = drop_bit 4 (ver_type p)"

definition pf_set_version :: "byte \<Rightarrow> PacketFormatV1 \<Rightarrow> PacketFormatV1" where
  "pf_set_version v p = p\<lparr>ver_type := (ver_type p AND 0xf0) OR (v AND 0xf)\<rparr>"

definition pf_set_type :: "byte \<Rightarrow> PacketFormatV1 \<Rightarrow> PacketFormatV1" where
  "pf_set_type t p = p\<lparr>ver_type := (ver_type p AND 0xf) OR push_bit 4 t\<rparr>"

definition pf_zero :: PacketFormatV1 where
  "pf_zero = \<lparr>ver_type = 0, pf_ext = 0, pf_connid = 0, pf_tv_usec = 0, pf_reply_micro = 0,
     pf_windowsize = 0, pf_seq_nr = 0, pf_ack_nr = 0\<rparr>"

definition sizeof_PacketFormatV1 :: nat where "sizeof_PacketFormatV1 = 20"

definition pf_bytes :: "PacketFormatV1 \<Rightarrow> byte list" where
  "pf_bytes p = [ver_type p, pf_ext p] @ be16_bytes (pf_connid p) @ be32_bytes (pf_tv_usec p) @
     be32_bytes (pf_reply_micro p) @ be32_bytes (pf_windowsize p) @ be16_bytes (pf_seq_nr p) @
     be16_bytes (pf_ack_nr p)"

text \<open>Reading a packet's memory through a \<^verbatim>\<open>PacketFormatV1*\<close>.\<close>

definition pf_of_bytes :: "byte list \<Rightarrow> PacketFormatV1 option" where
  "pf_of_bytes p = (if length p < sizeof_PacketFormatV1 then None else
     Some \<lparr>ver_type = p ! 0, pf_ext = p ! 1, pf_connid = be16_of (p ! 2) (p ! 3),
       pf_tv_usec = be32_of (p ! 4) (p ! 5) (p ! 6) (p ! 7),
       pf_reply_micro = be32_of (p ! 8) (p ! 9) (p ! 10) (p ! 11),
       pf_windowsize = be32_of (p ! 12) (p ! 13) (p ! 14) (p ! 15),
       pf_seq_nr = be16_of (p ! 16) (p ! 17), pf_ack_nr = be16_of (p ! 18) (p ! 19)\<rparr>)"

record PacketFormatAckV1 =
  ack_pf :: PacketFormatV1
  ext_next :: byte
  ext_len :: byte
  acks :: "byte list"

definition pfa_zero :: PacketFormatAckV1 where
  "pfa_zero = \<lparr>ack_pf = pf_zero, ext_next = 0, ext_len = 0, acks = [0, 0, 0, 0]\<rparr>"

definition pfa_bytes :: "PacketFormatAckV1 \<Rightarrow> byte list" where
  "pfa_bytes p = pf_bytes (ack_pf p) @ [ext_next p, ext_len p] @ acks p"

text \<open>Packet types and the version test.\<close>

definition ST_DATA :: byte where "ST_DATA = 0"
definition ST_FIN :: byte where "ST_FIN = 1"
definition ST_STATE :: byte where "ST_STATE = 2"
definition ST_RESET :: byte where "ST_RESET = 3"
definition ST_SYN :: byte where "ST_SYN = 4"
definition ST_NUM_STATES :: byte where "ST_NUM_STATES = 5"

lemmas packet_types = ST_DATA_def ST_FIN_def ST_STATE_def ST_RESET_def ST_SYN_def ST_NUM_STATES_def

definition UTP_Version :: "PacketFormatV1 \<Rightarrow> byte" where
  "UTP_Version pf = (if pf_type pf < ST_NUM_STATES \<and> pf_ext pf < 3 then pf_version pf else 0)"

lemma length_pf_bytes [simp]: "length (pf_bytes p) = sizeof_PacketFormatV1"
  by (simp add: pf_bytes_def be16_bytes_def be32_bytes_def sizeof_PacketFormatV1_def)

lemma pf_of_bytes_pf_bytes [simp]: "pf_of_bytes (pf_bytes p @ xs) = Some p"
  by (simp add: pf_of_bytes_def pf_bytes_def be16_bytes_def be32_bytes_def sizeof_PacketFormatV1_def)

lemma upt_20: "[0..<20] = [0, 1, 2, 3, 4, 5, 6, 7, 8, 9, 10, 11, 12, 13, 14, 15, 16, 17, 18, 19]"
  by (simp add: upt_rec)

lemma pf_bytes_pf_of_bytes:
  assumes "pf_of_bytes bs = Some p"
  shows "pf_bytes p @ drop sizeof_PacketFormatV1 bs = bs"
proof -
  have len: "20 \<le> length bs" using assms
    by (simp add: pf_of_bytes_def sizeof_PacketFormatV1_def split: if_splits)
  have "pf_bytes p = map (\<lambda>i. bs ! i) [0..<20]"
    using assms
    by (auto simp: pf_of_bytes_def pf_bytes_def sizeof_PacketFormatV1_def upt_20 split: if_splits)
  also have "\<dots> = take 20 bs"
    using len by (intro nth_equalityI) auto
  finally show ?thesis by (simp add: sizeof_PacketFormatV1_def)
qed

lemma nibbles: "(0xf :: byte) = mask 4" "(0xf0 :: byte) = push_bit 4 (mask 4)"
  by (simp_all add: mask_eq_exp_minus_1 push_bit_eq_mult)

lemma pf_set_version_type [simp]:
  "pf_version (pf_set_version v p) = v AND 0xf" "pf_type (pf_set_version v p) = pf_type p"
  "pf_version (pf_set_type t p) = pf_version p" "pf_type (pf_set_type t p) = t AND 0xf"
  by (simp_all add: pf_version_def pf_type_def pf_set_version_def pf_set_type_def nibbles,
      auto simp: bit_eq_iff bit_simps dest: bit_imp_le_length)

subsection \<open>The extension parser\<close>

text \<open>A byte of the packet's memory, and \<^verbatim>\<open>(int)(packet_end - data)\<close>.\<close>

definition byte_at :: "byte list \<Rightarrow> nat \<Rightarrow> byte option" where
  "byte_at p i = (if i < length p then Some (p ! i) else None)"

definition bytes_left :: "byte list \<Rightarrow> nat \<Rightarrow> int" where
  "bytes_left p data = sint (word_of_int (int (length p) - int data) :: uint32)"

definition read_bytes :: "byte list \<Rightarrow> nat \<Rightarrow> nat \<Rightarrow> byte list option" where
  "read_bytes p i n = (if i + n \<le> length p then Some (take n (drop i p)) else None)"

text \<open>
  The loop over the extension headers. \<open>data\<close> is the offset of the current header, \<open>extension\<close>
  its type; the result is the connection's extension bits, the offset of the selective ack mask
  and the offset of the payload. A rejected packet may already have stored extension bits.
\<close>

datatype ext_result =
  Ext_Invalid (ext_bits: "byte list")
| Ext_Ok (ext_bits: "byte list") (ext_selack: "nat option") (ext_data: nat)

function parse_ext ::
    "byte list \<Rightarrow> nat \<Rightarrow> byte \<Rightarrow> nat option \<Rightarrow> byte list \<Rightarrow> ext_result option" where
  "parse_ext p pos extension selack_ptr extensions = (
     let data = pos + 2 in
     if bytes_left p data < 0 then Some (Ext_Invalid extensions)
     else do {
       len \<leftarrow> byte_at p (pos + 1);
       if bytes_left p data < uint len then Some (Ext_Invalid extensions)
       else if extension = 2 \<and> len \<noteq> 8 then Some (Ext_Invalid extensions)
       else do {
         extensions' \<leftarrow> (if extension = 2 then read_bytes p data 8 else Some extensions);
         let selack' = (if extension = 1 then Some data else selack_ptr);
         next_ext \<leftarrow> byte_at p pos;
         let data' = data + unat len;
         if next_ext \<noteq> 0 then parse_ext p data' next_ext selack' extensions'
         else Some (Ext_Ok extensions' selack' data')
       }
     })"
  by pat_completeness auto
termination
  by (relation "measure (\<lambda>(p, pos, _). length p - pos)") (auto simp: byte_at_def split: if_splits)

declare parse_ext.simps [simp del]

definition parse_extensions :: "byte list \<Rightarrow> byte list \<Rightarrow> ext_result option" where
  "parse_extensions p extensions = do {
     extension \<leftarrow> byte_at p 1;
     if extension \<noteq> 0 then parse_ext p sizeof_PacketFormatV1 extension None extensions
     else Some (Ext_Ok extensions None sizeof_PacketFormatV1)
   }"

lemma bytes_left_small:
  assumes "length p < 2 ^ 31" and "data \<le> length p + 2 ^ 31"
  shows "bytes_left p data = int (length p) - int data"
proof -
  have "- 2147483648 \<le> int (length p) - int data" "int (length p) - int data < 2147483648"
    using assms by simp_all
  then show ?thesis
    unfolding bytes_left_def
    by (subst signed_of_int) (simp add: signed_take_bit_int_eq_self)
qed

text \<open>What a parsed packet promises: the payload lies inside the packet and so does the mask.\<close>

definition ext_safe :: "byte list \<Rightarrow> ext_result \<Rightarrow> bool" where
  "ext_safe p r = (length (ext_bits r) = 8 \<and> (case r of Ext_Invalid _ \<Rightarrow> True
     | Ext_Ok _ sel data \<Rightarrow> sizeof_PacketFormatV1 \<le> data \<and> data \<le> length p \<and>
         (case sel of None \<Rightarrow> True
          | Some i \<Rightarrow> sizeof_PacketFormatV1 + 2 \<le> i \<and> i + unat (p ! (i - 1)) \<le> data)))"

text \<open>One round of the loop on a packet of realistic size, with every read in bounds.\<close>

lemma parse_ext_step:
  assumes "length p < 2 ^ 31" and "pos \<le> length p"
  shows "parse_ext p pos extension selack extensions = (
     let len = p ! (pos + 1); data = pos + 2;
         extensions' = (if extension = 2 then take 8 (drop data p) else extensions);
         selack' = (if extension = 1 then Some data else selack)
     in if length p < data \<or> length p < data + unat len \<or> extension = 2 \<and> len \<noteq> 8
        then Some (Ext_Invalid extensions)
        else if p ! pos \<noteq> 0 then parse_ext p (data + unat len) (p ! pos) selack' extensions'
        else Some (Ext_Ok extensions' selack' (data + unat len)))"
proof -
  have left: "bytes_left p (pos + 2) = int (length p) - int (pos + 2)"
    using assms by (intro bytes_left_small) simp_all
  have neg: "bytes_left p (pos + 2) < 0 \<longleftrightarrow> length p < pos + 2" unfolding left by linarith
  have short: "bytes_left p (pos + 2) < uint len \<longleftrightarrow> length p < pos + 2 + unat len" for len :: byte
    unfolding left using uint_nat [of len] by linarith
  consider "length p < pos + 2" | "pos + 2 \<le> length p" "length p < pos + 2 + unat (p ! (pos + 1))"
    | "pos + 2 + unat (p ! (pos + 1)) \<le> length p" by linarith
  then show ?thesis
  proof cases
    case 1
    then show ?thesis by (subst parse_ext.simps) (simp only: neg Let_def if_True simp_thms)
  next
    case 2
    then have "byte_at p (pos + 1) = Some (p ! (pos + 1))" by (simp add: byte_at_def)
    with 2 show ?thesis
      by (subst parse_ext.simps) (simp only: neg short Let_def if_True if_False simp_thms bind.bind_lunit if_cancel)
  next
    case 3
    then have "byte_at p (pos + 1) = Some (p ! (pos + 1))" "byte_at p pos = Some (p ! pos)"
      by (simp_all add: byte_at_def)
    moreover have "read_bytes p (pos + 2) 8 = Some (take 8 (drop (pos + 2) p))" if "p ! (pos + 1) = 8"
      using 3 that by (simp add: read_bytes_def)
    moreover have "\<not> length p < pos + 2" "\<not> length p < pos + 2 + unat (p ! (pos + 1))" using 3 by linarith+
    ultimately show ?thesis
      by (subst parse_ext.simps, cases "extension = 2"; cases "p ! (pos + 1) = 8")
        (simp_all only: neg short Let_def if_True if_False simp_thms bind.bind_lunit)
  qed
qed

lemma parse_ext_safe:
  assumes "length p < 2 ^ 31" and "sizeof_PacketFormatV1 \<le> pos" and "pos \<le> length p"
    and "length extensions = 8"
    and "\<And>i. selack = Some i \<Longrightarrow> sizeof_PacketFormatV1 + 2 \<le> i \<and> i + unat (p ! (i - 1)) \<le> pos"
  shows "wpo (parse_ext p pos extension selack extensions) (ext_safe p)"
  using assms
proof (induction "length p - pos" arbitrary: pos extension selack extensions rule: less_induct)
  case less
  note prems = less.prems
  let ?len = "p ! (pos + 1)" and ?data = "pos + 2"
  let ?ext = "if extension = 2 then take 8 (drop ?data p) else extensions"
    and ?sel = "if extension = 1 then Some ?data else selack"
  show ?case
  proof (cases "length p < ?data \<or> length p < ?data + unat ?len \<or> extension = 2 \<and> ?len \<noteq> 8")
    case True
    then show ?thesis
      unfolding parse_ext_step [OF prems(1,3)] Let_def by (simp add: ext_safe_def prems(4))
  next
    case False
    then have fits: "?data + unat ?len \<le> length p" and ext8: "length ?ext = 8"
      using prems(4) by auto
    have sel: "sizeof_PacketFormatV1 + 2 \<le> i \<and> i + unat (p ! (i - 1)) \<le> ?data + unat ?len"
      if "?sel = Some i" for i
      using that prems(2) prems(5) [of i] by (cases "extension = 1") auto
    have "wpo (parse_ext p (?data + unat ?len) (p ! pos) ?sel ?ext) (ext_safe p)"
      using prems(1,2) fits ext8 sel by (intro less.hyps) auto
    moreover have "ext_safe p (Ext_Ok ?ext ?sel (?data + unat ?len))"
      using sel fits ext8 prems(2) by (auto simp: ext_safe_def split: option.splits)
    ultimately show ?thesis
      unfolding parse_ext_step [OF prems(1,3)] Let_def using False by (simp only: if_False wpo_if wpo_Some simp_thms)
  qed
qed

lemma parse_extensions_safe:
  assumes "sizeof_PacketFormatV1 \<le> length p" and "length p < 2 ^ 31" and "length extensions = 8"
  shows "wpo (parse_extensions p extensions) (ext_safe p)"
proof -
  have "byte_at p 1 = Some (p ! 1)" using assms(1) by (simp add: byte_at_def sizeof_PacketFormatV1_def)
  then show ?thesis
    using parse_ext_safe [OF assms(2) order_refl assms(1,3), of None "p ! 1"] assms
    by (simp add: parse_extensions_def ext_safe_def)
qed

text \<open>C13: the extension parser is memory safe on every packet that reaches it, that is of at
  least a header and less than 2 GB: it ends without reading outside the packet, and when it
  accepts, the payload offset and the whole selective ack mask lie inside the packet.\<close>

theorem extension_parser_safe:
  assumes "sizeof_PacketFormatV1 \<le> length p" and "length p < 2 ^ 31" and "length extensions = 8"
  shows "wpo (parse_extensions p extensions) (ext_safe p)"
  by (rule parse_extensions_safe [OF assms])

text \<open>A packet that claims a selective ack mask longer than itself.\<close>

theorem extension_parser_safe_witness:
  "wpo (parse_extensions (pf_bytes (pf_zero\<lparr>pf_ext := 1\<rparr>) @ [0, 200, 1, 2]) (replicate 8 0))
     (ext_safe (pf_bytes (pf_zero\<lparr>pf_ext := 1\<rparr>) @ [0, 200, 1, 2]))"
  by (rule extension_parser_safe) (simp_all add: sizeof_PacketFormatV1_def)

subsection \<open>Well-formed packets are parsed\<close>

text \<open>
  A chain of extension headers as a sender writes it: the type of the first one is in the packet
  header, each header starts with the type of the next (0 at the end) and the length of its body.
\<close>

fun ext_first :: "(byte \<times> byte list) list \<Rightarrow> byte" where
  "ext_first [] = 0"
| "ext_first ((t, _) # _) = t"

fun ext_chain_bytes :: "(byte \<times> byte list) list \<Rightarrow> byte list" where
  "ext_chain_bytes [] = []"
| "ext_chain_bytes ((t, body) # es) =
     [ext_first es, of_nat (length body)] @ body @ ext_chain_bytes es"

definition ext_chain_ok :: "(byte \<times> byte list) list \<Rightarrow> bool" where
  "ext_chain_ok es = (\<forall>(t, body) \<in> set es. t \<noteq> 0 \<and> length body < 256 \<and> (t = 2 \<longrightarrow> length body = 8))"

fun ext_chain_bits :: "(byte \<times> byte list) list \<Rightarrow> byte list \<Rightarrow> byte list" where
  "ext_chain_bits [] e = e"
| "ext_chain_bits ((t, body) # es) e = ext_chain_bits es (if t = 2 then body else e)"

fun ext_chain_selack :: "(byte \<times> byte list) list \<Rightarrow> nat \<Rightarrow> nat option \<Rightarrow> nat option" where
  "ext_chain_selack [] pos sel = sel"
| "ext_chain_selack ((t, body) # es) pos sel =
     ext_chain_selack es (pos + 2 + length body) (if t = 1 then Some (pos + 2) else sel)"

lemma ext_first_nonzero: "ext_chain_ok es \<Longrightarrow> ext_first es \<noteq> 0 \<longleftrightarrow> es \<noteq> []"
  by (cases es) (auto simp: ext_chain_ok_def)

lemma parse_ext_chain:
  assumes "length p < 2 ^ 31" and "ext_chain_ok es" and "es \<noteq> []"
    and "p = pre @ ext_chain_bytes es @ payload"
  shows "parse_ext p (length pre) (ext_first es) sel e =
         Some (Ext_Ok (ext_chain_bits es e) (ext_chain_selack es (length pre) sel)
                 (length pre + length (ext_chain_bytes es)))"
  using assms
proof (induction es arbitrary: pre sel e)
  case (Cons x es)
  obtain t body where x: "x = (t, body)" by (cases x)
  let ?pre = "pre @ [ext_first es, of_nat (length body)] @ body"
  have ok: "ext_chain_ok es" and t: "t \<noteq> 0" "length body < 256" "t = 2 \<longrightarrow> length body = 8"
    using Cons.prems(2) by (auto simp: ext_chain_ok_def x)
  have p: "p = ?pre @ ext_chain_bytes es @ payload" using Cons.prems(4) by (simp add: x)
  have len: "p ! (length pre + 1) = of_nat (length body)" and nxt: "p ! length pre = ext_first es"
    by (simp_all add: p nth_append)
  have ulen: "unat (of_nat (length body) :: byte) = length body"
    using t(2) by (intro unat_of_nat_small) simp
  have body: "take 8 (drop (length pre + 2) p) = body" if "t = 2" using that t(3) by (simp add: p)
  have len8: "(of_nat (length body) :: byte) = 8" if "t = 2" using that t(3) by simp
  have fits: "\<not> length p < length pre + 2" "\<not> length p < length pre + 2 + length body" by (simp_all add: p)
  have "length pre \<le> length p" by (simp add: p)
  note step = parse_ext_step [OF Cons.prems(1) this, of t sel e, unfolded Let_def len nxt ulen]
  have e': "(if t = 2 then take 8 (drop (length pre + 2) p) else e) = (if t = 2 then body else e)"
    using body by simp
  show ?case
  proof (cases "es = []")
    case True
    then show ?thesis using step fits len8 e' t by (simp add: x) 
  next
    case False
    then have "ext_first es \<noteq> 0" using ext_first_nonzero [OF ok] by simp
    moreover have "parse_ext p (length ?pre) (ext_first es) sel' e'' =
        Some (Ext_Ok (ext_chain_bits es e'') (ext_chain_selack es (length ?pre) sel')
                 (length ?pre + length (ext_chain_bytes es)))" for sel' e''
      by (rule Cons.IH [OF Cons.prems(1) ok False p])
    moreover have "length ?pre = length pre + 2 + length body" by simp
    ultimately show ?thesis using step fits len8 e' by (simp add: x algebra_simps)
  qed
qed simp

text \<open>C31: headers round trip, and so do extensions. The bytes of a header decode to it, a decoded
  header is what the bytes were, and a packet built from a header, a chain of well-formed
  extensions and a payload is parsed back into its extension bits, the offset of the body of its
  last selective ack, and the offset at which exactly the payload remains.\<close>

theorem packet_round_trip:
  assumes "ext_chain_ok es" and "pf_ext h = ext_first es"
    and "length (pf_bytes h @ ext_chain_bytes es @ payload) < 2 ^ 31"
  shows "let p = pf_bytes h @ ext_chain_bytes es @ payload;
             off = sizeof_PacketFormatV1 + length (ext_chain_bytes es)
         in pf_of_bytes p = Some h \<and> drop off p = payload \<and>
            parse_extensions p e =
              Some (Ext_Ok (ext_chain_bits es e) (ext_chain_selack es sizeof_PacketFormatV1 None) off)"
proof -
  have b: "byte_at (pf_bytes h @ ext_chain_bytes es @ payload) 1 = Some (ext_first es)"
    using assms(2) by (simp add: byte_at_def nth_append sizeof_PacketFormatV1_def)
      (simp add: pf_bytes_def)
  have "parse_extensions (pf_bytes h @ ext_chain_bytes es @ payload) e =
      Some (Ext_Ok (ext_chain_bits es e) (ext_chain_selack es sizeof_PacketFormatV1 None)
        (sizeof_PacketFormatV1 + length (ext_chain_bytes es)))"
  proof (cases "es = []")
    case False
    then show ?thesis
      using parse_ext_chain [OF assms(3,1) False refl, of None e] ext_first_nonzero [OF assms(1)] b
      by (simp add: parse_extensions_def)
  qed (use b in \<open>simp add: parse_extensions_def\<close>)
  then show ?thesis by (simp add: Let_def)
qed

theorem packet_round_trip_witness:
  "let p = pf_bytes (pf_zero\<lparr>pf_ext := 2\<rparr>) @ ext_chain_bytes [(2, replicate 8 9), (1, [255, 0, 0, 1])] @ [7];
       off = sizeof_PacketFormatV1 + length (ext_chain_bytes [(2, replicate 8 9), (1, [255, 0, 0, 1])])
   in pf_of_bytes p = Some (pf_zero\<lparr>pf_ext := 2\<rparr>) \<and> drop off p = [7] \<and>
      parse_extensions p (replicate 8 0) =
        Some (Ext_Ok (ext_chain_bits [(2, replicate 8 9), (1, [255, 0, 0, 1])] (replicate 8 0))
          (ext_chain_selack [(2, replicate 8 9), (1, [255, 0, 0, 1])] sizeof_PacketFormatV1 None) off)"
  by (rule packet_round_trip) (simp_all add: ext_chain_ok_def sizeof_PacketFormatV1_def)

end
