(* ===== verification/Delay_Hist.thy ===== *)
theory Delay_Hist
  imports Utp_Prelude
begin

section \<open>Wrapping comparison and the delay history\<close>

text \<open>
  \<^verbatim>\<open>wrapping_compare_less\<close> and \<^verbatim>\<open>struct DelayHist\<close> of \<^verbatim>\<open>utp_internal.cpp\<close>. A delay
  history keeps the lowest one-way delay of each of the last 13 minutes and the lowest of them
  (\<open>delay_base\<close>), plus the last three samples relative to that base. The clocks of the two peers
  have an arbitrary offset, so samples are only meaningful modulo \<open>2 ^ 32\<close>; the refinement below
  shows that, as long as the true delays stay below \<open>2 ^ 31\<close> microseconds, the wrapping code
  computes the minimum and the queuing delay of the true values.
\<close>

unbundle bit_operations_syntax

definition CUR_DELAY_SIZE :: nat where "CUR_DELAY_SIZE = 3"
definition DELAY_BASE_HISTORY :: nat where "DELAY_BASE_HISTORY = 13"
definition TIMESTAMP_MASK :: uint32 where "TIMESTAMP_MASK = 0xFFFFFFFF"
definition ACK_NR_MASK :: uint32 where "ACK_NR_MASK = 0xFFFF"
definition SEQ_NR_MASK :: uint32 where "SEQ_NR_MASK = 0xFFFF"

lemmas delay_sizes = CUR_DELAY_SIZE_def DELAY_BASE_HISTORY_def

subsection \<open>Wrapping comparison\<close>

definition wrapping_compare_less :: "uint32 \<Rightarrow> uint32 \<Rightarrow> uint32 \<Rightarrow> bool" where
  "wrapping_compare_less lhs rhs msk =
     (let dist_down = (lhs - rhs) AND msk; dist_up = (rhs - lhs) AND msk in dist_up < dist_down)"

lemma unat_uminus_mod_pow2:
  fixes x :: "'a::len word"
  assumes "k \<le> LENGTH('a)"
  shows "unat (- x) mod 2 ^ k = (if unat x mod 2 ^ k = 0 then 0 else 2 ^ k - unat x mod 2 ^ k)"
proof -
  have dvd: "(2::int) ^ k dvd 2 ^ LENGTH('a)" using assms by (rule le_imp_power_dvd)
  have "uint (- x) mod 2 ^ k = (- uint x) mod 2 ^ k"
    by (simp add: uint_word_ariths mod_mod_cancel [OF dvd])
  also have "\<dots> = (if uint x mod 2 ^ k = 0 then 0 else 2 ^ k - uint x mod 2 ^ k)"
    by (rule zmod_zminus1_eq_if)
  finally have eq: "uint (- x) mod 2 ^ k = (if uint x mod 2 ^ k = 0 then 0 else 2 ^ k - uint x mod 2 ^ k)" .
  have to_int: "uint y mod 2 ^ k = int (unat y mod 2 ^ k)" for y :: "'a word"
    by (simp add: zmod_int)
  have "unat x mod 2 ^ k < 2 ^ k" by simp
  then have "(2::int) ^ k - int (unat x mod 2 ^ k) = int (2 ^ k - unat x mod 2 ^ k)"
    by (subst of_nat_diff) simp_all
  with eq have "int (unat (- x) mod 2 ^ k) = int (if unat x mod 2 ^ k = 0 then 0 else 2 ^ k - unat x mod 2 ^ k)"
    unfolding to_int
    by (cases "unat x mod 2 ^ k = 0") (simp_all only: of_nat_eq_0_iff if_True if_False simp_thms of_nat_0)
  then show ?thesis by (simp only: of_nat_eq_iff)
qed

text \<open>\<open>lhs\<close> is less than \<open>rhs\<close> when the distance up is less than half the number circle.\<close>

lemma wrapping_compare_less_iff:
  assumes "0 < k" and "k \<le> 32"
  shows "wrapping_compare_less lhs rhs (2 ^ k - 1) \<longleftrightarrow>
         0 < unat (rhs - lhs) mod 2 ^ k \<and> unat (rhs - lhs) mod 2 ^ k < 2 ^ (k - 1)"
proof -
  let ?d = "unat (rhs - lhs) mod 2 ^ k"
  have "unat (- (rhs - lhs)) mod 2 ^ k = (if ?d = 0 then 0 else 2 ^ k - ?d)"
    using assms by (intro unat_uminus_mod_pow2) simp
  then have down: "unat (lhs - rhs) mod 2 ^ k = (if ?d = 0 then 0 else 2 ^ k - ?d)" by simp
  have half: "(2::nat) ^ k = 2 * 2 ^ (k - 1)" using assms(1) by (cases k) simp_all
  have "?d < 2 ^ k" by simp
  then show ?thesis
    unfolding wrapping_compare_less_def Let_def word_less_nat_alt unat_and_mask down
    using half by auto
qed

lemma TIMESTAMP_MASK_pow2: "TIMESTAMP_MASK = 2 ^ 32 - 1"
  by (simp add: TIMESTAMP_MASK_def)

lemma ACK_NR_MASK_pow2: "ACK_NR_MASK = 2 ^ 16 - 1"
  by (simp add: ACK_NR_MASK_def)

lemma wrapping_compare_irrefl: "\<not> wrapping_compare_less x x msk"
  by (simp add: wrapping_compare_less_def)

lemma wrapping_compare_asym: "wrapping_compare_less x y msk \<Longrightarrow> \<not> wrapping_compare_less y x msk"
  by (simp add: wrapping_compare_less_def Let_def)

text \<open>On numbers that span less than half of the circle it is the order of the true values.\<close>

lemma wrapping_compare_offset:
  fixes c :: uint32
  assumes k: "0 < k" "k \<le> 32" and x: "x < 2 ^ (k - 1)" and y: "y < 2 ^ (k - 1)"
  shows "wrapping_compare_less (c + of_nat x) (c + of_nat y) (2 ^ k - 1) \<longleftrightarrow> x < y"
proof -
  have lt: "(2::nat) ^ (k - 1) < 2 ^ k" using k(1) by (simp add: power_strict_increasing)
  have k32: "(2::nat) ^ k \<le> 2 ^ LENGTH(32)" using k(2) by (intro power_increasing) simp_all
  have small: "n < 2 ^ k \<and> unat (of_nat n :: uint32) = n" if "n < 2 ^ (k - 1)" for n
  proof
    show "n < 2 ^ k" using that lt by (rule less_trans)
    then show "unat (of_nat n :: uint32) = n" using k32 by (intro unat_of_nat_small) linarith
  qed
  have diff: "(c + of_nat y) - (c + of_nat x) = (of_nat y - of_nat x :: uint32)" by simp
  show ?thesis
  proof (cases "x < y")
    case True
    then have "of_nat y - of_nat x = (of_nat (y - x) :: uint32)" by (simp add: of_nat_diff)
    moreover have "y - x < 2 ^ (k - 1)" using y by linarith
    ultimately show ?thesis
      unfolding wrapping_compare_less_iff [OF k] diff using True small [of "y - x"] by simp
  next
    case False
    then have eq: "of_nat y - of_nat x = - (of_nat (x - y) :: uint32)" by (simp add: of_nat_diff)
    have "x - y < 2 ^ (k - 1)" using x by linarith
    note s = small [OF this]
    have "unat (- (of_nat (x - y) :: uint32)) mod 2 ^ k =
        (if x - y = 0 then 0 else 2 ^ k - (x - y))"
      using k s by (subst unat_uminus_mod_pow2) (simp_all del: of_nat_diff)
    moreover have "(2::nat) ^ k = 2 * 2 ^ (k - 1)" using k(1) by (cases k) simp_all
    ultimately show ?thesis
      unfolding wrapping_compare_less_iff [OF k] diff eq using False \<open>x - y < 2 ^ (k - 1)\<close> by auto
  qed
qed

lemmas timestamp_compare_offset =
  wrapping_compare_offset [of 32, folded TIMESTAMP_MASK_pow2, simplified]

subsection \<open>The delay history\<close>

record DelayHist =
  delay_base :: uint32
  cur_delay_hist :: "uint32 list"
  cur_delay_idx :: size_t
  delay_base_hist :: "uint32 list"
  delay_base_idx :: size_t
  delay_base_time :: uint64
  delay_base_initialized :: bool

definition dh_clear :: "uint64 \<Rightarrow> DelayHist" where
  "dh_clear current_ms = \<lparr>delay_base = 0, cur_delay_hist = replicate CUR_DELAY_SIZE 0,
     cur_delay_idx = 0, delay_base_hist = replicate DELAY_BASE_HISTORY 0, delay_base_idx = 0,
     delay_base_time = current_ms, delay_base_initialized = False\<rparr>"

definition dh_shift :: "DelayHist \<Rightarrow> uint32 \<Rightarrow> DelayHist" where
  "dh_shift d offset = d\<lparr>delay_base_hist := map (\<lambda>x. x + offset) (delay_base_hist d),
     delay_base := delay_base d + offset\<rparr>"

definition dh_init_sample :: "DelayHist \<Rightarrow> uint32 \<Rightarrow> DelayHist" where
  "dh_init_sample d sample =
     (if delay_base_initialized d then d
      else d\<lparr>delay_base_hist := replicate DELAY_BASE_HISTORY sample, delay_base := sample,
             delay_base_initialized := True\<rparr>)"

definition dh_update_base :: "DelayHist \<Rightarrow> uint32 \<Rightarrow> DelayHist" where
  "dh_update_base d sample = (
     let i = unat (delay_base_idx d);
         d1 = (if wrapping_compare_less sample (delay_base_hist d ! i) TIMESTAMP_MASK
               then d\<lparr>delay_base_hist := (delay_base_hist d)[i := sample]\<rparr> else d)
     in if wrapping_compare_less sample (delay_base d1) TIMESTAMP_MASK
        then d1\<lparr>delay_base := sample\<rparr> else d1)"

definition dh_record_delay :: "DelayHist \<Rightarrow> uint32 \<Rightarrow> DelayHist" where
  "dh_record_delay d sample = (
     let delay = sample - delay_base d
     in d\<lparr>cur_delay_hist := (cur_delay_hist d)[unat (cur_delay_idx d) := delay],
          cur_delay_idx := (cur_delay_idx d + 1) mod of_nat CUR_DELAY_SIZE\<rparr>)"

definition dh_rotate :: "DelayHist \<Rightarrow> uint32 \<Rightarrow> uint64 \<Rightarrow> DelayHist" where
  "dh_rotate d sample current_ms =
     (if 60 * 1000 < current_ms - delay_base_time d then
        let idx = (delay_base_idx d + 1) mod of_nat DELAY_BASE_HISTORY;
            hist = (delay_base_hist d)[unat idx := sample];
            base = fold (\<lambda>h b. if wrapping_compare_less h b TIMESTAMP_MASK then h else b) hist (hist ! 0)
        in d\<lparr>delay_base_time := current_ms, delay_base_idx := idx, delay_base_hist := hist,
             delay_base := base\<rparr>
      else d)"

definition dh_add_sample :: "DelayHist \<Rightarrow> uint32 \<Rightarrow> uint64 \<Rightarrow> DelayHist" where
  "dh_add_sample d sample current_ms =
     dh_rotate (dh_record_delay (dh_update_base (dh_init_sample d sample) sample) sample) sample current_ms"

definition dh_get_value :: "DelayHist \<Rightarrow> uint32" where
  "dh_get_value d = fold (\<lambda>c v. min c v) (cur_delay_hist d) 0xFFFFFFFF"

lemmas dh_add_sample_defs = dh_add_sample_def dh_rotate_def dh_record_delay_def dh_update_base_def
  dh_init_sample_def

text \<open>The indices stay inside the arrays.\<close>

definition dh_ok :: "DelayHist \<Rightarrow> bool" where
  "dh_ok d \<longleftrightarrow> length (cur_delay_hist d) = CUR_DELAY_SIZE \<and>
     length (delay_base_hist d) = DELAY_BASE_HISTORY \<and>
     unat (cur_delay_idx d) < CUR_DELAY_SIZE \<and> unat (delay_base_idx d) < DELAY_BASE_HISTORY"

lemma dh_ok_clear [simp]: "dh_ok (dh_clear ms)"
  by (simp add: dh_ok_def dh_clear_def delay_sizes)

lemma dh_ok_shift: "dh_ok d \<Longrightarrow> dh_ok (dh_shift d off)"
  by (simp add: dh_ok_def dh_shift_def)

lemma unat_mod_const_less: "0 < n \<Longrightarrow> n < 2 ^ 64 \<Longrightarrow> unat (x mod of_nat n :: size_t) < n"
  by (simp add: unat_mod unat_of_nat_small)

lemma dh_ok_init: "dh_ok d \<Longrightarrow> dh_ok (dh_init_sample d s)"
  by (simp add: dh_ok_def dh_init_sample_def)

lemma dh_ok_update: "dh_ok d \<Longrightarrow> dh_ok (dh_update_base d s)"
  by (simp add: dh_ok_def dh_update_base_def Let_def)

lemma dh_ok_record: "dh_ok d \<Longrightarrow> dh_ok (dh_record_delay d s)"
  using unat_mod_const_less [of CUR_DELAY_SIZE "cur_delay_idx d + 1"]
  by (simp add: dh_ok_def dh_record_delay_def Let_def delay_sizes)

lemma dh_ok_rotate: "dh_ok d \<Longrightarrow> dh_ok (dh_rotate d s ms)"
  using unat_mod_const_less [of DELAY_BASE_HISTORY "delay_base_idx d + 1"]
  by (simp add: dh_ok_def dh_rotate_def Let_def delay_sizes)

lemma dh_ok_add_sample: "dh_ok d \<Longrightarrow> dh_ok (dh_add_sample d s ms)"
  unfolding dh_add_sample_def by (intro dh_ok_rotate dh_ok_record dh_ok_update dh_ok_init)

subsection \<open>Refinement: the history of the true delays\<close>

text \<open>
  The specification works on the true delays, natural numbers that do not wrap: the minimum of
  each of the last 13 minutes (empty before the first sample) and the last three queuing delays,
  that is distances from the lowest known delay.
\<close>

record delay_spec =
  minima :: "nat list"
  slot :: nat
  since :: uint64
  queuing :: "nat list"
  qslot :: nat

definition spec_clear :: "uint64 \<Rightarrow> delay_spec" where
  "spec_clear ms = \<lparr>minima = [], slot = 0, since = ms, queuing = [0, 0, 0], qslot = 0\<rparr>"

definition spec_add :: "nat \<times> uint64 \<Rightarrow> delay_spec \<Rightarrow> delay_spec" where
  "spec_add = (\<lambda>(x, ms) a.
     let hs = (if minima a = [] then replicate 13 x else (minima a)[slot a := min (minima a ! slot a) x]);
         a1 = a\<lparr>minima := hs, queuing := (queuing a)[qslot a := x - Min (set hs)],
                qslot := (qslot a + 1) mod 3\<rparr>
     in if 60000 < ms - since a
        then a1\<lparr>since := ms, slot := (slot a + 1) mod 13, minima := hs[(slot a + 1) mod 13 := x]\<rparr>
        else a1)"

definition hist_refines :: "uint32 \<Rightarrow> DelayHist \<Rightarrow> nat list \<Rightarrow> bool" where
  "hist_refines c d hs \<longleftrightarrow> delay_base_initialized d \<and> length hs = 13 \<and> (\<forall>n \<in> set hs. n < 2 ^ 31) \<and>
     delay_base_hist d = map (\<lambda>n. c + of_nat n) hs \<and> delay_base d = c + of_nat (Min (set hs))"

definition dh_refines :: "uint32 \<Rightarrow> DelayHist \<Rightarrow> delay_spec \<Rightarrow> bool" where
  "dh_refines c d a \<longleftrightarrow>
     (if minima a = [] then \<not> delay_base_initialized d else hist_refines c d (minima a)) \<and>
     unat (delay_base_idx d) = slot a \<and> slot a < 13 \<and> delay_base_time d = since a \<and>
     cur_delay_hist d = map of_nat (queuing a) \<and> length (queuing a) = 3 \<and>
     (\<forall>n \<in> set (queuing a). n < 2 ^ 31) \<and> unat (cur_delay_idx d) = qslot a \<and> qslot a < 3"

lemma fold_min_Min: "fold min xs (b :: 'a::linorder) = Min (insert b (set xs))"
  using Min.set_eq_fold [of b xs] by simp

lemma hist_refines_init:
  assumes "x < 2 ^ 31" and "\<not> delay_base_initialized d"
  shows "hist_refines c (dh_init_sample d (c + of_nat x)) (replicate 13 x)"
  using assms by (simp add: hist_refines_def dh_init_sample_def DELAY_BASE_HISTORY_def)

lemma Min_update_min:
  assumes "i < length hs"
  shows "Min (set (hs[i := min (hs ! i) x])) = min (Min (set hs)) (x :: 'a::linorder)"
proof -
  have ne: "hs \<noteq> []" using assms by auto
  have upd: "set (hs[i := v]) \<subseteq> insert v (set hs)" for v by (rule set_update_subset_insert)
  have mem: "min (hs ! i) x \<in> set (hs[i := min (hs ! i) x])" using assms by (rule set_update_memI)
  have low: "min (Min (set hs)) x \<le> y" if "y \<in> set (hs[i := min (hs ! i) x])" for y
    using that upd assms by (auto simp: min_le_iff_disj dest!: subsetD [OF upd])
  have "Min (set (hs[i := min (hs ! i) x])) \<le> min (hs ! i) x"
    using mem by (intro Min_le) auto
  moreover have "Min (set (hs[i := min (hs ! i) x])) \<le> hs ! j" if "j < length hs" for j
  proof (cases "j = i")
    case True
    then show ?thesis using calculation by simp
  next
    case False
    then have "hs[i := min (hs ! i) x] ! j = hs ! j" by simp
    then have "hs ! j \<in> set (hs[i := min (hs ! i) x])" using that by (metis length_list_update nth_mem)
    then show ?thesis by (intro Min_le) auto
  qed
  moreover have "Min (set hs) \<in> set hs" using ne by (intro Min_in) auto
  ultimately have "Min (set (hs[i := min (hs ! i) x])) \<le> min (Min (set hs)) x"
    by (metis in_set_conv_nth min.boundedE min.boundedI)
  moreover have "min (Min (set hs)) x \<le> Min (set (hs[i := min (hs ! i) x]))"
    using ne low by (intro Min.boundedI) auto
  ultimately show ?thesis by (rule antisym)
qed

lemma hist_refines_update:
  assumes ref: "hist_refines c d hs" and x: "x < 2 ^ 31" and i: "unat (delay_base_idx d) = i" "i < 13"
  shows "hist_refines c (dh_update_base d (c + of_nat x)) (hs[i := min (hs ! i) x])"
proof -
  have len: "length hs = 13" and small: "\<And>n. n \<in> set hs \<Longrightarrow> n < 2 ^ 31"
    using ref by (auto simp: hist_refines_def)
  have hi: "hs ! i < 2 ^ 31" using small len i(2) by simp
  have mn: "Min (set hs) < 2 ^ 31" using len by (intro small Min_in) auto
  have "\<forall>n \<in> set (hs[i := min (hs ! i) x]). n < 2 ^ 31"
    using small hi x set_update_subset_insert [of hs i "min (hs ! i) x"] by auto
  moreover have "Min (set (hs[i := min (hs ! i) x])) = min (Min (set hs)) x"
    using len i(2) by (intro Min_update_min) simp
  moreover have "wrapping_compare_less (c + of_nat x) (delay_base_hist d ! i) TIMESTAMP_MASK \<longleftrightarrow> x < hs ! i"
    using ref len i x hi by (simp add: hist_refines_def timestamp_compare_offset)
  moreover have "wrapping_compare_less (c + of_nat x) (delay_base d) TIMESTAMP_MASK \<longleftrightarrow> x < Min (set hs)"
    using ref x mn by (simp add: hist_refines_def timestamp_compare_offset)
  moreover have "min a x = (if x < a then x else a)" for a by simp
  ultimately show ?thesis
    using ref i len
    by (cases "x < hs ! i"; cases "x < Min (set hs)")
      (simp_all add: hist_refines_def dh_update_base_def map_update list_update_id del: Min_less_iff)
qed

lemma fold_wrapping_min:
  assumes "b < 2 ^ 31" and "\<forall>n \<in> set hs. n < 2 ^ 31"
  shows "fold (\<lambda>h b. if wrapping_compare_less h b TIMESTAMP_MASK then h else b)
           (map (\<lambda>n. c + of_nat n) hs) (c + of_nat b) = c + of_nat (fold min hs b)"
  using assms
proof (induction hs arbitrary: b)
  case (Cons n hs)
  have "(if wrapping_compare_less (c + of_nat n) (c + of_nat b) TIMESTAMP_MASK
         then c + of_nat n else c + of_nat b) = c + of_nat (min n b)"
    using Cons.prems by (simp add: timestamp_compare_offset min_def)
  moreover have "min n b < 2 ^ 31" using Cons.prems(1) by simp
  ultimately show ?case using Cons.IH [of "min n b"] Cons.prems by simp
qed simp

lemma hist_refines_cong:
  assumes "delay_base_initialized d' = delay_base_initialized d"
    and "delay_base_hist d' = delay_base_hist d" and "delay_base d' = delay_base d"
  shows "hist_refines c d' hs = hist_refines c d hs"
  by (simp add: hist_refines_def assms)

lemma unat_Suc_mod:
  fixes i :: size_t
  assumes "unat i < n" and "n < 2 ^ 32"
  shows "unat ((i + 1) mod of_nat n) = (unat i + 1) mod n"
proof -
  have "unat (i + 1) = unat i + 1"
    using assms by (simp add: unat_word_ariths)
  then show ?thesis using assms(2) by (simp add: unat_mod unat_of_nat_small)
qed

lemma hist_refines_rotate:
  assumes ref: "hist_refines c d hs" and x: "x < 2 ^ 31" and i: "unat (delay_base_idx d) = i" "i < 13"
  shows "hist_refines c (dh_rotate d (c + of_nat x) ms)
           (if 60000 < ms - delay_base_time d then hs[(i + 1) mod 13 := x] else hs)"
proof (cases "60000 < ms - delay_base_time d")
  case True
  let ?hs = "hs[(i + 1) mod 13 := x]"
  have len: "length hs = 13" using ref by (simp add: hist_refines_def)
  have small: "\<forall>n \<in> set ?hs. n < 2 ^ 31"
    using ref x set_update_subset_insert [of hs "(i + 1) mod 13" x] by (auto simp: hist_refines_def)
  have nonempty: "?hs ! 0 \<in> set ?hs" using len by (intro nth_mem) simp
  then have Min: "fold min ?hs (?hs ! 0) = Min (set ?hs)"
    unfolding fold_min_Min by (simp add: insert_absorb)
  have h0: "(map (\<lambda>n. c + of_nat n) ?hs) ! 0 = c + of_nat (?hs ! 0)" using len by simp
  have idx: "unat ((delay_base_idx d + 1) mod of_nat DELAY_BASE_HISTORY) = (i + 1) mod 13"
    using i by (subst unat_Suc_mod) (simp_all add: DELAY_BASE_HISTORY_def)
  have hist: "(delay_base_hist d)[(i + 1) mod 13 := c + of_nat x] = map (\<lambda>n. c + of_nat n) ?hs"
    using ref by (simp add: hist_refines_def map_update)
  have base: "fold (\<lambda>h b. if wrapping_compare_less h b TIMESTAMP_MASK then h else b)
                (map (\<lambda>n. c + of_nat n) ?hs) (map (\<lambda>n. c + of_nat n) ?hs ! 0) = c + of_nat (Min (set ?hs))"
    unfolding h0 Min [symmetric] using small nonempty by (intro fold_wrapping_min) blast+
  show ?thesis
    using True ref small len
    unfolding dh_rotate_def Let_def idx hist base hist_refines_def by simp
next
  case False
  then show ?thesis using ref by (simp add: dh_rotate_def)
qed

lemma dh_refines_add:
  assumes ref: "dh_refines c d a" and x: "x < 2 ^ 31"
  shows "dh_refines c (dh_add_sample d (c + of_nat x) ms) (spec_add (x, ms) a)"
proof -
  let ?s = "c + of_nat x"
  define d1 where "d1 = dh_update_base (dh_init_sample d ?s) ?s"
  define d2 where "d2 = dh_record_delay d1 ?s"
  define hs where "hs = (if minima a = [] then replicate 13 x
                         else (minima a)[slot a := min (minima a ! slot a) x])"
  have same1: "delay_base_idx d1 = delay_base_idx d" "delay_base_time d1 = delay_base_time d"
      "cur_delay_hist d1 = cur_delay_hist d" "cur_delay_idx d1 = cur_delay_idx d"
    by (simp_all add: d1_def dh_update_base_def dh_init_sample_def Let_def)
  have idx: "unat (delay_base_idx d) = slot a" "slot a < 13" and q3: "length (queuing a) = 3"
    using ref by (simp_all add: dh_refines_def)
  have h1: "hist_refines c d1 hs"
  proof (cases "minima a = []")
    case True
    then have "hist_refines c (dh_init_sample d ?s) (replicate 13 x)"
      using ref x by (intro hist_refines_init) (simp_all add: dh_refines_def)
    then have "hist_refines c d1 ((replicate 13 x)[slot a := min (replicate 13 x ! slot a) x])"
      unfolding d1_def using x idx
      by (intro hist_refines_update) (simp_all add: dh_init_sample_def)
    moreover have "(replicate 13 x)[slot a := min (replicate 13 x ! slot a) x] = replicate 13 x"
      using idx by (metis list_update_id min.idem nth_replicate)
    ultimately show ?thesis by (simp add: hs_def True)
  next
    case False
    then have "hist_refines c d (minima a)" using ref by (simp add: dh_refines_def)
    moreover from this have "dh_init_sample d ?s = d" by (simp add: hist_refines_def dh_init_sample_def)
    ultimately show ?thesis using hist_refines_update [of c d "minima a" x "slot a"] x idx False
      by (simp add: d1_def hs_def)
  qed
  have len: "length hs = 13" using h1 by (simp add: hist_refines_def)
  have ne: "hs \<noteq> []" using len by auto
  have "Min (set hs) \<le> x"
  proof (cases "minima a = []")
    case False
    then have "length (minima a) = 13" using ref by (simp add: dh_refines_def hist_refines_def)
    then show ?thesis using idx(2) by (simp add: hs_def False Min_update_min)
  qed (simp add: hs_def)
  then have delay: "?s - delay_base d1 = of_nat (x - Min (set hs))"
    using h1 by (simp add: hist_refines_def of_nat_diff)
  have h2: "hist_refines c d2 hs"
    using h1 by (simp add: d2_def dh_record_delay_def Let_def hist_refines_def)
  have same2: "delay_base_idx d2 = delay_base_idx d" "delay_base_time d2 = delay_base_time d"
    by (simp_all add: d2_def dh_record_delay_def Let_def same1)
  have q: "cur_delay_hist d2 = map of_nat ((queuing a)[qslot a := x - Min (set hs)])"
    using ref by (simp add: d2_def dh_record_delay_def Let_def same1 delay dh_refines_def map_update
        del: of_nat_diff)
  have qi: "unat (cur_delay_idx d2) = (qslot a + 1) mod 3"
    using ref unat_Suc_mod [of "cur_delay_idx d" CUR_DELAY_SIZE]
    by (simp add: d2_def dh_record_delay_def Let_def same1 CUR_DELAY_SIZE_def dh_refines_def)
  have h3: "hist_refines c (dh_rotate d2 ?s ms)
      (if 60000 < ms - since a then hs[(slot a + 1) mod 13 := x] else hs)"
    using hist_refines_rotate [OF h2 x, of "slot a" ms] idx same2 ref by (simp add: dh_refines_def)
  have i3: "unat ((delay_base_idx d + 1) mod of_nat DELAY_BASE_HISTORY) = (slot a + 1) mod 13"
    using idx by (subst unat_Suc_mod) (simp_all add: DELAY_BASE_HISTORY_def)
  have qs: "\<forall>n \<in> set ((queuing a)[qslot a := x - Min (set hs)]). n < 2 ^ 31"
    using ref x set_update_subset_insert [of "queuing a" "qslot a" "x - Min (set hs)"]
    by (auto simp: dh_refines_def)
  have "dh_add_sample d ?s ms = dh_rotate d2 ?s ms"
    by (simp add: dh_add_sample_def d1_def d2_def)
  moreover have "cur_delay_hist (dh_rotate d2 ?s ms) = cur_delay_hist d2"
      "cur_delay_idx (dh_rotate d2 ?s ms) = cur_delay_idx d2"
    by (simp_all add: dh_rotate_def Let_def)
  moreover have "delay_base_time (dh_rotate d2 ?s ms) = (if 60000 < ms - since a then ms else since a)"
      "unat (delay_base_idx (dh_rotate d2 ?s ms)) =
         (if 60000 < ms - since a then (slot a + 1) mod 13 else slot a)"
    using ref i3 by (simp_all add: dh_rotate_def Let_def same2 dh_refines_def)
  ultimately show ?thesis
    using h3 q qi qs q3 idx(2) ne unfolding dh_refines_def
    by (cases "60000 < ms - since a") (simp_all add: spec_add_def hs_def [symmetric] Let_def)
qed

lemma dh_refines_clear: "dh_refines c (dh_clear ms) (spec_clear ms)"
  by (simp add: dh_refines_def dh_clear_def spec_clear_def delay_sizes numeral_3_eq_3)

lemma dh_refines_value:
  assumes "dh_refines c d a"
  shows "dh_get_value d = of_nat (Min (set (queuing a)))"
proof -
  have "fold (\<lambda>c v. min c v) (map of_nat qs) (of_nat b) = (of_nat (fold min qs b) :: uint32)"
    if "b < 2 ^ 32" "\<forall>n \<in> set qs. n < 2 ^ 31" for qs b
    using that
  proof (induction qs arbitrary: b)
    case (Cons n qs)
    have "(of_nat n \<le> (of_nat b :: uint32)) = (n \<le> b)"
      using Cons.prems by (simp add: word_le_nat_alt unat_of_nat_small)
    then have "min (of_nat n) (of_nat b :: uint32) = of_nat (min n b)" by (simp add: min_def)
    then show ?case using Cons by simp
  qed simp
  from this [of "2 ^ 32 - 1" "queuing a"] have
    "dh_get_value d = of_nat (fold min (queuing a) (2 ^ 32 - 1))"
    using assms by (simp add: dh_get_value_def dh_refines_def)
  moreover have "fold min (queuing a) (2 ^ 32 - 1) = Min (set (queuing a))"
  proof -
    have "queuing a \<noteq> []" "\<forall>n \<in> set (queuing a). n < 2 ^ 31" using assms by (auto simp: dh_refines_def)
    moreover from this have "Min (set (queuing a)) \<in> set (queuing a)" by (intro Min_in) auto
    ultimately have "Min (set (queuing a)) < 2 ^ 31" and ne: "queuing a \<noteq> []" by blast+
    moreover have "n < 2 ^ 31 \<Longrightarrow> n \<le> 2 ^ 32 - 1" for n :: nat by simp
    ultimately have "Min (set (queuing a)) \<le> 2 ^ 32 - 1" by blast
    then show ?thesis using ne unfolding fold_min_Min
      by (subst Min_insert) (simp_all only: min.absorb2 set_empty finite_set not_False_eq_True)
  qed
  ultimately show ?thesis by simp
qed

lemma dh_refines_run:
  assumes "dh_refines c d a" and "\<forall>p \<in> set xs. fst p < 2 ^ 31"
  shows "dh_refines c (fold (\<lambda>(x, ms) d. dh_add_sample d (c + of_nat x) ms) xs d) (fold spec_add xs a)"
  using assms
proof (induction xs arbitrary: d a)
  case (Cons p xs)
  obtain x ms where p: "p = (x, ms)" by (cases p)
  then have "dh_refines c (dh_add_sample d (c + of_nat x) ms) (spec_add (x, ms) a)"
    using Cons.prems by (intro dh_refines_add) auto
  then show ?case using Cons p by simp
qed simp

lemma spec_add_minima_nonempty: "minima (spec_add p a) \<noteq> []"
  by (cases p) (auto simp: spec_add_def Let_def)

lemma spec_run_minima: "xs \<noteq> [] \<Longrightarrow> minima (fold spec_add xs a) \<noteq> []"
  by (induction xs rule: rev_induct) (simp_all add: spec_add_minima_nonempty)

text \<open>C29: after any sequence of delay samples whose true values are below \<open>2 ^ 31\<close> microseconds,
  seen through an arbitrary clock offset \<open>c\<close>, the base delay of the wrapping code is the minimum
  of the true one-minute minima of the last 13 minutes, and \<^verbatim>\<open>get_value\<close> is the lowest of
  the last three true queuing delays.\<close>

theorem delay_hist_refines_true_delays:
  assumes "xs \<noteq> []" and "\<forall>p \<in> set xs. fst p < 2 ^ 31"
  shows "let d = fold (\<lambda>(x, ms) d. dh_add_sample d (c + of_nat x) ms) xs (dh_clear t0);
             a = fold spec_add xs (spec_clear t0)
         in delay_base d = c + of_nat (Min (set (minima a))) \<and>
            dh_get_value d = of_nat (Min (set (queuing a)))"
proof -
  note ref = dh_refines_run [OF dh_refines_clear assms(2), of c t0]
  have "hist_refines c (fold (\<lambda>(x, ms) d. dh_add_sample d (c + of_nat x) ms) xs (dh_clear t0))
          (minima (fold spec_add xs (spec_clear t0)))"
    using ref spec_run_minima [OF assms(1)] by (simp add: dh_refines_def)
  then show ?thesis using dh_refines_value [OF ref] by (simp add: hist_refines_def Let_def)
qed

text \<open>Samples that wrap: the offset is just below \<open>2 ^ 32\<close>; the base is the lowest of the three.\<close>

theorem delay_hist_refines_true_delays_witness:
  "let d = fold (\<lambda>(x, ms) d. dh_add_sample d (0xFFFFFFF0 + of_nat x) ms)
             [(100, 5), (7, 10), (40, 70000)] (dh_clear 0);
       a = fold spec_add [(100, 5), (7, 10), (40, 70000)] (spec_clear 0)
   in delay_base d = 0xFFFFFFF0 + of_nat (Min (set (minima a))) \<and>
      dh_get_value d = of_nat (Min (set (queuing a)))"
  by (rule delay_hist_refines_true_delays) simp_all

text \<open>C32: a recorded delay is never negative: without any assumption on the samples, every queuing
  delay that \<^verbatim>\<open>add_sample\<close> records is at most half of the 32-bit range, and the array
  indices stay inside the arrays.\<close>

theorem add_sample_delay_bounded:
  assumes "dh_ok d"
  shows "dh_ok (dh_add_sample d sample ms) \<and>
         cur_delay_hist (dh_add_sample d sample ms) ! unat (cur_delay_idx d) \<le> 0x80000000"
proof -
  define d1 where "d1 = dh_update_base (dh_init_sample d sample) sample"
  have "sample - delay_base d1 \<le> 0x80000000"
  proof (cases "wrapping_compare_less sample (delay_base d1) TIMESTAMP_MASK")
    case True
    then show ?thesis
      by (auto simp: d1_def dh_update_base_def Let_def wrapping_compare_irrefl split: if_splits)
  next
    case False
    let ?y = "delay_base d1 - sample"
    have "\<not> (0 < unat ?y mod 2 ^ 32 \<and> unat ?y mod 2 ^ 32 < 2 ^ 31)"
      using False unfolding TIMESTAMP_MASK_pow2 by (subst (asm) wrapping_compare_less_iff) simp_all
    moreover have "unat ?y < 2 ^ 32" using unat_less_pow [of ?y] by simp
    ultimately have ge: "unat ?y = 0 \<or> 2 ^ 31 \<le> unat ?y" by auto
    have "unat (- ?y) mod 2 ^ 32 = (if unat ?y mod 2 ^ 32 = 0 then 0 else 2 ^ 32 - unat ?y mod 2 ^ 32)"
      by (rule unat_uminus_mod_pow2) simp
    moreover have "unat (- ?y) < 2 ^ 32" using unat_less_pow [of "- ?y"] by simp
    ultimately have "unat (- ?y) \<le> 2 ^ 31" using ge \<open>unat ?y < 2 ^ 32\<close> by auto
    then show ?thesis by (simp add: word_le_nat_alt)
  qed
  moreover have "cur_delay_hist d1 = cur_delay_hist d" "cur_delay_idx d1 = cur_delay_idx d"
    by (simp_all add: d1_def dh_update_base_def dh_init_sample_def Let_def)
  ultimately have "cur_delay_hist (dh_add_sample d sample ms) ! unat (cur_delay_idx d) \<le> 0x80000000"
    using assms
    by (simp add: dh_add_sample_def dh_rotate_def dh_record_delay_def d1_def [symmetric] Let_def dh_ok_def)
  with dh_ok_add_sample [OF assms] show ?thesis by blast
qed

theorem add_sample_delay_bounded_witness:
  "dh_ok (dh_add_sample (dh_clear 0) 5 9) \<and>
   cur_delay_hist (dh_add_sample (dh_clear 0) 5 9) ! unat (cur_delay_idx (dh_clear 0)) \<le> 0x80000000"
  by (rule add_sample_delay_bounded) (rule dh_ok_clear)

end
