(* ===== verification/Utp_Types.thy ===== *)
theory Utp_Types
  imports Circular_Buffer Packed_Sock_Addr Packet_Format Delay_Hist
begin

section \<open>Sockets and contexts\<close>

text \<open>
  The state of the library: \<^verbatim>\<open>struct UTPSocket\<close> of \<^verbatim>\<open>utp_internal.cpp\<close> and
  \<^verbatim>\<open>struct_utp_context\<close> of \<^verbatim>\<open>utp_internal.h\<close>, field by field.

  A socket pointer is a number, the field \<open>self\<close> of the socket it points to. The one socket field
  that operations on another socket change, the position \<open>ida\<close> in the list of pending acks, is
  kept in the context, indexed by the socket. Packets in \<open>outbuf\<close> and \<open>inbuf\<close> are stored by
  value; every packet is reachable from one slot only. The statistics of \<^verbatim>\<open>_DEBUG\<close> builds
  have no model. Fields of signed type are integers: signed
  overflow is undefined in C++, so there is nothing to wrap.
\<close>

type_synonym sid = nat

datatype CONN_STATE =
  CS_UNINITIALIZED | CS_IDLE | CS_SYN_SENT | CS_SYN_RECV | CS_CONNECTED | CS_CONNECTED_FULL
| CS_RESET | CS_DESTROY

text \<open>\<^verbatim>\<open>data\<close> is the header followed by the payload bytes.\<close>

record OutgoingPacket =
  pkt_length :: size_t
  pkt_payload :: size_t
  time_sent :: uint64
  transmissions :: nat
  need_resend :: bool
  pkt_header :: PacketFormatV1
  pkt_body :: "byte list"

record UTPSocket =
  self :: sid
  addr :: PackedSockAddr
  retransmit_count :: uint16
  reorder_count :: uint16
  duplicate_ack :: byte
  cur_window_packets :: uint16
  cur_window :: size_t
  max_window :: size_t
  opt_sndbuf :: size_t
  opt_rcvbuf :: size_t
  target_delay :: size_t
  got_fin :: bool
  got_fin_reached :: bool
  fin_sent :: bool
  fin_sent_acked :: bool
  read_shutdown :: bool
  close_requested :: bool
  fast_timeout :: bool
  max_window_user :: size_t
  state :: CONN_STATE
  last_rwin_decay :: int
  eof_pkt :: uint16
  ack_nr :: uint16
  seq_nr :: uint16
  timeout_seq_nr :: uint16
  fast_resend_seq_nr :: uint16
  reply_micro :: uint32
  last_got_packet :: uint64
  last_sent_packet :: uint64
  last_measured_delay :: uint64
  last_maxed_out_window :: uint64
  userdata :: uint64
  rtt :: uint32
  rtt_var :: uint32
  rto :: uint32
  rtt_hist :: DelayHist
  retransmit_timeout :: uint32
  rto_timeout :: uint64
  zerowindow_time :: uint64
  conn_seed :: uint32
  conn_id_recv :: uint32
  conn_id_send :: uint32
  last_rcv_win :: size_t
  our_hist :: DelayHist
  their_hist :: DelayHist
  extensions :: "byte list"
  mtu_discover_time :: uint64
  mtu_ceiling :: uint32
  mtu_floor :: uint32
  mtu_last :: uint32
  mtu_probe_seq :: uint32
  mtu_probe_size :: uint32
  average_delay :: int
  current_delay_sum :: int
  current_delay_samples :: int
  average_delay_base :: uint32
  average_sample_time :: uint64
  clock_drift :: int
  clock_drift_raw :: int
  inbuf :: "byte list SizableCircularBuffer"
  outbuf :: "OutgoingPacket SizableCircularBuffer"
  slow_start :: bool
  ssthresh :: size_t

text \<open>A socket in zeroed memory with empty buffers; examples start from it.\<close>

definition zero_socket :: UTPSocket where
  "zero_socket = \<lparr>
    self = 0, addr = \<lparr>in6 = replicate 16 0, port = 0\<rparr>, retransmit_count = 0,
    reorder_count = 0, duplicate_ack = 0, cur_window_packets = 0, cur_window = 0, max_window = 0,
    opt_sndbuf = 0, opt_rcvbuf = 0, target_delay = 0, got_fin = False, got_fin_reached = False,
    fin_sent = False, fin_sent_acked = False, read_shutdown = False, close_requested = False,
    fast_timeout = False, max_window_user = 0, state = CS_UNINITIALIZED, last_rwin_decay = 0,
    eof_pkt = 0, ack_nr = 0, seq_nr = 0, timeout_seq_nr = 0, fast_resend_seq_nr = 0,
    reply_micro = 0, last_got_packet = 0, last_sent_packet = 0, last_measured_delay = 0,
    last_maxed_out_window = 0, userdata = 0, rtt = 0, rtt_var = 0, rto = 0,
    rtt_hist = dh_clear 0, retransmit_timeout = 0, rto_timeout = 0, zerowindow_time = 0,
    conn_seed = 0, conn_id_recv = 0, conn_id_send = 0, last_rcv_win = 0, our_hist = dh_clear 0,
    their_hist = dh_clear 0, extensions = replicate 8 0, mtu_discover_time = 0, mtu_ceiling = 0,
    mtu_floor = 0, mtu_last = 0, mtu_probe_seq = 0, mtu_probe_size = 0, average_delay = 0,
    current_delay_sum = 0, current_delay_samples = 0, average_delay_base = 0,
    average_sample_time = 0, clock_drift = 0, clock_drift_raw = 0, inbuf = cb_new 4,
    outbuf = cb_new 4, slow_start = False, ssthresh = 0\<rparr>"

text \<open>
  Callbacks. The application is a parameter: each registered callback is a function of the number
  of callbacks made so far and of its arguments, so it may answer differently every time. The
  field \<open>calls\<close> records the arguments of every call made, in order; it is what the library
  did as seen from outside. A callback does not call back into the library.
\<close>

datatype cb_name =
  UTP_ON_FIREWALL | UTP_ON_ACCEPT | UTP_ON_CONNECT | UTP_ON_ERROR | UTP_ON_READ
| UTP_ON_OVERHEAD_STATISTICS | UTP_ON_STATE_CHANGE | UTP_GET_READ_BUFFER_SIZE
| UTP_ON_DELAY_SAMPLE | UTP_GET_UDP_MTU | UTP_GET_UDP_OVERHEAD | UTP_GET_MILLISECONDS
| UTP_GET_MICROSECONDS | UTP_GET_RANDOM | UTP_LOG | UTP_SENDTO

datatype bandwidth_type_t =
  payload_bandwidth | connect_overhead | close_overhead | ack_overhead | header_overhead
| retransmit_overhead

datatype utp_state = UTP_STATE_CONNECT | UTP_STATE_WRITABLE | UTP_STATE_EOF | UTP_STATE_DESTROYING

datatype utp_error = UTP_ECONNREFUSED | UTP_ECONNRESET | UTP_ETIMEDOUT

datatype utp_callback_arguments =
  On_Firewall SOCKADDR_STORAGE nat
| On_Accept sid SOCKADDR_STORAGE nat
| On_Connect sid
| On_Error sid utp_error
| On_Read sid "byte list"
| On_Overhead_Statistics "sid" bool size_t bandwidth_type_t
| On_Delay_Sample sid int
| On_State_Change sid utp_state
| Get_Udp_Mtu "sid" SOCKADDR_STORAGE nat
| Get_Udp_Overhead "sid" SOCKADDR_STORAGE nat
| Get_Milliseconds "sid option"
| Get_Microseconds "sid option"
| Get_Random "sid option"
| Get_Read_Buffer_Size sid
| Log_Line "sid option"
| Sendto "sid option" "byte list" SOCKADDR_STORAGE nat uint32

type_synonym utp_callback_t = "nat \<Rightarrow> utp_callback_arguments \<Rightarrow> uint64"

record RST_Info =
  rst_addr :: PackedSockAddr
  rst_connid :: uint32
  rst_ack_nr :: uint16
  rst_timestamp :: uint64

text \<open>
  \<^verbatim>\<open>Array\<close> of \<^verbatim>\<open>utp_templates.h\<close> is the list of its \<^verbatim>\<open>count\<close> elements. \<open>socks\<close> is
  the heap of socket objects.
\<close>

record utp_context =
  callbacks :: "cb_name \<Rightarrow> utp_callback_t option"
  calls :: "utp_callback_arguments list"
  ctx_userdata :: uint64
  current_ms :: uint64
  nraw_recv :: "uint32 list"
  nraw_send :: "uint32 list"
  last_utp_socket :: "sid option"
  ack_sockets :: "sid list"
  rst_info :: "RST_Info list"
  utp_sockets :: "(UTPSocketKey, sid) utp_hash_t"
  ctx_target_delay :: size_t
  ctx_opt_sndbuf :: size_t
  ctx_opt_rcvbuf :: size_t
  last_check :: uint64
  log_normal :: bool
  log_mtu :: bool
  log_debug :: bool
  ida :: "sid \<Rightarrow> int"
  socks :: "sid \<Rightarrow> UTPSocket option"

text \<open>A socket operation works on the socket and its context.\<close>

type_synonym conn = "UTPSocket \<times> utp_context"

end
