(* ===== verification/Utp_Clock.thy ===== *)
theory Utp_Clock
  imports Packed_Sock_Addr
begin

section \<open>The default clock and path MTU\<close>

text \<open>
  \<^verbatim>\<open>utp_utils.cpp\<close>: the monotonic microsecond clock that wraps the operating system's
  clock, and the default answers for the UDP payload size and overhead of a path. The reading of
  the operating system's clock is an argument.
\<close>

record utp_clock =
  clock_offset :: uint64
  clock_previous :: uint64

definition utp_clock_init :: utp_clock where
  "utp_clock_init = \<lparr>clock_offset = 0, clock_previous = 0\<rparr>"

definition UTP_GetMicroseconds :: "utp_clock \<Rightarrow> uint64 \<Rightarrow> uint64 \<times> utp_clock" where
  "UTP_GetMicroseconds c raw = (
     let now = raw + clock_offset c in
     if now < clock_previous c
     then (clock_previous c, c\<lparr>clock_offset := clock_offset c + (clock_previous c - now)\<rparr>)
     else (now, c\<lparr>clock_previous := now\<rparr>))"

definition UTP_GetMilliseconds :: "utp_clock \<Rightarrow> uint64 \<Rightarrow> uint64 \<times> utp_clock" where
  "UTP_GetMilliseconds c raw = (let (us, c') = UTP_GetMicroseconds c raw in (us div 1000, c'))"

text \<open>The POSIX reading: seconds and nanoseconds of \<^verbatim>\<open>clock_gettime\<close>.\<close>

definition posix_microseconds :: "uint64 \<Rightarrow> uint64 \<Rightarrow> uint64" where
  "posix_microseconds tv_sec tv_nsec = tv_sec * 1000000 + tv_nsec div 1000"

fun clock_run :: "utp_clock \<Rightarrow> uint64 list \<Rightarrow> uint64 list" where
  "clock_run c [] = []"
| "clock_run c (raw # raws) = (let (now, c') = UTP_GetMicroseconds c raw in now # clock_run c' raws)"

definition ETHERNET_MTU :: uint64 where "ETHERNET_MTU = 1500"
definition IPV4_HEADER_SIZE :: uint64 where "IPV4_HEADER_SIZE = 20"
definition IPV6_HEADER_SIZE :: uint64 where "IPV6_HEADER_SIZE = 40"
definition UDP_HEADER_SIZE :: uint64 where "UDP_HEADER_SIZE = 8"
definition GRE_HEADER_SIZE :: uint64 where "GRE_HEADER_SIZE = 24"
definition PPPOE_HEADER_SIZE :: uint64 where "PPPOE_HEADER_SIZE = 8"
definition MPPE_HEADER_SIZE :: uint64 where "MPPE_HEADER_SIZE = 2"
definition FUDGE_HEADER_SIZE :: uint64 where "FUDGE_HEADER_SIZE = 36"
definition TEREDO_MTU :: uint64 where "TEREDO_MTU = 1280"

lemmas header_sizes = ETHERNET_MTU_def IPV4_HEADER_SIZE_def IPV6_HEADER_SIZE_def UDP_HEADER_SIZE_def
  GRE_HEADER_SIZE_def PPPOE_HEADER_SIZE_def MPPE_HEADER_SIZE_def FUDGE_HEADER_SIZE_def TEREDO_MTU_def

definition UDP_IPV4_OVERHEAD :: uint64 where
  "UDP_IPV4_OVERHEAD = IPV4_HEADER_SIZE + UDP_HEADER_SIZE"
definition UDP_IPV6_OVERHEAD :: uint64 where
  "UDP_IPV6_OVERHEAD = IPV6_HEADER_SIZE + UDP_HEADER_SIZE"
definition UDP_TEREDO_OVERHEAD :: uint64 where
  "UDP_TEREDO_OVERHEAD = UDP_IPV4_OVERHEAD + UDP_IPV6_OVERHEAD"
definition UDP_IPV4_MTU :: uint64 where
  "UDP_IPV4_MTU = ETHERNET_MTU - IPV4_HEADER_SIZE - UDP_HEADER_SIZE - GRE_HEADER_SIZE -
     PPPOE_HEADER_SIZE - MPPE_HEADER_SIZE - FUDGE_HEADER_SIZE"
definition UDP_TEREDO_MTU :: uint64 where
  "UDP_TEREDO_MTU = TEREDO_MTU - IPV6_HEADER_SIZE - UDP_HEADER_SIZE"

definition utp_default_get_udp_mtu :: "SOCKADDR_STORAGE \<Rightarrow> uint64" where
  "utp_default_get_udp_mtu address =
     (if ss_family address = AF_INET6 then UDP_TEREDO_MTU else UDP_IPV4_MTU)"

definition utp_default_get_udp_overhead :: "SOCKADDR_STORAGE \<Rightarrow> uint64" where
  "utp_default_get_udp_overhead address =
     (if ss_family address = AF_INET6 then UDP_TEREDO_OVERHEAD else UDP_IPV4_OVERHEAD)"

lemma default_mtu_values:
  "utp_default_get_udp_mtu address \<in> {1232, 1402}" "utp_default_get_udp_overhead address \<in> {76, 28}"
  by (simp_all add: utp_default_get_udp_mtu_def utp_default_get_udp_overhead_def UDP_TEREDO_MTU_def
      UDP_IPV4_MTU_def UDP_TEREDO_OVERHEAD_def UDP_IPV4_OVERHEAD_def UDP_IPV6_OVERHEAD_def header_sizes)

subsection \<open>The clock never goes back\<close>

lemma UTP_GetMicroseconds_spec:
  assumes "UTP_GetMicroseconds c raw = (now, c')"
  shows "clock_previous c \<le> now" and "clock_previous c' = now" and "now = raw + clock_offset c'"
  using assms by (auto simp: UTP_GetMicroseconds_def Let_def not_less split: if_splits)

lemma clock_run_sorted: "sorted (clock_previous c # clock_run c raws)"
proof (induction raws arbitrary: c)
  case (Cons raw raws)
  obtain now c' where step: "UTP_GetMicroseconds c raw = (now, c')" by (cases "UTP_GetMicroseconds c raw")
  note s = UTP_GetMicroseconds_spec [OF step]
  show ?case using Cons.IH [of c'] s(1,2) by (auto simp: step)
qed simp

text \<open>A reading that does not go back, of a run that starts where the last one ended, adds up.\<close>

lemma UTP_GetMicroseconds_advance:
  assumes "UTP_GetMicroseconds c raw = (now, c')" and "unat now + unat d < 2 ^ 64"
  shows "fst (UTP_GetMicroseconds c' (raw + d)) = now + d"
proof -
  note s = UTP_GetMicroseconds_spec [OF assms(1)]
  have "raw + d + clock_offset c' = now + d" using s(3) by simp
  moreover have "\<not> now + d < now"
    using assms(2) by (simp add: word_less_nat_alt unat_word_ariths)
  ultimately show ?thesis by (simp only: UTP_GetMicroseconds_def Let_def s(2) if_False fst_conv)
qed

text \<open>C34: whatever the operating system's clock returns, also when it jumps back, the times the
  library sees never decrease; and after any such history a reading that is \<open>d\<close> microseconds
  later than the previous one advances the library's clock by exactly \<open>d\<close>.\<close>

theorem clock_monotonic:
  assumes "UTP_GetMicroseconds c raw = (now, c')" and "unat now + unat d < 2 ^ 64"
  shows "sorted (clock_run utp_clock_init raws) \<and> sorted (now # clock_run c' raws) \<and>
         fst (UTP_GetMicroseconds c' (raw + d)) = now + d"
  using clock_run_sorted [of utp_clock_init raws] clock_run_sorted [of c' raws]
    UTP_GetMicroseconds_spec(2) [OF assms(1)] UTP_GetMicroseconds_advance [OF assms]
  by simp

text \<open>The system clock jumps from 900 back to 500; 100 microseconds later the library reads 1000.\<close>

theorem clock_monotonic_witness:
  "sorted (clock_run utp_clock_init [700, 900, 500, 600]) \<and>
   sorted (900 # clock_run \<lparr>clock_offset = 400, clock_previous = 900\<rparr> [700, 900, 500, 600]) \<and>
   fst (UTP_GetMicroseconds \<lparr>clock_offset = 400, clock_previous = 900\<rparr> (500 + 100)) = 900 + 100"
  by (rule clock_monotonic [of "\<lparr>clock_offset = 0, clock_previous = 900\<rparr>" 500])
    (simp_all add: UTP_GetMicroseconds_def)

end
