(* ===== verification/Utp_Context.thy ===== *)
theory Utp_Context
  imports Utp_Types Utp_Clock
begin

section \<open>Contexts, callbacks and the list of pending acks\<close>

text \<open>
  \<^verbatim>\<open>utp_callbacks.cpp\<close>, the context part of \<^verbatim>\<open>utp_api.cpp\<close>, the \<^verbatim>\<open>Array\<close> template of
  \<^verbatim>\<open>utp_templates.h\<close> as it is used, the packet counters, and the list \<^verbatim>\<open>ack_sockets\<close> of
  the sockets with a deferred ack: a socket stores its position in the list in \<^verbatim>\<open>ida\<close>, and
  leaves the list by moving the last element into its place.
\<close>

subsection \<open>Callbacks\<close>

definition utp_call :: "cb_name \<Rightarrow> utp_callback_arguments \<Rightarrow> utp_context \<Rightarrow> uint64 \<times> utp_context" where
  "utp_call name args ctx = (case callbacks ctx name of
      None \<Rightarrow> (0, ctx)
    | Some proc \<Rightarrow> (proc (length (calls ctx)) args, ctx\<lparr>calls := calls ctx @ [args]\<rparr>))"

definition utp_call_on_firewall :: "utp_context \<Rightarrow> SOCKADDR_STORAGE \<Rightarrow> nat \<Rightarrow> int \<times> utp_context" where
  "utp_call_on_firewall ctx address address_len =
     (let (r, ctx') = utp_call UTP_ON_FIREWALL (On_Firewall address address_len) ctx in (as_int r, ctx'))"

definition utp_call_on_accept :: "utp_context \<Rightarrow> sid \<Rightarrow> SOCKADDR_STORAGE \<Rightarrow> nat \<Rightarrow> utp_context" where
  "utp_call_on_accept ctx socket address address_len =
     snd (utp_call UTP_ON_ACCEPT (On_Accept socket address address_len) ctx)"

definition utp_call_on_connect :: "utp_context \<Rightarrow> sid \<Rightarrow> utp_context" where
  "utp_call_on_connect ctx socket = snd (utp_call UTP_ON_CONNECT (On_Connect socket) ctx)"

definition utp_call_on_error :: "utp_context \<Rightarrow> sid \<Rightarrow> utp_error \<Rightarrow> utp_context" where
  "utp_call_on_error ctx socket error_code = snd (utp_call UTP_ON_ERROR (On_Error socket error_code) ctx)"

definition utp_call_on_read :: "utp_context \<Rightarrow> sid \<Rightarrow> byte list \<Rightarrow> utp_context" where
  "utp_call_on_read ctx socket buf = snd (utp_call UTP_ON_READ (On_Read socket buf) ctx)"

definition utp_call_on_overhead_statistics ::
    "utp_context \<Rightarrow> sid \<Rightarrow> bool \<Rightarrow> size_t \<Rightarrow> bandwidth_type_t \<Rightarrow> utp_context" where
  "utp_call_on_overhead_statistics ctx socket send len type =
     snd (utp_call UTP_ON_OVERHEAD_STATISTICS (On_Overhead_Statistics socket send len type) ctx)"

definition utp_call_on_delay_sample :: "utp_context \<Rightarrow> sid \<Rightarrow> int \<Rightarrow> utp_context" where
  "utp_call_on_delay_sample ctx socket sample_ms =
     snd (utp_call UTP_ON_DELAY_SAMPLE (On_Delay_Sample socket sample_ms) ctx)"

definition utp_call_on_state_change :: "utp_context \<Rightarrow> sid \<Rightarrow> utp_state \<Rightarrow> utp_context" where
  "utp_call_on_state_change ctx socket st = snd (utp_call UTP_ON_STATE_CHANGE (On_State_Change socket st) ctx)"

definition utp_call_get_udp_mtu ::
    "utp_context \<Rightarrow> sid \<Rightarrow> SOCKADDR_STORAGE \<Rightarrow> nat \<Rightarrow> uint16 \<times> utp_context" where
  "utp_call_get_udp_mtu ctx socket address address_len =
     (let (r, ctx') = utp_call UTP_GET_UDP_MTU (Get_Udp_Mtu socket address address_len) ctx in (ucast r, ctx'))"

definition utp_call_get_udp_overhead ::
    "utp_context \<Rightarrow> sid \<Rightarrow> SOCKADDR_STORAGE \<Rightarrow> nat \<Rightarrow> uint16 \<times> utp_context" where
  "utp_call_get_udp_overhead ctx socket address address_len =
     (let (r, ctx') = utp_call UTP_GET_UDP_OVERHEAD (Get_Udp_Overhead socket address address_len) ctx
      in (ucast r, ctx'))"

definition utp_call_get_milliseconds :: "utp_context \<Rightarrow> sid option \<Rightarrow> uint64 \<times> utp_context" where
  "utp_call_get_milliseconds ctx socket = utp_call UTP_GET_MILLISECONDS (Get_Milliseconds socket) ctx"

definition utp_call_get_microseconds :: "utp_context \<Rightarrow> sid option \<Rightarrow> uint64 \<times> utp_context" where
  "utp_call_get_microseconds ctx socket = utp_call UTP_GET_MICROSECONDS (Get_Microseconds socket) ctx"

definition utp_call_get_random :: "utp_context \<Rightarrow> sid option \<Rightarrow> uint32 \<times> utp_context" where
  "utp_call_get_random ctx socket =
     (let (r, ctx') = utp_call UTP_GET_RANDOM (Get_Random socket) ctx in (ucast r, ctx'))"

definition utp_call_get_read_buffer_size :: "utp_context \<Rightarrow> sid \<Rightarrow> size_t \<times> utp_context" where
  "utp_call_get_read_buffer_size ctx socket =
     utp_call UTP_GET_READ_BUFFER_SIZE (Get_Read_Buffer_Size socket) ctx"

definition utp_call_log :: "utp_context \<Rightarrow> sid option \<Rightarrow> utp_context" where
  "utp_call_log ctx socket = snd (utp_call UTP_LOG (Log_Line socket) ctx)"

definition utp_call_sendto ::
    "utp_context \<Rightarrow> sid option \<Rightarrow> byte list \<Rightarrow> SOCKADDR_STORAGE \<Rightarrow> nat \<Rightarrow> uint32 \<Rightarrow> utp_context" where
  "utp_call_sendto ctx socket buf address address_len flags =
     snd (utp_call UTP_SENDTO (Sendto socket buf address address_len flags) ctx)"

lemmas utp_call_defs = utp_call_on_firewall_def utp_call_on_accept_def utp_call_on_connect_def
  utp_call_on_error_def utp_call_on_read_def utp_call_on_overhead_statistics_def
  utp_call_on_delay_sample_def utp_call_on_state_change_def utp_call_get_udp_mtu_def
  utp_call_get_udp_overhead_def utp_call_get_milliseconds_def utp_call_get_microseconds_def
  utp_call_get_random_def utp_call_get_read_buffer_size_def utp_call_log_def utp_call_sendto_def

text \<open>A callback only adds to the trace.\<close>

lemma utp_call_eq: "snd (utp_call name args ctx) = ctx\<lparr>calls := calls (snd (utp_call name args ctx))\<rparr>"
  by (simp add: utp_call_def split: option.splits)

subsection \<open>Logging, counters and sending\<close>

datatype log_level = UTP_LOG_NORMAL | UTP_LOG_MTU | UTP_LOG_DEBUG

fun would_log :: "utp_context \<Rightarrow> log_level \<Rightarrow> bool" where
  "would_log ctx UTP_LOG_NORMAL = log_normal ctx"
| "would_log ctx UTP_LOG_MTU = log_mtu ctx"
| "would_log ctx UTP_LOG_DEBUG = log_debug ctx"

text \<open>\<^verbatim>\<open>UTPSocket::log\<close> and \<^verbatim>\<open>log_unchecked\<close>; the text of the message is not represented.\<close>

definition utp_log :: "log_level \<Rightarrow> sid option \<Rightarrow> utp_context \<Rightarrow> utp_context" where
  "utp_log level socket ctx = (if \<not> would_log ctx level then ctx else utp_call_log ctx socket)"

definition PACKET_SIZE_EMPTY :: size_t where "PACKET_SIZE_EMPTY = 23"
definition PACKET_SIZE_SMALL :: size_t where "PACKET_SIZE_SMALL = 373"
definition PACKET_SIZE_MID :: size_t where "PACKET_SIZE_MID = 723"
definition PACKET_SIZE_BIG :: size_t where "PACKET_SIZE_BIG = 1400"

definition packet_bucket :: "size_t \<Rightarrow> nat" where
  "packet_bucket len =
     (if len \<le> PACKET_SIZE_MID then
        if len \<le> PACKET_SIZE_EMPTY then 0 else if len \<le> PACKET_SIZE_SMALL then 1 else 2
      else if len \<le> PACKET_SIZE_BIG then 3 else 4)"

definition utp_register_sent_packet :: "utp_context \<Rightarrow> size_t \<Rightarrow> utp_context" where
  "utp_register_sent_packet ctx len = (let b = packet_bucket len in
     ctx\<lparr>nraw_send := (nraw_send ctx)[b := nraw_send ctx ! b + 1]\<rparr>)"

definition utp_register_recv_packet :: "utp_context \<Rightarrow> size_t \<Rightarrow> utp_context" where
  "utp_register_recv_packet ctx len = (let b = packet_bucket len in
     ctx\<lparr>nraw_recv := (nraw_recv ctx)[b := nraw_recv ctx ! b + 1]\<rparr>)"

definition send_to_addr ::
    "utp_context \<Rightarrow> sid option \<Rightarrow> byte list \<Rightarrow> PackedSockAddr \<Rightarrow> uint32 \<Rightarrow> utp_context" where
  "send_to_addr ctx socket p a flags = (
     let (to, tolen) = psa_get_sockaddr_storage a;
         ctx1 = utp_register_sent_packet ctx (of_nat (length p))
     in utp_call_sendto ctx1 socket p to tolen flags)"

lemma packet_bucket_less: "packet_bucket l < 5"
  by (simp add: packet_bucket_def)

subsection \<open>Arrays\<close>

text \<open>\<^verbatim>\<open>Array::operator[]\<close> and \<^verbatim>\<open>MoveUpLast\<close>; a read behind \<^verbatim>\<open>count\<close> is a fault.\<close>

definition array_at :: "'a list \<Rightarrow> nat \<Rightarrow> 'a option" where
  "array_at xs i = (if i < length xs then Some (xs ! i) else None)"

definition MoveUpLast :: "'a list \<Rightarrow> nat \<Rightarrow> ('a list \<times> bool) option" where
  "MoveUpLast xs index = do {
     cassert (index < length xs);
     let c = length xs - 1;
     if index \<noteq> c then Some (take c (xs[index := xs ! c]), True) else Some (take c xs, False)
   }"

lemma MoveUpLast_set:
  assumes "i < length xs" and "distinct xs"
  shows "wpo (MoveUpLast xs i) (\<lambda>(ys, _). distinct ys \<and> set ys = set xs - {xs ! i} \<and>
           Suc (length ys) = length xs)"
proof -
  obtain ys y where xs: "xs = ys @ [y]" using assms(1) by (cases xs rule: rev_cases) auto
  have y: "y \<notin> set ys" and ys: "distinct ys" using assms(2) by (simp_all add: xs)
  show ?thesis
  proof (cases "i = length ys")
    case True
    then show ?thesis using y ys by (simp add: MoveUpLast_def xs)
  next
    case False
    then have i: "i < length ys" using assms(1) by (simp add: xs)
    then have "set (ys[i := y]) = insert y (set ys - {ys ! i})" by (rule set_update_distinct [OF ys])
    moreover have "y \<noteq> ys ! i" using y i by auto
    moreover have "distinct (ys[i := y])" using ys y by (intro distinct_list_update) auto
    ultimately show ?thesis
      using i False y by (auto simp: MoveUpLast_def xs list_update_append nth_append)
  qed
qed

subsection \<open>The list of sockets with a pending ack\<close>

definition schedule_ack :: "sid \<Rightarrow> utp_context \<Rightarrow> utp_context" where
  "schedule_ack conn ctx =
     (if ida ctx conn = - 1
      then ctx\<lparr>ida := (ida ctx)(conn := int (length (ack_sockets ctx))),
               ack_sockets := ack_sockets ctx @ [conn]\<rparr>
      else ctx)"

definition removeSocketFromAckList :: "sid \<Rightarrow> utp_context \<Rightarrow> utp_context option" where
  "removeSocketFromAckList conn ctx =
     (if 0 \<le> ida ctx conn then do {
        let n = length (ack_sockets ctx);
        cassert (0 < n);
        last \<leftarrow> array_at (ack_sockets ctx) (n - 1);
        cassert (ida ctx last < int n);
        cassert (0 \<le> ida ctx last);
        x \<leftarrow> array_at (ack_sockets ctx) (nat (ida ctx last));
        cassert (x = last);
        let ctx1 = ctx\<lparr>ida := (ida ctx)(last := ida ctx conn)\<rparr>;
        cassert (nat (ida ctx1 conn) < n);
        let ctx2 = ctx1\<lparr>ack_sockets := (ack_sockets ctx1)[nat (ida ctx1 conn) := last]\<rparr>;
        let ctx3 = ctx2\<lparr>ida := (ida ctx2)(conn := - 1)\<rparr>;
        Some (ctx3\<lparr>ack_sockets := take (n - 1) (ack_sockets ctx3)\<rparr>)
      } else Some ctx)"

text \<open>\<open>ida\<close> is the inverse of the list.\<close>

definition ack_ok :: "utp_context \<Rightarrow> bool" where
  "ack_ok ctx \<longleftrightarrow> (\<forall>s. - 1 \<le> ida ctx s) \<and>
     (\<forall>s i. ida ctx s = int i \<longleftrightarrow> i < length (ack_sockets ctx) \<and> ack_sockets ctx ! i = s)"

lemma ack_ok_mem: "ack_ok ctx \<Longrightarrow> s \<in> set (ack_sockets ctx) \<longleftrightarrow> 0 \<le> ida ctx s"
  by (auto simp: ack_ok_def in_set_conv_nth) (metis nonneg_int_cases of_nat_0_le_iff)+

lemma ack_ok_distinct: "ack_ok ctx \<Longrightarrow> distinct (ack_sockets ctx)"
  unfolding ack_ok_def distinct_conv_nth by (metis of_nat_eq_iff)

lemma schedule_ack_spec:
  assumes "ack_ok ctx"
  shows "ack_ok (schedule_ack conn ctx) \<and>
         set (ack_sockets (schedule_ack conn ctx)) = insert conn (set (ack_sockets ctx))"
proof (cases "ida ctx conn = - 1")
  case True
  then have new: "conn \<notin> set (ack_sockets ctx)" using ack_ok_mem [OF assms, of conn] by simp
  have "ack_ok (schedule_ack conn ctx)"
    unfolding ack_ok_def
  proof (intro conjI allI)
    fix s i
    show "- 1 \<le> ida (schedule_ack conn ctx) s"
      using assms by (simp add: schedule_ack_def ack_ok_def)
    show "(ida (schedule_ack conn ctx) s = int i) =
        (i < length (ack_sockets (schedule_ack conn ctx)) \<and> ack_sockets (schedule_ack conn ctx) ! i = s)"
    proof (cases "s = conn")
      case s: True
      have "ack_sockets ctx ! i \<noteq> conn" if "i < length (ack_sockets ctx)"
        using new that by (metis nth_mem)
      then show ?thesis using True s by (auto simp: schedule_ack_def nth_append)
    next
      case False
      then show ?thesis using True assms by (auto simp: schedule_ack_def ack_ok_def nth_append less_Suc_eq)
    qed
  qed
  then show ?thesis using True by (simp add: schedule_ack_def)
next
  case False
  then have "0 \<le> ida ctx conn" using assms by (metis ack_ok_def add.inverse_inverse add_left_mono linorder_not_less minus_le_iff not_less_iff_gr_or_eq zle_add1_eq_le add.left_inverse)
  then show ?thesis using False assms by (simp add: schedule_ack_def ack_ok_mem insert_absorb)
qed

lemma ack_ok_nth:
  assumes "ack_ok ctx" and "i < length (ack_sockets ctx)"
  shows "ida ctx (ack_sockets ctx ! i) = int i"
  using assms by (simp add: ack_ok_def)

lemma ack_ok_ida:
  assumes "ack_ok ctx" and "0 \<le> ida ctx s"
  shows "nat (ida ctx s) < length (ack_sockets ctx) \<and> ack_sockets ctx ! nat (ida ctx s) = s"
proof -
  have "ida ctx s = int (nat (ida ctx s))" using assms(2) by simp
  then show ?thesis using assms(1) unfolding ack_ok_def by blast
qed

lemma removeSocketFromAckList_spec:
  assumes ok: "ack_ok ctx"
  shows "wpo (removeSocketFromAckList conn ctx) (\<lambda>ctx'. ack_ok ctx' \<and>
           set (ack_sockets ctx') = set (ack_sockets ctx) - {conn} \<and>
           ctx' = ctx\<lparr>ida := ida ctx', ack_sockets := ack_sockets ctx'\<rparr>)"
proof (cases "0 \<le> ida ctx conn")
  case True
  let ?l = "ack_sockets ctx"
  define n where "n = length ?l"
  define k where "k = nat (ida ctx conn)"
  define lst where "lst = ?l ! (n - 1)"
  have k: "k < n" "?l ! k = conn" "ida ctx conn = int k"
    using ack_ok_ida [OF ok True] True by (simp_all add: k_def n_def)
  have n0: "0 < n" using k(1) by linarith
  have n: "0 < n" "ida ctx lst = int (n - 1)"
    using n0 ack_ok_nth [OF ok, of "n - 1"] unfolding lst_def n_def by simp_all
  have d: "?l ! i = ?l ! j \<longleftrightarrow> i = j" if "i < n" "j < n" for i j
    using ack_ok_distinct [OF ok] that by (simp add: nth_eq_iff_index_eq n_def)
  define ctx' where "ctx' = ctx\<lparr>ida := (ida ctx)(lst := int k, conn := - 1),
                                ack_sockets := take (n - 1) (?l[k := lst])\<rparr>"
  have run: "removeSocketFromAckList conn ctx = Some ctx'"
  proof -
    have "nat (ida ctx lst) = n - 1" using n by simp
    moreover have "array_at ?l (n - 1) = Some lst" using n0 by (simp add: array_at_def lst_def n_def)
    ultimately show ?thesis
      using True n k
      by (simp add: removeSocketFromAckList_def n_def [symmetric] ctx'_def Let_def)
  qed
  have nth': "ack_sockets ctx' ! i = (if i = k then lst else ?l ! i)" if "i < n - 1" for i
    using that k(1) by (simp add: ctx'_def nth_list_update n_def)
  have len': "length (ack_sockets ctx') = n - 1" by (simp add: ctx'_def n_def)
  have "ack_ok ctx'"
    unfolding ack_ok_def len'
  proof (intro conjI allI)
    fix s i
    show "- 1 \<le> ida ctx' s" using ok by (simp add: ctx'_def ack_ok_def)
    consider "s = conn" | "s \<noteq> conn" "s = lst" | "s \<noteq> conn" "s \<noteq> lst" by blast
    then show "(ida ctx' s = int i) = (i < n - 1 \<and> ack_sockets ctx' ! i = s)"
    proof cases
      case 1
      have "ack_sockets ctx' ! i \<noteq> conn" if "i < n - 1"
        using that d [of i k] d [of "n - 1" k] k n by (auto simp: nth' lst_def)
      then show ?thesis using 1 by (auto simp: ctx'_def)
    next
      case 2
      have "k \<noteq> n - 1" using 2 k(2) by (auto simp: lst_def)
      then have kn: "k < n - 1" using k(1) by linarith
      have "ack_sockets ctx' ! i = lst \<longleftrightarrow> i = k" if "i < n - 1"
        using that d [of i "n - 1"] by (auto simp: nth' lst_def)
      then show ?thesis using 2 kn by (auto simp: ctx'_def)
    next
      case 3
      have "ida ctx s = int i \<longleftrightarrow> i < n \<and> ?l ! i = s" using ok by (simp add: ack_ok_def n_def)
      also have "\<dots> \<longleftrightarrow> i < n - 1 \<and> ack_sockets ctx' ! i = s"
        using 3 k(2) n(1) by (cases "i = n - 1") (auto simp: nth' lst_def)
      finally show ?thesis using 3 by (simp add: ctx'_def)
    qed
  qed
  moreover have "set (ack_sockets ctx') = set ?l - {conn}"
  proof -
    have "s \<in> set (ack_sockets ctx') \<longleftrightarrow> s \<in> set ?l - {conn}" for s
      using ack_ok_mem [OF \<open>ack_ok ctx'\<close>, of s] ack_ok_mem [OF ok, of s] n k
      by (auto simp: ctx'_def split: if_splits)
    then show ?thesis by blast
  qed
  ultimately show ?thesis by (simp add: run) (simp add: ctx'_def)
next
  case False
  then have "conn \<notin> set (ack_sockets ctx)" using ack_ok_mem [OF ok] by simp
  then show ?thesis using False ok by (simp add: removeSocketFromAckList_def)
qed

subsubsection \<open>The interface of the pending acks\<close>

text \<open>What the socket operations rely on: the list is a set of sockets.\<close>

datatype ack_op = Schedule sid | Unschedule sid

fun pending_op :: "ack_op \<Rightarrow> sid set \<Rightarrow> sid set" where
  "pending_op (Schedule s) P = insert s P"
| "pending_op (Unschedule s) P = P - {s}"

fun run_ack_ops :: "(sid \<Rightarrow> 't \<Rightarrow> 't) \<Rightarrow> (sid \<Rightarrow> 't \<Rightarrow> 't option) \<Rightarrow> ack_op list \<Rightarrow> 't \<Rightarrow> 't option" where
  "run_ack_ops sched rem [] t = Some t"
| "run_ack_ops sched rem (Schedule s # ops) t = run_ack_ops sched rem ops (sched s t)"
| "run_ack_ops sched rem (Unschedule s # ops) t = Option.bind (rem s t) (run_ack_ops sched rem ops)"

locale pending_acks =
  fixes ok :: "'t \<Rightarrow> bool" and pending :: "'t \<Rightarrow> sid set"
    and sched :: "sid \<Rightarrow> 't \<Rightarrow> 't" and rem :: "sid \<Rightarrow> 't \<Rightarrow> 't option"
  assumes sched_ok: "ok t \<Longrightarrow> ok (sched s t)"
    and pending_sched: "ok t \<Longrightarrow> pending (sched s t) = insert s (pending t)"
    and rem_spec: "ok t \<Longrightarrow> wpo (rem s t) (\<lambda>t'. ok t' \<and> pending t' = pending t - {s})"
begin

lemma run_pending:
  assumes "ok t"
  shows "wpo (run_ack_ops sched rem ops t) (\<lambda>t'. ok t' \<and> pending t' = fold pending_op ops (pending t))"
  using assms
proof (induction ops arbitrary: t)
  case (Cons op ops)
  show ?case
  proof (cases op)
    case (Schedule s)
    then show ?thesis using Cons.IH [of "sched s t"] Cons.prems by (simp add: sched_ok pending_sched)
  next
    case (Unschedule s)
    have "wpo (run_ack_ops sched rem ops t') (\<lambda>t''. ok t'' \<and> pending t'' = fold pending_op (op # ops) (pending t))"
      if "ok t' \<and> pending t' = pending t - {s}" for t'
      using Cons.IH [of t'] that by (simp add: Unschedule)
    from wpo_mono [OF rem_spec [OF Cons.prems, of s] this] show ?thesis
      by (simp add: Unschedule wpo_bind)
  qed
qed simp

end

interpretation al: pending_acks ack_ok "\<lambda>ctx. set (ack_sockets ctx)" schedule_ack removeSocketFromAckList
proof unfold_locales
  fix t s
  assume ok: "ack_ok t"
  show "ack_ok (schedule_ack s t)" "set (ack_sockets (schedule_ack s t)) = insert s (set (ack_sockets t))"
    using schedule_ack_spec [OF ok] by blast+
  show "wpo (removeSocketFromAckList s t)
      (\<lambda>t'. ack_ok t' \<and> set (ack_sockets t') = set (ack_sockets t) - {s})"
    by (rule wpo_mono [OF removeSocketFromAckList_spec [OF ok]]) blast
qed

subsection \<open>Creation and options of a context\<close>

definition CCONTROL_TARGET :: size_t where "CCONTROL_TARGET = 100 * 1000"

text \<open>
  The default callbacks read the clock and the random number generator of the system; their
  answers are the arguments \<open>now_us\<close> and \<open>rnd\<close>, indexed like every callback's answer.
\<close>

definition default_callbacks ::
    "(nat \<Rightarrow> uint64) \<Rightarrow> (nat \<Rightarrow> uint64) \<Rightarrow> cb_name \<Rightarrow> utp_callback_t option" where
  "default_callbacks now_us rnd = (\<lambda>_. None)(
     UTP_GET_UDP_MTU \<mapsto> (\<lambda>_ args. case args of Get_Udp_Mtu _ a _ \<Rightarrow> utp_default_get_udp_mtu a | _ \<Rightarrow> 0),
     UTP_GET_UDP_OVERHEAD \<mapsto>
       (\<lambda>_ args. case args of Get_Udp_Overhead _ a _ \<Rightarrow> utp_default_get_udp_overhead a | _ \<Rightarrow> 0),
     UTP_GET_MILLISECONDS \<mapsto> (\<lambda>i _. now_us i div 1000),
     UTP_GET_MICROSECONDS \<mapsto> (\<lambda>i _. now_us i),
     UTP_GET_RANDOM \<mapsto> (\<lambda>i _. rnd i))"

definition utp_context_new :: "(nat \<Rightarrow> uint64) \<Rightarrow> (nat \<Rightarrow> uint64) \<Rightarrow> utp_context option" where
  "utp_context_new now_us rnd = do {
     ht \<leftarrow> UTPSocketHT_new;
     Some \<lparr>callbacks = default_callbacks now_us rnd, calls = [], ctx_userdata = 0, current_ms = 0,
       nraw_recv = replicate 5 0, nraw_send = replicate 5 0, last_utp_socket = None,
       ack_sockets = [], rst_info = [], utp_sockets = ht, ctx_target_delay = CCONTROL_TARGET,
       ctx_opt_sndbuf = 1024 * 1024, ctx_opt_rcvbuf = 1024 * 1024, last_check = 0,
       log_normal = False, log_mtu = False, log_debug = False, ida = (\<lambda>_. - 1), socks = (\<lambda>_. None)\<rparr>
   }"

definition utp_init :: "int \<Rightarrow> (nat \<Rightarrow> uint64) \<Rightarrow> (nat \<Rightarrow> uint64) \<Rightarrow> utp_context option" where
  "utp_init version now_us rnd = do { cassert (version = 2); utp_context_new now_us rnd }"

definition utp_set_callback :: "utp_context \<Rightarrow> cb_name \<Rightarrow> utp_callback_t option \<Rightarrow> utp_context" where
  "utp_set_callback ctx callback_name proc = ctx\<lparr>callbacks := (callbacks ctx)(callback_name := proc)\<rparr>"

definition utp_context_set_userdata :: "utp_context \<Rightarrow> uint64 \<Rightarrow> utp_context \<times> uint64" where
  "utp_context_set_userdata ctx u = (ctx\<lparr>ctx_userdata := u\<rparr>, u)"

definition utp_context_get_userdata :: "utp_context \<Rightarrow> uint64" where
  "utp_context_get_userdata ctx = ctx_userdata ctx"

datatype utp_option =
  OPT_LOG_NORMAL | OPT_LOG_MTU | OPT_LOG_DEBUG | OPT_SNDBUF | OPT_RCVBUF | OPT_TARGET_DELAY | OPT_OTHER

definition utp_context_set_option :: "utp_context \<Rightarrow> utp_option \<Rightarrow> int \<Rightarrow> (int \<times> utp_context) option" where
  "utp_context_set_option ctx opt val = (case opt of
      OPT_LOG_NORMAL \<Rightarrow> Some (0, ctx\<lparr>log_normal := val \<noteq> 0\<rparr>)
    | OPT_LOG_MTU \<Rightarrow> Some (0, ctx\<lparr>log_mtu := val \<noteq> 0\<rparr>)
    | OPT_LOG_DEBUG \<Rightarrow> Some (0, ctx\<lparr>log_debug := val \<noteq> 0\<rparr>)
    | OPT_TARGET_DELAY \<Rightarrow> Some (0, ctx\<lparr>ctx_target_delay := word_of_int val\<rparr>)
    | OPT_SNDBUF \<Rightarrow> do { cassert (1 \<le> val); Some (0, ctx\<lparr>ctx_opt_sndbuf := word_of_int val\<rparr>) }
    | OPT_RCVBUF \<Rightarrow> do { cassert (1 \<le> val); Some (0, ctx\<lparr>ctx_opt_rcvbuf := word_of_int val\<rparr>) }
    | OPT_OTHER \<Rightarrow> Some (- 1, ctx))"

definition utp_context_get_option :: "utp_context \<Rightarrow> utp_option \<Rightarrow> int" where
  "utp_context_get_option ctx opt = (case opt of
      OPT_LOG_NORMAL \<Rightarrow> (if log_normal ctx then 1 else 0)
    | OPT_LOG_MTU \<Rightarrow> (if log_mtu ctx then 1 else 0)
    | OPT_LOG_DEBUG \<Rightarrow> (if log_debug ctx then 1 else 0)
    | OPT_TARGET_DELAY \<Rightarrow> as_int (ctx_target_delay ctx)
    | OPT_SNDBUF \<Rightarrow> as_int (ctx_opt_sndbuf ctx)
    | OPT_RCVBUF \<Rightarrow> as_int (ctx_opt_rcvbuf ctx)
    | OPT_OTHER \<Rightarrow> - 1)"

lemma utp_context_new_spec:
  "wpo (utp_context_new now_us rnd) (\<lambda>ctx. ack_ok ctx \<and> ack_sockets ctx = [] \<and>
     hash_ok (utp_sockets ctx) \<and> hash_abs (utp_sockets ctx) = Map.empty)"
  unfolding utp_context_new_def wpo_bind
  by (rule wpo_mono [OF UTPSocketHT_new_spec]) (simp add: ack_ok_def)

text \<open>A context with the default callbacks, a clock that ticks once per callback and no socket.\<close>

definition example_context :: utp_context where
  "example_context = \<lparr>callbacks = default_callbacks (\<lambda>i. of_nat i * 1000) (\<lambda>i. of_nat i), calls = [],
     ctx_userdata = 0, current_ms = 0, nraw_recv = replicate 5 0, nraw_send = replicate 5 0,
     last_utp_socket = None, ack_sockets = [], rst_info = [],
     utp_sockets = \<lparr>hash_N = 79, hash_count = 0, hash_compute = key_compute_hash, hash_equal = key_eq,
       hash_allocated = 15, hash_used = 0, hash_free = LIBUTP_HASH_UNUSED,
       hash_inits = replicate 80 LIBUTP_HASH_UNUSED, hash_entries = []\<rparr>,
     ctx_target_delay = CCONTROL_TARGET, ctx_opt_sndbuf = 1024 * 1024, ctx_opt_rcvbuf = 1024 * 1024,
     last_check = 0, log_normal = False, log_mtu = False, log_debug = False, ida = (\<lambda>_. - 1),
     socks = (\<lambda>_. None)\<rparr>"

lemma example_context_new:
  "utp_init 2 (\<lambda>i. of_nat i * 1000) (\<lambda>i. of_nat i) = Some example_context"
  by (simp add: utp_init_def utp_context_new_def UTPSocketHT_new_def utp_hash_create_def
      example_context_def UTP_SOCKET_BUCKETS_def UTP_SOCKET_INIT_def)

text \<open>C12: from a new context on, any sequence of scheduling a deferred ack and removing a socket
  from the list of pending acks runs without tripping an assertion or leaving the array, and the
  list holds exactly the sockets that are pending, each of them once and at the position it
  remembers.\<close>

theorem ack_list_is_pending_set:
  "wpo (do { ctx \<leftarrow> utp_init 2 now_us rnd; run_ack_ops schedule_ack removeSocketFromAckList ops ctx })
     (\<lambda>ctx. set (ack_sockets ctx) = fold pending_op ops {} \<and> distinct (ack_sockets ctx) \<and>
            map (ida ctx) (ack_sockets ctx) = map int [0..<length (ack_sockets ctx)])"
proof -
  have "wpo (utp_init 2 now_us rnd) (\<lambda>ctx. ack_ok ctx \<and> ack_sockets ctx = [])"
    unfolding utp_init_def wpo_bind wpo_cassert
    by (simp, rule wpo_mono [OF utp_context_new_spec]) blast
  moreover have "wpo (run_ack_ops schedule_ack removeSocketFromAckList ops ctx)
     (\<lambda>ctx. set (ack_sockets ctx) = fold pending_op ops {} \<and> distinct (ack_sockets ctx) \<and>
            map (ida ctx) (ack_sockets ctx) = map int [0..<length (ack_sockets ctx)])"
    if "ack_ok ctx \<and> ack_sockets ctx = []" for ctx
    using that by (intro wpo_mono [OF al.run_pending [of ctx ops]])
      (auto simp: ack_ok_nth ack_ok_distinct intro: nth_equalityI)
  ultimately show ?thesis unfolding wpo_bind by (rule wpo_mono)
qed

end
