(* ===== verification/Utp_Mtu.thy ===== *)
theory Utp_Mtu
  imports Utp_Context
begin

section \<open>Path MTU discovery\<close>

text \<open>
  \<^verbatim>\<open>mtu_reset\<close>, \<^verbatim>\<open>mtu_search_update\<close>, the reactions to the fate of a probe and to an ICMP
  report, and \<^verbatim>\<open>get_packet_size\<close>. A socket searches for the largest UDP payload that passes
  between \<open>mtu_floor\<close> (known to pass) and \<open>mtu_ceiling\<close> by bisection, one probe in flight at a time.
\<close>

definition MTU_FLOOR_MIN :: uint32 where "MTU_FLOOR_MIN = 576"

subsection \<open>Context changes that only touch the trace\<close>

definition trace_ext :: "utp_context \<Rightarrow> utp_context \<Rightarrow> bool" where
  "trace_ext ctx ctx' \<longleftrightarrow> (\<exists>cs. ctx' = ctx\<lparr>calls := calls ctx @ cs\<rparr>)"

lemma trace_ext_refl [simp, intro]: "trace_ext ctx ctx"
  unfolding trace_ext_def by (rule exI [of _ "[]"]) simp

lemma trace_ext_trans [trans]: "trace_ext a b \<Longrightarrow> trace_ext b c \<Longrightarrow> trace_ext a c"
  unfolding trace_ext_def by (elim exE) (auto intro!: exI)

lemma trace_ext_call [simp]: "trace_ext ctx (snd (utp_call name args ctx))"
  unfolding trace_ext_def utp_call_def
  by (cases "callbacks ctx name") (auto intro: exI [of _ "[]"] exI [of _ "[args]"])

lemma trace_ext_log [simp]: "trace_ext ctx (utp_log level socket ctx)"
  by (simp add: utp_log_def utp_call_log_def)

lemma trace_ext_milliseconds: "utp_call_get_milliseconds ctx s = (t, ctx') \<Longrightarrow> trace_ext ctx ctx'"
  using trace_ext_call [of ctx UTP_GET_MILLISECONDS "Get_Milliseconds s"]
  by (simp add: utp_call_get_milliseconds_def)

lemma trace_ext_microseconds: "utp_call_get_microseconds ctx s = (t, ctx') \<Longrightarrow> trace_ext ctx ctx'"
  using trace_ext_call [of ctx UTP_GET_MICROSECONDS "Get_Microseconds s"]
  by (simp add: utp_call_get_microseconds_def)

lemma trace_ext_fields:
  assumes "trace_ext ctx ctx'"
  shows "callbacks ctx' = callbacks ctx" "current_ms ctx' = current_ms ctx"
    "nraw_recv ctx' = nraw_recv ctx" "nraw_send ctx' = nraw_send ctx"
    "last_utp_socket ctx' = last_utp_socket ctx" "ack_sockets ctx' = ack_sockets ctx"
    "rst_info ctx' = rst_info ctx" "utp_sockets ctx' = utp_sockets ctx" "ida ctx' = ida ctx"
    "socks ctx' = socks ctx"
  using assms by (auto simp: trace_ext_def)

subsection \<open>Operations\<close>

definition get_udp_mtu :: "conn \<Rightarrow> size_t \<times> utp_context" where
  "get_udp_mtu = (\<lambda>(s, ctx).
     let (sa, len) = psa_get_sockaddr_storage (addr s);
         (r, ctx') = utp_call_get_udp_mtu ctx (self s) sa len
     in (ucast r, ctx'))"

definition get_header_size :: size_t where
  "get_header_size = of_nat sizeof_PacketFormatV1"

definition get_packet_size :: "UTPSocket \<Rightarrow> size_t" where
  "get_packet_size s = (
     let header_size = of_nat sizeof_PacketFormatV1;
         mtu = (if mtu_last s \<noteq> 0 then ucast (mtu_last s) else ucast (mtu_ceiling s) :: size_t)
     in mtu - header_size)"

definition mtu_repair :: "conn \<Rightarrow> conn" where
  "mtu_repair = (\<lambda>(s, ctx).
     if mtu_ceiling s < mtu_floor s then
       let s1 = s\<lparr>mtu_ceiling := mtu_floor s\<rparr>;
           s2 = s1\<lparr>mtu_floor := (if MTU_FLOOR_MIN < mtu_ceiling s1
                                 then (MTU_FLOOR_MIN + mtu_ceiling s1) div 2 else mtu_ceiling s1)\<rparr>
       in (s2, utp_log UTP_LOG_MTU (Some (self s)) ctx)
     else (s, ctx))"

definition mtu_search_update :: "conn \<Rightarrow> conn option" where
  "mtu_search_update c = do {
     let (s, ctx) = mtu_repair c;
     cassert (mtu_floor s \<le> mtu_ceiling s);
     let s1 = s\<lparr>mtu_last := (mtu_floor s + mtu_ceiling s) div 2, mtu_probe_size := 0, mtu_probe_seq := 0\<rparr>;
     if mtu_ceiling s1 - mtu_floor s1 \<le> 16 then do {
       let s2 = s1\<lparr>mtu_last := mtu_floor s1\<rparr>;
       let ctx1 = utp_log UTP_LOG_MTU (Some (self s)) ctx;
       let s3 = s2\<lparr>mtu_ceiling := mtu_floor s2\<rparr>;
       cassert (mtu_floor s3 \<le> mtu_ceiling s3);
       let (ms, ctx2) = utp_call_get_milliseconds ctx1 (Some (self s));
       Some (s3\<lparr>mtu_discover_time := ms + 30 * 60 * 1000\<rparr>, ctx2)
     } else Some (s1, ctx)
   }"

definition mtu_reset :: "conn \<Rightarrow> conn option" where
  "mtu_reset = (\<lambda>(s, ctx). do {
     let (mtu, ctx1) = get_udp_mtu (s, ctx);
     let s1 = s\<lparr>mtu_ceiling := ucast mtu, mtu_floor := MTU_FLOOR_MIN\<rparr>;
     let s2 = (if mtu_ceiling s1 < mtu_floor s1 then s1\<lparr>mtu_floor := mtu_ceiling s1\<rparr> else s1);
     let ctx2 = utp_log UTP_LOG_MTU (Some (self s)) ctx1;
     cassert (mtu_floor s2 \<le> mtu_ceiling s2);
     let (ms, ctx3) = utp_call_get_milliseconds ctx2 (Some (self s));
     Some (s2\<lparr>mtu_discover_time := ms + 30 * 60 * 1000\<rparr>, ctx3)
   })"

text \<open>A probe was acked; a probe was lost (three duplicate acks or a timeout).\<close>

definition mtu_probe_acked :: "conn \<Rightarrow> conn option" where
  "mtu_probe_acked = (\<lambda>(s, ctx). do {
     (s1, ctx1) \<leftarrow> mtu_search_update (s\<lparr>mtu_floor := mtu_probe_size s\<rparr>, ctx);
     Some (s1, utp_log UTP_LOG_MTU (Some (self s)) ctx1)
   })"

definition mtu_probe_lost :: "conn \<Rightarrow> conn option" where
  "mtu_probe_lost = (\<lambda>(s, ctx). do {
     (s1, ctx1) \<leftarrow> mtu_search_update (s\<lparr>mtu_ceiling := mtu_probe_size s - 1\<rparr>, ctx);
     Some (s1, utp_log UTP_LOG_MTU (Some (self s)) ctx1)
   })"

text \<open>The socket part of \<^verbatim>\<open>utp_process_icmp_fragmentation\<close>.\<close>

definition mtu_icmp :: "uint16 \<Rightarrow> conn \<Rightarrow> conn option" where
  "mtu_icmp next_hop_mtu = (\<lambda>(s, ctx).
     if 576 \<le> next_hop_mtu \<and> next_hop_mtu < 0x2000 then do {
       (s1, ctx1) \<leftarrow> mtu_search_update (s\<lparr>mtu_ceiling := min (ucast next_hop_mtu) (mtu_ceiling s)\<rparr>, ctx);
       Some (s1\<lparr>mtu_last := mtu_ceiling s1\<rparr>, utp_log UTP_LOG_MTU (Some (self s)) ctx1)
     } else do {
       (s1, ctx1) \<leftarrow> mtu_search_update (s\<lparr>mtu_ceiling := (mtu_floor s + mtu_ceiling s) div 2\<rparr>, ctx);
       Some (s1, utp_log UTP_LOG_MTU (Some (self s)) ctx1)
     })"

subsection \<open>The invariant of the search\<close>

text \<open>
  All sizes lie between a lower bound \<open>L\<close>, which the application's MTU answers respect, and the
  16-bit range. The lower bound leaves room for a header and at least one byte.
\<close>

definition mtu_ok :: "nat \<Rightarrow> UTPSocket \<Rightarrow> bool" where
  "mtu_ok L s \<longleftrightarrow> 20 < L \<and> L \<le> 576 \<and> L \<le> unat (mtu_floor s) \<and> mtu_floor s \<le> mtu_ceiling s \<and>
     unat (mtu_ceiling s) < 2 ^ 16 \<and>
     L \<le> unat (mtu_last s) \<and> unat (mtu_last s) < 2 ^ 16 \<and>
     (mtu_probe_seq s = 0 \<or> L < unat (mtu_probe_size s) \<and> unat (mtu_probe_size s) < 2 ^ 16)"

definition mtu_callback_ok :: "nat \<Rightarrow> utp_context \<Rightarrow> bool" where
  "mtu_callback_ok L ctx \<longleftrightarrow> (\<exists>f. callbacks ctx UTP_GET_UDP_MTU = Some f \<and>
     (\<forall>i sock sa len. L \<le> unat (ucast (f i (Get_Udp_Mtu sock sa len)) :: uint16)))"

text \<open>Which fields of the socket the search changes.\<close>

definition mtu_erase :: "UTPSocket \<Rightarrow> UTPSocket" where
  "mtu_erase s = s\<lparr>mtu_floor := 0, mtu_ceiling := 0, mtu_last := 0, mtu_probe_seq := 0,
     mtu_probe_size := 0, mtu_discover_time := 0\<rparr>"

definition mtu_only :: "UTPSocket \<Rightarrow> UTPSocket \<Rightarrow> bool" where
  "mtu_only s s' \<longleftrightarrow> mtu_erase s' = mtu_erase s"

lemma mtu_only_refl [simp, intro]: "mtu_only s s"
  by (simp add: mtu_only_def)

lemma mtu_only_trans [trans]: "mtu_only a b \<Longrightarrow> mtu_only b c \<Longrightarrow> mtu_only a c"
  by (simp add: mtu_only_def)

lemma mtu_only_update [simp]:
  "mtu_only s (s'\<lparr>mtu_floor := x\<rparr>) = mtu_only s s'" "mtu_only s (s'\<lparr>mtu_ceiling := x\<rparr>) = mtu_only s s'"
  "mtu_only s (s'\<lparr>mtu_last := x\<rparr>) = mtu_only s s'" "mtu_only s (s'\<lparr>mtu_probe_seq := x\<rparr>) = mtu_only s s'"
  "mtu_only s (s'\<lparr>mtu_probe_size := x\<rparr>) = mtu_only s s'"
  "mtu_only s (s'\<lparr>mtu_discover_time := y\<rparr>) = mtu_only s s'"
  "mtu_only (s\<lparr>mtu_floor := x\<rparr>) s' = mtu_only s s'" "mtu_only (s\<lparr>mtu_ceiling := x\<rparr>) s' = mtu_only s s'"
  by (simp_all add: mtu_only_def mtu_erase_def)

lemma mtu_only_fields:
  assumes "mtu_only s s'"
  shows "self s' = self s"
    "addr s' = addr s"
    "cur_window_packets s' = cur_window_packets s"
    "cur_window s' = cur_window s"
    "reorder_count s' = reorder_count s"
    "seq_nr s' = seq_nr s"
    "ack_nr s' = ack_nr s"
    "state s' = state s"
    "inbuf s' = inbuf s"
    "outbuf s' = outbuf s"
    "our_hist s' = our_hist s"
    "their_hist s' = their_hist s"
    "rtt_hist s' = rtt_hist s"
    "extensions s' = extensions s"
proof -
  note e = assms [unfolded mtu_only_def]
  show "self s' = self s"
    "addr s' = addr s"
    "cur_window_packets s' = cur_window_packets s"
    "cur_window s' = cur_window s"
    "reorder_count s' = reorder_count s"
    "seq_nr s' = seq_nr s"
    "ack_nr s' = ack_nr s"
    "state s' = state s"
    "inbuf s' = inbuf s"
    "outbuf s' = outbuf s"
    "our_hist s' = our_hist s"
    "their_hist s' = their_hist s"
    "rtt_hist s' = rtt_hist s"
    "extensions s' = extensions s"
    using arg_cong [OF e, of self]
      arg_cong [OF e, of addr]
      arg_cong [OF e, of cur_window_packets]
      arg_cong [OF e, of cur_window]
      arg_cong [OF e, of reorder_count]
      arg_cong [OF e, of seq_nr]
      arg_cong [OF e, of ack_nr]
      arg_cong [OF e, of state]
      arg_cong [OF e, of inbuf]
      arg_cong [OF e, of outbuf]
      arg_cong [OF e, of our_hist]
      arg_cong [OF e, of their_hist]
      arg_cong [OF e, of rtt_hist]
      arg_cong [OF e, of extensions]
    by (simp_all add: mtu_erase_def)
qed

lemma unat_half_sum:
  fixes a b :: uint32
  assumes "unat a < 2 ^ 16" and "unat b < 2 ^ 16"
  shows "unat ((a + b) div 2) = (unat a + unat b) div 2"
proof -
  have "unat (a + b) = unat a + unat b" using assms by (simp add: unat_word_ariths)
  then show ?thesis by (simp add: unat_div)
qed

text \<open>The update on plain numbers: the repaired range, closed when it is narrow.\<close>

definition range_repair :: "nat \<times> nat \<Rightarrow> nat \<times> nat" where
  "range_repair = (\<lambda>(f, c). if c < f then (if 576 < f then (576 + f) div 2 else f, f) else (f, c))"

definition range_update :: "nat \<times> nat \<Rightarrow> nat \<times> nat" where
  "range_update r = (let (f, c) = range_repair r in if c - f \<le> 16 then (f, f) else (f, c))"

definition mtu_range :: "UTPSocket \<Rightarrow> nat \<times> nat" where
  "mtu_range s = (unat (mtu_floor s), unat (mtu_ceiling s))"

lemma mtu_repair_spec:
  assumes "unat (mtu_floor s) < 2 ^ 16" and "mtu_repair (s, ctx) = (s', ctx')"
  shows "mtu_range s' = range_repair (mtu_range s)" "mtu_only s s'" "trace_ext ctx ctx'"
proof -
  have half: "unat ((MTU_FLOOR_MIN + mtu_floor s) div 2) = (576 + unat (mtu_floor s)) div 2"
    using assms(1) by (subst unat_half_sum) (simp_all add: MTU_FLOOR_MIN_def)
  have gt: "MTU_FLOOR_MIN < mtu_floor s \<longleftrightarrow> 576 < unat (mtu_floor s)"
    by (simp add: MTU_FLOOR_MIN_def word_less_nat_alt)
  show "mtu_range s' = range_repair (mtu_range s)"
    using assms(2) half gt
    by (auto simp: mtu_repair_def mtu_range_def range_repair_def Let_def word_less_nat_alt split: if_splits)
  show "mtu_only s s'" "trace_ext ctx ctx'"
    using assms(2) by (auto simp: mtu_repair_def Let_def split: if_splits)
qed

lemma range_repair_le: "range_repair (f, c) = (f', c') \<Longrightarrow> f' \<le> c' \<and> c' \<le> max f c \<and> min 576 (min f c) \<le> f'"
  by (auto simp: range_repair_def split: if_splits)

lemma mtu_search_update_spec:
  assumes f: "unat (mtu_floor s) < 2 ^ 16" and c: "unat (mtu_ceiling s) < 2 ^ 16"
  shows "wpo (mtu_search_update (s, ctx)) (\<lambda>(s', ctx'). mtu_range s' = range_update (mtu_range s) \<and>
           mtu_only s s' \<and> trace_ext ctx ctx' \<and> mtu_probe_seq s' = 0 \<and>
           unat (mtu_last s') = (unat (mtu_floor s') + unat (mtu_ceiling s')) div 2)"
proof -
  obtain s1 ctx1 where rep: "mtu_repair (s, ctx) = (s1, ctx1)" by (cases "mtu_repair (s, ctx)")
  note r = mtu_repair_spec [OF f rep]
  obtain f1 c1 where fc: "range_repair (mtu_range s) = (f1, c1)" by (cases "range_repair (mtu_range s)")
  have u: "unat (mtu_floor s1) = f1" "unat (mtu_ceiling s1) = c1"
    using r(1) fc by (simp_all add: mtu_range_def)
  have le: "f1 \<le> c1" "c1 < 2 ^ 16"
    using range_repair_le [OF fc [unfolded mtu_range_def]] f c by auto
  have assertion: "mtu_floor s1 \<le> mtu_ceiling s1" using u le by (simp add: word_le_nat_alt)
  have width: "mtu_ceiling s1 - mtu_floor s1 \<le> 16 \<longleftrightarrow> c1 - f1 \<le> 16"
    using assertion u by (simp add: word_le_nat_alt unat_sub)
  have half: "unat ((mtu_floor s1 + mtu_ceiling s1) div 2) = (f1 + c1) div 2"
    using u le by (subst unat_half_sum) simp_all
  show ?thesis
  proof (cases "c1 - f1 \<le> 16")
    case True
    obtain ms ctx2 where ms: "utp_call_get_milliseconds (utp_log UTP_LOG_MTU (Some (self s1)) ctx1) (Some (self s1)) = (ms, ctx2)"
      by (cases "utp_call_get_milliseconds (utp_log UTP_LOG_MTU (Some (self s1)) ctx1) (Some (self s1))")
    have "trace_ext ctx ctx2"
      by (rule trace_ext_trans [OF r(3) trace_ext_trans [OF trace_ext_log trace_ext_milliseconds [OF ms]]])
    then show ?thesis
      using True assertion width u fc ms r(2)
      by (simp add: mtu_search_update_def rep Let_def range_update_def mtu_range_def)
  next
    case False
    then show ?thesis
      using assertion width u fc half r
      by (simp add: mtu_search_update_def rep Let_def range_update_def mtu_range_def)
  qed
qed

lemma range_update_bounds:
  assumes "range_update (f, c) = (f', c')" and "L \<le> 576" and "L \<le> f" and "L \<le> c"
  shows "L \<le> f' \<and> f' \<le> c' \<and> c' \<le> max f c"
  using assms range_repair_le [of f c "fst (range_repair (f, c))" "snd (range_repair (f, c))"]
  by (auto simp: range_update_def Let_def split: prod.splits if_splits)

lemma mtu_search_update_ok:
  assumes L: "20 < L" "L \<le> 576" and f: "L \<le> unat (mtu_floor s)" "unat (mtu_floor s) < 2 ^ 16"
    and c: "L \<le> unat (mtu_ceiling s)" "unat (mtu_ceiling s) < 2 ^ 16"
  shows "wpo (mtu_search_update (s, ctx)) (\<lambda>(s', ctx'). mtu_ok L s' \<and> mtu_only s s' \<and> trace_ext ctx ctx')"
proof (rule wpo_mono [OF mtu_search_update_spec [OF f(2) c(2)]], clarify)
  fix s' :: UTPSocket and ctx'
  assume r: "mtu_range s' = range_update (mtu_range s)" and only: "mtu_only s s'" and tr: "trace_ext ctx ctx'"
    and p: "mtu_probe_seq s' = 0"
    and last: "unat (mtu_last s') = (unat (mtu_floor s') + unat (mtu_ceiling s')) div 2"
  have "L \<le> unat (mtu_floor s') \<and> unat (mtu_floor s') \<le> unat (mtu_ceiling s') \<and>
      unat (mtu_ceiling s') \<le> max (unat (mtu_floor s)) (unat (mtu_ceiling s))"
    using r L f c by (intro range_update_bounds) (simp_all add: mtu_range_def)
  then show "mtu_ok L s' \<and> mtu_only s s' \<and> trace_ext ctx ctx'"
    using L f c p last only tr by (auto simp: mtu_ok_def word_le_nat_alt max_def split: if_splits)
qed

lemma mtu_ok_pred:
  fixes x :: uint32
  assumes "L < unat x"
  shows "unat (x - 1) = unat x - 1"
proof -
  have "1 \<le> x" using assms by (simp add: word_le_nat_alt)
  then show ?thesis by (simp add: unat_sub)
qed

lemma mtu_probe_acked_ok:
  assumes "mtu_ok L s" and "mtu_probe_seq s \<noteq> 0"
  shows "wpo (mtu_probe_acked (s, ctx)) (\<lambda>(s', ctx'). mtu_ok L s' \<and> mtu_only s s' \<and> trace_ext ctx ctx')"
  unfolding mtu_probe_acked_def prod.case wpo_bind
  using assms
  by (intro wpo_mono [OF mtu_search_update_ok [where L = L]])
    (auto simp: mtu_ok_def word_le_nat_alt intro: trace_ext_trans [OF _ trace_ext_log])

lemma mtu_probe_lost_ok:
  assumes "mtu_ok L s" and "mtu_probe_seq s \<noteq> 0"
  shows "wpo (mtu_probe_lost (s, ctx)) (\<lambda>(s', ctx'). mtu_ok L s' \<and> mtu_only s s' \<and> trace_ext ctx ctx')"
  unfolding mtu_probe_lost_def prod.case wpo_bind
  using assms mtu_ok_pred [of L "mtu_probe_size s"]
  by (intro wpo_mono [OF mtu_search_update_ok [where L = L]])
    (auto simp: mtu_ok_def word_le_nat_alt intro: trace_ext_trans [OF _ trace_ext_log])

lemma mtu_icmp_ok:
  assumes ok: "mtu_ok L s"
  shows "wpo (mtu_icmp next_hop_mtu (s, ctx)) (\<lambda>(s', ctx'). mtu_ok L s' \<and> mtu_only s s' \<and> trace_ext ctx ctx')"
proof (cases "576 \<le> next_hop_mtu \<and> next_hop_mtu < 0x2000")
  case True
  let ?m = "min (ucast next_hop_mtu) (mtu_ceiling s)"
  have "unat ?m = min (unat next_hop_mtu) (unat (mtu_ceiling s))"
    by (simp add: min_def word_le_nat_alt unat_ucast_up)
  moreover have "576 \<le> unat next_hop_mtu" using True by (simp add: word_le_nat_alt)
  ultimately have "L \<le> unat ?m \<and> unat ?m < 2 ^ 16"
    using ok by (auto simp: mtu_ok_def word_le_nat_alt)
  then show ?thesis
    unfolding mtu_icmp_def prod.case if_P [OF True] wpo_bind
    using ok by (intro wpo_mono [OF mtu_search_update_ok [where L = L]])
      (auto simp: mtu_ok_def word_le_nat_alt intro: trace_ext_trans [OF _ trace_ext_log])
next
  case False
  have "unat ((mtu_floor s + mtu_ceiling s) div 2) = (unat (mtu_floor s) + unat (mtu_ceiling s)) div 2"
    using ok by (intro unat_half_sum) (auto simp: mtu_ok_def word_le_nat_alt)
  then show ?thesis
    unfolding mtu_icmp_def prod.case if_not_P [OF False] wpo_bind
    using ok by (intro wpo_mono [OF mtu_search_update_ok [where L = L]])
      (auto simp: mtu_ok_def word_le_nat_alt intro: trace_ext_trans [OF _ trace_ext_log])
qed

lemma get_udp_mtu_spec:
  assumes "mtu_callback_ok L ctx" and "get_udp_mtu (s, ctx) = (m, ctx')"
  shows "L \<le> unat m \<and> unat m < 2 ^ 16 \<and> trace_ext ctx ctx'"
proof -
  obtain sa len where sa: "psa_get_sockaddr_storage (addr s) = (sa, len)" by (cases "psa_get_sockaddr_storage (addr s)")
  obtain f where f: "callbacks ctx UTP_GET_UDP_MTU = Some f" "\<And>i sock sa len. L \<le> unat (ucast (f i (Get_Udp_Mtu sock sa len)) :: uint16)"
    using assms(1) by (auto simp: mtu_callback_ok_def)
  have m: "m = ucast (ucast (f (length (calls ctx)) (Get_Udp_Mtu (self s) sa len)) :: uint16)"
    and tr: "trace_ext ctx ctx'"
    using assms(2) f(1) trace_ext_call [of ctx UTP_GET_UDP_MTU "Get_Udp_Mtu (self s) sa len"]
    by (auto simp: get_udp_mtu_def sa utp_call_get_udp_mtu_def utp_call_def Let_def)
  have "unat (ucast (x :: uint16) :: size_t) = unat x" for x by (simp add: unat_ucast_up)
  then show ?thesis using f(2) unat_less_pow [where 'a = 16] m tr by simp
qed

lemma mtu_reset_ok:
  assumes ok: "mtu_ok L s" and cb: "mtu_callback_ok L ctx"
  shows "wpo (mtu_reset (s, ctx)) (\<lambda>(s', ctx'). mtu_ok L s' \<and> mtu_only s s' \<and> trace_ext ctx ctx')"
proof -
  obtain m ctx1 where m: "get_udp_mtu (s, ctx) = (m, ctx1)" by (cases "get_udp_mtu (s, ctx)")
  obtain ms ctx3 where ms: "utp_call_get_milliseconds (utp_log UTP_LOG_MTU (Some (self s)) ctx1) (Some (self s)) = (ms, ctx3)"
    by (cases "utp_call_get_milliseconds (utp_log UTP_LOG_MTU (Some (self s)) ctx1) (Some (self s))")
  note mb = get_udp_mtu_spec [OF cb m]
  have tr: "trace_ext ctx ctx3"
    using mb trace_ext_log trace_ext_milliseconds [OF ms] by (blast intro: trace_ext_trans)
  have u: "unat (ucast m :: uint32) = unat m"
    using mb by (intro unat_ucast_small) simp
  show ?thesis
    using ok mb tr ms u
    by (auto simp: mtu_reset_def m Let_def mtu_ok_def MTU_FLOOR_MIN_def word_le_nat_alt word_less_nat_alt
        wpo_bind wpo_cassert)
qed

lemma mtu_reset_last: "wpo (mtu_reset (s, ctx)) (\<lambda>(s', ctx'). mtu_last s' = mtu_last s)"
proof -
  obtain m ctx1 where m: "get_udp_mtu (s, ctx) = (m, ctx1)" by (cases "get_udp_mtu (s, ctx)")
  obtain ms ctx3 where ms: "utp_call_get_milliseconds (utp_log UTP_LOG_MTU (Some (self s)) ctx1) (Some (self s)) = (ms, ctx3)"
    by (cases "utp_call_get_milliseconds (utp_log UTP_LOG_MTU (Some (self s)) ctx1) (Some (self s))")
  show ?thesis by (auto simp: mtu_reset_def m ms Let_def wpo_bind wpo_cassert not_less)
qed

lemma get_packet_size_mtu_ok: "mtu_ok L s \<Longrightarrow> get_packet_size s = ucast (mtu_last s) - get_header_size"
  by (auto simp: get_packet_size_def get_header_size_def mtu_ok_def)

lemma get_packet_size_bounds:
  assumes "mtu_ok L s"
  shows "unat (get_packet_size s) + 20 < 2 ^ 16" "0 < unat (get_packet_size s)"
proof -
  let ?m = "if mtu_last s \<noteq> 0 then mtu_last s else mtu_ceiling s"
  have m: "20 < unat ?m" "unat ?m < 2 ^ 16"
    using assms by (auto simp: mtu_ok_def word_le_nat_alt)
  have "get_packet_size s = ucast ?m - 20"
    by (simp add: get_packet_size_def Let_def sizeof_PacketFormatV1_def)
  moreover have "(20 :: size_t) \<le> ucast ?m" using m(1) by (simp add: word_le_nat_alt unat_ucast_up)
  ultimately have "unat (get_packet_size s) = unat ?m - 20"
    by (simp add: unat_sub unat_ucast_up)
  then show "unat (get_packet_size s) + 20 < 2 ^ 16" "0 < unat (get_packet_size s)" using m by simp_all
qed

subsection \<open>The search converges\<close>

text \<open>
  The search on a path that passes payloads of up to \<open>M\<close> bytes: as long as the range is open, a
  probe of the current size is sent; it is acked when it fits and lost otherwise.
\<close>

fun mtu_probes :: "nat \<Rightarrow> nat \<Rightarrow> conn \<Rightarrow> conn option" where
  "mtu_probes M 0 c = Some c"
| "mtu_probes M (Suc n) (s, ctx) =
     (if mtu_floor s < mtu_ceiling s then do {
        let s1 = s\<lparr>mtu_probe_seq := 1, mtu_probe_size := mtu_last s\<rparr>;
        c \<leftarrow> (if unat (mtu_last s) \<le> M then mtu_probe_acked (s1, ctx) else mtu_probe_lost (s1, ctx));
        mtu_probes M n c
      } else Some (s, ctx))"

definition bisect :: "nat \<Rightarrow> nat \<Rightarrow> nat \<times> nat \<Rightarrow> nat \<times> nat" where
  "bisect M p = (\<lambda>(f, c). range_update (if p \<le> M then (p, c) else (f, p - 1)))"

lemma bisect_spec:
  assumes "bisect M p (f, c) = (f', c')" and "f \<le> M" "M \<le> c" and "f < p" "p \<le> c"
  shows "f' \<le> M \<and> (f' = c' \<and> M \<le> f' + 16 \<or> M \<le> c' \<and> f' + 16 < c' \<and> c' \<le> f' + max (c - p) (p - 1 - f)) \<and>
         f' \<le> c' \<and> c' \<le> c"
  using assms by (auto simp: bisect_def range_update_def range_repair_def Let_def split: if_splits prod.splits)

lemma mtu_probe_step:
  assumes "unat (mtu_ceiling s) < 2 ^ 16" and "mtu_floor s < mtu_last s" and "mtu_last s \<le> mtu_ceiling s"
  shows "wpo (let s1 = s\<lparr>mtu_probe_seq := 1, mtu_probe_size := mtu_last s\<rparr> in
              if unat (mtu_last s) \<le> M then mtu_probe_acked (s1, ctx) else mtu_probe_lost (s1, ctx))
           (\<lambda>(s', ctx'). mtu_range s' = bisect M (unat (mtu_last s)) (mtu_range s) \<and>
              unat (mtu_last s') = (unat (mtu_floor s') + unat (mtu_ceiling s')) div 2)"
proof -
  have f: "unat (mtu_floor s) < 2 ^ 16" and l: "unat (mtu_last s) < 2 ^ 16"
    and p: "unat (mtu_last s - 1) = unat (mtu_last s) - 1"
    using assms mtu_ok_pred [of "unat (mtu_floor s)" "mtu_last s"]
    by (auto simp: word_le_nat_alt word_less_nat_alt)
  show ?thesis
  proof (cases "unat (mtu_last s) \<le> M")
    case True
    then show ?thesis
      unfolding Let_def mtu_probe_acked_def prod.case if_P [OF True] wpo_bind
      using assms l by (intro wpo_mono [OF mtu_search_update_spec]) (auto simp: mtu_range_def bisect_def)
  next
    case False
    then show ?thesis
      unfolding Let_def mtu_probe_lost_def prod.case if_not_P [OF False] wpo_bind
      using assms l f p by (intro wpo_mono [OF mtu_search_update_spec]) (auto simp: mtu_range_def bisect_def)
  qed
qed

lemma half_width:
  assumes "c \<le> f + 2 * K" and "f \<le> c" and "p = (f + c) div (2::nat)"
  shows "c - p \<le> K \<and> p - 1 - f \<le> K"
  using assms by linarith

lemma mtu_probes_converge:
  assumes "unat (mtu_ceiling s) < 2 ^ 16" and "unat (mtu_floor s) \<le> M"
    and "unat (mtu_last s) = (unat (mtu_floor s) + unat (mtu_ceiling s)) div 2"
    and "mtu_floor s = mtu_ceiling s \<and> M \<le> unat (mtu_floor s) + 16 \<or>
         M \<le> unat (mtu_ceiling s) \<and> unat (mtu_floor s) + 16 < unat (mtu_ceiling s) \<and>
         unat (mtu_ceiling s) \<le> unat (mtu_floor s) + 16 * 2 ^ n"
  shows "wpo (mtu_probes M n (s, ctx)) (\<lambda>(s', ctx'). mtu_floor s' = mtu_ceiling s' \<and>
           mtu_last s' = mtu_floor s' \<and> unat (mtu_floor s') \<le> M \<and> M \<le> unat (mtu_floor s') + 16)"
  using assms
proof (induction n arbitrary: s ctx)
  case 0
  then have "unat (mtu_last s) = unat (mtu_floor s)" "mtu_floor s = mtu_ceiling s" "M \<le> unat (mtu_floor s) + 16"
    by auto
  then show ?case using 0 by (simp add: word_unat_eq_iff)
next
  case (Suc n)
  note prems = Suc.prems
  show ?case
  proof (cases "mtu_floor s < mtu_ceiling s")
    case False
    then have "mtu_floor s = mtu_ceiling s" "M \<le> unat (mtu_floor s) + 16"
      using prems(4) by (auto simp: word_less_nat_alt)
    then show ?thesis using False prems by (simp add: word_unat_eq_iff)
  next
    case True
    let ?f = "unat (mtu_floor s)" and ?c = "unat (mtu_ceiling s)" and ?p = "unat (mtu_last s)"
    have open_range: "M \<le> ?c" "?f + 16 < ?c" "?c \<le> ?f + 16 * 2 ^ Suc n"
      using True prems(4) by auto
    have p: "?f < ?p" "?p \<le> ?c" using prems(3) open_range by linarith+
    have step: "wpo (mtu_probes M n c) (\<lambda>(s', ctx'). mtu_floor s' = mtu_ceiling s' \<and>
           mtu_last s' = mtu_floor s' \<and> unat (mtu_floor s') \<le> M \<and> M \<le> unat (mtu_floor s') + 16)"
      if "(\<lambda>(s', ctx'). mtu_range s' = bisect M ?p (mtu_range s) \<and>
            unat (mtu_last s') = (unat (mtu_floor s') + unat (mtu_ceiling s')) div 2) c" for c
    proof -
      obtain s' ctx' where c: "c = (s', ctx')" by (cases c)
      let ?f' = "unat (mtu_floor s')" and ?c' = "unat (mtu_ceiling s')"
      have b: "bisect M ?p (?f, ?c) = (?f', ?c')" using that c by (simp add: mtu_range_def)
      have "max (?c - ?p) (?p - 1 - ?f) \<le> 16 * 2 ^ n"
        using half_width [OF _ _ prems(3), of "16 * 2 ^ n"] open_range by simp
      with bisect_spec [OF b prems(2) open_range(1) p] have
        "?f' \<le> M \<and> (?f' = ?c' \<and> M \<le> ?f' + 16 \<or> M \<le> ?c' \<and> ?f' + 16 < ?c' \<and> ?c' \<le> ?f' + 16 * 2 ^ n) \<and> ?c' \<le> ?c"
        by linarith
      then show ?thesis
        unfolding c using that c prems(1)
        by (intro Suc.IH) (auto simp: word_unat_eq_iff)
    qed
    have "mtu_floor s < mtu_last s" "mtu_last s \<le> mtu_ceiling s"
      using p by (simp_all add: word_less_nat_alt word_le_nat_alt)
    from wpo_mono [OF mtu_probe_step [OF prems(1) this] step] show ?thesis
      using True by (simp add: Let_def wpo_bind del: wpo_if)
  qed
qed

text \<open>C26: path MTU discovery finds the path's MTU. From a well-formed range that contains the
  true limit \<open>M\<close> and any first probe size inside it, thirteen probe outcomes close the search:
  no assertion fires, floor, ceiling and current size agree, and the size found passes the path
  and is at most 16 bytes below its limit.\<close>

theorem mtu_search_converges:
  assumes "mtu_ok L s" and "unat (mtu_floor s) \<le> M" and "M \<le> unat (mtu_ceiling s)"
    and "mtu_floor s < mtu_last s" and "mtu_last s \<le> mtu_ceiling s"
  shows "wpo (mtu_probes M 13 (s, ctx)) (\<lambda>(s', ctx'). mtu_floor s' = mtu_ceiling s' \<and>
           mtu_last s' = mtu_floor s' \<and> unat (mtu_floor s') \<le> M \<and> M \<le> unat (mtu_floor s') + 16)"
proof -
  let ?f = "unat (mtu_floor s)" and ?c = "unat (mtu_ceiling s)" and ?p = "unat (mtu_last s)"
  have c16: "?c < 2 ^ 16" and p: "?f < ?p" "?p \<le> ?c"
    using assms by (simp_all add: mtu_ok_def word_less_nat_alt word_le_nat_alt)
  have step: "wpo (mtu_probes M 12 c) (\<lambda>(s', ctx'). mtu_floor s' = mtu_ceiling s' \<and>
           mtu_last s' = mtu_floor s' \<and> unat (mtu_floor s') \<le> M \<and> M \<le> unat (mtu_floor s') + 16)"
    if "(\<lambda>(s', ctx'). mtu_range s' = bisect M ?p (mtu_range s) \<and>
            unat (mtu_last s') = (unat (mtu_floor s') + unat (mtu_ceiling s')) div 2) c" for c
  proof -
    obtain s' ctx' where c: "c = (s', ctx')" by (cases c)
    have b: "bisect M ?p (?f, ?c) = (unat (mtu_floor s'), unat (mtu_ceiling s'))"
      using that c by (simp add: mtu_range_def)
    show ?thesis
      unfolding c using that c c16 bisect_spec [OF b assms(2,3) p]
      by (intro mtu_probes_converge) (auto simp: word_unat_eq_iff)
  qed
  have "mtu_floor s < mtu_ceiling s" using assms(4,5) by simp
  with wpo_mono [OF mtu_probe_step [OF c16 assms(4,5)] step] show ?thesis
    by (simp add: Let_def wpo_bind numeral_eq_Suc del: wpo_if)
qed

text \<open>A path of 1000 bytes below the default MTU.\<close>

theorem mtu_search_converges_witness:
  "wpo (mtu_probes 1000 13
         (zero_socket\<lparr>mtu_floor := 576, mtu_ceiling := 1402, mtu_last := 1402\<rparr>, example_context))
     (\<lambda>(s', ctx'). mtu_floor s' = mtu_ceiling s' \<and> mtu_last s' = mtu_floor s' \<and>
        unat (mtu_floor s') \<le> 1000 \<and> 1000 \<le> unat (mtu_floor s') + 16)"
  by (rule mtu_search_converges [where L = 100]) (simp_all add: mtu_ok_def zero_socket_def)

subsection \<open>Every history of the search\<close>

text \<open>
  The events of a socket's life that touch the search. A packet is used as a probe when it is
  longer than the floor, not longer than the ceiling and no other probe is in flight; the fate of
  a probe is only considered while one is in flight.
\<close>

datatype mtu_event =
  Mtu_Reset | Mtu_Probe uint32 uint32 | Mtu_Acked | Mtu_Lost | Mtu_Dropped | Mtu_Icmp uint16

fun mtu_step :: "mtu_event \<Rightarrow> conn \<Rightarrow> conn option" where
  "mtu_step Mtu_Reset c = mtu_reset c"
| "mtu_step (Mtu_Probe q len) (s, ctx) =
     (if mtu_floor s < mtu_ceiling s \<and> mtu_floor s < len \<and> len \<le> mtu_ceiling s \<and> mtu_probe_seq s = 0
      then Some (s\<lparr>mtu_probe_seq := q, mtu_probe_size := len\<rparr>, ctx) else Some (s, ctx))"
| "mtu_step Mtu_Acked (s, ctx) = (if mtu_probe_seq s \<noteq> 0 then mtu_probe_acked (s, ctx) else Some (s, ctx))"
| "mtu_step Mtu_Lost (s, ctx) = (if mtu_probe_seq s \<noteq> 0 then mtu_probe_lost (s, ctx) else Some (s, ctx))"
| "mtu_step Mtu_Dropped (s, ctx) = Some (s\<lparr>mtu_probe_seq := 0, mtu_probe_size := 0\<rparr>, ctx)"
| "mtu_step (Mtu_Icmp hop) c = mtu_icmp hop c"

fun mtu_run :: "mtu_event list \<Rightarrow> conn \<Rightarrow> conn option" where
  "mtu_run [] c = Some c"
| "mtu_run (e # es) c = Option.bind (mtu_step e c) (mtu_run es)"

lemma mtu_step_ok:
  assumes "mtu_ok L s" and "mtu_callback_ok L ctx"
  shows "wpo (mtu_step e (s, ctx)) (\<lambda>(s', ctx'). mtu_ok L s' \<and> mtu_only s s' \<and> trace_ext ctx ctx')"
proof (cases e)
  case (Mtu_Probe q len)
  then show ?thesis
    using assms(1) by (auto simp: mtu_ok_def word_le_nat_alt word_less_nat_alt)
next
  case Mtu_Dropped
  then show ?thesis using assms(1) by (simp add: mtu_ok_def)
qed (use assms in \<open>auto intro: mtu_reset_ok mtu_probe_acked_ok mtu_probe_lost_ok mtu_icmp_ok\<close>)

text \<open>C27: the bookkeeping of the search keeps its range well-formed: whatever sequence of resets,
  probes, acks, losses and ICMP reports occurs, floor does not exceed ceiling, no assertion fires,
  every size leaves room for a header and fits 16 bits, and nothing but the search's own fields
  of the socket and the callback trace changes.\<close>

theorem mtu_search_well_formed:
  assumes "mtu_ok L s" and "mtu_callback_ok L ctx"
  shows "wpo (mtu_run es (s, ctx)) (\<lambda>(s', ctx'). mtu_ok L s' \<and> mtu_only s s' \<and> trace_ext ctx ctx')"
  using assms
proof (induction es arbitrary: s ctx)
  case (Cons e es)
  have "wpo (mtu_run es c) (\<lambda>(s', ctx'). mtu_ok L s' \<and> mtu_only s s' \<and> trace_ext ctx ctx')"
    if "(\<lambda>(s', ctx'). mtu_ok L s' \<and> mtu_only s s' \<and> trace_ext ctx ctx') c" for c
  proof -
    obtain s1 ctx1 where c: "c = (s1, ctx1)" by (cases c)
    with that have 1: "mtu_ok L s1" "mtu_only s s1" "trace_ext ctx ctx1" by simp_all
    then have "mtu_callback_ok L ctx1"
      using Cons.prems(2) trace_ext_fields(1) by (simp add: mtu_callback_ok_def)
    then show ?thesis
      unfolding c by (rule wpo_mono [OF Cons.IH [OF 1(1)]])
        (use 1 in \<open>auto intro: mtu_only_trans trace_ext_trans\<close>)
  qed
  from wpo_mono [OF mtu_step_ok [OF Cons.prems] this] show ?case by (simp add: wpo_bind)
qed simp

theorem mtu_search_well_formed_witness:
  "wpo (mtu_run [Mtu_Reset, Mtu_Probe 7 1402, Mtu_Lost, Mtu_Icmp 900, Mtu_Reset]
         (zero_socket\<lparr>mtu_floor := 576, mtu_ceiling := 1402, mtu_last := 1402\<rparr>, example_context))
     (\<lambda>(s', ctx'). mtu_ok 100 s' \<and> mtu_only (zero_socket\<lparr>mtu_floor := 576, mtu_ceiling := 1402, mtu_last := 1402\<rparr>) s' \<and>
        trace_ext example_context ctx')"
proof (rule mtu_search_well_formed)
  show "mtu_callback_ok 100 example_context"
    unfolding mtu_callback_ok_def
    by (auto simp: example_context_def default_callbacks_def utp_default_get_udp_mtu_def
        UDP_TEREDO_MTU_def UDP_IPV4_MTU_def header_sizes split: utp_callback_arguments.splits)
qed (simp add: mtu_ok_def zero_socket_def)

end
