(* ===== verification/Utp_Send.thy ===== *)
theory Utp_Send
  imports Utp_Mtu
begin

section \<open>Sending\<close>

text \<open>
  The sending side of a socket: \<^verbatim>\<open>send_data\<close>, \<^verbatim>\<open>send_ack\<close>, \<^verbatim>\<open>send_keep_alive\<close>,
  \<^verbatim>\<open>send_rst\<close>, \<^verbatim>\<open>send_packet\<close>, \<^verbatim>\<open>is_full\<close>, \<^verbatim>\<open>flush_packets\<close> and
  \<^verbatim>\<open>write_outgoing_packet\<close>. A pointer to an outgoing packet is its index in \<open>outbuf\<close>; a NULL
  entry that is dereferenced is a fault.
\<close>

unbundle bit_operations_syntax

definition OUTGOING_BUFFER_MAX_SIZE :: nat where "OUTGOING_BUFFER_MAX_SIZE = 1024"
definition UTP_UDP_DONTFRAG :: uint32 where "UTP_UDP_DONTFRAG = 2"

subsection \<open>Operations\<close>

definition get_rcv_window :: "conn \<Rightarrow> (size_t \<times> utp_context) option" where
  "get_rcv_window = (\<lambda>(s, ctx). do {
     let (numbuf, ctx') = utp_call_get_read_buffer_size ctx (self s);
     cassert (0 \<le> as_int numbuf);
     Some (if numbuf < opt_rcvbuf s then opt_rcvbuf s - numbuf else 0, ctx')
   })"

definition get_udp_overhead :: "conn \<Rightarrow> size_t \<times> utp_context" where
  "get_udp_overhead = (\<lambda>(s, ctx).
     let (sa, len) = psa_get_sockaddr_storage (addr s);
         (r, ctx') = utp_call_get_udp_overhead ctx (self s) sa len
     in (ucast r, ctx'))"

definition get_overhead :: "conn \<Rightarrow> size_t \<times> utp_context" where
  "get_overhead c = (let (n, ctx') = get_udp_overhead c in (n + get_header_size, ctx'))"

text \<open>The overhead report inside \<^verbatim>\<open>send_data\<close>.\<close>

definition report_overhead :: "size_t \<Rightarrow> bandwidth_type_t \<Rightarrow> conn \<Rightarrow> utp_context" where
  "report_overhead len type = (\<lambda>(s, ctx).
     if callbacks ctx UTP_ON_OVERHEAD_STATISTICS \<noteq> None then
       if type = payload_bandwidth then
         let (n, ctx') = get_overhead (s, ctx)
         in utp_call_on_overhead_statistics ctx' (self s) True n header_overhead
       else
         let (n, ctx') = get_udp_overhead (s, ctx)
         in utp_call_on_overhead_statistics ctx' (self s) True (len + n) type
     else ctx)"

text \<open>
  \<^verbatim>\<open>b\<close> points to a header (\<open>h\<close>) followed by the bytes \<open>rest\<close>; \<^verbatim>\<open>len\<close> bytes are sent. The
  header is changed in place, so it is returned.
\<close>

definition send_data ::
    "PacketFormatV1 \<Rightarrow> byte list \<Rightarrow> size_t \<Rightarrow> bandwidth_type_t \<Rightarrow> uint32 \<Rightarrow> conn \<Rightarrow>
     (PacketFormatV1 \<times> conn) option" where
  "send_data h rest len type flags = (\<lambda>(s, ctx). do {
     let (time, ctx1) = utp_call_get_microseconds ctx (Some (self s));
     let h1 = h\<lparr>pf_tv_usec := ucast time, pf_reply_micro := reply_micro s\<rparr>;
     let s1 = s\<lparr>last_sent_packet := current_ms ctx1\<rparr>;
     let ctx2 = report_overhead len type (s1, ctx1);
     b \<leftarrow> read_bytes (pf_bytes h1 @ rest) 0 (unat len);
     let ctx3 = send_to_addr ctx2 (Some (self s)) b (addr s1) flags;
     ctx4 \<leftarrow> removeSocketFromAckList (self s) ctx3;
     Some (h1, (s1, ctx4))
   })"

text \<open>The bit mask of the packets received out of order.\<close>

definition eack_mask :: "UTPSocket \<Rightarrow> uint32" where
  "eack_mask s = (
     let window = min (14 + 16) (cb_size (inbuf s)) in
     fold (\<lambda>i m. if cb_get (inbuf s) (ucast (ack_nr s) + of_nat i + 2) \<noteq> None
                 then m OR push_bit i 1 else m) [0..<unat window] 0)"

definition ack_header :: "UTPSocket \<Rightarrow> PacketFormatV1" where
  "ack_header s = (pf_set_type ST_STATE (pf_set_version 1 pf_zero))
     \<lparr>pf_ext := 0, pf_connid := ucast (conn_id_send s), pf_ack_nr := ack_nr s, pf_seq_nr := seq_nr s,
      pf_windowsize := ucast (last_rcv_win s)\<rparr>"

definition send_ack :: "bool \<Rightarrow> conn \<Rightarrow> conn option" where
  "send_ack synack = (\<lambda>(s, ctx). do {
     (w, ctx1) \<leftarrow> get_rcv_window (s, ctx);
     let s1 = s\<lparr>last_rcv_win := w\<rparr>;
     let pfa = pfa_zero\<lparr>ack_pf := ack_header s1\<rparr>;
     (pfa', len) \<leftarrow>
       (if reorder_count s1 \<noteq> 0 \<and> \<not> got_fin_reached s1 then do {
          cassert (\<not> synack);
          cassert (cb_get (inbuf s1) (ucast (ack_nr s1) + 1) = None);
          let m = eack_mask s1;
          Some (pfa\<lparr>ack_pf := (ack_pf pfa)\<lparr>pf_ext := 1\<rparr>, ext_next := 0, ext_len := 4,
                    acks := [ucast m, ucast (drop_bit 8 m), ucast (drop_bit 16 m), ucast (drop_bit 24 m)]\<rparr>,
                get_header_size + 4 + 2)
        } else Some (pfa, get_header_size));
     (_, s2, ctx2) \<leftarrow> send_data (ack_pf pfa') ([ext_next pfa', ext_len pfa'] @ acks pfa') len ack_overhead 0
                        (s1, ctx1);
     ctx3 \<leftarrow> removeSocketFromAckList (self s2) ctx2;
     Some (s2, ctx3)
   })"

definition send_keep_alive :: "conn \<Rightarrow> conn option" where
  "send_keep_alive = (\<lambda>(s, ctx). do {
     (s1, ctx1) \<leftarrow> send_ack False (s\<lparr>ack_nr := ack_nr s - 1\<rparr>, ctx);
     Some (s1\<lparr>ack_nr := ack_nr s1 + 1\<rparr>, ctx1)
   })"

definition send_rst :: "utp_context \<Rightarrow> PackedSockAddr \<Rightarrow> uint32 \<Rightarrow> uint16 \<Rightarrow> uint16 \<Rightarrow> utp_context" where
  "send_rst ctx a conn_id ack seq = (
     let pf1 = (pf_set_type ST_RESET (pf_set_version 1 pf_zero))
           \<lparr>pf_ext := 0, pf_connid := ucast conn_id, pf_ack_nr := ack, pf_seq_nr := seq, pf_windowsize := 0\<rparr>
     in send_to_addr ctx None (pf_bytes pf1) a 0)"

text \<open>The probe decision of \<^verbatim>\<open>send_packet\<close>.\<close>

definition use_as_mtu_probe :: "UTPSocket \<Rightarrow> OutgoingPacket \<Rightarrow> bool" where
  "use_as_mtu_probe s pkt \<longleftrightarrow> mtu_floor s < mtu_ceiling s \<and> ucast (mtu_floor s) < pkt_length pkt \<and>
     pkt_length pkt \<le> ucast (mtu_ceiling s) \<and> mtu_probe_seq s = 0 \<and> seq_nr s \<noteq> 1 \<and> transmissions pkt = 0"

definition mark_mtu_probe :: "OutgoingPacket \<Rightarrow> conn \<Rightarrow> conn option" where
  "mark_mtu_probe pkt = (\<lambda>(s, ctx).
     if use_as_mtu_probe s pkt then do {
       let s1 = s\<lparr>mtu_probe_seq := (ucast (seq_nr s) - 1) AND ACK_NR_MASK,
                 mtu_probe_size := ucast (pkt_length pkt)\<rparr>;
       cassert (ucast (mtu_floor s1) \<le> pkt_length pkt);
       cassert (pkt_length pkt \<le> ucast (mtu_ceiling s1));
       Some (s1, utp_log UTP_LOG_MTU (Some (self s)) ctx)
     } else Some (s, ctx))"

definition send_packet :: "size_t \<Rightarrow> conn \<Rightarrow> conn option" where
  "send_packet idx = (\<lambda>(s, ctx). do {
     pkt \<leftarrow> cb_get (outbuf s) idx;
     let (cur_time, ctx1) = utp_call_get_milliseconds ctx (Some (self s));
     let s1 = (if transmissions pkt = 0 \<or> need_resend pkt
               then s\<lparr>cur_window := cur_window s + pkt_payload pkt\<rparr> else s);
     let (now, ctx2) = utp_call_get_microseconds ctx1 (Some (self s));
     let pkt1 = pkt\<lparr>need_resend := False, pkt_header := (pkt_header pkt)\<lparr>pf_ack_nr := ack_nr s1\<rparr>,
                    time_sent := now\<rparr>;
     (s2, ctx3) \<leftarrow> (if mtu_discover_time s1 < cur_time then mtu_reset (s1, ctx2) else Some (s1, ctx2));
     let probe = use_as_mtu_probe s2 pkt1;
     (s3, ctx4) \<leftarrow> mark_mtu_probe pkt1 (s2, ctx3);
     let pkt2 = pkt1\<lparr>transmissions := (transmissions pkt1 + 1) mod 2 ^ 31\<rparr>;
     (h, s4, ctx5) \<leftarrow> send_data (pkt_header pkt2) (pkt_body pkt2) (pkt_length pkt2)
        (if state s3 = CS_SYN_SENT then connect_overhead
         else if transmissions pkt2 = 1 then payload_bandwidth else retransmit_overhead)
        (if probe then UTP_UDP_DONTFRAG else 0) (s3, ctx4);
     Some (s4\<lparr>outbuf := cb_put (outbuf s4) idx (Some (pkt2\<lparr>pkt_header := h\<rparr>))\<rparr>, ctx5)
   })"

definition max_send :: "UTPSocket \<Rightarrow> size_t" where
  "max_send s = min (min (max_window s) (opt_sndbuf s)) (max_window_user s)"

definition is_full :: "int \<Rightarrow> conn \<Rightarrow> bool \<times> conn" where
  "is_full bytes = (\<lambda>(s, ctx).
     let packet_size = get_packet_size s;
         bytes' = (if bytes < 0 then as_int packet_size
                   else if as_int packet_size < bytes then as_int packet_size else bytes)
     in if OUTGOING_BUFFER_MAX_SIZE - 1 \<le> unat (cur_window_packets s)
        then (True, (s\<lparr>last_maxed_out_window := current_ms ctx\<rparr>, ctx))
        else if max_send s < cur_window s + word_of_int bytes'
        then (True, (s\<lparr>last_maxed_out_window := current_ms ctx\<rparr>, ctx))
        else (False, (s, ctx)))"

partial_function (option) flush_from :: "size_t \<Rightarrow> uint16 \<Rightarrow> conn \<Rightarrow> (bool \<times> conn) option" where
  "flush_from packet_size i c =
     (if i = seq_nr (fst c) then Some (False, c)
      else case cb_get (outbuf (fst c)) (ucast i) of
        None \<Rightarrow> flush_from packet_size (i + 1) c
      | Some pkt \<Rightarrow>
          if 0 < transmissions pkt \<and> \<not> need_resend pkt then flush_from packet_size (i + 1) c
          else let (full, c1) = is_full (- 1) c in
            if full then Some (True, c1)
            else if ucast i \<noteq> (ucast (seq_nr (fst c1)) - 1) AND ACK_NR_MASK \<or>
                    cur_window_packets (fst c1) = 1 \<or> packet_size \<le> pkt_payload pkt
            then Option.bind (send_packet (ucast i) c1) (flush_from packet_size (i + 1))
            else flush_from packet_size (i + 1) c1)"

declare flush_from.simps [code]

definition flush_packets :: "conn \<Rightarrow> (bool \<times> conn) option" where
  "flush_packets c = flush_from (get_packet_size (fst c)) (seq_nr (fst c) - cur_window_packets (fst c)) c"

text \<open>Copying \<open>needed\<close> bytes out of the caller's buffers, which advance; the last result is what is still missing.\<close>

fun iov_take :: "nat \<Rightarrow> byte list list \<Rightarrow> byte list \<times> byte list list \<times> nat" where
  "iov_take needed [] = ([], [], needed)"
| "iov_take needed (v # vs) =
     (if needed = 0 then ([], v # vs, 0)
      else if v = [] then let (b, vs', n) = iov_take needed vs in (b, v # vs', n)
      else let num = min needed (length v); (b, vs', n) = iov_take (needed - num) vs
           in (take num v @ b, drop num v # vs', n))"

text \<open>A fresh packet; the header fields not set before sending are overwritten by \<^verbatim>\<open>send_data\<close>.\<close>

definition new_packet :: OutgoingPacket where
  "new_packet = \<lparr>pkt_length = 0, pkt_payload = 0, time_sent = 0, transmissions = 0, need_resend = False,
     pkt_header = pf_zero, pkt_body = []\<rparr>"

text \<open>Which packet takes the data: the last unsent one when it has room (no new slot), else a new one.\<close>

definition pick_packet :: "size_t \<Rightarrow> size_t \<Rightarrow> UTPSocket \<Rightarrow> (bool \<times> size_t \<times> OutgoingPacket) option" where
  "pick_packet packet_size payload s = (
     let pkt = (if 0 < cur_window_packets s then cb_get (outbuf s) (ucast (seq_nr s) - 1) else None) in
     case pkt of
       None \<Rightarrow> Some (True, payload, new_packet)
     | Some q \<Rightarrow>
         if payload \<noteq> 0 \<and> transmissions q = 0 \<and> pkt_payload q < packet_size then do {
           cassert (\<not> need_resend q);
           Some (False, min (payload + pkt_payload q) (max packet_size (pkt_payload q)) - pkt_payload q, q)
         } else Some (True, payload, new_packet))"

definition fill_packet ::
    "byte \<Rightarrow> size_t \<Rightarrow> OutgoingPacket \<Rightarrow> byte list list \<Rightarrow> (OutgoingPacket \<times> byte list list) option" where
  "fill_packet flags added pkt iov = do {
     (bytes, iov') \<leftarrow>
       (if added \<noteq> 0 then do {
          cassert (flags = ST_DATA);
          let (bytes, iov', needed) = iov_take (unat added) iov;
          cassert (needed = 0);
          Some (bytes, iov')
        } else Some ([], iov));
     let pkt1 = pkt\<lparr>pkt_body := pkt_body pkt @ bytes, pkt_payload := pkt_payload pkt + added\<rparr>;
     Some (pkt1\<lparr>pkt_length := get_header_size + pkt_payload pkt1\<rparr>, iov')
   }"

definition data_header :: "byte \<Rightarrow> UTPSocket \<Rightarrow> PacketFormatV1 \<Rightarrow> PacketFormatV1" where
  "data_header flags s h = (pf_set_type flags (pf_set_version 1 h))
     \<lparr>pf_ext := 0, pf_connid := ucast (conn_id_send s), pf_windowsize := ucast (last_rcv_win s),
      pf_ack_nr := ack_nr s\<rparr>"

definition store_packet :: "bool \<Rightarrow> OutgoingPacket \<Rightarrow> UTPSocket \<Rightarrow> UTPSocket option" where
  "store_packet append_new pkt s =
     (if append_new then do {
        b \<leftarrow> cb_ensure_size (outbuf s) (ucast (seq_nr s)) (ucast (cur_window_packets s));
        let pkt1 = pkt\<lparr>pkt_header := (pkt_header pkt)\<lparr>pf_seq_nr := seq_nr s\<rparr>\<rparr>;
        Some (s\<lparr>outbuf := cb_put b (ucast (seq_nr s)) (Some pkt1), seq_nr := seq_nr s + 1,
                cur_window_packets := cur_window_packets s + 1\<rparr>)
      } else Some (s\<lparr>outbuf := cb_put (outbuf s) (ucast (seq_nr s) - 1) (Some pkt)\<rparr>))"

text \<open>The header is completed and the packet stored.\<close>

definition put_packet :: "bool \<Rightarrow> byte \<Rightarrow> OutgoingPacket \<Rightarrow> conn \<Rightarrow> conn option" where
  "put_packet append_new flags pkt = (\<lambda>(s, ctx). do {
     (w, ctx1) \<leftarrow> get_rcv_window (s, ctx);
     let s1 = s\<lparr>last_rcv_win := w\<rparr>;
     s2 \<leftarrow> store_packet append_new (pkt\<lparr>pkt_header := data_header flags s1 (pkt_header pkt)\<rparr>) s1;
     Some (s2, ctx1)
   })"

definition write_step ::
    "size_t \<Rightarrow> byte \<Rightarrow> size_t \<Rightarrow> byte list list \<Rightarrow> conn \<Rightarrow> (size_t \<times> byte list list \<times> conn) option" where
  "write_step packet_size flags payload iov c = do {
     cassert (unat (cur_window_packets (fst c)) < OUTGOING_BUFFER_MAX_SIZE);
     cassert (flags = ST_DATA \<or> flags = ST_FIN);
     (append_new, added, pkt) \<leftarrow> pick_packet packet_size payload (fst c);
     (pkt1, iov') \<leftarrow> fill_packet flags added pkt iov;
     c' \<leftarrow> put_packet append_new flags pkt1 c;
     Some (payload - added, iov', c')
   }"

partial_function (option) write_loop ::
    "size_t \<Rightarrow> byte \<Rightarrow> size_t \<Rightarrow> byte list list \<Rightarrow> conn \<Rightarrow> (byte list list \<times> conn) option" where
  "write_loop packet_size flags payload iov c =
     Option.bind (write_step packet_size flags payload iov c) (\<lambda>(payload', iov', c').
       if payload' \<noteq> 0 then write_loop packet_size flags payload' iov' c' else Some (iov', c'))"

declare write_loop.simps [code]

definition write_outgoing_packet ::
    "size_t \<Rightarrow> byte \<Rightarrow> byte list list \<Rightarrow> conn \<Rightarrow> (byte list list \<times> conn) option" where
  "write_outgoing_packet payload flags iov = (\<lambda>(s, ctx). do {
     s1 \<leftarrow> (if cur_window_packets s = 0 then do {
              let s0 = s\<lparr>retransmit_timeout := rto s, rto_timeout := current_ms ctx + ucast (rto s)\<rparr>;
              cassert (cur_window s0 = 0);
              Some s0
            } else Some s);
     (iov', c) \<leftarrow> write_loop (get_packet_size s1) flags payload iov (s1, ctx);
     (_, c') \<leftarrow> flush_packets c;
     Some (iov', c')
   })"

text \<open>
  The debug build's check: the slot after \<open>ack_nr\<close> is empty while packets wait for reordering, and
  the packets in flight add up to \<open>cur_window\<close>.
\<close>

definition outstanding_bytes :: "UTPSocket \<Rightarrow> size_t" where
  "outstanding_bytes s = fold (\<lambda>i n. case cb_get (outbuf s) (ucast (seq_nr s) - of_nat i - 1) of
       None \<Rightarrow> n
     | Some pkt \<Rightarrow> if transmissions pkt = 0 \<or> need_resend pkt then n else n + pkt_payload pkt)
     [0..<unat (cur_window_packets s)] 0"

definition check_invariant :: "UTPSocket \<Rightarrow> unit option" where
  "check_invariant s = do {
     _ \<leftarrow> (if 0 < reorder_count s then cassert (cb_get (inbuf s) (ucast (ack_nr s) + 1) = None) else Some ());
     cassert (outstanding_bytes s = cur_window s)
   }"

subsection \<open>The sending invariant\<close>

text \<open>
  The packets of the window, oldest first. A slot is empty when its packet was acked selectively.
\<close>

definition out_base :: "UTPSocket \<Rightarrow> size_t" where
  "out_base s = ucast (seq_nr s) - ucast (cur_window_packets s)"

definition out_window :: "UTPSocket \<Rightarrow> OutgoingPacket option list" where
  "out_window s = ring_window cb_get (outbuf s) (out_base s) (unat (cur_window_packets s))"

definition in_flight :: "OutgoingPacket \<Rightarrow> bool" where
  "in_flight p \<longleftrightarrow> 0 < transmissions p \<and> \<not> need_resend p"

definition flight_size :: "OutgoingPacket option \<Rightarrow> nat" where
  "flight_size q = (case q of None \<Rightarrow> 0 | Some p \<Rightarrow> if in_flight p then unat (pkt_payload p) else 0)"

definition flight_bytes :: "OutgoingPacket option list \<Rightarrow> nat" where
  "flight_bytes w = sum_list (map flight_size w)"

text \<open>\<open>T\<close> bounds the transmissions of every packet; the counter has 31 bits.\<close>

definition pkt_ok :: "nat \<Rightarrow> OutgoingPacket \<Rightarrow> bool" where
  "pkt_ok T p \<longleftrightarrow> transmissions p \<le> T \<and> (transmissions p = 0 \<longrightarrow> \<not> need_resend p) \<and>
     unat (pkt_payload p) + 20 < 2 ^ 16 \<and> pkt_length p = get_header_size + pkt_payload p \<and>
     length (pkt_body p) = unat (pkt_payload p)"

text \<open>The slots outside of the window are empty.\<close>

definition out_clean :: "UTPSocket \<Rightarrow> bool" where
  "out_clean s \<longleftrightarrow> (\<forall>j. unat (cur_window_packets s) \<le> j \<and> j < 2 ^ cb_bits (outbuf s) \<longrightarrow>
     cb_get (outbuf s) (out_base s + of_nat j) = None)"

definition out_ok :: "nat \<Rightarrow> UTPSocket \<Rightarrow> bool" where
  "out_ok T s \<longleftrightarrow> cb_ok (outbuf s) \<and> unat (cur_window_packets s) \<le> 2 ^ cb_bits (outbuf s) \<and>
     unat (cur_window_packets s) \<le> OUTGOING_BUFFER_MAX_SIZE \<and>
     (\<forall>p. Some p \<in> set (out_window s) \<longrightarrow> pkt_ok T p) \<and>
     (out_window s \<noteq> [] \<longrightarrow> hd (out_window s) \<noteq> None) \<and>
     unat (cur_window s) = flight_bytes (out_window s) \<and> out_clean s"

end
