(* ===== verification/Utp_Send_Inv.thy ===== *)
theory Utp_Send_Inv
  imports Utp_Send
begin

section \<open>The sending side is correct\<close>

text \<open>
  That the sending operations never trip an assertion, keep the sending invariant \<open>out_ok\<close> (which
  contains the consistency check of \<^verbatim>\<open>check_invariant\<close>: \<open>cur_window\<close> counts the bytes in
  flight), respect the windows and queue exactly the bytes they are given.
\<close>

subsection \<open>Sequence numbers and slots\<close>

lemma unat_ucast16: "unat (ucast (x :: size_t) :: uint16) = unat x mod 2 ^ 16"
proof -
  have "unat (ucast x :: uint16) = take_bit LENGTH(16) (unat x)" by (rule unsigned_ucast_eq)
  then show ?thesis by (simp add: take_bit_eq_mod)
qed

lemma slot_eq:
  fixes i j :: size_t
  assumes "cb_ok b" and "(ucast i :: uint16) = ucast j"
  shows "unat i mod 2 ^ cb_bits b = unat j mod 2 ^ cb_bits b"
proof -
  have eq: "unat i mod 2 ^ 16 = unat j mod 2 ^ 16"
    using arg_cong [OF assms(2), of unat] by (simp only: unat_ucast16)
  have dvd: "(2::nat) ^ cb_bits b dvd 2 ^ 16"
    using assms(1) by (intro le_imp_power_dvd) (rule cb.bits_le)
  show ?thesis
    using arg_cong [OF eq, of "\<lambda>n. n mod 2 ^ cb_bits b"] by (simp only: mod_mod_cancel [OF dvd])
qed

lemma cb_get_cong16: "cb_ok b \<Longrightarrow> (ucast i :: uint16) = ucast j \<Longrightarrow> cb_get b i = cb_get b j"
  unfolding cb_get_eq by (rule arg_cong [of _ _ "nth (elements b)"], rule slot_eq)

lemma cb_put_cong16: "cb_ok b \<Longrightarrow> (ucast i :: uint16) = ucast j \<Longrightarrow> cb_put b i v = cb_put b j v"
  unfolding cb_put_def using slot_eq [of b i j] cb_slot [of b i] cb_slot [of b j] by presburger

lemma ucast_ucast16 [simp]: "ucast (ucast (i :: uint16) :: size_t) = i"
  by (rule bit_eqI) (simp add: bit_simps)

lemma ucast16_of_int: "(ucast (word_of_int k :: size_t) :: uint16) = word_of_int k"
  by (rule bit_eqI) (simp add: bit_simps)

lemma ucast16_diff: "(ucast (x - y :: size_t) :: uint16) = ucast x - ucast y"
  using ucast16_of_int [of "uint x - uint y"] ucast16_of_int [of "uint x"] ucast16_of_int [of "uint y"] by simp

lemma ucast16_add: "(ucast (x + y :: size_t) :: uint16) = ucast x + ucast y"
  using ucast16_of_int [of "uint x + uint y"] ucast16_of_int [of "uint x"] ucast16_of_int [of "uint y"] by simp

lemma ucast16_of_nat [simp]: "(ucast (of_nat n :: size_t) :: uint16) = of_nat n"
  using ucast16_of_int [of "int n"] by simp

lemmas ucast16 = ucast16_diff ucast16_add

text \<open>Packet \<open>j\<close> of the window, by sequence number.\<close>

lemma out_slot:
  assumes "cb_ok (outbuf s)" and "j < unat (cur_window_packets s)"
    and "(ucast i :: uint16) = seq_nr s - cur_window_packets s + of_nat j"
  shows "cb_get (outbuf s) i = out_window s ! j"
    and "cb_put (outbuf s) i v = cb_put (outbuf s) (out_base s + of_nat j) v"
proof -
  have eq: "(ucast i :: uint16) = ucast (out_base s + of_nat j)"
    using assms(3) by (simp add: out_base_def ucast16)
  then show "cb_get (outbuf s) i = out_window s ! j"
    using assms(1,2) cb_get_cong16 [OF assms(1) eq] by (simp add: out_window_def)
  show "cb_put (outbuf s) i v = cb_put (outbuf s) (out_base s + of_nat j) v"
    using assms(1) eq by (rule cb_put_cong16)
qed

lemma length_out_window [simp]: "length (out_window s) = unat (cur_window_packets s)"
  by (simp add: out_window_def)

lemma out_window_cong:
  assumes "seq_nr s' = seq_nr s" "cur_window_packets s' = cur_window_packets s" "outbuf s' = outbuf s"
  shows "out_window s' = out_window s"
  by (simp add: out_window_def out_base_def assms)

lemma out_window_put:
  assumes "cb_ok (outbuf s)" and "unat (cur_window_packets s) \<le> 2 ^ cb_bits (outbuf s)"
    and "j < unat (cur_window_packets s)"
  shows "out_window (s\<lparr>outbuf := cb_put (outbuf s) (out_base s + of_nat j) v\<rparr>) = (out_window s)[j := v]"
  using cb.window_put [OF assms, of "out_base s" v] by (simp add: out_window_def out_base_def)

lemma out_clean_put:
  assumes "out_clean s" and "cb_ok (outbuf s)" and "unat (cur_window_packets s) \<le> 2 ^ cb_bits (outbuf s)"
    and "j < unat (cur_window_packets s)" and "outbuf s' = cb_put (outbuf s) (out_base s + of_nat j) v"
    and "seq_nr s' = seq_nr s" and "cur_window_packets s' = cur_window_packets s"
  shows "out_clean s'"
proof -
  have "out_base s' = out_base s" using assms(6,7) by (simp add: out_base_def)
  then show ?thesis
    using assms cb.get_put_offset [OF assms(2)] by (auto simp: out_clean_def)
qed

lemma out_clean_cong:
  assumes "seq_nr s' = seq_nr s" "cur_window_packets s' = cur_window_packets s" "outbuf s' = outbuf s"
  shows "out_clean s' = out_clean s"
  by (simp add: out_clean_def out_base_def assms)

subsection \<open>Counting the bytes in flight\<close>

lemma flight_bytes_update:
  assumes "j < length w"
  shows "flight_bytes (w[j := v]) + flight_size (w ! j) = flight_bytes w + flight_size v"
proof -
  have "flight_size (w ! j) \<le> sum_list (map flight_size w)"
    using assms by (intro member_le_sum_list) auto
  then show ?thesis
    using assms by (simp add: flight_bytes_def map_update sum_list_update)
qed

lemma flight_bytes_less:
  assumes "\<And>p. Some p \<in> set w \<Longrightarrow> pkt_ok T p"
  shows "flight_bytes w \<le> length w * 2 ^ 16"
  using assms
proof (induction w)
  case (Cons q w)
  have "flight_size q \<le> 2 ^ 16"
    using Cons.prems by (cases q) (fastforce simp: flight_size_def pkt_ok_def)+
  then show ?case using Cons by (simp add: flight_bytes_def)
qed (simp add: flight_bytes_def)

lemma out_okD:
  assumes "out_ok T s"
  shows "cb_ok (outbuf s)" "unat (cur_window_packets s) \<le> 2 ^ cb_bits (outbuf s)"
    "unat (cur_window_packets s) \<le> 1024" "\<And>p. Some p \<in> set (out_window s) \<Longrightarrow> pkt_ok T p"
    "unat (cur_window s) = flight_bytes (out_window s)" "flight_bytes (out_window s) \<le> 2 ^ 26"
proof -
  show 1: "cb_ok (outbuf s)" "unat (cur_window_packets s) \<le> 2 ^ cb_bits (outbuf s)"
    "unat (cur_window_packets s) \<le> 1024" "\<And>p. Some p \<in> set (out_window s) \<Longrightarrow> pkt_ok T p"
    "unat (cur_window s) = flight_bytes (out_window s)"
    using assms by (simp_all add: out_ok_def OUTGOING_BUFFER_MAX_SIZE_def)
  have "flight_bytes (out_window s) \<le> unat (cur_window_packets s) * 2 ^ 16"
    using flight_bytes_less [of "out_window s" T] 1(4) by simp
  also have "\<dots> \<le> 1024 * 2 ^ 16" using 1(3) by (rule mult_right_mono) simp
  finally show "flight_bytes (out_window s) \<le> 2 ^ 26" by simp
qed

lemma out_ok_nth:
  "out_ok T s \<Longrightarrow> j < unat (cur_window_packets s) \<Longrightarrow> out_window s ! j = Some p \<Longrightarrow> pkt_ok T p"
  using out_okD(4) nth_mem [of j "out_window s"] by simp

lemma pkt_ok_mono: "pkt_ok T p \<Longrightarrow> T \<le> B \<Longrightarrow> pkt_ok B p"
  by (simp add: pkt_ok_def)

lemma out_ok_mono: "out_ok T s \<Longrightarrow> T \<le> B \<Longrightarrow> out_ok B s"
  unfolding out_ok_def using pkt_ok_mono by blast

subsection \<open>What sending leaves alone\<close>

text \<open>The socket fields and the parts of the context that sending may change.\<close>

definition tx_erase :: "UTPSocket \<Rightarrow> UTPSocket" where
  "tx_erase s = (mtu_erase s)\<lparr>cur_window := 0, last_sent_packet := 0, last_maxed_out_window := 0,
     last_rcv_win := 0, outbuf := cb_new 0\<rparr>"

definition tx_frame :: "UTPSocket \<Rightarrow> UTPSocket \<Rightarrow> bool" where
  "tx_frame s s' \<longleftrightarrow> tx_erase s' = tx_erase s"

definition ctx_erase :: "utp_context \<Rightarrow> utp_context" where
  "ctx_erase ctx = ctx\<lparr>calls := [], nraw_send := [], ack_sockets := [], ida := (\<lambda>_. - 1)\<rparr>"

definition ctx_ok :: "utp_context \<Rightarrow> bool" where
  "ctx_ok ctx \<longleftrightarrow> ack_ok ctx \<and> length (nraw_send ctx) = 5"

definition ctx_frame :: "sid \<Rightarrow> utp_context \<Rightarrow> utp_context \<Rightarrow> bool" where
  "ctx_frame i ctx ctx' \<longleftrightarrow> ctx_erase ctx' = ctx_erase ctx \<and> (\<exists>cs. calls ctx' = calls ctx @ cs) \<and>
     set (ack_sockets ctx) - {i} \<subseteq> set (ack_sockets ctx') \<and> set (ack_sockets ctx') \<subseteq> set (ack_sockets ctx) \<and>
     (ctx_ok ctx \<longrightarrow> ctx_ok ctx')"

lemma tx_frame_refl [simp, intro]: "tx_frame s s"
  by (simp add: tx_frame_def)

lemma tx_frame_trans [trans]: "tx_frame a b \<Longrightarrow> tx_frame b c \<Longrightarrow> tx_frame a c"
  by (simp add: tx_frame_def)

lemma tx_frame_update [simp]:
  "tx_frame s (s'\<lparr>cur_window := x\<rparr>) = tx_frame s s'" "tx_frame s (s'\<lparr>last_sent_packet := t\<rparr>) = tx_frame s s'"
  "tx_frame s (s'\<lparr>last_maxed_out_window := t\<rparr>) = tx_frame s s'" "tx_frame s (s'\<lparr>last_rcv_win := x\<rparr>) = tx_frame s s'"
  "tx_frame s (s'\<lparr>outbuf := b\<rparr>) = tx_frame s s'"
  "tx_frame s (s'\<lparr>mtu_probe_seq := y\<rparr>) = tx_frame s s'" "tx_frame s (s'\<lparr>mtu_probe_size := y\<rparr>) = tx_frame s s'"
  by (simp_all add: tx_frame_def tx_erase_def mtu_erase_def)

lemma mtu_only_tx_frame: "mtu_only s s' \<Longrightarrow> tx_frame s s'"
proof -
  assume "mtu_only s s'"
  then have "mtu_erase s' = mtu_erase s" by (simp add: mtu_only_def)
  from arg_cong [OF this, of "\<lambda>s. s\<lparr>cur_window := 0, last_sent_packet := 0, last_maxed_out_window := 0,
      last_rcv_win := 0, outbuf := cb_new 0\<rparr>"]
  show ?thesis by (simp only: tx_frame_def tx_erase_def)
qed

lemma tx_frame_fields:
  assumes "tx_frame s s'"
  shows "self s' = self s"
    "addr s' = addr s"
    "cur_window_packets s' = cur_window_packets s"
    "reorder_count s' = reorder_count s"
    "got_fin_reached s' = got_fin_reached s"
    "seq_nr s' = seq_nr s"
    "ack_nr s' = ack_nr s"
    "state s' = state s"
    "inbuf s' = inbuf s"
    "our_hist s' = our_hist s"
    "their_hist s' = their_hist s"
    "rtt_hist s' = rtt_hist s"
    "extensions s' = extensions s"
    "max_window s' = max_window s"
    "opt_sndbuf s' = opt_sndbuf s"
    "max_window_user s' = max_window_user s"
    "opt_rcvbuf s' = opt_rcvbuf s"
    "close_requested s' = close_requested s"
    "fin_sent s' = fin_sent s"
    "rto_timeout s' = rto_timeout s"
    "retransmit_count s' = retransmit_count s"
  using assms by (cases s; cases s'; simp add: tx_frame_def tx_erase_def mtu_erase_def)+

lemma ctx_frame_refl [simp, intro]: "ctx_frame i ctx ctx"
  by (simp add: ctx_frame_def)

lemma ctx_frame_trans [trans]: "ctx_frame i a b \<Longrightarrow> ctx_frame i b c \<Longrightarrow> ctx_frame i a c"
  unfolding ctx_frame_def by (intro conjI) (auto)

lemma trace_ext_ctx_frame: "trace_ext ctx ctx' \<Longrightarrow> ctx_frame i ctx ctx'"
  by (auto simp: trace_ext_def ctx_frame_def ctx_erase_def ctx_ok_def ack_ok_def)

lemma ctx_frame_ok: "ctx_frame i ctx ctx' \<Longrightarrow> ctx_ok ctx \<Longrightarrow> ctx_ok ctx'"
  by (simp add: ctx_frame_def)

lemma ctx_frame_fields:
  assumes "ctx_frame i ctx ctx'"
  shows "callbacks ctx' = callbacks ctx" "current_ms ctx' = current_ms ctx" "utp_sockets ctx' = utp_sockets ctx"
    "socks ctx' = socks ctx" "rst_info ctx' = rst_info ctx" "last_utp_socket ctx' = last_utp_socket ctx"
  using assms by (cases ctx; cases ctx'; simp add: ctx_frame_def ctx_erase_def)+

subsection \<open>Single datagrams\<close>

lemma trace_ext_report_overhead: "trace_ext ctx (report_overhead len type (s, ctx))"
proof -
  have ov: "trace_ext ctx (snd (get_udp_overhead (s, ctx)))"
    by (auto simp: get_udp_overhead_def utp_call_get_udp_overhead_def Let_def split: prod.splits)
      (metis snd_conv trace_ext_call)
  have call: "trace_ext ctx (utp_call_on_overhead_statistics ctx' i snd' l t)" if "trace_ext ctx ctx'" for ctx' i snd' l t
    unfolding utp_call_on_overhead_statistics_def using that by (rule trace_ext_trans) simp
  show ?thesis
    using ov by (auto simp: report_overhead_def get_overhead_def Let_def split: prod.splits intro!: call)
qed

lemma ctx_frame_send_to_addr: "ctx_frame i ctx (send_to_addr ctx sock b a flags)"
proof -
  obtain to tolen where a: "psa_get_sockaddr_storage a = (to, tolen)" by (cases "psa_get_sockaddr_storage a")
  let ?c = "utp_register_sent_packet ctx (of_nat (length b))"
  have "ctx_frame i ctx ?c"
    by (simp add: ctx_frame_def ctx_erase_def ctx_ok_def ack_ok_def utp_register_sent_packet_def Let_def)
  also have "ctx_frame i ?c (utp_call_sendto ?c sock b to tolen flags)"
    unfolding utp_call_sendto_def by (rule trace_ext_ctx_frame) simp
  finally show ?thesis by (simp add: send_to_addr_def a)
qed

lemma ctx_frame_remove:
  assumes "ctx_ok ctx"
  shows "wpo (removeSocketFromAckList i ctx) (\<lambda>ctx'. ctx_frame i ctx ctx' \<and> ctx_ok ctx' \<and> i \<notin> set (ack_sockets ctx'))"
proof (rule wpo_mono [OF removeSocketFromAckList_spec])
  show "ack_ok ctx" using assms by (simp add: ctx_ok_def)
  fix ctx' :: utp_context
  assume r: "ack_ok ctx' \<and> set (ack_sockets ctx') = set (ack_sockets ctx) - {i} \<and>
    ctx' = ctx\<lparr>ida := ida ctx', ack_sockets := ack_sockets ctx'\<rparr>"
  obtain x y where ctx': "ctx' = ctx\<lparr>ida := x, ack_sockets := y\<rparr>" using r by blast
  show "ctx_frame i ctx ctx' \<and> ctx_ok ctx' \<and> i \<notin> set (ack_sockets ctx')"
    using r assms unfolding ctx' by (simp add: ctx_frame_def ctx_erase_def ctx_ok_def)
qed

lemma send_data_spec:
  assumes ok: "ctx_ok ctx" and len: "unat len \<le> 20 + length rest"
  shows "wpo (send_data h rest len type flags (s, ctx)) (\<lambda>(h', s', ctx').
           (\<exists>t. s' = s\<lparr>last_sent_packet := t\<rparr>) \<and> ctx_ok ctx' \<and> ctx_frame (self s) ctx ctx' \<and>
           self s \<notin> set (ack_sockets ctx'))"
proof -
  obtain time ctx1 where t: "utp_call_get_microseconds ctx (Some (self s)) = (time, ctx1)"
    by (cases "utp_call_get_microseconds ctx (Some (self s))")
  let ?h = "h\<lparr>pf_tv_usec := ucast time, pf_reply_micro := reply_micro s\<rparr>"
  let ?s = "s\<lparr>last_sent_packet := current_ms ctx1\<rparr>"
  let ?b = "take (unat len) (pf_bytes ?h @ rest)"
  let ?c2 = "report_overhead len type (?s, ctx1)"
  let ?c3 = "send_to_addr ?c2 (Some (self s)) ?b (addr s) flags"
  have "ctx_frame (self s) ctx ctx1" using trace_ext_microseconds [OF t] by (rule trace_ext_ctx_frame)
  also have "ctx_frame (self s) ctx1 ?c2" by (rule trace_ext_ctx_frame, rule trace_ext_report_overhead)
  also have "ctx_frame (self s) ?c2 ?c3" by (rule ctx_frame_send_to_addr)
  finally have fr: "ctx_frame (self s) ctx ?c3" .
  have rd: "read_bytes (pf_bytes ?h @ rest) 0 (unat len) = Some ?b"
    using len by (simp add: read_bytes_def sizeof_PacketFormatV1_def)
  have "wpo (removeSocketFromAckList (self s) ?c3)
      (\<lambda>ctx'. ctx_frame (self s) ?c3 ctx' \<and> ctx_ok ctx' \<and> self s \<notin> set (ack_sockets ctx'))"
    using ctx_frame_ok [OF fr ok] by (rule ctx_frame_remove)
  then show ?thesis
    unfolding send_data_def
    by (simp add: t Let_def rd wpo_bind)
      (erule wpo_mono, use fr in \<open>auto intro: ctx_frame_trans\<close>)
qed

subsection \<open>What the application promises\<close>

text \<open>
  The read buffer size that the application reports fits a signed 32-bit integer, and the UDP
  payload size it reports for a path is at least \<open>L\<close>.
\<close>

definition rcv_callback_ok :: "utp_context \<Rightarrow> bool" where
  "rcv_callback_ok ctx \<longleftrightarrow> (\<forall>f. callbacks ctx UTP_GET_READ_BUFFER_SIZE = Some f \<longrightarrow>
     (\<forall>i sock. 0 \<le> as_int (f i (Get_Read_Buffer_Size sock))))"

definition app_ok :: "nat \<Rightarrow> utp_context \<Rightarrow> bool" where
  "app_ok L ctx \<longleftrightarrow> mtu_callback_ok L ctx \<and> rcv_callback_ok ctx"

lemma app_ok_cong: "callbacks ctx' = callbacks ctx \<Longrightarrow> app_ok L ctx' = app_ok L ctx"
  by (simp add: app_ok_def mtu_callback_ok_def rcv_callback_ok_def)

lemma app_ok_frame: "ctx_frame i ctx ctx' \<Longrightarrow> app_ok L ctx \<Longrightarrow> app_ok L ctx'"
  using app_ok_cong ctx_frame_fields(1) by blast

lemma app_ok_trace: "trace_ext ctx ctx' \<Longrightarrow> app_ok L ctx \<Longrightarrow> app_ok L ctx'"
  using app_ok_cong trace_ext_fields(1) by blast

lemma get_rcv_window_spec:
  assumes "app_ok L ctx"
  shows "wpo (get_rcv_window (s, ctx)) (\<lambda>(w, ctx'). trace_ext ctx ctx' \<and> w \<le> opt_rcvbuf s)"
proof -
  obtain n ctx' where n: "utp_call_get_read_buffer_size ctx (self s) = (n, ctx')"
    by (cases "utp_call_get_read_buffer_size ctx (self s)")
  have "0 \<le> as_int n" "trace_ext ctx ctx'"
    using n assms trace_ext_call [of ctx UTP_GET_READ_BUFFER_SIZE "Get_Read_Buffer_Size (self s)"]
    by (auto simp: utp_call_get_read_buffer_size_def utp_call_def app_ok_def rcv_callback_ok_def as_int_def
        split: option.splits)
  moreover have "opt_rcvbuf s - n \<le> opt_rcvbuf s" if "n < opt_rcvbuf s"
    using that by (simp add: word_le_nat_alt unat_sub word_less_nat_alt)
  ultimately show ?thesis by (simp add: get_rcv_window_def n)
qed

subsection \<open>Sending a queued packet\<close>

lemma mtu_ok_update [simp]:
  "mtu_ok L (s\<lparr>cur_window := x\<rparr>) = mtu_ok L s" "mtu_ok L (s\<lparr>last_sent_packet := t\<rparr>) = mtu_ok L s"
  "mtu_ok L (s\<lparr>last_maxed_out_window := t\<rparr>) = mtu_ok L s" "mtu_ok L (s\<lparr>last_rcv_win := x\<rparr>) = mtu_ok L s"
  "mtu_ok L (s\<lparr>outbuf := b\<rparr>) = mtu_ok L s" "mtu_ok L (s\<lparr>seq_nr := n\<rparr>) = mtu_ok L s"
  "mtu_ok L (s\<lparr>cur_window_packets := n\<rparr>) = mtu_ok L s" "mtu_ok L (s\<lparr>ack_nr := n\<rparr>) = mtu_ok L s"
  by (simp_all add: mtu_ok_def)

lemma mark_mtu_probe_ok:
  assumes "mtu_ok L s"
  shows "wpo (mark_mtu_probe pkt (s, ctx)) (\<lambda>(s', ctx'). mtu_ok L s' \<and> mtu_only s s' \<and> trace_ext ctx ctx' \<and>
           mtu_last s' = mtu_last s)"
proof (cases "use_as_mtu_probe s pkt")
  case True
  have "unat (mtu_floor s) < unat (pkt_length pkt)" "unat (pkt_length pkt) \<le> unat (mtu_ceiling s)"
    using True by (simp_all add: use_as_mtu_probe_def word_less_nat_alt word_le_nat_alt unat_ucast_up)
  moreover from this have "unat (ucast (pkt_length pkt) :: uint32) = unat (pkt_length pkt)"
    using assms by (intro unat_ucast_small) (simp add: mtu_ok_def)
  moreover have "ucast (mtu_floor s) \<le> pkt_length pkt" "pkt_length pkt \<le> ucast (mtu_ceiling s)"
    using True by (auto simp: use_as_mtu_probe_def)
  ultimately show ?thesis
    using True assms by (simp add: mark_mtu_probe_def mtu_ok_def)
next
  case False
  then show ?thesis using assms by (simp add: mark_mtu_probe_def)
qed

lemma pkt_okD:
  assumes "pkt_ok T p"
  shows "unat (pkt_length p) = 20 + unat (pkt_payload p)" "length (pkt_body p) = unat (pkt_payload p)"
  using assms by (simp_all add: pkt_ok_def get_header_size_def sizeof_PacketFormatV1_def unat_word_ariths)

subsubsection \<open>Time stamps\<close>

text \<open>
  \<open>reading\<close> is what the clock answers to the callback number \<open>i\<close>. The readings to come are
  ordered and lie between \<open>lo\<close> and \<open>hi\<close>, and the time stamp of a packet is an earlier reading.
\<close>

definition reading :: "utp_context \<Rightarrow> nat \<Rightarrow> sid option \<Rightarrow> uint64" where
  "reading ctx i sock = (case callbacks ctx UTP_GET_MICROSECONDS of None \<Rightarrow> 0 | Some f \<Rightarrow> f i (Get_Microseconds sock))"

definition clock_ok :: "nat \<Rightarrow> nat \<Rightarrow> utp_context \<Rightarrow> bool" where
  "clock_ok lo hi ctx \<longleftrightarrow> (\<forall>i a. length (calls ctx) \<le> i \<longrightarrow>
     lo \<le> unat (reading ctx i a) \<and> unat (reading ctx i a) \<le> hi \<and>
     (\<forall>j b. i \<le> j \<longrightarrow> reading ctx i a \<le> reading ctx j b))"

definition stamped :: "nat \<Rightarrow> utp_context \<Rightarrow> OutgoingPacket \<Rightarrow> bool" where
  "stamped lo ctx p \<longleftrightarrow> (0 < transmissions p \<longrightarrow> lo \<le> unat (time_sent p) \<and>
     (\<forall>i a. length (calls ctx) \<le> i \<longrightarrow> time_sent p \<le> reading ctx i a))"

definition times_ok :: "nat \<Rightarrow> utp_context \<Rightarrow> UTPSocket \<Rightarrow> bool" where
  "times_ok lo ctx s \<longleftrightarrow> (\<forall>p. Some p \<in> set (out_window s) \<longrightarrow> stamped lo ctx p)"

lemma ctx_frame_time:
  assumes "ctx_frame i ctx ctx'"
  shows "reading ctx' = reading ctx" "length (calls ctx) \<le> length (calls ctx')"
    "clock_ok lo hi ctx \<Longrightarrow> clock_ok lo hi ctx'" "stamped lo ctx p \<Longrightarrow> stamped lo ctx' p"
proof -
  have "callbacks ctx' = callbacks ctx" using ctx_frame_fields(1) [OF assms] .
  then show r: "reading ctx' = reading ctx" by (simp add: reading_def fun_eq_iff)
  show l: "length (calls ctx) \<le> length (calls ctx')" using assms by (auto simp: ctx_frame_def)
  show "clock_ok lo hi ctx \<Longrightarrow> clock_ok lo hi ctx'" "stamped lo ctx p \<Longrightarrow> stamped lo ctx' p"
    using l by (auto simp: clock_ok_def stamped_def r)
qed

lemma microseconds_reading:
  assumes "utp_call_get_microseconds ctx a = (now, ctx')" and "clock_ok lo hi ctx"
  shows "lo \<le> unat now" "unat now \<le> hi" "\<And>i b. length (calls ctx') \<le> i \<Longrightarrow> now \<le> reading ctx' i b"
    "now = reading ctx (length (calls ctx)) a"
proof -
  have now: "now = reading ctx (length (calls ctx)) a"
    using assms(1) by (auto simp: utp_call_get_microseconds_def utp_call_def reading_def split: option.splits)
  show "lo \<le> unat now" "unat now \<le> hi" "now = reading ctx (length (calls ctx)) a"
    using assms(2) by (simp_all add: clock_ok_def now)
  have fr: "ctx_frame 0 ctx ctx'" using trace_ext_microseconds [OF assms(1)] by (rule trace_ext_ctx_frame)
  show "now \<le> reading ctx' i b" if "length (calls ctx') \<le> i" for i b
    using assms(2) that ctx_frame_time(1,2) [OF fr] by (auto simp: clock_ok_def now)
qed

text \<open>Packet \<open>j\<close> of the window, \<open>p\<close>, has been sent: it is in flight and counted, with the same contents.\<close>

definition packet_sent :: "nat \<Rightarrow> nat \<Rightarrow> conn \<Rightarrow> nat \<Rightarrow> OutgoingPacket \<Rightarrow> conn \<Rightarrow> bool" where
  "packet_sent T L = (\<lambda>(s, ctx) j p (s', ctx'). tx_frame s s' \<and> mtu_ok L s' \<and> ctx_ok ctx' \<and>
     ctx_frame (self s) ctx ctx' \<and> mtu_last s' = mtu_last s \<and>
     cur_window s' = cur_window s + (if in_flight p then 0 else pkt_payload p) \<and>
     (\<exists>p'. outbuf s' = cb_put (outbuf s) (out_base s + of_nat j) (Some p') \<and> pkt_ok (T + 1) p' \<and>
           in_flight p' \<and> pkt_payload p' = pkt_payload p \<and> pkt_body p' = pkt_body p \<and>
           (\<forall>lo hi. clock_ok lo hi ctx \<longrightarrow> stamped lo ctx' p')))"

lemma send_packet_finish:
  assumes s3: "tx_frame s s3" "mtu_ok L s3" "outbuf s3 = outbuf s"
      "cur_window s3 = cur_window s + (if in_flight p then 0 else pkt_payload p)" "mtu_last s3 = mtu_last s"
    and ctx: "ctx_ok ctx4" "ctx_frame (self s) ctx ctx4"
    and q: "pkt_ok (T + 1) q" "in_flight q" "pkt_payload q = pkt_payload p" "pkt_body q = pkt_body p"
    and stamp: "\<And>lo hi. clock_ok lo hi ctx \<Longrightarrow> stamped lo ctx4 q"
    and slot: "\<And>v. cb_put (outbuf s) idx v = cb_put (outbuf s) (out_base s + of_nat j) v"
  shows "wpo (send_data (pkt_header q) (pkt_body q) (pkt_length q) ty fl (s3, ctx4) \<bind>
          (\<lambda>(h, s4, ctx5). Some (s4\<lparr>outbuf := cb_put (outbuf s4) idx (Some (q\<lparr>pkt_header := h\<rparr>))\<rparr>, ctx5)))
        (packet_sent T L (s, ctx) j p)"
proof (rule wpo_bindI [OF send_data_spec [OF ctx(1)]], goal_cases)
  case 1
  then show ?case using pkt_okD [OF q(1)] by simp
next
  case (2 x)
  then obtain h t ctx5 where x: "x = (h, s3\<lparr>last_sent_packet := t\<rparr>, ctx5)"
    and c5: "ctx_ok ctx5" "ctx_frame (self s3) ctx4 ctx5" by (cases x) auto
  define q' where "q' = q\<lparr>pkt_header := h\<rparr>"
  have q': "pkt_ok (T + 1) q'" "in_flight q'" "pkt_payload q' = pkt_payload p" "pkt_body q' = pkt_body p"
    using q by (simp_all add: q'_def pkt_ok_def in_flight_def)
  have "ctx_frame (self s) ctx ctx5"
    using ctx(2) c5(2) unfolding tx_frame_fields(1) [OF s3(1)] by (rule ctx_frame_trans)
  moreover have "stamped lo ctx5 q'" if "clock_ok lo hi ctx" for lo hi
    using ctx_frame_time(4) [OF c5(2) stamp [OF that]] by (simp add: q'_def stamped_def)
  ultimately show ?case
    using s3 c5(1) q' slot unfolding x prod.case packet_sent_def q'_def [symmetric] by auto
qed

lemma send_packet_eq:
  assumes "cb_get (outbuf s) idx = Some p"
    and "utp_call_get_milliseconds ctx (Some (self s)) = (cur_time, ctx1)"
    and "utp_call_get_microseconds ctx1 (Some (self s)) = (now, ctx2)"
  shows "send_packet idx (s, ctx) = (
     let s1 = (if transmissions p = 0 \<or> need_resend p then s\<lparr>cur_window := cur_window s + pkt_payload p\<rparr> else s);
         p1 = p\<lparr>need_resend := False, pkt_header := (pkt_header p)\<lparr>pf_ack_nr := ack_nr s1\<rparr>, time_sent := now\<rparr>;
         p2 = p1\<lparr>transmissions := (transmissions p1 + 1) mod 2 ^ 31\<rparr>
     in (if mtu_discover_time s1 < cur_time then mtu_reset (s1, ctx2) else Some (s1, ctx2)) \<bind>
     (\<lambda>(s2, ctx3). mark_mtu_probe p1 (s2, ctx3) \<bind>
     (\<lambda>(s3, ctx4). send_data (pkt_header p2) (pkt_body p2) (pkt_length p2)
        (if state s3 = CS_SYN_SENT then connect_overhead
         else if transmissions p2 = 1 then payload_bandwidth else retransmit_overhead)
        (if use_as_mtu_probe s2 p1 then UTP_UDP_DONTFRAG else 0) (s3, ctx4) \<bind>
     (\<lambda>(h, s4, ctx5). Some (s4\<lparr>outbuf := cb_put (outbuf s4) idx (Some (p2\<lparr>pkt_header := h\<rparr>))\<rparr>, ctx5)))))"
  unfolding send_packet_def prod.case assms bind.bind_lunit Let_def ..

lemma send_packet_slot:
  assumes out: "out_ok B s" and mtu: "mtu_ok L s" and ctx: "ctx_ok ctx" and app: "app_ok L ctx"
    and T: "T + 1 < 2 ^ 31" and j: "j < unat (cur_window_packets s)"
    and slot: "cb_get (outbuf s) idx = Some p" "\<And>v. cb_put (outbuf s) idx v = cb_put (outbuf s) (out_base s + of_nat j) v"
    and pk: "pkt_ok T p"
  shows "wpo (send_packet idx (s, ctx)) (packet_sent T L (s, ctx) j p)"
proof -
  obtain cur_time ctx1 where t1: "utp_call_get_milliseconds ctx (Some (self s)) = (cur_time, ctx1)"
    by (cases "utp_call_get_milliseconds ctx (Some (self s))")
  obtain now ctx2 where t2: "utp_call_get_microseconds ctx1 (Some (self s)) = (now, ctx2)"
    by (cases "utp_call_get_microseconds ctx1 (Some (self s))")
  have tr: "trace_ext ctx ctx2"
    using trace_ext_milliseconds [OF t1] trace_ext_microseconds [OF t2] by (rule trace_ext_trans)
  define s1 where "s1 = (if transmissions p = 0 \<or> need_resend p
                         then s\<lparr>cur_window := cur_window s + pkt_payload p\<rparr> else s)"
  have s1: "tx_frame s s1" "mtu_ok L s1" "outbuf s1 = outbuf s"
      "cur_window s1 = cur_window s + (if in_flight p then 0 else pkt_payload p)" "mtu_last s1 = mtu_last s"
    using mtu by (auto simp: s1_def in_flight_def)
  let ?p1 = "p\<lparr>need_resend := False, pkt_header := (pkt_header p)\<lparr>pf_ack_nr := ack_nr s1\<rparr>, time_sent := now\<rparr>"
  define p2 where "p2 = ?p1\<lparr>transmissions := (transmissions ?p1 + 1) mod 2 ^ 31\<rparr>"
  have p2: "pkt_ok (T + 1) p2" "in_flight p2" "pkt_payload p2 = pkt_payload p" "pkt_body p2 = pkt_body p"
    using pk T by (simp_all add: p2_def pkt_ok_def in_flight_def)
  have reset: "wpo (if mtu_discover_time s1 < cur_time then mtu_reset (s1, ctx2) else Some (s1, ctx2))
      (\<lambda>(s', ctx'). (mtu_ok L s' \<and> mtu_only s1 s' \<and> trace_ext ctx2 ctx') \<and> mtu_last s' = mtu_last s1)"
    using wpo_conj [OF mtu_reset_ok [OF s1(2)] mtu_reset_last] app_ok_trace [OF tr app] s1(2)
    by (simp add: app_ok_def split_def)
  have finish: "wpo (send_data (pkt_header p2) (pkt_body p2) (pkt_length p2) ty fl (s3, ctx4) \<bind>
        (\<lambda>(h, s4, ctx5). Some (s4\<lparr>outbuf := cb_put (outbuf s4) idx (Some (p2\<lparr>pkt_header := h\<rparr>))\<rparr>, ctx5)))
      (packet_sent T L (s, ctx) j p)"
    if s3: "mtu_ok L s3" "mtu_only s1 s3" "trace_ext ctx2 ctx4" "mtu_last s3 = mtu_last s1" for s3 ctx4 ty fl
  proof (rule send_packet_finish)
    show "ctx_frame (self s) ctx ctx4" using trace_ext_trans [OF tr s3(3)] by (rule trace_ext_ctx_frame)
    then show "ctx_ok ctx4" using ctx by (rule ctx_frame_ok)
    show "tx_frame s s3" using s1(1) mtu_only_tx_frame [OF s3(2)] by (rule tx_frame_trans)
    fix lo hi assume "clock_ok lo hi ctx"
    then have c1: "clock_ok lo hi ctx1"
      using ctx_frame_time(3) [OF trace_ext_ctx_frame [OF trace_ext_milliseconds [OF t1]]] by blast
    have "stamped lo ctx2 p2"
      using microseconds_reading [OF t2 c1] by (simp add: stamped_def p2_def)
    then show "stamped lo ctx4 p2" by (rule ctx_frame_time(4) [OF trace_ext_ctx_frame [OF s3(3)]])
  qed (use p2 s3 s1 slot(2) mtu_only_fields [OF s3(2)] in simp_all)
  show ?thesis
    unfolding send_packet_eq [OF slot(1) t1 t2] Let_def s1_def [symmetric] p2_def [symmetric]
    by (rule wpo_bindI [OF reset], clarify, rule wpo_bindI [OF mark_mtu_probe_ok], assumption, clarify)
      (rule finish, assumption, erule (1) mtu_only_trans, erule (1) trace_ext_trans, simp)
qed

lemma send_packet_spec:
  assumes out: "out_ok B s" and mtu: "mtu_ok L s" and ctx: "ctx_ok ctx" and app: "app_ok L ctx"
    and T: "T + 1 < 2 ^ 31" and j: "j < unat (cur_window_packets s)"
    and idx: "(ucast idx :: uint16) = seq_nr s - cur_window_packets s + of_nat j"
    and p: "out_window s ! j = Some p" and pk: "pkt_ok T p"
  shows "wpo (send_packet idx (s, ctx)) (packet_sent T L (s, ctx) j p)"
  using out_slot [OF out_okD(1) [OF out] j idx] p by (intro send_packet_slot [OF out mtu ctx app T j _ _ pk]) simp_all

text \<open>Every packet of the ring belongs to the window, whatever index it is read with.\<close>

lemma slot_in_window:
  assumes "out_ok T s" and p: "cb_get (outbuf s) idx = Some p"
  obtains j where "j < unat (cur_window_packets s)" "out_window s ! j = Some p"
    "\<And>v. cb_put (outbuf s) idx v = cb_put (outbuf s) (out_base s + of_nat j) v"
proof -
  note o = out_okD [OF assms(1)]
  let ?k = "cb_bits (outbuf s)"
  define j where "j = unat (idx - out_base s) mod 2 ^ ?k"
  have k: "?k \<le> LENGTH(64)" using cb.bits_le_64 [OF o(1)] .
  have j: "j < 2 ^ ?k" by (simp add: j_def)
  have "unat (out_base s + of_nat j) mod 2 ^ ?k = unat (out_base s + of_nat (unat (idx - out_base s))) mod 2 ^ ?k"
    unfolding unat_add_of_nat_mod [OF k] by (simp add: j_def mod_add_right_eq)
  also have "out_base s + of_nat (unat (idx - out_base s)) = idx" by simp
  finally have eq: "unat (out_base s + of_nat j) mod 2 ^ ?k = unat idx mod 2 ^ ?k" .
  have get: "cb_get (outbuf s) (out_base s + of_nat j) = Some p" using p by (simp only: cb_get_eq [OF o(1)] eq)
  have put: "cb_put (outbuf s) idx v = cb_put (outbuf s) (out_base s + of_nat j) v" for v
    unfolding cb_put_def using eq cb_slot [OF o(1), of idx] cb_slot [OF o(1), of "out_base s + of_nat j"] by presburger
  have "j < unat (cur_window_packets s)"
    using get j assms(1) unfolding out_ok_def out_clean_def by (metis not_le option.distinct(1))
  then show thesis using that get put by (simp add: out_window_def)
qed

lemma packet_sent_out_ok:
  assumes out: "out_ok B s" and T: "T + 1 \<le> B" and j: "j < unat (cur_window_packets s)"
    and p: "out_window s ! j = Some p" and sent: "packet_sent T L (s, ctx) j p (s', ctx')"
  shows "out_ok B s' \<and> unat (cur_window s') = unat (cur_window s) + (if in_flight p then 0 else unat (pkt_payload p)) \<and>
         (\<exists>p'. out_window s' = (out_window s)[j := Some p'] \<and> in_flight p' \<and>
               pkt_payload p' = pkt_payload p \<and> pkt_body p' = pkt_body p \<and>
               (\<forall>lo hi. clock_ok lo hi ctx \<longrightarrow> stamped lo ctx' p'))"
proof -
  note o = out_okD [OF out]
  have fr: "tx_frame s s'"
    and cw: "cur_window s' = cur_window s + (if in_flight p then 0 else pkt_payload p)"
    using sent by (simp_all add: packet_sent_def)
  obtain p' where p': "outbuf s' = cb_put (outbuf s) (out_base s + of_nat j) (Some p')" "pkt_ok (T + 1) p'"
      "in_flight p'" "pkt_payload p' = pkt_payload p" "pkt_body p' = pkt_body p"
      "\<forall>lo hi. clock_ok lo hi ctx \<longrightarrow> stamped lo ctx' p'"
    using sent by (auto simp: packet_sent_def)
  note f = tx_frame_fields [OF fr]
  have w: "out_window s' = (out_window s)[j := Some p']"
    using out_window_put [OF o(1,2) j, of "Some p'"] f p'(1)
    by (simp add: out_window_cong [of s' "s\<lparr>outbuf := outbuf s'\<rparr>"])
  have pk: "pkt_ok B p" using o(4) p j by (metis length_out_window nth_mem)
  then have small: "unat (pkt_payload p) < 2 ^ 16" by (simp add: pkt_ok_def)
  have cw': "unat (cur_window s') = unat (cur_window s) + (if in_flight p then 0 else unat (pkt_payload p))"
    using cw o(5,6) small by (simp add: unat_word_ariths)
  have "flight_bytes (out_window s') + flight_size (Some p) = flight_bytes (out_window s) + flight_size (Some p')"
    using flight_bytes_update [of j "out_window s" "Some p'"] w p j by simp
  then have flight: "unat (cur_window s') = flight_bytes (out_window s')"
    using cw' o(5) p'(3,4) by (simp add: flight_size_def split: if_splits)
  have "pkt_ok B p'" using p'(2) T by (simp add: pkt_ok_def)
  then have all: "\<forall>q. Some q \<in> set (out_window s') \<longrightarrow> pkt_ok B q"
    using o(4) set_update_subset_insert [of "out_window s" j "Some p'"] unfolding w by auto
  have "out_window s' \<noteq> [] \<longrightarrow> hd (out_window s') \<noteq> None"
    using out j p unfolding out_ok_def w by (cases j; cases "out_window s") auto
  moreover have "out_clean s'"
    using out by (intro out_clean_put [OF _ o(1,2) j p'(1) f(6,3)]) (simp add: out_ok_def)
  ultimately have "out_ok B s'"
    using all flight o(2,3) f(3) p'(1)
    by (simp add: out_ok_def cb_ok_put o(1) OUTGOING_BUFFER_MAX_SIZE_def)
  with cw' w p' show ?thesis by blast
qed

lemma as_int_small:
  assumes "unat x < 2 ^ 31"
  shows "as_int x = int (unat x)"
proof -
  have "unat (ucast x :: uint32) = unat x" using assms by (intro unat_ucast_small) simp
  from arg_cong [OF this, of int] have u: "uint (ucast x :: uint32) = int (unat x)" by simp
  have "int (unat x) < int (2 ^ 31)" using assms by (simp only: of_nat_less_iff)
  moreover have "- (2 ^ 31) \<le> int (unat x)" by (rule order_trans [of _ 0]) simp_all
  ultimately have "signed_take_bit 31 (int (unat x)) = int (unat x)"
    by (intro signed_take_bit_int_eq_self) simp_all
  then show ?thesis unfolding as_int_def sint_uint u by simp
qed

text \<open>
  \<open>is_full\<close> leaves room for one full packet when it says no.
\<close>

definition no_room :: "UTPSocket \<Rightarrow> bool" where
  "no_room s \<longleftrightarrow> 1023 \<le> unat (cur_window_packets s) \<or>
     unat (max_send s) < unat (cur_window s) + unat (get_packet_size s)"

lemma is_full_spec:
  assumes out: "out_ok B s" and mtu: "mtu_ok L s" and full: "is_full (- 1) (s, ctx) = (full, c')"
  shows "full \<longleftrightarrow> no_room s" and "c' = (if full then (s\<lparr>last_maxed_out_window := current_ms ctx\<rparr>, ctx) else (s, ctx))"
proof -
  note o = out_okD [OF out]
  have ps: "unat (get_packet_size s) < 2 ^ 16" using get_packet_size_bounds(1) [OF mtu] by simp
  then have "as_int (get_packet_size s) = int (unat (get_packet_size s))" by (intro as_int_small) simp
  then have w: "word_of_int (as_int (get_packet_size s)) = get_packet_size s" by simp
  have "unat (cur_window s + get_packet_size s) = unat (cur_window s) + unat (get_packet_size s)"
    using o(5,6) ps by (simp add: unat_word_ariths)
  then show "full \<longleftrightarrow> no_room s"
    using full w by (auto simp: is_full_def no_room_def OUTGOING_BUFFER_MAX_SIZE_def Let_def word_less_nat_alt split: if_splits)
  show "c' = (if full then (s\<lparr>last_maxed_out_window := current_ms ctx\<rparr>, ctx) else (s, ctx))"
    using full by (auto simp: is_full_def Let_def split: if_splits)
qed

subsection \<open>Flushing the window\<close>

text \<open>What a packet carries, whatever has been sent of it.\<close>

definition pkt_data :: "OutgoingPacket \<Rightarrow> size_t \<times> byte list" where
  "pkt_data p = (pkt_payload p, pkt_body p)"

definition window_data :: "OutgoingPacket option list \<Rightarrow> (size_t \<times> byte list) option list" where
  "window_data w = map (map_option pkt_data) w"

text \<open>The Nagle exception: a short last packet waits while others are in flight.\<close>

definition nagle_wait :: "size_t \<Rightarrow> nat \<Rightarrow> nat \<Rightarrow> OutgoingPacket \<Rightarrow> bool" where
  "nagle_wait ps n j p \<longleftrightarrow> j = n - 1 \<and> n \<noteq> 1 \<and> pkt_payload p < ps"

text \<open>
  The window has been flushed from packet \<open>k\<close> on: the contents are the same, nothing before \<open>k\<close>
  was touched, everything from \<open>k\<close> on is in flight unless the window filled up, and the bytes in
  flight stay within the limit.
\<close>

definition tx_step :: "nat \<Rightarrow> nat \<Rightarrow> conn \<Rightarrow> conn \<Rightarrow> bool" where
  "tx_step B L = (\<lambda>(s, ctx) (s', ctx'). tx_frame s s' \<and> mtu_last s' = mtu_last s \<and> out_ok B s' \<and>
     mtu_ok L s' \<and> ctx_ok ctx' \<and> ctx_frame (self s) ctx ctx' \<and>
     window_data (out_window s') = window_data (out_window s) \<and>
     (\<forall>lo hi. clock_ok lo hi ctx \<longrightarrow> times_ok lo ctx s \<longrightarrow> times_ok lo ctx' s'))"

definition flush_done :: "nat \<Rightarrow> size_t \<Rightarrow> UTPSocket \<Rightarrow> bool \<Rightarrow> UTPSocket \<Rightarrow> bool" where
  "flush_done k ps s full s' \<longleftrightarrow>
     (\<forall>j < k. out_window s' ! j = out_window s ! j) \<and>
     (if full then no_room s'
      else \<forall>j p. k \<le> j \<and> j < unat (cur_window_packets s) \<and> out_window s' ! j = Some p \<longrightarrow>
             in_flight p \<or> nagle_wait ps (unat (cur_window_packets s)) j p)"

definition within_limit :: "size_t \<Rightarrow> UTPSocket \<Rightarrow> UTPSocket \<Rightarrow> bool" where
  "within_limit ps s s' \<longleftrightarrow> ((\<forall>p. Some p \<in> set (out_window s) \<longrightarrow> pkt_payload p \<le> ps) \<longrightarrow>
     unat (cur_window s') \<le> max (unat (cur_window s)) (unat (max_send s)))"

lemma out_ok_update [simp]:
  "out_ok B (s\<lparr>last_maxed_out_window := t\<rparr>) = out_ok B s" "out_ok B (s\<lparr>last_rcv_win := x\<rparr>) = out_ok B s"
  "out_ok B (s\<lparr>last_sent_packet := t\<rparr>) = out_ok B s"
  by (simp_all add: out_ok_def out_window_def out_base_def out_clean_def)

lemma out_window_update [simp]:
  "out_window (s\<lparr>last_maxed_out_window := t\<rparr>) = out_window s" "out_window (s\<lparr>last_rcv_win := x\<rparr>) = out_window s"
  "out_window (s\<lparr>last_sent_packet := t\<rparr>) = out_window s"
  by (simp_all add: out_window_def out_base_def)

lemma no_room_update [simp]: "no_room (s\<lparr>last_maxed_out_window := t\<rparr>) = no_room s"
  by (simp add: no_room_def max_send_def get_packet_size_def)

lemma tx_step_refl: "out_ok B s \<Longrightarrow> mtu_ok L s \<Longrightarrow> ctx_ok ctx \<Longrightarrow> tx_step B L (s, ctx) (s, ctx)"
  by (simp add: tx_step_def)

lemma tx_step_trans:
  assumes "tx_step B L (s, ctx) (s1, ctx1)" and "tx_step B L (s1, ctx1) (s2, ctx2)"
  shows "tx_step B L (s, ctx) (s2, ctx2)"
proof -
  have "times_ok lo ctx2 s2" if "clock_ok lo hi ctx" "times_ok lo ctx s" for lo hi
    using assms that ctx_frame_time(3) [of "self s" ctx ctx1 lo hi] unfolding tx_step_def prod.case by blast
  then show ?thesis
    using assms tx_frame_fields(1) [of s s1] by (auto simp: tx_step_def intro: tx_frame_trans ctx_frame_trans)
qed

lemma tx_step_fields:
  assumes "tx_step B L (s, ctx) (s', ctx')" and "mtu_ok L s"
  shows "seq_nr s' = seq_nr s" "cur_window_packets s' = cur_window_packets s"
    "get_packet_size s' = get_packet_size s" "max_send s' = max_send s" "self s' = self s"
  using assms tx_frame_fields [of s s'] by (auto simp: tx_step_def get_packet_size_mtu_ok max_send_def)

lemma packet_sent_tx_step:
  assumes out: "out_ok B s" and T: "T + 1 \<le> B" and j: "j < unat (cur_window_packets s)"
    and p: "out_window s ! j = Some p" and sent: "packet_sent T L (s, ctx) j p (s', ctx')"
  shows "tx_step B L (s, ctx) (s', ctx')"
proof -
  obtain p' where o: "out_ok B s'" and w: "out_window s' = (out_window s)[j := Some p']"
    and d: "pkt_payload p' = pkt_payload p" "pkt_body p' = pkt_body p"
    and st: "\<And>lo hi. clock_ok lo hi ctx \<Longrightarrow> stamped lo ctx' p'"
    using packet_sent_out_ok [OF assms] by blast
  have fr: "ctx_frame (self s) ctx ctx'" using sent by (simp add: packet_sent_def)
  have "times_ok lo ctx' s'" if "clock_ok lo hi ctx" "times_ok lo ctx s" for lo hi
    using that st set_update_subset_insert [of "out_window s" j "Some p'"] ctx_frame_time(4) [OF fr]
    by (auto simp: times_ok_def w)
  have "window_data (out_window s') = window_data (out_window s)"
    using p j by (intro nth_equalityI) (auto simp: window_data_def w pkt_data_def d nth_list_update)
  moreover note \<open>\<And>lo hi. clock_ok lo hi ctx \<Longrightarrow> _ \<Longrightarrow> times_ok lo ctx' s'\<close>
  ultimately show ?thesis using sent o by (auto simp: tx_step_def packet_sent_def)
qed

lemma window_data_payload:
  assumes "window_data w' = window_data w" and "\<forall>p. Some p \<in> set w \<longrightarrow> pkt_payload p \<le> ps"
  shows "\<forall>p. Some p \<in> set w' \<longrightarrow> pkt_payload p \<le> ps"
proof clarify
  fix p assume "Some p \<in> set w'"
  then have "Some (pkt_data p) \<in> set (window_data w')" unfolding window_data_def by force
  then have "Some (pkt_data p) \<in> set (window_data w)" using assms(1) by simp
  then obtain q where "Some q \<in> set w" "pkt_data q = pkt_data p"
    unfolding window_data_def by (force simp: eq_commute [of "Some _"])
  then show "pkt_payload p \<le> ps" using assms(2) by (auto simp: pkt_data_def)
qed

text \<open>The position of the loop counter.\<close>

lemma mask16: "(y :: uint32) AND ACK_NR_MASK = ucast (ucast y :: uint16)"
proof -
  have m: "ACK_NR_MASK = mask 16" by (simp add: ACK_NR_MASK_def mask_eq_exp_minus_1)
  show ?thesis unfolding m by (rule bit_eqI) (auto simp: bit_simps)
qed

lemma ucast_ucast16_32 [simp]: "ucast (ucast (i :: uint16) :: uint32) = i"
  by (rule bit_eqI) (simp add: bit_simps)

lemma ucast16_diff32: "(ucast (x - y :: uint32) :: uint16) = ucast x - ucast y"
proof -
  have "(ucast (word_of_int k :: uint32) :: uint16) = word_of_int k" for k
    by (rule bit_eqI) (simp add: bit_simps)
  from this [of "uint x - uint y"] this [of "uint x"] this [of "uint y"] show ?thesis by simp
qed

lemma flush_index:
  assumes "k \<le> unat (cur_window_packets s)" and "unat (cur_window_packets s) \<le> 1024"
    and "i = seq_nr s - cur_window_packets s + of_nat k"
  shows "i = seq_nr s \<longleftrightarrow> k = unat (cur_window_packets s)"
    and "i + 1 = seq_nr s - cur_window_packets s + of_nat (Suc k)"
    and "k < unat (cur_window_packets s) \<Longrightarrow>
         ucast i = ((ucast (seq_nr s) - 1 :: uint32) AND ACK_NR_MASK) \<longleftrightarrow> k = unat (cur_window_packets s) - 1"
proof -
  let ?c = "cur_window_packets s"
  have u: "of_nat m = ?c \<longleftrightarrow> m = unat ?c" if "m \<le> 1024" for m
    using that unat_of_nat_small [of m, where 'a = 16] by (auto simp: word_unat_eq_iff)
  have "i - seq_nr s = of_nat k - ?c" unfolding assms(3) by simp
  then have d: "i = seq_nr s + (of_nat k - ?c)" by (metis add_diff_cancel_left' diff_eq_eq)
  then have "i = seq_nr s \<longleftrightarrow> of_nat k = ?c" by simp
  then show "i = seq_nr s \<longleftrightarrow> k = unat ?c" using u assms(1,2) by simp
  show "i + 1 = seq_nr s - ?c + of_nat (Suc k)" by (simp add: assms(3))
  assume k: "k < unat ?c"
  have m: "(ucast (seq_nr s) - 1 :: uint32) AND ACK_NR_MASK = ucast (seq_nr s - 1)"
    by (simp add: mask16 ucast16_diff32)
  have "ucast i = (ucast (seq_nr s - 1) :: uint32) \<longleftrightarrow> i = seq_nr s - 1"
    by (metis ucast_ucast16_32)
  also have "\<dots> \<longleftrightarrow> of_nat (Suc k) = ?c"
    unfolding d by (simp add: algebra_simps)
  also have "\<dots> \<longleftrightarrow> k = unat ?c - 1" using u [of "Suc k"] k assms(2) by auto
  finally show "ucast i = ((ucast (seq_nr s) - 1 :: uint32) AND ACK_NR_MASK) \<longleftrightarrow> k = unat ?c - 1"
    unfolding m .
qed

definition flush_pre :: "nat \<Rightarrow> nat \<Rightarrow> nat \<Rightarrow> conn \<Rightarrow> bool" where
  "flush_pre T L k = (\<lambda>(s, ctx). out_ok (T + 1) s \<and> mtu_ok L s \<and> ctx_ok ctx \<and> app_ok L ctx \<and> T + 1 < 2 ^ 31 \<and>
     k \<le> unat (cur_window_packets s) \<and> (\<forall>j p. k \<le> j \<and> j < unat (cur_window_packets s) \<longrightarrow>
       out_window s ! j = Some p \<longrightarrow> pkt_ok T p))"

definition flush_post :: "nat \<Rightarrow> nat \<Rightarrow> nat \<Rightarrow> conn \<Rightarrow> bool \<times> conn \<Rightarrow> bool" where
  "flush_post T L k = (\<lambda>(s, ctx) (full, s', ctx'). tx_step (T + 1) L (s, ctx) (s', ctx') \<and>
     flush_done k (get_packet_size s) s full s' \<and> within_limit (get_packet_size s) s s')"

lemma flush_skip:
  assumes post: "flush_post T L (Suc k) (s, ctx) r"
    and p: "\<And>p. out_window s ! k = Some p \<Longrightarrow>
             in_flight p \<or> nagle_wait (get_packet_size s) (unat (cur_window_packets s)) k p"
  shows "flush_post T L k (s, ctx) r"
proof -
  obtain full s' ctx' where r: "r = (full, s', ctx')" by (cases r)
  have "flush_done k (get_packet_size s) s full s'"
    using post p by (auto simp: r flush_post_def flush_done_def Suc_le_eq)
      (metis le_neq_implies_less lessI less_Suc_eq)
  then show ?thesis using post by (simp add: r flush_post_def)
qed

lemma flush_send:
  assumes pre: "flush_pre T L k (s, ctx)" and k: "k < unat (cur_window_packets s)"
    and p: "out_window s ! k = Some p" and room: "\<not> no_room s"
    and sent: "packet_sent T L (s, ctx) k p (s1, ctx1)"
  shows "flush_pre T L (Suc k) (s1, ctx1)"
    and "flush_post T L (Suc k) (s1, ctx1) r \<Longrightarrow> flush_post T L k (s, ctx) r"
proof -
  have out: "out_ok (T + 1) s" and mtu: "mtu_ok L s" and app: "app_ok L ctx"
    and fresh: "\<And>j p. k \<le> j \<Longrightarrow> j < unat (cur_window_packets s) \<Longrightarrow> out_window s ! j = Some p \<Longrightarrow> pkt_ok T p"
    and T: "T + 1 < 2 ^ 31" using pre by (auto simp: flush_pre_def)
  have step: "tx_step (T + 1) L (s, ctx) (s1, ctx1)"
    using out k p sent by (intro packet_sent_tx_step) auto
  note f = tx_step_fields [OF step mtu]
  obtain p' where w: "out_window s1 = (out_window s)[k := Some p']" and fl: "in_flight p'"
    and cw: "unat (cur_window s1) = unat (cur_window s) + (if in_flight p then 0 else unat (pkt_payload p))"
    using packet_sent_out_ok [OF out _ k p sent] by blast
  have "app_ok L ctx1" using sent app by (auto simp: packet_sent_def intro: app_ok_frame)
  then show "flush_pre T L (Suc k) (s1, ctx1)"
    using step T k fresh f by (auto simp: flush_pre_def tx_step_def w dest: Suc_leD)
  assume post: "flush_post T L (Suc k) (s1, ctx1) r"
  obtain full s' ctx' where r: "r = (full, s', ctx')" by (cases r)
  have rest: "tx_step (T + 1) L (s1, ctx1) (s', ctx')" "flush_done (Suc k) (get_packet_size s) s1 full s'"
      "within_limit (get_packet_size s) s1 s'"
    using post f by (simp_all add: r flush_post_def)
  have "flush_done k (get_packet_size s) s full s'"
    using rest(2) fl k w f by (auto simp: flush_done_def Suc_le_eq) (metis le_neq_implies_less nth_list_update_eq length_out_window option.inject lessI)
  moreover have "within_limit (get_packet_size s) s s'"
    unfolding within_limit_def
  proof
    assume small: "\<forall>p. Some p \<in> set (out_window s) \<longrightarrow> pkt_payload p \<le> get_packet_size s"
    have "\<forall>p. Some p \<in> set (out_window s1) \<longrightarrow> pkt_payload p \<le> get_packet_size s"
      using step small by (intro window_data_payload [of "out_window s1" "out_window s"]) (simp_all add: tx_step_def)
    then have "unat (cur_window s') \<le> max (unat (cur_window s1)) (unat (max_send s))"
      using rest(3) f by (simp add: within_limit_def)
    moreover have "pkt_payload p \<le> get_packet_size s" using small p k by (metis length_out_window nth_mem)
    then have "unat (cur_window s1) \<le> max (unat (cur_window s)) (unat (max_send s))"
      using cw room by (auto simp: no_room_def word_le_nat_alt)
    ultimately show "unat (cur_window s') \<le> max (unat (cur_window s)) (unat (max_send s))" by linarith
  qed
  ultimately show "flush_post T L k (s, ctx) r"
    using tx_step_trans [OF step rest(1)] by (simp add: r flush_post_def)
qed

lemma flush_from_spec:
  assumes "flush_pre T L k (s, ctx)" and "i = seq_nr s - cur_window_packets s + of_nat k"
    and "ps = get_packet_size s"
  shows "wpo (flush_from ps i (s, ctx)) (flush_post T L k (s, ctx))"
  using assms
proof (induction "unat (cur_window_packets s) - k" arbitrary: k i s ctx)
  case 0
  then have "k = unat (cur_window_packets s)" and out: "out_ok (T + 1) s" by (auto simp: flush_pre_def)
  then have "i = seq_nr s" using flush_index(1) [OF _ _ 0(3)] out_okD(3) [OF out] by simp
  then have "flush_from ps i (s, ctx) = Some (False, (s, ctx))" by (subst flush_from.simps) simp
  then show ?case
    using 0 by (auto simp: flush_post_def flush_pre_def flush_done_def within_limit_def tx_step_refl)
next
  case (Suc m)
  note pre = Suc.prems(1) and i = Suc.prems(2) and ps = Suc.prems(3)
  have out: "out_ok (T + 1) s" and mtu: "mtu_ok L s" and ctx: "ctx_ok ctx" and app: "app_ok L ctx"
    and T: "T + 1 < 2 ^ 31" using pre by (simp_all add: flush_pre_def)
  have k: "k < unat (cur_window_packets s)" using Suc.hyps(2) by linarith
  have le: "unat (cur_window_packets s) \<le> 1024" using out_okD(3) [OF out] .
  have kle: "k \<le> unat (cur_window_packets s)" using k by simp
  note ix = flush_index [OF kle le i]
  have ne: "i \<noteq> seq_nr s" using ix(1) k by simp
  have get: "cb_get (outbuf s) (ucast i) = out_window s ! k"
    using out_slot(1) [OF out_okD(1) [OF out] k, of "ucast i"] i by simp
  have pre': "flush_pre T L (Suc k) (s, ctx)" using pre k by (auto simp: flush_pre_def dest: Suc_leD)
  have skip: "wpo (flush_from ps (i + 1) (s, ctx)) (flush_post T L k (s, ctx))"
    if "\<And>p. out_window s ! k = Some p \<Longrightarrow>
             in_flight p \<or> nagle_wait (get_packet_size s) (unat (cur_window_packets s)) k p"
    using Suc.hyps(2) pre' ix(2) ps
    by (intro wpo_mono [OF Suc.hyps(1) flush_skip [OF _ that]]) simp_all
  show ?case
  proof (cases "out_window s ! k")
    case None
    then show ?thesis using skip by (subst flush_from.simps) (simp add: ne get)
  next
    case (Some p)
    show ?thesis
    proof (cases "in_flight p")
      case True
      then show ?thesis using skip Some
        by (subst flush_from.simps) (simp add: ne get in_flight_def)
    next
      case False
      obtain full c1 where full: "is_full (- 1) (s, ctx) = (full, c1)" by (cases "is_full (- 1) (s, ctx)")
      note fs = is_full_spec [OF out mtu full]
      have eq: "flush_from ps i (s, ctx) =
         (if full then Some (True, c1)
          else if k \<noteq> unat (cur_window_packets s) - 1 \<or> cur_window_packets s = 1 \<or> ps \<le> pkt_payload p
          then Option.bind (send_packet (ucast i) (s, ctx)) (flush_from ps (i + 1))
          else flush_from ps (i + 1) (s, ctx))"
        using False fs(2) ix(3) [OF k]
        by (subst flush_from.simps) (auto simp: ne get Some in_flight_def full)
      consider "full" | "\<not> full" "k \<noteq> unat (cur_window_packets s) - 1 \<or> cur_window_packets s = 1 \<or> ps \<le> pkt_payload p"
        | "\<not> full" "k = unat (cur_window_packets s) - 1" "cur_window_packets s \<noteq> 1" "\<not> ps \<le> pkt_payload p"
        by blast
      then show ?thesis
      proof cases
        case 1
        then have "no_room s" "c1 = (s\<lparr>last_maxed_out_window := current_ms ctx\<rparr>, ctx)" using fs by simp_all
        then show ?thesis
          using 1 out mtu ctx by (simp add: eq flush_post_def tx_step_def flush_done_def within_limit_def times_ok_def)
      next
        case 2
        have room: "\<not> no_room s" and pk: "pkt_ok T p" using 2(1) fs(1) pre k Some by (auto simp: flush_pre_def)
        have idx: "(ucast (ucast i :: size_t) :: uint16) = seq_nr s - cur_window_packets s + of_nat k" using i by simp
        have "wpo (flush_from ps (i + 1) x) (flush_post T L k (s, ctx))"
          if sent: "packet_sent T L (s, ctx) k p x" for x
        proof -
          obtain s1 ctx1 where x: "x = (s1, ctx1)" by (cases x)
          note fl = flush_send [OF pre k Some room sent [unfolded x]]
          have "tx_step (T + 1) L (s, ctx) (s1, ctx1)"
            using packet_sent_tx_step [OF out _ k Some sent [unfolded x]] by simp
          note f = tx_step_fields [OF this mtu]
          have "wpo (flush_from ps (i + 1) (s1, ctx1)) (flush_post T L (Suc k) (s1, ctx1))"
            using Suc.hyps(2) f ix(2) ps fl(1) by (intro Suc.hyps(1)) simp_all
          then show ?thesis unfolding x by (rule wpo_mono) (rule fl(2))
        qed
        with send_packet_spec [OF out mtu ctx app T k idx Some pk] show ?thesis
          using 2 by (simp only: eq if_False if_True simp_thms) (rule wpo_bindI)
      next
        case 3
        then have "nagle_wait (get_packet_size s) (unat (cur_window_packets s)) k p"
          using ps by (auto simp: nagle_wait_def word_unat_eq_iff not_le)
        then show ?thesis using 3 Some skip by (simp add: eq)
      qed
    qed
  qed
qed

lemma flush_packets_post:
  assumes "out_ok T s" and "mtu_ok L s" and "ctx_ok ctx" and "app_ok L ctx" and "T + 1 < 2 ^ 31"
  shows "wpo (flush_packets (s, ctx)) (flush_post T L 0 (s, ctx))"
proof -
  have "flush_pre T L 0 (s, ctx)"
    using assms out_ok_nth [OF assms(1)] out_ok_mono [OF assms(1), of "T + 1"] by (auto simp: flush_pre_def)
  then show ?thesis unfolding flush_packets_def by (intro flush_from_spec) simp_all
qed

lemma flush_tx_step:
  assumes "out_ok T s" and "mtu_ok L s" and "ctx_ok ctx" and "app_ok L ctx" and "T + 1 < 2 ^ 31"
  shows "wpo (flush_packets (s, ctx)) (\<lambda>(_, c'). tx_step (T + 1) L (s, ctx) c')"
  by (rule wpo_mono [OF flush_packets_post [OF assms]]) (auto simp: flush_post_def)

text \<open>C8: \<^verbatim>\<open>flush_packets\<close> ends and never trips an assertion; it keeps the sending invariant
  (in particular \<open>cur_window\<close> is the number of bytes in flight), changes no queued data, and only
  stops early when there is no room for a full packet. Otherwise everything is in flight, except a
  short last packet that waits for more data (Nagle). When no queued packet is larger than the
  current packet size, the bytes in flight do not grow past the minimum of the congestion window,
  the send buffer and the peer's window.\<close>

theorem flush_packets_correct:
  assumes "out_ok T s" and "mtu_ok L s" and "ctx_ok ctx" and "app_ok L ctx" and "T + 1 < 2 ^ 31"
  shows "wpo (flush_packets (s, ctx)) (\<lambda>(full, s', ctx').
           out_ok (T + 1) s' \<and> mtu_ok L s' \<and> ctx_ok ctx' \<and> tx_frame s s' \<and> ctx_frame (self s) ctx ctx' \<and>
           window_data (out_window s') = window_data (out_window s) \<and>
           (if full then no_room s'
            else \<forall>j p. j < unat (cur_window_packets s) \<and> out_window s' ! j = Some p \<longrightarrow>
                   in_flight p \<or> nagle_wait (get_packet_size s) (unat (cur_window_packets s)) j p) \<and>
           ((\<forall>p. Some p \<in> set (out_window s) \<longrightarrow> pkt_payload p \<le> get_packet_size s) \<longrightarrow>
            unat (cur_window s') \<le> max (unat (cur_window s)) (unat (max_send s))))"
  by (rule wpo_mono [OF flush_packets_post [OF assms]])
    (auto simp: flush_post_def tx_step_def flush_done_def within_limit_def)

text \<open>An established connection with one queued packet of three bytes that has not been sent.\<close>

definition example_packet :: OutgoingPacket where
  "example_packet = new_packet\<lparr>pkt_payload := 3, pkt_length := 23, pkt_body := [1, 2, 3]\<rparr>"

definition example_socket :: UTPSocket where
  "example_socket = zero_socket\<lparr>state := CS_CONNECTED, mtu_floor := 576, mtu_ceiling := 1402, mtu_last := 1402,
     max_window := 10000, opt_sndbuf := 10000, max_window_user := 10000, rto := 3000, seq_nr := 2,
     cur_window_packets := 1, outbuf := cb_put (cb_new 4) 1 (Some example_packet)\<rparr>"

lemma example_app_ok: "app_ok 100 example_context"
  by (auto simp: app_ok_def mtu_callback_ok_def rcv_callback_ok_def example_context_def default_callbacks_def
      utp_default_get_udp_mtu_def UDP_TEREDO_MTU_def UDP_IPV4_MTU_def header_sizes
      split: utp_callback_arguments.splits)

lemma example_ctx_ok: "ctx_ok example_context"
  by (simp add: ctx_ok_def ack_ok_def example_context_def)

lemma example_window: "out_window example_socket = [Some example_packet]"
  by (simp add: out_window_def out_base_def example_socket_def zero_socket_def ring_window_def
      cb_get_def cb_put_def cb_new_def)

lemma example_out_ok: "out_ok 0 example_socket" "mtu_ok 100 example_socket"
proof -
  let ?b = "cb_new 4 :: OutgoingPacket SizableCircularBuffer"
  have b: "cb_ok ?b" "cb_bits ?b = 4" by (simp_all add: cb_ok_new cb_bits_new)
  have "cb_get (cb_put ?b 1 (Some example_packet)) (1 + of_nat j) = None" if "1 \<le> j" "j < 16" for j
    using cb.get_put_offset [OF b(1), of 0 j 1] that b(2) by (simp add: cb_get_new)
  then have "out_clean example_socket"
    by (auto simp: out_clean_def out_base_def example_socket_def zero_socket_def b)
  moreover have "cb_bits (outbuf example_socket) = 4" "cb_ok (outbuf example_socket)"
    by (simp_all add: example_socket_def cb_bits_put cb_ok_put cb_ok_new cb_bits_new)
  ultimately show "out_ok 0 example_socket"
    unfolding out_ok_def example_window
    by (simp add: example_socket_def zero_socket_def OUTGOING_BUFFER_MAX_SIZE_def pkt_ok_def example_packet_def
        new_packet_def get_header_size_def sizeof_PacketFormatV1_def flight_bytes_def flight_size_def in_flight_def)
  show "mtu_ok 100 example_socket" by (simp add: mtu_ok_def example_socket_def zero_socket_def)
qed

theorem flush_packets_correct_witness:
  "wpo (flush_packets (example_socket, example_context)) (\<lambda>(full, s', ctx').
     out_ok 1 s' \<and> mtu_ok 100 s' \<and> ctx_ok ctx' \<and>
     window_data (out_window s') = window_data (out_window example_socket) \<and> unat (cur_window s') \<le> 10000)"
proof -
  have "max_send example_socket = 10000" "cur_window example_socket = 0"
    by (simp_all add: max_send_def example_socket_def zero_socket_def)
  moreover have "pkt_payload p \<le> get_packet_size example_socket" if "Some p \<in> set (out_window example_socket)" for p
    using that unfolding example_window
    by (simp add: example_packet_def get_packet_size_def example_socket_def zero_socket_def sizeof_PacketFormatV1_def)
  ultimately show ?thesis
    using flush_packets_correct [OF example_out_ok example_ctx_ok example_app_ok]
    by (auto elim!: wpo_mono)
qed

end
