(* ===== verification/Utp_Write.thy ===== *)
theory Utp_Write
  imports Utp_Send_Inv
begin

section \<open>Writing\<close>

text \<open>
  \<^verbatim>\<open>write_outgoing_packet\<close> queues the bytes of the caller's buffers: it fills the last unsent
  packet, puts the rest into a new one and flushes. The bytes of the window are the data of its
  packets in order; writing appends to them and loses nothing.
\<close>

subsection \<open>Queueing data\<close>

lemma iov_take_spec:
  assumes "iov_take n iov = (b, iov', r)"
  shows "b = take n (concat iov) \<and> concat iov' = drop n (concat iov) \<and> r = n - length (concat iov)"
  using assms
proof (induction n iov arbitrary: b iov' r rule: iov_take.induct)
  case (2 needed v vs)
  obtain b1 vs1 n1 where r1: "iov_take needed vs = (b1, vs1, n1)" by (cases "iov_take needed vs")
  obtain b2 vs2 n2 where r2: "iov_take (needed - min needed (length v)) vs = (b2, vs2, n2)"
    by (cases "iov_take (needed - min needed (length v)) vs")
  show ?case
  proof (cases "needed = 0 \<or> v = []")
    case True
    then show ?thesis using "2.prems" "2.IH"(1) r1 by (auto split: if_splits)
  next
    case False
    then have "b2 = take (needed - min needed (length v)) (concat vs) \<and>
        concat vs2 = drop (needed - min needed (length v)) (concat vs) \<and>
        n2 = needed - min needed (length v) - length (concat vs)"
      using "2.IH"(2) r2 by simp
    moreover have "b = take (min needed (length v)) v @ b2" "iov' = drop (min needed (length v)) v # vs2" "r = n2"
      using "2.prems" False r2 by (auto simp: Let_def)
    ultimately show ?thesis by (auto simp: min_def)
  qed
qed simp

text \<open>The bytes that the packets of a window carry, in order.\<close>

definition window_bytes :: "OutgoingPacket option list \<Rightarrow> byte list" where
  "window_bytes w = concat (map (\<lambda>q. case q of None \<Rightarrow> [] | Some p \<Rightarrow> pkt_body p) w)"

lemma window_bytes_data:
  assumes "window_data w' = window_data w"
  shows "window_bytes w' = window_bytes w"
proof -
  have eq: "window_bytes v = concat (map (\<lambda>q. case q of None \<Rightarrow> [] | Some d \<Rightarrow> snd d) (window_data v))" for v
    unfolding window_bytes_def window_data_def
    by (rule arg_cong [of _ _ concat]) (auto simp: pkt_data_def split: option.splits)
  show ?thesis by (simp add: eq assms)
qed

lemma out_base_seq: "out_base s + of_nat (unat (cur_window_packets s)) = ucast (seq_nr s)"
  by (simp add: out_base_def)

lemma store_packet_append:
  assumes out: "out_ok T s" and room: "unat (cur_window_packets s) < 1024"
    and p: "pkt_ok T p" "transmissions p = 0"
  shows "wpo (store_packet True p s) (\<lambda>s'. out_ok T s' \<and> unat (cur_window_packets s') = Suc (unat (cur_window_packets s)) \<and>
           (\<exists>h b. out_window s' = out_window s @ [Some (p\<lparr>pkt_header := h\<rparr>)] \<and>
              s' = s\<lparr>outbuf := b, seq_nr := seq_nr s + 1, cur_window_packets := cur_window_packets s + 1\<rparr>))"
proof -
  let ?c = "cur_window_packets s" and ?n = "unat (cur_window_packets s)"
  let ?p = "p\<lparr>pkt_header := (pkt_header p)\<lparr>pf_seq_nr := seq_nr s\<rparr>\<rparr>"
  note o = out_okD [OF out]
  have c1: "unat (?c + 1) = Suc ?n" using room by (simp add: unat_word_ariths)
  have idx: "unat (ucast ?c :: size_t) < 2 ^ 16" using room by (simp add: unat_ucast_up)
  have "wpo (cb_ensure_size (outbuf s) (ucast (seq_nr s)) (ucast ?c)) (\<lambda>b'. cb_ok b' \<and>
      cb_bits (outbuf s) \<le> cb_bits b' \<and> unat (ucast ?c :: size_t) < 2 ^ cb_bits b' \<and>
      ring_window cb_get b' (ucast (seq_nr s) - ucast ?c) ?n = ring_window cb_get (outbuf s) (ucast (seq_nr s) - ucast ?c) ?n \<and>
      (\<forall>j. ?n \<le> j \<and> j < 2 ^ cb_bits b' \<longrightarrow> cb_get b' (out_base s + of_nat j) = None))"
    using out
    by (intro wpo_mono [OF wpo_conj [OF cb.window_ensure [OF o(1) idx o(2)] cb_ensure_size_spec [OF o(1) idx]]])
      (auto simp: out_ok_def out_clean_def out_base_def)
  moreover have "out_ok T s' \<and> unat (cur_window_packets s') = Suc ?n \<and> out_window s' = out_window s @ [Some ?p]"
    if cl: "\<forall>j. ?n \<le> j \<and> j < 2 ^ cb_bits b \<longrightarrow> cb_get b (out_base s + of_nat j) = None"
      and b: "cb_ok b" "unat (ucast ?c :: size_t) < 2 ^ cb_bits b"
      "ring_window cb_get b (ucast (seq_nr s) - ucast ?c) ?n = ring_window cb_get (outbuf s) (ucast (seq_nr s) - ucast ?c) ?n"
      and s': "s' = s\<lparr>outbuf := cb_put b (ucast (seq_nr s)) (Some ?p), seq_nr := seq_nr s + 1, cur_window_packets := ?c + 1\<rparr>"
    for b s'
  proof -
    have n: "?n < 2 ^ cb_bits b" using b(2) by (simp add: unat_ucast_up)
    have ok': "cb_ok (outbuf s')" and bits': "cb_bits (outbuf s') = cb_bits b" using b(1) by (simp_all add: s' cb_ok_put)
    have "(ucast (out_base s') :: uint16) = ucast (out_base s)"
      by (simp add: out_base_def s' ucast16)
    then have eq: "unat (out_base s') mod 2 ^ 16 = unat (out_base s) mod 2 ^ 16" by (metis unat_ucast16)
    have "unat (cur_window_packets s') = Suc ?n" by (simp add: s' c1)
    then have "out_window s' = ring_window cb_get (outbuf s') (out_base s) (Suc ?n)"
      using cb.window_cong [OF ok' eq, of "Suc ?n"] by (simp only: out_window_def)
    also have "\<dots> = ring_window cb_get b (out_base s) ?n @ [Some ?p]"
      using cb.window_snoc [OF b(1) n, of "out_base s" "Some ?p"] unfolding out_base_seq by (simp add: s')
    also have "\<dots> = out_window s @ [Some ?p]" using b(3) by (simp add: out_window_def out_base_def)
    finally have w: "out_window s' = out_window s @ [Some ?p]" .
    have "flight_bytes (out_window s') = flight_bytes (out_window s)"
      using p(2) by (simp add: w flight_bytes_def flight_size_def in_flight_def)
    moreover have "pkt_ok T ?p" using p(1) by (simp add: pkt_ok_def)
    moreover have "hd (out_window s') \<noteq> None"
      using out by (cases "out_window s") (auto simp: w out_ok_def)
    moreover have "unat (cur_window_packets s') = Suc ?n" by (simp add: s' c1)
    moreover have "cur_window s' = cur_window s" by (simp add: s')
    moreover have "out_clean s'"
      unfolding out_clean_def
    proof (intro allI impI)
      fix j assume j: "unat (cur_window_packets s') \<le> j \<and> j < 2 ^ cb_bits (outbuf s')"
      have "cb_get (outbuf s') (out_base s' + of_nat j) = cb_get (outbuf s') (out_base s + of_nat j)"
        using ok' \<open>(ucast (out_base s') :: uint16) = ucast (out_base s)\<close> by (intro cb_get_cong16) (simp_all add: ucast16)
      also have "\<dots> = cb_get b (out_base s + of_nat j)"
        using cb.get_put_offset [OF b(1) n, of j "out_base s" "Some ?p"] j bits' unfolding out_base_seq
        by (simp add: s' c1)
      finally show "cb_get (outbuf s') (out_base s' + of_nat j) = None" using cl j bits' by (simp add: s' c1)
    qed
    ultimately show ?thesis
      using ok' bits' n o(4,5) room w by (auto simp: out_ok_def OUTGOING_BUFFER_MAX_SIZE_def)
  qed
  ultimately show ?thesis
    unfolding store_packet_def by (simp add: Let_def) (rule wpo_bindI, assumption, auto)
qed

lemma last_slot:
  assumes "cb_ok (outbuf s)" and "0 < unat (cur_window_packets s)"
  shows "cb_get (outbuf s) (ucast (seq_nr s) - 1) = out_window s ! (unat (cur_window_packets s) - 1)"
    and "cb_put (outbuf s) (ucast (seq_nr s) - 1) v =
         cb_put (outbuf s) (out_base s + of_nat (unat (cur_window_packets s) - 1)) v"
proof -
  let ?n = "unat (cur_window_packets s)"
  have "(ucast (1 :: size_t) :: uint16) = 1" by simp
  then have "(ucast (ucast (seq_nr s) - 1 :: size_t) :: uint16) = seq_nr s - cur_window_packets s + of_nat (?n - 1)"
    using assms(2) by (simp add: ucast16_diff of_nat_diff)
  note o = out_slot [OF assms(1) _ this]
  show "cb_get (outbuf s) (ucast (seq_nr s) - 1) = out_window s ! (?n - 1)"
    and "cb_put (outbuf s) (ucast (seq_nr s) - 1) v = cb_put (outbuf s) (out_base s + of_nat (?n - 1)) v"
    using o assms(2) by simp_all
qed

lemma store_packet_fill:
  assumes out: "out_ok T s" and n: "0 < unat (cur_window_packets s)"
    and q: "out_window s ! (unat (cur_window_packets s) - 1) = Some q" "transmissions q = 0"
    and p: "pkt_ok T p" "transmissions p = 0"
  shows "wpo (store_packet False p s) (\<lambda>s'. out_ok T s' \<and> (\<exists>b. s' = s\<lparr>outbuf := b\<rparr>) \<and>
           out_window s' = (out_window s)[unat (cur_window_packets s) - 1 := Some p])"
proof -
  let ?j = "unat (cur_window_packets s) - 1"
  note o = out_okD [OF out]
  define s' where "s' = s\<lparr>outbuf := cb_put (outbuf s) (out_base s + of_nat ?j) (Some p)\<rparr>"
  have w: "out_window s' = (out_window s)[?j := Some p]"
    unfolding s'_def using o(1,2) n by (intro out_window_put) simp_all
  have "flight_bytes (out_window s') = flight_bytes (out_window s)"
    using flight_bytes_update [of ?j "out_window s" "Some p"] q p(2) n
    by (simp add: w flight_size_def in_flight_def)
  moreover have "Some r \<in> set (out_window s') \<longrightarrow> pkt_ok T r" for r
    using o(4) p(1) set_update_subset_insert [of "out_window s" ?j "Some p"] unfolding w by auto
  moreover have "hd (out_window s') \<noteq> None"
    using out n length_out_window [of s] unfolding w out_ok_def by (cases "out_window s") (auto split: nat.splits)
  moreover have "out_clean s'"
  proof (rule out_clean_put [OF _ o(1,2)])
    show "outbuf s' = cb_put (outbuf s) (out_base s + of_nat ?j) (Some p)" by (simp add: s'_def del: of_nat_diff)
  qed (use out n in \<open>simp_all add: out_ok_def s'_def\<close>)
  ultimately have "out_ok T s'"
    using out o(1) by (auto simp: out_ok_def s'_def cb_ok_put)
  moreover have "store_packet False p s = Some s'"
    by (simp add: store_packet_def last_slot(2) [OF o(1) n] s'_def del: of_nat_diff)
  ultimately show ?thesis using w by (auto simp: s'_def)
qed

definition wr_erase :: "UTPSocket \<Rightarrow> UTPSocket" where
  "wr_erase s = (tx_erase s)\<lparr>seq_nr := 0, cur_window_packets := 0, retransmit_timeout := 0, rto_timeout := 0\<rparr>"

definition wr_frame :: "UTPSocket \<Rightarrow> UTPSocket \<Rightarrow> bool" where
  "wr_frame s s' \<longleftrightarrow> wr_erase s' = wr_erase s"

lemma wr_frame_trans: "wr_frame a b \<Longrightarrow> wr_frame b c \<Longrightarrow> wr_frame a c"
  by (simp add: wr_frame_def)

lemma tx_frame_wr_frame: "tx_frame s s' \<Longrightarrow> wr_frame s s'"
  by (simp add: tx_frame_def wr_frame_def wr_erase_def)

lemma wr_frame_update [simp]:
  "wr_frame s (s'\<lparr>last_rcv_win := x\<rparr>) = wr_frame s s'" "wr_frame s (s'\<lparr>outbuf := b\<rparr>) = wr_frame s s'"
  "wr_frame s (s'\<lparr>seq_nr := n\<rparr>) = wr_frame s s'" "wr_frame s (s'\<lparr>cur_window_packets := n\<rparr>) = wr_frame s s'"
  "wr_frame s (s'\<lparr>retransmit_timeout := y\<rparr>) = wr_frame s s'" "wr_frame s (s'\<lparr>rto_timeout := z\<rparr>) = wr_frame s s'"
  "wr_frame s s"
  by (simp_all add: wr_frame_def wr_erase_def tx_erase_def mtu_erase_def)

lemma window_bytes_append [simp]: "window_bytes (v @ w) = window_bytes v @ window_bytes w"
  by (simp add: window_bytes_def)

lemma window_bytes_last:
  assumes "w \<noteq> []" and "w ! (length w - 1) = Some q"
  shows "window_bytes (w[length w - 1 := Some p]) = window_bytes (butlast w) @ pkt_body p"
    and "window_bytes w = window_bytes (butlast w) @ pkt_body q"
proof -
  obtain v x where w: "w = v @ [x]" using assms(1) by (cases w rule: rev_cases) auto
  show "window_bytes (w[length w - 1 := Some p]) = window_bytes (butlast w) @ pkt_body p"
    by (simp add: w window_bytes_def)
  show "window_bytes w = window_bytes (butlast w) @ pkt_body q"
    using assms(2) by (simp add: w window_bytes_def)
qed

lemma fill_packet_spec:
  assumes "added \<noteq> 0 \<longrightarrow> flags = ST_DATA" and "unat added \<le> length (concat iov)"
  shows "wpo (fill_packet flags added pkt iov) (\<lambda>(p, iov'). concat iov' = drop (unat added) (concat iov) \<and>
           pkt_body p = pkt_body pkt @ take (unat added) (concat iov) \<and>
           pkt_payload p = pkt_payload pkt + added \<and> pkt_length p = get_header_size + pkt_payload p \<and>
           transmissions p = transmissions pkt \<and> need_resend p = need_resend pkt)"
proof -
  obtain b iov' r where t: "iov_take (unat added) iov = (b, iov', r)" by (cases "iov_take (unat added) iov")
  have "b = take (unat added) (concat iov)" "concat iov' = drop (unat added) (concat iov)" "r = 0"
    using iov_take_spec [OF t] assms(2) by simp_all
  then show ?thesis using assms(1) by (cases "added = 0") (auto simp: fill_packet_def t)
qed

text \<open>Every packet of \<open>w'\<close> is one of \<open>w\<close> or has not been sent.\<close>

definition only_unsent :: "OutgoingPacket option list \<Rightarrow> OutgoingPacket option list \<Rightarrow> bool" where
  "only_unsent w w' \<longleftrightarrow> (\<forall>p. Some p \<in> set w' \<longrightarrow> Some p \<in> set w \<or> transmissions p = 0)"

lemma only_unsent_trans: "only_unsent u v \<Longrightarrow> only_unsent v w \<Longrightarrow> only_unsent u w"
  unfolding only_unsent_def by metis

lemma only_unsent_append: "transmissions p = 0 \<Longrightarrow> only_unsent w (w @ [Some p])"
  by (auto simp: only_unsent_def)

lemma only_unsent_update: "transmissions p = 0 \<Longrightarrow> only_unsent w (w[j := Some p])"
  by (auto simp: only_unsent_def dest!: set_update_subset_insert [THEN subsetD])

text \<open>\<open>bytes\<close> have been added to the data of the window.\<close>

definition wrote :: "nat \<Rightarrow> nat \<Rightarrow> byte list \<Rightarrow> conn \<Rightarrow> conn \<Rightarrow> bool" where
  "wrote T L bytes = (\<lambda>(s, ctx) (s', ctx'). out_ok T s' \<and> mtu_ok L s' \<and> ctx_ok ctx' \<and> wr_frame s s' \<and>
     ctx_frame (self s) ctx ctx' \<and> mtu_last s' = mtu_last s \<and>
     seq_nr s' - cur_window_packets s' = seq_nr s - cur_window_packets s \<and>
     only_unsent (out_window s) (out_window s') \<and>
     window_bytes (out_window s') = window_bytes (out_window s) @ bytes)"

lemma self_wr_frame: "wr_frame s s' \<Longrightarrow> self s' = self s"
  unfolding wr_frame_def by (drule arg_cong [of _ _ self]) (simp add: wr_erase_def tx_erase_def mtu_erase_def)

lemma wrote_trans:
  assumes "wrote T L b1 (s, ctx) (s1, ctx1)" and "wrote B L b2 (s1, ctx1) (s2, ctx2)"
  shows "wrote B L (b1 @ b2) (s, ctx) (s2, ctx2)"
  using assms self_wr_frame [of s s1] by (auto simp: wrote_def intro: wr_frame_trans ctx_frame_trans only_unsent_trans)

lemma put_packet_append:
  assumes out: "out_ok T s" and mtu: "mtu_ok L s" and ctx: "ctx_ok ctx" and app: "app_ok L ctx"
    and room: "unat (cur_window_packets s) < 1024" and p: "pkt_ok T p" "transmissions p = 0"
  shows "wpo (put_packet True flags p (s, ctx)) (\<lambda>c'. wrote T L (pkt_body p) (s, ctx) c' \<and>
     unat (cur_window_packets (fst c')) = Suc (unat (cur_window_packets s)))"
  unfolding put_packet_def prod.case Let_def
proof (rule wpo_bindI [OF get_rcv_window_spec [OF app]], clarify)
  fix w ctx1
  assume tr: "trace_ext ctx ctx1"
  let ?s = "s\<lparr>last_rcv_win := w\<rparr>"
  let ?p = "p\<lparr>pkt_header := data_header flags ?s (pkt_header p)\<rparr>"
  have fr: "ctx_frame (self s) ctx ctx1" using tr by (rule trace_ext_ctx_frame)
  have p': "pkt_ok T ?p" "transmissions ?p = 0" using p by (simp_all add: pkt_ok_def)
  have s': "out_ok T ?s" "unat (cur_window_packets ?s) < 1024" using out room by simp_all
  show "wpo (store_packet True ?p ?s \<bind> (\<lambda>s2. Some (s2, ctx1))) (\<lambda>c'. wrote T L (pkt_body p) (s, ctx) c' \<and>
     unat (cur_window_packets (fst c')) = Suc (unat (cur_window_packets s)))"
    by (rule wpo_bindI [OF store_packet_append [OF s' p']])
      (use mtu fr ctx_frame_ok [OF fr ctx] p(2) in \<open>auto simp: wrote_def window_bytes_def intro!: only_unsent_append\<close>)
qed

lemma put_packet_fill:
  assumes out: "out_ok T s" and mtu: "mtu_ok L s" and ctx: "ctx_ok ctx" and app: "app_ok L ctx"
    and n: "0 < unat (cur_window_packets s)"
    and q: "out_window s ! (unat (cur_window_packets s) - 1) = Some q" "transmissions q = 0"
    and p: "pkt_ok T p" "transmissions p = 0" "pkt_body p = pkt_body q @ bytes"
  shows "wpo (put_packet False flags p (s, ctx)) (\<lambda>(s', ctx'). wrote T L bytes (s, ctx) (s', ctx') \<and>
           cur_window_packets s' = cur_window_packets s \<and> seq_nr s' = seq_nr s \<and>
           (\<exists>h. out_window s' ! (unat (cur_window_packets s) - 1) = Some (p\<lparr>pkt_header := h\<rparr>)))"
  unfolding put_packet_def prod.case Let_def
proof (rule wpo_bindI [OF get_rcv_window_spec [OF app]], clarify)
  fix w ctx1
  assume tr: "trace_ext ctx ctx1"
  let ?s = "s\<lparr>last_rcv_win := w\<rparr>" and ?j = "unat (cur_window_packets s) - 1"
  let ?p = "p\<lparr>pkt_header := data_header flags ?s (pkt_header p)\<rparr>"
  have fr: "ctx_frame (self s) ctx ctx1" using tr by (rule trace_ext_ctx_frame)
  have p': "pkt_ok T ?p" "transmissions ?p = 0" using p by (simp_all add: pkt_ok_def)
  have s': "out_ok T ?s" "0 < unat (cur_window_packets ?s)"
    "out_window ?s ! (unat (cur_window_packets ?s) - 1) = Some q" using out n q by simp_all
  have ne: "out_window s \<noteq> []" using n by (metis length_out_window list.size(3) not_less_zero)
  have b: "window_bytes ((out_window s)[?j := Some ?p]) = window_bytes (out_window s) @ bytes"
    using window_bytes_last(1) [OF ne, of q ?p] window_bytes_last(2) [OF ne, of q] q(1) p(3) by simp
  show "wpo (store_packet False ?p ?s \<bind> (\<lambda>s2. Some (s2, ctx1)))
     (\<lambda>(s', ctx'). wrote T L bytes (s, ctx) (s', ctx') \<and>
           cur_window_packets s' = cur_window_packets s \<and> seq_nr s' = seq_nr s \<and>
           (\<exists>h. out_window s' ! ?j = Some (p\<lparr>pkt_header := h\<rparr>)))"
    by (rule wpo_bindI [OF store_packet_fill [OF s' q(2) p']])
      (use mtu fr ctx_frame_ok [OF fr ctx] b n p(2) in \<open>auto simp: wrote_def intro!: only_unsent_update\<close>)
qed

text \<open>A step that uses a new packet takes all the data.\<close>

lemma write_step_append:
  assumes out: "out_ok T s" and mtu: "mtu_ok L s" and ctx: "ctx_ok ctx" and app: "app_ok L ctx"
    and room: "unat (cur_window_packets s) < 1024" and fl: "flags = ST_DATA \<or> flags = ST_FIN \<and> payload = 0"
    and len: "unat payload \<le> length (concat iov)" "unat payload + 20 < 2 ^ 16"
    and pick: "pick_packet ps payload s = Some (True, payload, new_packet)"
  shows "wpo (write_step ps flags payload iov (s, ctx)) (\<lambda>(rest, iov', c'). rest = 0 \<and>
           concat iov' = drop (unat payload) (concat iov) \<and>
           wrote T L (take (unat payload) (concat iov)) (s, ctx) c' \<and>
           unat (cur_window_packets (fst c')) = Suc (unat (cur_window_packets s)))"
proof -
  have fl': "payload \<noteq> 0 \<longrightarrow> flags = ST_DATA" "flags = ST_DATA \<or> flags = ST_FIN" using fl by auto
  have eq: "write_step ps flags payload iov (s, ctx) = fill_packet flags payload new_packet iov \<bind>
      (\<lambda>(pkt1, iov'). put_packet True flags pkt1 (s, ctx) \<bind> (\<lambda>c'. Some (payload - payload, iov', c')))"
    using room fl'(2) by (simp add: write_step_def pick OUTGOING_BUFFER_MAX_SIZE_def)
  show ?thesis
    unfolding eq
  proof (rule wpo_bindI [OF fill_packet_spec [OF fl'(1) len(1)]], goal_cases)
    case (1 x)
    obtain p iov' where x: "x = (p, iov')" by (cases x)
    have "pkt_ok T p" "transmissions p = 0" "pkt_body p = take (unat payload) (concat iov)"
      using 1 len by (simp_all add: x pkt_ok_def new_packet_def)
    with put_packet_append [OF out mtu ctx app room this(1,2), of flags] show ?case
      using 1 by (auto simp: x intro: wpo_bindI)
  qed
qed

text \<open>A step that fills the last packet takes what fits.\<close>

lemma pick_packet_fill:
  assumes ok: "cb_ok (outbuf s)" and n: "0 < unat (cur_window_packets s)"
    and q: "out_window s ! (unat (cur_window_packets s) - 1) = Some q"
  shows "pick_packet ps payload s =
    (if payload \<noteq> 0 \<and> transmissions q = 0 \<and> pkt_payload q < ps then do {
       cassert (\<not> need_resend q);
       Some (False, min (payload + pkt_payload q) (max ps (pkt_payload q)) - pkt_payload q, q)
     } else Some (True, payload, new_packet))"
  using last_slot(1) [OF ok n] q n by (simp add: pick_packet_def word_less_nat_alt)

lemma added_bytes:
  fixes payload q ps :: size_t
  assumes "unat payload + 20 < 2 ^ 16" and "q < ps" and "unat ps + 20 < 2 ^ 16"
  defines "added \<equiv> min (payload + q) (max ps q) - q"
  shows "unat added = min (unat payload) (unat ps - unat q)"
    and "unat (q + added) = unat q + unat added" and "unat (payload - added) = unat payload - unat added"
proof -
  have q: "unat q < unat ps" using assms(2) by (simp add: word_less_nat_alt)
  have s: "unat (payload + q) = unat payload + unat q"
    using assms(1,3) q by (intro unat_add_lem [THEN iffD1]) simp
  have "q \<le> min (payload + q) (max ps q)" using s q by (simp add: word_le_nat_alt)
  then have "unat added = unat (min (payload + q) (max ps q)) - unat q"
    unfolding added_def by (rule unat_sub)
  also have "\<dots> = min (unat payload) (unat ps - unat q)"
    using s q assms(2) by (auto simp: min_def max_def word_le_nat_alt word_less_nat_alt)
  finally show a: "unat added = min (unat payload) (unat ps - unat q)" .
  show "unat (q + added) = unat q + unat added"
    using assms(1,3) q a by (intro unat_add_lem [THEN iffD1]) simp
  show "unat (payload - added) = unat payload - unat added"
    using a by (intro unat_sub) (simp add: word_le_nat_alt)
qed

lemma write_step_fill:
  assumes out: "out_ok T s" and mtu: "mtu_ok L s" and ctx: "ctx_ok ctx" and app: "app_ok L ctx"
    and room: "unat (cur_window_packets s) < 1024" and n: "0 < unat (cur_window_packets s)"
    and len: "unat payload \<le> length (concat iov)" "unat payload + 20 < 2 ^ 16"
    and q: "out_window s ! (unat (cur_window_packets s) - 1) = Some q" "transmissions q = 0"
      "payload \<noteq> 0" "pkt_payload q < get_packet_size s"
  shows "wpo (write_step (get_packet_size s) ST_DATA payload iov (s, ctx)) (\<lambda>(rest, iov', s', ctx').
           \<exists>k. unat rest = unat payload - k \<and> k \<le> unat payload \<and> concat iov' = drop k (concat iov) \<and>
           wrote T L (take k (concat iov)) (s, ctx) (s', ctx') \<and>
           cur_window_packets s' = cur_window_packets s \<and>
           (rest \<noteq> 0 \<longrightarrow> (\<exists>p. out_window s' ! (unat (cur_window_packets s) - 1) = Some p \<and>
                          \<not> pkt_payload p < get_packet_size s)))"
proof -
  let ?ps = "get_packet_size s"
  define added where "added = min (payload + pkt_payload q) (max ?ps (pkt_payload q)) - pkt_payload q"
  note ps = get_packet_size_bounds [OF mtu]
  note o = out_okD [OF out]
  have qok: "pkt_ok T q" using out_ok_nth [OF out _ q(1)] n by simp
  note a = added_bytes [OF len(2) q(4) ps(1), folded added_def]
  have len': "unat added \<le> length (concat iov)" using a(1) len(1) by simp
  have eq: "write_step ?ps ST_DATA payload iov (s, ctx) = fill_packet ST_DATA added q iov \<bind>
      (\<lambda>(pkt1, iov'). put_packet False ST_DATA pkt1 (s, ctx) \<bind> (\<lambda>c'. Some (payload - added, iov', c')))"
    using room qok q by (simp add: write_step_def pick_packet_fill [OF o(1) n q(1)]
        OUTGOING_BUFFER_MAX_SIZE_def added_def pkt_ok_def)
  show ?thesis
    unfolding eq
  proof (rule wpo_bindI [OF fill_packet_spec [OF _ len']], simp, goal_cases)
    case (1 x)
    obtain p iov' where x: "x = (p, iov')" by (cases x)
    have b: "unat (pkt_payload q) + unat added + 20 < 2 ^ 16" using a(1) q(4) ps(1) by (simp add: word_less_nat_alt)
    have p: "pkt_ok T p" "transmissions p = 0" "pkt_body p = pkt_body q @ take (unat added) (concat iov)"
      "unat (pkt_payload p) = unat (pkt_payload q) + unat added"
      using 1 qok q(2) a(2) b len' by (simp_all add: x pkt_ok_def)
    have full: "\<not> pkt_payload p < ?ps" if "payload - added \<noteq> 0"
    proof -
      have "unat (payload - added) \<noteq> 0" using that by (simp add: unat_eq_0)
      then show ?thesis using a p(4) q(4) by (simp add: word_less_nat_alt min_def split: if_splits)
    qed
    have io: "concat iov' = drop (unat added) (concat iov)" using 1 by (simp add: x)
    have le: "unat added \<le> unat payload" using a(1) by simp
    show ?case
      unfolding x prod.case
    proof (rule wpo_bindI [OF put_packet_fill [OF out mtu ctx app n q(1,2) p(1,2,3)]], clarify)
      fix s' ctx' h assume w: "wrote T L (take (unat added) (concat iov)) (s, ctx) (s', ctx')" "cur_window_packets s' = cur_window_packets s"
        "out_window s' ! (unat (cur_window_packets s) - 1) = Some (p\<lparr>pkt_header := h\<rparr>)"
      have "payload - added \<noteq> 0 \<longrightarrow> (\<exists>p. out_window s' ! (unat (cur_window_packets s) - 1) = Some p \<and> \<not> pkt_payload p < get_packet_size s)"
        using full w(3) by auto
      then show "wpo (Some (payload - added, iov', s', ctx')) (\<lambda>(rest, iov', s', ctx').
           \<exists>k. unat rest = unat payload - k \<and> k \<le> unat payload \<and> concat iov' = drop k (concat iov) \<and>
           wrote T L (take k (concat iov)) (s, ctx) (s', ctx') \<and>
           cur_window_packets s' = cur_window_packets s \<and>
           (rest \<noteq> 0 \<longrightarrow> (\<exists>p. out_window s' ! (unat (cur_window_packets s) - 1) = Some p \<and> \<not> pkt_payload p < get_packet_size s)))"
        using io le w(1,2) a(3) by (simp only: wpo_Some prod.case) blast
    qed
  qed
qed

subsection \<open>The loop\<close>

definition can_fill :: "size_t \<Rightarrow> size_t \<Rightarrow> UTPSocket \<Rightarrow> bool" where
  "can_fill ps payload s \<longleftrightarrow> 0 < unat (cur_window_packets s) \<and> payload \<noteq> 0 \<and>
     (\<exists>q. out_window s ! (unat (cur_window_packets s) - 1) = Some q \<and> transmissions q = 0 \<and> pkt_payload q < ps)"

lemma pick_packet_append:
  assumes "cb_ok (outbuf s)" and "\<not> can_fill ps payload s"
  shows "pick_packet ps payload s = Some (True, payload, new_packet)"
proof (cases "0 < unat (cur_window_packets s)")
  case True
  then show ?thesis using last_slot(1) [OF assms(1) True] assms(2)
    by (auto simp: pick_packet_def can_fill_def split: option.splits)
next
  case False
  then show ?thesis by (simp add: pick_packet_def word_less_nat_alt)
qed

definition loop_post :: "nat \<Rightarrow> nat \<Rightarrow> nat \<Rightarrow> byte list list \<Rightarrow> conn \<Rightarrow> byte list list \<times> conn \<Rightarrow> bool" where
  "loop_post T L n iov c = (\<lambda>(iov', c'). concat iov' = drop n (concat iov) \<and>
     wrote T L (take n (concat iov)) c c' \<and> unat (cur_window_packets (fst c')) \<le> Suc (unat (cur_window_packets (fst c))) \<and>
     (n = 0 \<longrightarrow> unat (cur_window_packets (fst c')) = Suc (unat (cur_window_packets (fst c)))))"

lemma write_loop_append:
  assumes out: "out_ok T s" and mtu: "mtu_ok L s" and ctx: "ctx_ok ctx" and app: "app_ok L ctx"
    and room: "unat (cur_window_packets s) < 1024" and fl: "flags = ST_DATA \<or> flags = ST_FIN \<and> payload = 0"
    and len: "unat payload \<le> length (concat iov)" "unat payload + 20 < 2 ^ 16"
    and nf: "\<not> can_fill ps payload s"
  shows "wpo (write_loop ps flags payload iov (s, ctx)) (loop_post T L (unat payload) iov (s, ctx))"
  using pick_packet_append [OF out_okD(1) [OF out] nf]
  by (subst write_loop.simps, intro wpo_bindI [OF write_step_append [OF out mtu ctx app room fl len]])
    (auto simp: loop_post_def)

lemma write_loop_spec:
  assumes out: "out_ok T s" and mtu: "mtu_ok L s" and ctx: "ctx_ok ctx" and app: "app_ok L ctx"
    and room: "unat (cur_window_packets s) < 1024" and fl: "flags = ST_DATA \<or> flags = ST_FIN \<and> payload = 0"
    and len: "unat payload \<le> length (concat iov)" "unat payload + 20 < 2 ^ 16"
  shows "wpo (write_loop (get_packet_size s) flags payload iov (s, ctx)) (loop_post T L (unat payload) iov (s, ctx))"
proof (cases "can_fill (get_packet_size s) payload s")
  case False
  then show ?thesis by (rule write_loop_append [OF assms])
next
  case True
  then obtain q where n: "0 < unat (cur_window_packets s)"
    and q: "out_window s ! (unat (cur_window_packets s) - 1) = Some q" "transmissions q = 0"
      "payload \<noteq> 0" "pkt_payload q < get_packet_size s"
    unfolding can_fill_def by blast
  have d: "flags = ST_DATA" "unat payload \<noteq> 0" using fl q(3) by (simp_all add: unat_eq_0)
  show ?thesis
    unfolding d(1)
  proof (subst write_loop.simps, rule wpo_bindI [OF write_step_fill [OF out mtu ctx app room n len q]],
      clarify, goal_cases)
    case (1 rest iov1 s1 ctx1 k)
    then have w: "out_ok T s1" "mtu_ok L s1" "ctx_ok ctx1" "app_ok L ctx1" "unat (cur_window_packets s1) < 1024"
      using app app_ok_frame room by (auto simp: wrote_def)
    show ?case
    proof (cases "rest = 0")
      case True
      then show ?thesis using 1 d(2) by (auto simp: loop_post_def)
    next
      case False
      have len1: "unat rest \<le> length (concat iov1)" "unat rest + 20 < 2 ^ 16" using 1 len by auto
      have nf: "\<not> can_fill (get_packet_size s) rest s1" using 1 False by (auto simp: can_fill_def)
      have "take (unat payload) (concat iov) = take k (concat iov) @ take (unat rest) (concat iov1)"
        and "drop (unat payload) (concat iov) = drop (unat rest) (concat iov1)"
        using 1 by (simp_all flip: take_add)
      then show ?thesis
        using False write_loop_append [OF w _ len1 nf, of ST_DATA] wrote_trans [OF 1(4)] 1(5) d(2)
        by (auto simp: loop_post_def elim!: wpo_mono)
    qed
  qed
qed

subsection \<open>write\_outgoing\_packet\<close>

definition arm_timer :: "uint64 \<Rightarrow> UTPSocket \<Rightarrow> UTPSocket" where
  "arm_timer now s = (if cur_window_packets s = 0
     then s\<lparr>retransmit_timeout := rto s, rto_timeout := now + ucast (rto s)\<rparr> else s)"

lemma arm_timer_keeps [simp]:
  "out_ok T (arm_timer now s) = out_ok T s" "mtu_ok L (arm_timer now s) = mtu_ok L s"
  "out_window (arm_timer now s) = out_window s" "cur_window_packets (arm_timer now s) = cur_window_packets s"
  "seq_nr (arm_timer now s) = seq_nr s" "self (arm_timer now s) = self s" "wr_frame s (arm_timer now s)"
  "get_packet_size (arm_timer now s) = get_packet_size s"
  by (simp_all add: arm_timer_def out_ok_def mtu_ok_def out_window_def out_base_def get_packet_size_def
      out_clean_def)

lemma write_outgoing_packet_eq:
  assumes "out_ok T s"
  shows "write_outgoing_packet payload flags iov (s, ctx) =
    write_loop (get_packet_size s) flags payload iov (arm_timer (current_ms ctx) s, ctx) \<bind>
      (\<lambda>(iov', c). flush_packets c \<bind> (\<lambda>(_, c'). Some (iov', c')))"
proof -
  have "cur_window s = 0" if "cur_window_packets s = 0"
  proof -
    have "out_window s = []" using length_out_window [of s] by (simp add: that del: length_out_window)
    then show ?thesis using assms by (simp add: out_ok_def flight_bytes_def unat_eq_0)
  qed
  then show ?thesis
    unfolding arm_timer_keeps(8) [of "current_ms ctx" s, symmetric]
    by (simp add: write_outgoing_packet_def arm_timer_def)
qed

lemma write_outgoing_packet_spec:
  assumes out: "out_ok T s" and mtu: "mtu_ok L s" and ctx: "ctx_ok ctx" and app: "app_ok L ctx"
    and T: "T + 1 < 2 ^ 31" and room: "unat (cur_window_packets s) < 1024"
    and fl: "flags = ST_DATA \<or> flags = ST_FIN \<and> payload = 0"
    and len: "unat payload \<le> length (concat iov)" "unat payload + 20 < 2 ^ 16"
  shows "wpo (write_outgoing_packet payload flags iov (s, ctx)) (\<lambda>(iov', s', ctx').
           concat iov' = drop (unat payload) (concat iov) \<and>
           window_bytes (out_window s') = window_bytes (out_window s) @ take (unat payload) (concat iov) \<and>
           seq_nr s' - cur_window_packets s' = seq_nr s - cur_window_packets s \<and>
           out_ok (T + 1) s' \<and> mtu_ok L s' \<and> ctx_ok ctx' \<and> wr_frame s s' \<and> ctx_frame (self s) ctx ctx' \<and>
           unat (cur_window_packets s') \<le> Suc (unat (cur_window_packets s)) \<and> mtu_last s' = mtu_last s \<and>
           (payload = 0 \<longrightarrow> unat (cur_window_packets s') = Suc (unat (cur_window_packets s))) \<and>
           (\<forall>lo hi. clock_ok lo hi ctx \<longrightarrow> times_ok lo ctx s \<longrightarrow> times_ok lo ctx' s'))"
proof -
  let ?s = "arm_timer (current_ms ctx) s"
  have s: "out_ok T ?s" "mtu_ok L ?s" "unat (cur_window_packets ?s) < 1024" using out mtu room by simp_all
  note loop = write_loop_spec [OF s(1,2) ctx app s(3) fl len]
  show ?thesis
    unfolding write_outgoing_packet_eq [OF out]
  proof (rule wpo_bindI [OF loop [unfolded arm_timer_keeps(8)]], goal_cases)
    case (1 x)
    obtain iov1 s1 ctx1 where x: "x = (iov1, s1, ctx1)" by (cases x)
    have w: "wrote T L (take (unat payload) (concat iov)) (?s, ctx) (s1, ctx1)"
      and d: "concat iov1 = drop (unat payload) (concat iov)" and c1: "unat (cur_window_packets s1) \<le> Suc (unat (cur_window_packets s))"
        "payload = 0 \<longrightarrow> unat (cur_window_packets s1) = Suc (unat (cur_window_packets s))"
      using 1 by (simp_all add: x loop_post_def)
    have pre: "out_ok T s1" "mtu_ok L s1" "ctx_ok ctx1" "app_ok L ctx1" "wr_frame ?s s1"
      using w app app_ok_frame by (auto simp: wrote_def)
    note fr = wr_frame_trans [OF arm_timer_keeps(7) pre(5)]
    show ?case
      unfolding x prod.case
    proof (rule wpo_bindI [OF flush_tx_step [OF pre(1-4) T]], goal_cases)
      case (1 y)
      obtain b s2 ctx2 where y: "y = (b, s2, ctx2)" by (cases y)
      have st: "tx_step (T + 1) L (s1, ctx1) (s2, ctx2)" using 1 by (simp add: y)
      then have "wr_frame s s2"
        using wr_frame_trans [OF fr tx_frame_wr_frame, of s2] by (simp add: tx_step_def)
      moreover have "ctx_frame (self s) ctx ctx2"
        using w st self_wr_frame [OF fr] ctx_frame_trans [of "self s" ctx ctx1 ctx2]
        by (simp add: tx_step_def wrote_def)
      moreover have "window_bytes (out_window s2) = window_bytes (out_window s1)"
        using st by (intro window_bytes_data) (simp add: tx_step_def)
      moreover have "seq_nr s2 = seq_nr s1" "cur_window_packets s2 = cur_window_packets s1"
        using tx_step_fields [OF st pre(2)] by simp_all
      moreover have tm: "times_ok lo ctx2 s2" if t: "clock_ok lo hi ctx" "times_ok lo ctx s" for lo hi
      proof -
        have fr1: "ctx_frame (self s) ctx ctx1" using w by (simp add: wrote_def)
        have "stamped lo ctx1 p" if p: "Some p \<in> set (out_window s1)" for p
        proof (cases "transmissions p = 0")
          case False
          then have "Some p \<in> set (out_window s)" using w p by (auto simp: wrote_def only_unsent_def)
          then show ?thesis using t(2) ctx_frame_time(4) [OF fr1] by (simp add: times_ok_def)
        qed (simp add: stamped_def)
        then have "times_ok lo ctx1 s1" by (simp add: times_ok_def)
        then show ?thesis using st ctx_frame_time(3) [OF fr1 t(1)] by (auto simp: tx_step_def)
      qed
      then have "\<forall>lo hi. clock_ok lo hi ctx \<longrightarrow> times_ok lo ctx s \<longrightarrow> times_ok lo ctx2 s2" by blast
      moreover have "mtu_last (arm_timer (current_ms ctx) s) = mtu_last s" by (simp add: arm_timer_def)
      ultimately show ?case using w st d c1 by (simp add: y tx_step_def wrote_def)
    qed
  qed
qed

text \<open>C15: on a socket with room for one more packet, \<^verbatim>\<open>write_outgoing_packet\<close> ends without tripping
  an assertion. The bytes it takes from the front of the caller's buffers are exactly the bytes it
  appends to the send queue, whose beginning keeps its sequence number; the sending invariant is
  kept, and nothing else of the socket or the context changes.\<close>

theorem write_outgoing_packet_correct:
  assumes "out_ok T s" and "mtu_ok L s" and "ctx_ok ctx" and "app_ok L ctx"
    and "T + 1 < 2 ^ 31" and "unat (cur_window_packets s) < 1024"
    and "flags = ST_DATA \<or> flags = ST_FIN \<and> payload = 0"
    and "unat payload \<le> length (concat iov)" and "unat payload + 20 < 2 ^ 16"
  shows "wpo (write_outgoing_packet payload flags iov (s, ctx)) (\<lambda>(iov', s', ctx').
           concat iov' = drop (unat payload) (concat iov) \<and>
           window_bytes (out_window s') = window_bytes (out_window s) @ take (unat payload) (concat iov) \<and>
           seq_nr s' - cur_window_packets s' = seq_nr s - cur_window_packets s \<and>
           out_ok (T + 1) s' \<and> mtu_ok L s' \<and> ctx_ok ctx' \<and> wr_frame s s' \<and> ctx_frame (self s) ctx ctx')"
  by (rule wpo_mono [OF write_outgoing_packet_spec [OF assms]]) (auto simp: split_beta)

theorem write_outgoing_packet_correct_witness:
  "wpo (write_outgoing_packet 5 ST_DATA [[4, 5], [], [6, 7, 8, 9]] (example_socket, example_context))
     (\<lambda>(iov', s', ctx'). concat iov' = [9] \<and> window_bytes (out_window s') = [1, 2, 3, 4, 5, 6, 7, 8] \<and>
        seq_nr s' - cur_window_packets s' = 1 \<and> out_ok 1 s')"
proof -
  have w: "window_bytes (out_window example_socket) = [1, 2, 3]"
    by (simp add: example_window window_bytes_def example_packet_def)
  have "unat (cur_window_packets example_socket) < 1024" "seq_nr example_socket = 2"
    "cur_window_packets example_socket = 1" by (simp_all add: example_socket_def zero_socket_def)
  then show ?thesis
    using write_outgoing_packet_correct [OF example_out_ok example_ctx_ok example_app_ok,
        of ST_DATA 5 "[[4, 5], [], [6, 7, 8, 9]]"]
    by (auto simp: w elim!: wpo_mono)
qed

end
