(* ===== verification/Utp_Double.thy ===== *)
theory Utp_Double
  imports Complex_Main "HOL-Library.Log_Nat" Utp_Prelude
begin

section \<open>Double precision numbers\<close>

text \<open>
  The congestion controller computes with \<^verbatim>\<open>double\<close>. A double is the rational number it stands
  for; every operation yields the exact result rounded to 53 significant bits, ties to even.
  Overflow and subnormal numbers have no model: the program's values lie far from both.
\<close>

type_synonym double = rat

text \<open>The exponent of a positive number: \<open>2 powi ilog2 x \<le> x < 2 powi (ilog2 x + 1)\<close>.\<close>

definition ilog2 :: "rat \<Rightarrow> int" where
  "ilog2 x = (let (p, q) = quotient_of x; e = int (floorlog 2 (nat p)) - int (floorlog 2 (nat q))
     in if 2 powi e \<le> x then e else e - 1)"

definition round_even :: "rat \<Rightarrow> int" where
  "round_even y = (let f = \<lfloor>y\<rfloor>; d = y - of_int f in
     if d < 1 / 2 then f else if 1 / 2 < d then f + 1 else if even f then f else f + 1)"

definition rnd :: "rat \<Rightarrow> double" where
  "rnd x = (if x = 0 then 0 else let u = 2 powi (ilog2 \<bar>x\<bar> - 52) in of_int (round_even (x / u)) * u)"

definition dadd :: "double \<Rightarrow> double \<Rightarrow> double" where "dadd x y = rnd (x + y)"
definition dmul :: "double \<Rightarrow> double \<Rightarrow> double" where "dmul x y = rnd (x * y)"
definition ddiv :: "double \<Rightarrow> double \<Rightarrow> double" where "ddiv x y = rnd (x / y)"

text \<open>Conversions; a double outside of the range of the target type is a fault.\<close>

definition double_of_int :: "int \<Rightarrow> double" where "double_of_int i = rnd (of_int i)"

definition double_of_size :: "size_t \<Rightarrow> double" where "double_of_size n = rnd (of_int (uint n))"

definition size_of_double :: "double \<Rightarrow> size_t option" where
  "size_of_double x = (if - 1 < x \<and> x < 2 ^ 64 then Some (word_of_int (if x < 0 then 0 else \<lfloor>x\<rfloor>)) else None)"

subsection \<open>The exponent\<close>

lemma floorlog2_bounds:
  assumes "0 < n"
  shows "2 powi (int (floorlog 2 (nat n)) - 1) \<le> (of_int n :: rat)" and "(of_int n :: rat) < 2 powi int (floorlog 2 (nat n))"
proof -
  let ?a = "floorlog 2 (nat n)"
  have b: "2 ^ (?a - 1) \<le> nat n" "nat n < 2 ^ ?a" and a: "?a \<noteq> 0"
    using floorlog_bounds [of "nat n" 2] floorlog_eq_zero_iff [of 2 "nat n"] assms by simp_all
  have n: "(of_int n :: rat) = of_nat (nat n)" using assms by simp
  have "(2 :: rat) powi (int ?a - 1) = of_nat (2 ^ (?a - 1))"
    using a by (simp add: power_int_def nat_diff_distrib)
  also have "\<dots> \<le> of_nat (nat n)" using b(1) by (simp only: of_nat_le_iff)
  finally show "2 powi (int ?a - 1) \<le> (of_int n :: rat)" unfolding n .
  have "(of_nat (nat n) :: rat) < of_nat (2 ^ ?a)" using b(2) by (simp only: of_nat_less_iff)
  then show "(of_int n :: rat) < 2 powi int ?a" unfolding n by simp
qed

lemma ilog2_bounds:
  assumes "0 < x"
  shows "2 powi ilog2 x \<le> x" and "x < 2 powi (ilog2 x + 1)"
proof -
  obtain p q where pq: "quotient_of x = (p, q)" by (cases "quotient_of x")
  have q: "0 < q" using quotient_of_denom_pos [OF pq] .
  have x: "x = of_int p / of_int q" using quotient_of_div [OF pq] .
  have p: "0 < p" using assms q by (simp add: x zero_less_divide_iff)
  let ?a = "int (floorlog 2 (nat p))" and ?b = "int (floorlog 2 (nat q))"
  note P = floorlog2_bounds [OF p] and Q = floorlog2_bounds [OF q]
  have "x < 2 powi ?a / 2 powi (?b - 1)" unfolding x using P(2) Q(1) p q by (intro frac_less) simp_all
  also have "\<dots> = 2 powi (?a - (?b - 1))" by (rule power_int_diff [symmetric]) simp
  also have "?a - (?b - 1) = ?a - ?b + 1" by simp
  finally have u: "x < 2 powi (?a - ?b + 1)" .
  have "?a - ?b - 1 = ?a - 1 - ?b" by simp
  also have "2 powi \<dots> = (2 :: rat) powi (?a - 1) / 2 powi ?b" by (rule power_int_diff) simp
  also have "\<dots> \<le> x" unfolding x using P(1) Q(2) p q by (intro frac_le) simp_all
  finally have l: "2 powi (?a - ?b - 1) \<le> x" .
  show "2 powi ilog2 x \<le> x" "x < 2 powi (ilog2 x + 1)"
    using u l by (auto simp: ilog2_def pq Let_def)
qed

lemma ilog2_less:
  assumes "0 < x" and "x < 2 powi k"
  shows "ilog2 x < k"
proof (rule ccontr)
  assume "\<not> ilog2 x < k"
  then have "(2 :: rat) powi k \<le> 2 powi ilog2 x" by (intro power_int_increasing) simp_all
  also have "\<dots> \<le> x" by (rule ilog2_bounds(1) [OF assms(1)])
  finally show False using assms(2) by simp
qed

subsection \<open>Rounding\<close>

lemma round_even_int [simp]: "round_even (of_int i) = i"
  by (simp add: round_even_def Let_def)

lemma round_even_error: "\<bar>of_int (round_even y) - y\<bar> \<le> 1 / 2"
proof -
  have "0 \<le> y - of_int \<lfloor>y\<rfloor>" "y - of_int \<lfloor>y\<rfloor> \<le> 1" by linarith+
  then show ?thesis unfolding round_even_def Let_def abs_le_iff by (simp add: algebra_simps) linarith
qed

text \<open>The relative error is at most \<open>2 powi (-53)\<close>.\<close>

lemma rnd_error: "\<bar>rnd x - x\<bar> \<le> \<bar>x\<bar> * 2 powi (- 53)"
proof (cases "x = 0")
  case False
  let ?u = "2 powi (ilog2 \<bar>x\<bar> - 52) :: rat"
  have u: "0 < ?u" by simp
  have "\<bar>rnd x - x\<bar> = \<bar>of_int (round_even (x / ?u)) - x / ?u\<bar> * ?u"
  proof -
    have "rnd x - x = (of_int (round_even (x / ?u)) - x / ?u) * ?u" using False by (simp add: rnd_def Let_def left_diff_distrib)
    then show ?thesis by (simp only: abs_mult abs_of_pos [OF u])
  qed
  also have "\<dots> \<le> 1 / 2 * ?u" using round_even_error u by (intro mult_right_mono) simp_all
  also have "\<dots> = 2 powi ilog2 \<bar>x\<bar> * 2 powi (- 53)" by (simp add: power_int_diff power_int_minus)
  also have "\<dots> \<le> \<bar>x\<bar> * 2 powi (- 53)" using ilog2_bounds(1) [of "\<bar>x\<bar>"] False by (intro mult_right_mono) simp_all
  finally show ?thesis .
qed (simp add: rnd_def)

lemma rnd_dyadic:
  assumes "\<bar>m\<bar> < 2 ^ 53"
  shows "rnd (of_int m * 2 powi k) = of_int m * 2 powi k"
proof (cases "m = 0")
  case False
  let ?x = "of_int m * 2 powi k :: rat"
  let ?e = "ilog2 \<bar>?x\<bar>"
  have "(of_int \<bar>m\<bar> :: rat) < of_int (2 ^ 53)" using assms by (simp only: of_int_less_iff)
  then have "\<bar>of_int m :: rat\<bar> < 2 ^ 53" by simp
  then have "\<bar>?x\<bar> < 2 ^ 53 * 2 powi k" by (simp add: abs_mult mult_strict_right_mono)
  also have "\<dots> = 2 powi (53 + k)" by (simp add: power_int_add)
  finally have e: "?e < 53 + k" using False by (intro ilog2_less) simp_all
  have "?x / 2 powi (?e - 52) = of_int m * (2 powi (k - (?e - 52)))" by (simp add: power_int_diff)
  also have "\<dots> = of_int (m * 2 ^ nat (k - (?e - 52)))" using e by (simp add: power_int_def)
  finally have "?x / 2 powi (?e - 52) = of_int (m * 2 ^ nat (k - (?e - 52)))" .
  then show ?thesis using False unfolding rnd_def Let_def by (metis (no_types, lifting) nonzero_divide_eq_eq
        power_int_not_zero round_even_int zero_neq_numeral)
qed (simp add: rnd_def)

lemma rnd_int: "\<bar>m\<bar> < 2 ^ 53 \<Longrightarrow> rnd (of_int m) = of_int m"
  using rnd_dyadic [of m 0] by simp

lemma rnd_half: "\<bar>m\<bar> < 2 ^ 53 \<Longrightarrow> rnd (of_int m / 2) = of_int m / 2"
  using rnd_dyadic [of m "- 1"] by (simp add: power_int_minus field_simps)

text \<open>Bounds of a rounded value with a decimal slack.\<close>

lemma rnd_bounds:
  shows "0 \<le> x \<Longrightarrow> x * (1 - 1 / 10 ^ 15) \<le> rnd x" and "0 \<le> x \<Longrightarrow> rnd x \<le> x * (1 + 1 / 10 ^ 15)"
    and "x \<le> 0 \<Longrightarrow> rnd x \<le> 0" and "0 \<le> x \<Longrightarrow> 0 \<le> rnd x"
proof -
  have "\<bar>x\<bar> * 2 powi (- 53) \<le> \<bar>x\<bar> * (1 / 10 ^ 15)" by (intro mult_left_mono) (simp_all add: power_int_minus)
  then have "\<bar>rnd x - x\<bar> \<le> \<bar>x\<bar> / 10 ^ 15" using rnd_error [of x] by simp
  then have lo: "x - \<bar>x\<bar> / 10 ^ 15 \<le> rnd x" and hi: "rnd x \<le> x + \<bar>x\<bar> / 10 ^ 15" by linarith+
  show "0 \<le> x \<Longrightarrow> x * (1 - 1 / 10 ^ 15) \<le> rnd x" using lo by (simp add: right_diff_distrib)
  show "0 \<le> x \<Longrightarrow> rnd x \<le> x * (1 + 1 / 10 ^ 15)" using hi by (simp add: distrib_left)
  show "rnd x \<le> 0" if "x \<le> 0" using hi that unfolding abs_of_nonpos [OF that] by simp
  show "0 \<le> rnd x" if "0 \<le> x" using lo that unfolding abs_of_nonneg [OF that] by simp
qed

end
