(* ===== verification/Utp_Ccontrol.thy ===== *)
theory Utp_Ccontrol
  imports Utp_Double Utp_Send_Inv
begin

section \<open>Congestion control\<close>

text \<open>
  \<^verbatim>\<open>apply_ccontrol\<close>, the LEDBAT controller, and \<^verbatim>\<open>maybe_decay_win\<close>. The window \<open>max_window\<close>
  follows the queuing delay: it grows by at most 3000 bytes per window of acked data while the
  delay is below the target, and shrinks in proportion above it.
\<close>

definition MAX_CWND_INCREASE_BYTES_PER_RTT :: int where "MAX_CWND_INCREASE_BYTES_PER_RTT = 3000"
definition MIN_WINDOW_SIZE :: size_t where "MIN_WINDOW_SIZE = 10"
definition MAX_WINDOW_DECAY :: int where "MAX_WINDOW_DECAY = 100"
definition INT_MAX :: int where "INT_MAX = 2 ^ 31 - 1"

subsection \<open>Operations\<close>

definition can_decay_win :: "int \<Rightarrow> UTPSocket \<Rightarrow> bool" where
  "can_decay_win msec s \<longleftrightarrow> MAX_WINDOW_DECAY \<le> msec - last_rwin_decay s"

definition maybe_decay_win :: "uint64 \<Rightarrow> UTPSocket \<Rightarrow> UTPSocket option" where
  "maybe_decay_win ms s =
     (if can_decay_win (sint ms) s then do {
        w \<leftarrow> size_of_double (dmul (double_of_size (max_window s)) (1 / 2));
        let s1 = s\<lparr>max_window := w, last_rwin_decay := sint ms\<rparr>;
        let s2 = (if max_window s1 < MIN_WINDOW_SIZE then s1\<lparr>max_window := MIN_WINDOW_SIZE\<rparr> else s1);
        Some (s2\<lparr>slow_start := False, ssthresh := max_window s2\<rparr>)
      } else Some s)"

definition clamp :: "size_t \<Rightarrow> size_t \<Rightarrow> size_t \<Rightarrow> size_t" where
  "clamp v mi ma = (let v1 = (if ma < v then ma else v) in if v1 < mi then mi else v1)"

text \<open>The delay the controller acts on, and the penalty for a peer whose clock runs slow.\<close>

definition cc_our_delay :: "int \<Rightarrow> UTPSocket \<Rightarrow> int" where
  "cc_our_delay min_rtt s = sint (min (dh_get_value (our_hist s)) (word_of_int min_rtt))"

definition cc_penalty :: "UTPSocket \<Rightarrow> int" where
  "cc_penalty s = (if clock_drift s < - 200000 then (- clock_drift s - 200000) div 7 else 0)"

definition cc_target :: "UTPSocket \<Rightarrow> int" where
  "cc_target s = (let target = as_int (target_delay s) in if target \<le> 0 then 100000 else target)"

definition cc_window_factor :: "size_t \<Rightarrow> UTPSocket \<Rightarrow> double" where
  "cc_window_factor bytes_acked s =
     ddiv (double_of_size (min bytes_acked (max_window s))) (double_of_size (max (max_window s) bytes_acked))"

definition cc_gain :: "size_t \<Rightarrow> int \<Rightarrow> int \<Rightarrow> UTPSocket \<Rightarrow> double" where
  "cc_gain bytes_acked our_delay target s = (
     let off_target = double_of_int (target - our_delay);
         delay_factor = ddiv off_target (double_of_int target)
     in dmul (dmul (double_of_int MAX_CWND_INCREASE_BYTES_PER_RTT) (cc_window_factor bytes_acked s)) delay_factor)"

definition cc_gain_limit :: "size_t \<Rightarrow> UTPSocket \<Rightarrow> double" where
  "cc_gain_limit bytes_acked s = dadd 1
     (ddiv (dmul (double_of_int MAX_CWND_INCREASE_BYTES_PER_RTT) (double_of_size (min bytes_acked (max_window s))))
           (double_of_size (max (max_window s) bytes_acked)))"

text \<open>The new window: slow start, or the gain applied to the old one.\<close>

definition cc_slow_start :: "size_t \<Rightarrow> int \<Rightarrow> int \<Rightarrow> size_t \<Rightarrow> UTPSocket \<Rightarrow> UTPSocket option" where
  "cc_slow_start bytes_acked our_delay target ledbat_cwnd s = do {
     ss_cwnd \<leftarrow> size_of_double (dadd (double_of_size (max_window s))
                  (dmul (cc_window_factor bytes_acked s) (double_of_size (get_packet_size s))));
     Some (if ssthresh s < ss_cwnd then s\<lparr>slow_start := False\<rparr>
           else if dmul (double_of_int target) (rnd (9 / 10)) < double_of_int our_delay
           then s\<lparr>slow_start := False, ssthresh := max_window s\<rparr>
           else s\<lparr>max_window := max ss_cwnd ledbat_cwnd\<rparr>)
   }"

definition apply_ccontrol :: "size_t \<Rightarrow> uint32 \<Rightarrow> int \<Rightarrow> conn \<Rightarrow> conn option" where
  "apply_ccontrol bytes_acked actual_delay min_rtt = (\<lambda>(s, ctx). do {
     cassert (0 \<le> min_rtt);
     let our_delay0 = cc_our_delay min_rtt s;
     cassert (our_delay0 \<noteq> INT_MAX);
     cassert (0 \<le> our_delay0);
     let ctx1 = utp_call_on_delay_sample ctx (self s) (our_delay0 div 1000);
     let target = cc_target s;
     let our_delay = our_delay0 + cc_penalty s;
     cassert (0 < bytes_acked);
     let gain = cc_gain bytes_acked our_delay target s;
     cassert (gain \<le> cc_gain_limit bytes_acked s);
     let scaled_gain = (if 0 < gain \<and> 1000 < current_ms ctx1 - last_maxed_out_window s then 0 else gain);
     let sum = dadd (double_of_size (max_window s)) scaled_gain;
     ledbat_cwnd \<leftarrow> (if sum < 10 then Some MIN_WINDOW_SIZE else size_of_double sum);
     s1 \<leftarrow> (if slow_start s then cc_slow_start bytes_acked our_delay target ledbat_cwnd s
            else Some (s\<lparr>max_window := ledbat_cwnd\<rparr>));
     let s2 = s1\<lparr>max_window := clamp (max_window s1) MIN_WINDOW_SIZE (opt_sndbuf s1)\<rparr>;
     let (_, ctx2) = utp_call_get_microseconds ctx1 (Some (self s));
     Some (s2, utp_log UTP_LOG_NORMAL (Some (self s)) ctx2)
   })"

subsection \<open>Rounding errors\<close>

declare of_nat_unat [simp del]

lemma rnd_upper: "0 \<le> x \<Longrightarrow> x \<le> c \<Longrightarrow> rnd x \<le> x + c / 10 ^ 15"
  using rnd_bounds(2) [of x] by (simp add: distrib_left)

lemma rnd_lower: "0 \<le> x \<Longrightarrow> x \<le> c \<Longrightarrow> x - c / 10 ^ 15 \<le> rnd x"
  using rnd_bounds(1) [of x] by (simp add: right_diff_distrib)

lemma int_unat_53: "unat n < 2 ^ 53 \<Longrightarrow> \<bar>int (unat n)\<bar> < 2 ^ 53"
  by (metis abs_of_nat of_nat_less_iff of_nat_numeral of_nat_power)

lemma rat_unat_less: "unat n < 2 ^ k \<Longrightarrow> (of_nat (unat n) :: rat) < 2 ^ k"
  by (metis of_nat_less_iff of_nat_numeral of_nat_power)

lemma double_of_size_eq: "unat n < 2 ^ 53 \<Longrightarrow> double_of_size n = of_nat (unat n)"
proof -
  assume n: "unat n < 2 ^ 53"
  have u: "uint n = int (unat n)" by (rule uint_nat)
  show ?thesis unfolding double_of_size_def u using int_unat_53 [OF n] by (subst rnd_int) simp_all
qed

lemma double_of_int_eq: "\<bar>i\<bar> < 2 ^ 53 \<Longrightarrow> double_of_int i = of_int i"
  by (simp add: double_of_int_def rnd_int)

lemma size_of_double_eq:
  assumes "0 \<le> x" and "x < 2 ^ 64"
  shows "size_of_double x = Some (word_of_int \<lfloor>x\<rfloor>)" and "unat (word_of_int \<lfloor>x\<rfloor> :: size_t) = nat \<lfloor>x\<rfloor>"
proof -
  have "\<lfloor>x\<rfloor> < 2 ^ 64" using assms by (simp add: floor_less_iff)
  moreover have "0 \<le> \<lfloor>x\<rfloor>" using assms by simp
  ultimately show "unat (word_of_int \<lfloor>x\<rfloor> :: size_t) = nat \<lfloor>x\<rfloor>"
    by (simp add: unsigned_of_int take_bit_int_eq_self)
  show "size_of_double x = Some (word_of_int \<lfloor>x\<rfloor>)" using assms by (simp add: size_of_double_def)
qed

subsection \<open>The decay of the window\<close>

lemma decayed_window:
  assumes "unat n < 2 ^ 53"
  shows "size_of_double (dmul (double_of_size n) (1 / 2)) = Some (n div 2)"
proof -
  from rnd_half [OF int_unat_53 [OF assms]] have r: "dmul (double_of_size n) (1 / 2) = of_nat (unat n) / 2"
    using assms by (simp add: dmul_def double_of_size_eq)
  have f: "\<lfloor>of_nat (unat n) / (2 :: rat)\<rfloor> = int (unat n div 2)"
    using floor_divide_of_nat_eq [of "unat n" 2, where ?'a = rat] by simp
  have "(of_nat (unat n) / 2 :: rat) < 2 ^ 64" using rat_unat_less [OF assms] by simp
  then have "size_of_double (of_nat (unat n) / 2) = Some (word_of_int (int (unat n div 2)))"
    using size_of_double_eq(1) [of "of_nat (unat n) / 2"] unfolding f by simp
  also have "(word_of_int (int (unat n div 2)) :: size_t) = n div 2"
    by (simp add: word_arith_nat_div)
  finally show ?thesis unfolding r .
qed

text \<open>The gain is at most its share of 3000 bytes, and at most 0 above the target.\<close>

lemma cc_factor_bounds:
  assumes "unat b < 2 ^ 40" and "unat (max_window s) < 2 ^ 40" and "0 < b"
  defines "r \<equiv> of_nat (unat (min b (max_window s))) / of_nat (unat (max (max_window s) b))"
  shows "0 \<le> cc_window_factor b s" "cc_window_factor b s \<le> r + 1 / 10 ^ 15" "0 \<le> r" "r \<le> 1"
proof -
  have m: "unat (min b (max_window s)) < 2 ^ 40" "unat (max (max_window s) b) < 2 ^ 40"
    using assms(1,2) by (simp_all add: min_def max_def)
  have le: "unat (min b (max_window s)) \<le> unat (max (max_window s) b)"
    by (simp add: min_def max_def word_le_nat_alt)
  have pos: "0 < unat (max (max_window s) b)"
    using assms(3) by (simp add: max_def word_less_nat_alt word_le_nat_alt)
  show r: "0 \<le> r" "r \<le> 1" unfolding r_def using le pos by (simp_all add: divide_le_eq)
  have wf: "cc_window_factor b s = rnd r"
    using m by (simp add: cc_window_factor_def ddiv_def double_of_size_eq r_def)
  show "0 \<le> cc_window_factor b s" unfolding wf by (rule rnd_bounds(4) [OF r(1)])
  show "cc_window_factor b s \<le> r + 1 / 10 ^ 15" unfolding wf by (rule rnd_upper [OF r])
qed

lemma cc_target_bounds: "0 < cc_target s" "cc_target s < 2 ^ 31"
  using sint_less [of "ucast (target_delay s) :: uint32"]
  by (simp_all add: cc_target_def as_int_def Let_def)

lemma delay_factor_bounds:
  fixes d :: int
  assumes "0 < t" and "t < 2 ^ 31" and "0 \<le> d" and "d < 2 ^ 40"
  defines "df \<equiv> ddiv (double_of_int (t - d)) (double_of_int t)"
  shows "df \<le> 1 + 1 / 10 ^ 15" "t \<le> d \<Longrightarrow> df \<le> 0"
proof -
  let ?q = "of_int (t - d) / of_int t :: rat"
  have df: "df = rnd ?q" using assms by (simp add: df_def ddiv_def double_of_int_eq)
  have le: "?q \<le> 1" using assms(1,3) by (simp add: divide_le_eq)
  show n: "df \<le> 0" if "t \<le> d"
    unfolding df using that assms(1) by (intro rnd_bounds(3)) (simp add: divide_le_0_iff)
  show "df \<le> 1 + 1 / 10 ^ 15"
  proof (cases "t \<le> d")
    case False
    then have "0 \<le> ?q" using assms(1) by (simp add: zero_le_divide_iff)
    from rnd_upper [OF this le] show ?thesis unfolding df using le by simp
  qed (use n in simp)
qed

lemma cc_gain_bounds:
  assumes b: "unat b < 2 ^ 40" "unat (max_window s) < 2 ^ 40" "0 < b" and d: "0 \<le> d" "d < 2 ^ 40"
  defines "r \<equiv> of_nat (unat (min b (max_window s))) / of_nat (unat (max (max_window s) b))"
  shows "cc_gain b d (cc_target s) s \<le> 3000 * r + 1 / 10 ^ 10"
    and "cc_target s \<le> d \<Longrightarrow> cc_gain b d (cc_target s) s \<le> 0"
proof -
  let ?w = "cc_window_factor b s" and ?t = "cc_target s"
  let ?df = "ddiv (double_of_int (?t - d)) (double_of_int ?t)" and ?g = "rnd (3000 * ?w)"
  note w = cc_factor_bounds [OF b, folded r_def]
  note df = delay_factor_bounds [OF cc_target_bounds d, of s]
  have eq: "cc_gain b d ?t s = rnd (?g * ?df)"
    by (simp add: cc_gain_def Let_def dmul_def double_of_int_eq MAX_CWND_INCREASE_BYTES_PER_RTT_def)
  have g0: "0 \<le> ?g" using w(1) by (intro rnd_bounds(4)) simp
  have "3000 * ?w \<le> 3001" using w(2,4) by simp
  then have g: "?g \<le> 3000 * ?w + 3001 / 10 ^ 15" using w(1) by (intro rnd_upper) simp_all
  show n: "cc_gain b d ?t s \<le> 0" if "?t \<le> d"
    unfolding eq using df(2) [OF that] g0 by (intro rnd_bounds(3)) (rule mult_nonneg_nonpos)
  show "cc_gain b d ?t s \<le> 3000 * r + 1 / 10 ^ 10"
  proof (cases "?df \<le> 0")
    case True
    then have "cc_gain b d ?t s \<le> 0" unfolding eq using g0 by (intro rnd_bounds(3)) (rule mult_nonneg_nonpos)
    also have "0 \<le> 3000 * r + 1 / 10 ^ 10" using w(3) by simp
    finally show ?thesis .
  next
    case False
    have "?g * ?df \<le> ?g * (1 + 1 / 10 ^ 15)" using df(1) g0 by (intro mult_left_mono)
    also have "\<dots> \<le> ?g + 3002 / 10 ^ 15" using g w(2,4) by (simp add: distrib_left)
    finally have p: "?g * ?df \<le> ?g + 3002 / 10 ^ 15" .
    then have "?g * ?df \<le> 3003" using g w(2,4) by simp
    then have "cc_gain b d ?t s \<le> ?g * ?df + 3003 / 10 ^ 15"
      unfolding eq using g0 False by (intro rnd_upper) simp_all
    then show ?thesis using p g w(2) by simp
  qed
qed

lemma cc_gain_limit_bound:
  assumes b: "unat b < 2 ^ 40" "unat (max_window s) < 2 ^ 40" "0 < b"
  defines "r \<equiv> of_nat (unat (min b (max_window s))) / of_nat (unat (max (max_window s) b))"
  shows "3000 * r + 1 / 2 \<le> cc_gain_limit b s"
proof -
  note w = cc_factor_bounds [OF b, folded r_def]
  have m: "unat (min b (max_window s)) < 2 ^ 40" "unat (max (max_window s) b) < 2 ^ 40"
    using b(1,2) by (simp_all add: min_def max_def)
  have "rnd (of_int (3000 * int (unat (min b (max_window s))))) = of_int (3000 * int (unat (min b (max_window s))))"
    using m(1) by (intro rnd_int) simp
  then have eq: "cc_gain_limit b s = rnd (1 + rnd (3000 * r))"
    using m by (simp add: cc_gain_limit_def dadd_def dmul_def ddiv_def double_of_int_eq double_of_size_eq
        MAX_CWND_INCREASE_BYTES_PER_RTT_def r_def)
  have r: "0 \<le> 3000 * r" "3000 * r \<le> 3000" using w(3,4) by simp_all
  note q = rnd_lower [OF r] rnd_upper [OF r] rnd_bounds(4) [OF r(1)]
  have "1 + rnd (3000 * r) \<le> 3002" using q(2) r by simp
  then have "1 + rnd (3000 * r) - 3002 / 10 ^ 15 \<le> cc_gain_limit b s"
    unfolding eq using q(3) by (intro rnd_lower) simp_all
  then show ?thesis using q(1) by simp
qed

text \<open>The window after a gain of at most \<open>k\<close> bytes.\<close>

lemma grown_window:
  fixes g :: rat and k :: nat
  assumes "unat n < 2 ^ 40" and "g \<le> of_nat k + 1 / 10 ^ 3" and "k < 2 ^ 40" and pos: "0 \<le> of_nat (unat n) + g"
  obtains w where "size_of_double (dadd (double_of_size n) g) = Some w" "unat w \<le> unat n + k"
proof -
  let ?n = "of_nat (unat n) :: rat"
  let ?x = "dadd (double_of_size n) g"
  have x: "?x = rnd (?n + g)" using assms(1) by (simp add: dadd_def double_of_size_eq)
  have k: "(of_nat k :: rat) < 2 ^ 40" using assms(3) by (metis of_nat_less_iff of_nat_numeral of_nat_power)
  have "?n + g \<le> 2 ^ 42" using rat_unat_less [OF assms(1)] k assms(2) by simp
  from rnd_upper [OF pos this] have up: "?x \<le> ?n + of_nat k + 1 / 2" unfolding x using assms(2) by simp
  then have small: "?x < 2 ^ 64" using rat_unat_less [OF assms(1)] k by simp
  have "?x < of_int (int (unat n + k) + 1)" using up by simp
  then have "\<lfloor>?x\<rfloor> < int (unat n + k) + 1" by (simp only: floor_less_iff)
  then have "nat \<lfloor>?x\<rfloor> \<le> unat n + k" by linarith
  moreover have "0 \<le> ?x" unfolding x by (rule rnd_bounds(4) [OF pos])
  ultimately show ?thesis using that size_of_double_eq [OF _ small] by simp
qed

lemma cc_slow_start_spec:
  assumes b: "unat b < 2 ^ 40" "unat (max_window s) < 2 ^ 40" "0 < b" and ps: "unat (get_packet_size s) < 2 ^ 16"
  shows "wpo (cc_slow_start b d t w s) (\<lambda>s'. s' = s\<lparr>slow_start := slow_start s', ssthresh := ssthresh s', max_window := max_window s'\<rparr> \<and>
           unat (max_window s') \<le> max (unat (max_window s) + unat (get_packet_size s)) (unat w))"
proof -
  let ?ps = "of_nat (unat (get_packet_size s)) :: rat"
  let ?g = "dmul (cc_window_factor b s) (double_of_size (get_packet_size s))"
  note w = cc_factor_bounds [OF b]
  have p: "?ps < 2 ^ 16" by (rule rat_unat_less [OF ps])
  have eq: "?g = rnd (cc_window_factor b s * ?ps)" using ps by (simp add: dmul_def double_of_size_eq)
  have x0: "0 \<le> cc_window_factor b s * ?ps" using w(1) by simp
  have "cc_window_factor b s \<le> 1 + 1 / 10 ^ 15" using w(2,4) by linarith
  then have "cc_window_factor b s * ?ps \<le> (1 + 1 / 10 ^ 15) * ?ps" by (intro mult_right_mono) simp_all
  then have x1: "cc_window_factor b s * ?ps \<le> ?ps + 1 / 10 ^ 9" using p by (simp add: distrib_right)
  then have "cc_window_factor b s * ?ps \<le> 2 ^ 17" using p by simp
  from rnd_upper [OF x0 this] have g: "?g \<le> ?ps + 1 / 10 ^ 3" unfolding eq using x1 by simp
  have g0: "0 \<le> ?g" unfolding eq by (rule rnd_bounds(4) [OF x0])
  obtain v where v: "size_of_double (dadd (double_of_size (max_window s)) ?g) = Some v"
    "unat v \<le> unat (max_window s) + unat (get_packet_size s)"
    using grown_window [OF b(2) g] ps g0 by auto
  show ?thesis unfolding cc_slow_start_def v(1) using v(2) by (simp add: max_def word_le_nat_alt)
qed

text \<open>What the controller may change, and how far the window moves.\<close>

definition cc_result :: "nat \<Rightarrow> UTPSocket \<Rightarrow> UTPSocket \<Rightarrow> bool" where
  "cc_result k s s' \<longleftrightarrow> s' = s\<lparr>slow_start := slow_start s', ssthresh := ssthresh s', max_window := max_window s'\<rparr> \<and>
     10 \<le> unat (max_window s') \<and> unat (max_window s') \<le> max 10 (unat (opt_sndbuf s)) \<and>
     unat (max_window s') \<le> max 10 (unat (max_window s) + (if slow_start s then max k (unat (get_packet_size s)) else k))"

lemma clamp_unat: "unat (clamp v MIN_WINDOW_SIZE ma) = max 10 (min (unat v) (unat ma))"
  by (auto simp: clamp_def MIN_WINDOW_SIZE_def Let_def word_less_nat_alt)

lemma cc_our_delay_bounds:
  assumes "0 \<le> min_rtt" and "min_rtt < INT_MAX"
  shows "0 \<le> cc_our_delay min_rtt s" and "cc_our_delay min_rtt s \<le> min_rtt"
proof -
  let ?m = "min (dh_get_value (our_hist s)) (word_of_int min_rtt)"
  have "uint (word_of_int min_rtt :: uint32) = min_rtt"
    using assms by (simp add: INT_MAX_def unsigned_of_int take_bit_int_eq_self)
  then have "uint ?m \<le> min_rtt" by (simp add: min_def word_le_def)
  moreover from this have "sint ?m = uint ?m"
    unfolding sint_uint using assms uint_ge_0 [of ?m]
    by (intro signed_take_bit_int_eq_self) (simp_all add: INT_MAX_def del: uint_ge_0 unsigned_greater_eq)
  ultimately show "0 \<le> cc_our_delay min_rtt s" "cc_our_delay min_rtt s \<le> min_rtt"
    by (simp_all add: cc_our_delay_def)
qed

lemma cc_ledbat:
  assumes n: "unat n < 2 ^ 40" and g: "g \<le> of_nat k + 1 / 10 ^ 3" and k: "k < 2 ^ 40"
  shows "wpo (if dadd (double_of_size n) g < 10 then Some MIN_WINDOW_SIZE else size_of_double (dadd (double_of_size n) g))
           (\<lambda>w. unat w \<le> max 10 (unat n + k))"
proof (cases "dadd (double_of_size n) g < 10")
  case False
  then have "0 < rnd (of_nat (unat n) + g)" using n by (simp add: dadd_def double_of_size_eq)
  then have "0 \<le> of_nat (unat n) + g" using rnd_bounds(3) [of "of_nat (unat n) + g"] by linarith
  from grown_window [OF n g k this] obtain w where
    "size_of_double (dadd (double_of_size n) g) = Some w" "unat w \<le> unat n + k" .
  then show ?thesis using False by simp
qed (simp add: MIN_WINDOW_SIZE_def)

text \<open>The controller's bounds on the acked bytes, the clocks and the buffer sizes.\<close>

definition cc_pre :: "size_t \<Rightarrow> int \<Rightarrow> UTPSocket \<Rightarrow> bool" where
  "cc_pre b min_rtt s \<longleftrightarrow> 0 < b \<and> unat b < 2 ^ 40 \<and> unat (max_window s) < 2 ^ 40 \<and>
     0 \<le> min_rtt \<and> min_rtt < INT_MAX \<and> \<bar>clock_drift s\<bar> \<le> 2 ^ 31 \<and> unat (get_packet_size s) < 2 ^ 16"

lemma cc_penalty_bounds: "\<bar>clock_drift s\<bar> \<le> 2 ^ 31 \<Longrightarrow> 0 \<le> cc_penalty s \<and> cc_penalty s \<le> 2 ^ 31"
  by (auto simp: cc_penalty_def)

text \<open>
  The largest growth for \<open>b\<close> acked bytes: their share of 3000 bytes per window, one byte of rounding;
  nothing while the delay is above the target.
\<close>

definition cc_allowance :: "size_t \<Rightarrow> int \<Rightarrow> UTPSocket \<Rightarrow> nat" where
  "cc_allowance b min_rtt s =
     (if cc_target s \<le> cc_our_delay min_rtt s + cc_penalty s then 0
      else min 3000 (3000 * unat (min b (max_window s)) div unat (max (max_window s) b) + 1))"

lemma div_ratio_le: "(3000 * (of_nat m / of_nat n) :: rat) \<le> of_nat (3000 * m div n + 1)"
proof (cases "n = 0")
  case False
  have "3000 * m \<le> (3000 * m div n + 1) * n"
    using False by (metis Suc_eq_plus1 dividend_less_div_times less_imp_le_nat mult.commute mult_Suc not_gr_zero)
  then have "(of_nat (3000 * m) :: rat) \<le> of_nat ((3000 * m div n + 1) * n)" by (simp only: of_nat_le_iff)
  then show ?thesis using False by (simp add: divide_le_eq distrib_right)
qed simp

lemma apply_ccontrol_spec:
  assumes pre: "cc_pre b min_rtt s"
  defines "k \<equiv> cc_allowance b min_rtt s"
  shows "wpo (apply_ccontrol b actual_delay min_rtt (s, ctx)) (\<lambda>(s', ctx'). cc_result k s s' \<and> trace_ext ctx ctx')"
proof -
  let ?od = "cc_our_delay min_rtt s" and ?t = "cc_target s"
  let ?d = "?od + cc_penalty s"
  let ?g = "cc_gain b ?d ?t s"
  define ctx1 where "ctx1 = utp_call_on_delay_sample ctx (self s) (?od div 1000)"
  let ?sg = "if 0 < ?g \<and> 1000 < current_ms ctx1 - last_maxed_out_window s then 0 else ?g"
  have b: "unat b < 2 ^ 40" "unat (max_window s) < 2 ^ 40" "0 < b" and r: "0 \<le> min_rtt" "min_rtt < INT_MAX"
    and ps: "unat (get_packet_size s) < 2 ^ 16" and cd: "\<bar>clock_drift s\<bar> \<le> 2 ^ 31"
    using pre by (simp_all add: cc_pre_def)
  note od = cc_our_delay_bounds [OF r, of s]
  have d: "0 \<le> ?d" "?d < 2 ^ 40" using od r(2) cc_penalty_bounds [OF cd] by (simp_all add: INT_MAX_def)
  have e: "(1 / 10 ^ 10 :: rat) \<le> 1 / 2" by simp
  have lim: "?g \<le> cc_gain_limit b s" using e cc_gain_bounds(1) [OF b d] cc_gain_limit_bound [OF b] by linarith
  let ?r = "of_nat (unat (min b (max_window s))) / of_nat (unat (max (max_window s) b)) :: rat"
  have share: "3000 * ?r \<le> of_nat (min 3000 (3000 * unat (min b (max_window s)) div unat (max (max_window s) b) + 1))"
    using cc_factor_bounds(4) [OF b] div_ratio_le [of "unat (min b (max_window s))" "unat (max (max_window s) b)"]
    by (simp only: of_nat_min) (simp add: min_def)
  have eps: "(1 / 10 ^ 10 :: rat) \<le> 1 / 10 ^ 3" by simp
  have "?g \<le> of_nat k + 1 / 10 ^ 3"
  proof (cases "?t \<le> ?d")
    case True
    then show ?thesis using cc_gain_bounds(2) [OF b d] by (simp add: k_def cc_allowance_def)
  next
    case False
    then have "k = min 3000 (3000 * unat (min b (max_window s)) div unat (max (max_window s) b) + 1)"
      by (simp add: k_def cc_allowance_def)
    then show ?thesis using cc_gain_bounds(1) [OF b d] share eps by linarith
  qed
  then have "?sg \<le> of_nat k + 1 / 10 ^ 3" by simp
  note led = cc_ledbat [OF b(2) this]
  have k: "k < 2 ^ 40" by (simp add: k_def cc_allowance_def min_def)
  have tr1: "trace_ext ctx ctx1" by (simp add: ctx1_def utp_call_defs)
  obtain t2 ctx2 where t2: "utp_call_get_microseconds ctx1 (Some (self s)) = (t2, ctx2)" by fastforce
  have tr: "trace_ext ctx (utp_log UTP_LOG_NORMAL (Some (self s)) ctx2)"
    using tr1 trace_ext_microseconds [OF t2] trace_ext_log by (blast intro: trace_ext_trans)
  have step: "wpo (if slow_start s then cc_slow_start b ?d ?t w s else Some (s\<lparr>max_window := w\<rparr>))
      (\<lambda>s'. s' = s\<lparr>slow_start := slow_start s', ssthresh := ssthresh s', max_window := max_window s'\<rparr> \<and>
        unat (max_window s') \<le> max 10 (unat (max_window s) + (if slow_start s then max k (unat (get_packet_size s)) else k)))"
    if w: "unat w \<le> max 10 (unat (max_window s) + k)" for w
  proof (cases "slow_start s")
    case True
    then show ?thesis using w by (simp, intro wpo_mono [OF cc_slow_start_spec [OF b ps]]) auto
  qed (use w in simp)
  have res: "cc_result k s (s1\<lparr>max_window := clamp (max_window s1) MIN_WINDOW_SIZE (opt_sndbuf s1)\<rparr>)"
    if "s1 = s\<lparr>slow_start := slow_start s1, ssthresh := ssthresh s1, max_window := max_window s1\<rparr>"
      "unat (max_window s1) \<le> max 10 (unat (max_window s) + (if slow_start s then max k (unat (get_packet_size s)) else k))" for s1
    using that by (cases s1; cases s) (auto simp: cc_result_def clamp_unat)
  have as: "(0 \<le> min_rtt) = True" "(?od \<noteq> INT_MAX) = True" "(0 \<le> ?od) = True" "(0 < b) = True"
    "(?g \<le> cc_gain_limit b s) = True" using od r b(3) lim by simp_all
  show ?thesis
    unfolding apply_ccontrol_def prod.case Let_def ctx1_def [symmetric] as cassert_simps Option.bind.bind_lunit
    apply (rule wpo_bindI [OF led])
     apply (rule k)
    apply (rule wpo_bindI [OF step], assumption)
    apply (simp only: t2 prod.case wpo_Some)
    using res tr by blast
qed

declare of_nat_unat [simp]

subsection \<open>Properties\<close>



text \<open>\<^verbatim>\<open>maybe_decay_win\<close> halves the window (rounding down, through a multiplication in floating point), at most
  once in 100 ms and never below 10 bytes, leaves slow start and records the new threshold.
\<close>

lemma maybe_decay_win_halves:
  assumes "unat (max_window s) < 2 ^ 53"
  shows "maybe_decay_win ms s = Some (
    if 100 \<le> sint ms - last_rwin_decay s
    then s\<lparr>max_window := max 10 (max_window s div 2), last_rwin_decay := sint ms, slow_start := False,
           ssthresh := max 10 (max_window s div 2)\<rparr>
    else s)"
  by (simp add: maybe_decay_win_def can_decay_win_def MAX_WINDOW_DECAY_def MIN_WINDOW_SIZE_def
      decayed_window [OF assms] max_def Let_def not_le)

end
