(* ===== verification/Utp_Ack.thy ===== *)
theory Utp_Ack
  imports Utp_Ccontrol "HOL-Library.Signed_Division"
begin

section \<open>Acknowledgments\<close>

text \<open>
  The part of \<^verbatim>\<open>utp_process_incoming\<close> that works on the send window: \<^verbatim>\<open>ack_packet\<close> with the
  round trip estimate, \<^verbatim>\<open>selective_ack_bytes\<close>, \<^verbatim>\<open>selective_ack\<close>, the loops that count and
  remove the acked packets, the Nagle flush and the fast retransmission after a timeout.

  A selective ack is a pointer into the packet. It is the list of the bytes that can be read
  from there on; a read behind them is a fault.
\<close>

definition DUPLICATE_ACKS_BEFORE_RESEND :: nat where "DUPLICATE_ACKS_BEFORE_RESEND = 3"
definition MAX_EACK :: nat where "MAX_EACK = 128"

subsection \<open>Acking one packet\<close>

text \<open>
  The round trip estimate in milliseconds. The mean deviation is updated with a signed division that
  truncates; \<^verbatim>\<open>abs\<close> of the most negative integer is undefined.
\<close>

definition update_rtt :: "uint32 \<Rightarrow> uint64 \<Rightarrow> UTPSocket \<Rightarrow> UTPSocket option" where
  "update_rtt ertt ms s = do {
     s1 \<leftarrow>
       (if rtt s = 0 then Some (s\<lparr>rtt := ertt, rtt_var := ertt div 2\<rparr>)
        else do {
          let delta = sint (rtt s - ertt);
          cassert (delta \<noteq> - (2 ^ 31));
          let s1 = s\<lparr>rtt_var := rtt_var s + word_of_int (sint (word_of_int \<bar>delta\<bar> - rtt_var s) sdiv 4)\<rparr>;
          let s2 = s1\<lparr>rtt := rtt s1 - rtt s1 div 8 + ertt div 8\<rparr>;
          Some (s2\<lparr>rtt_hist := dh_add_sample (rtt_hist s2) ertt ms\<rparr>)
        });
     Some (s1\<lparr>rto := max (rtt s1 + rtt_var s1 * 4) 1000\<rparr>)
   }"

text \<open>0: acked, 1: acked before, 2: not sent yet.\<close>

definition ack_packet :: "uint16 \<Rightarrow> conn \<Rightarrow> (nat \<times> conn) option" where
  "ack_packet sq = (\<lambda>(s, ctx). case cb_get (outbuf s) (ucast sq) of
       None \<Rightarrow> Some (1, (s, ctx))
     | Some pkt \<Rightarrow>
         if transmissions pkt = 0 then Some (2, (s, ctx))
         else do {
           let s1 = s\<lparr>outbuf := cb_put (outbuf s) (ucast sq) None\<rparr>;
           (s2, ctx2) \<leftarrow>
             (if transmissions pkt = 1 then do {
                let (now, ctx1) = utp_call_get_microseconds ctx (Some (self s));
                s2 \<leftarrow> update_rtt (ucast ((now - time_sent pkt) div 1000)) (current_ms ctx1) s1;
                Some (s2, ctx1)
              } else Some (s1, ctx));
           let s3 = s2\<lparr>retransmit_timeout := rto s2, rto_timeout := current_ms ctx2 + ucast (rto s2)\<rparr>;
           s4 \<leftarrow>
             (if \<not> need_resend pkt then do {
                cassert (pkt_payload pkt \<le> cur_window s3);
                Some (s3\<lparr>cur_window := cur_window s3 - pkt_payload pkt\<rparr>)
              } else Some s3);
           Some (0, (s4\<lparr>retransmit_count := 0\<rparr>, ctx2))
         })"

subsection \<open>Selective acks\<close>

definition mask_byte :: "byte list \<Rightarrow> nat \<Rightarrow> byte option" where
  "mask_byte m i = (if i < length m then Some (m ! i) else None)"

text \<open>\<^verbatim>\<open>bits \<ge> 0 && mask[bits>>3] & (1 << (bits & 7))\<close>\<close>

definition mask_bit :: "byte list \<Rightarrow> int \<Rightarrow> bool option" where
  "mask_bit m bits = (if 0 \<le> bits then do {
       b \<leftarrow> mask_byte m (nat bits div 8);
       Some (bit b (nat bits mod 8))
     } else Some False)"

text \<open>Sequence number \<open>v\<close> is outside of the window or the oldest packet in it.\<close>

definition outside_window :: "uint32 \<Rightarrow> UTPSocket \<Rightarrow> bool" where
  "outside_window v s \<longleftrightarrow>
     ucast (cur_window_packets s - 1) \<le> (ucast (seq_nr s) - v - 1) AND ACK_NR_MASK"

text \<open>The smaller of \<open>min_rtt\<close> and the time the packet was under way, which is 50 ms if the clock went back.\<close>

definition sample_rtt :: "uint64 \<Rightarrow> OutgoingPacket \<Rightarrow> int \<Rightarrow> int" where
  "sample_rtt now pkt min_rtt =
     (if time_sent pkt < now then min min_rtt (sint (now - time_sent pkt)) else min min_rtt 50000)"

text \<open>The loop runs over the bits \<open>n - 1\<close> down to \<open>-1\<close>.\<close>

definition selective_ack_bytes_bit ::
    "uint32 \<Rightarrow> byte list \<Rightarrow> uint64 \<Rightarrow> UTPSocket \<Rightarrow> int \<Rightarrow> size_t \<times> int \<Rightarrow> (size_t \<times> int) option" where
  "selective_ack_bytes_bit base m now s bits = (\<lambda>(acked_bytes, min_rtt).
     let v = base + word_of_int bits in
     if outside_window v s then Some (acked_bytes, min_rtt)
     else case cb_get (outbuf s) (ucast v) of
       None \<Rightarrow> Some (acked_bytes, min_rtt)
     | Some pkt \<Rightarrow>
         if transmissions pkt = 0 then Some (acked_bytes, min_rtt)
         else do {
           b \<leftarrow> mask_bit m bits;
           if b then do {
             cassert (0 \<le> as_int (pkt_payload pkt));
             Some (acked_bytes + pkt_payload pkt, sample_rtt now pkt min_rtt)
           } else Some (acked_bytes, min_rtt)
         })"

fun selective_ack_bytes_loop ::
    "nat \<Rightarrow> uint32 \<Rightarrow> byte list \<Rightarrow> uint64 \<Rightarrow> UTPSocket \<Rightarrow> size_t \<times> int \<Rightarrow> (size_t \<times> int) option" where
  "selective_ack_bytes_loop n base m now s acc =
     Option.bind (selective_ack_bytes_bit base m now s (int n - 1) acc) (\<lambda>acc'.
       case n of 0 \<Rightarrow> Some acc' | Suc k \<Rightarrow> selective_ack_bytes_loop k base m now s acc')"

definition selective_ack_bytes ::
    "uint32 \<Rightarrow> byte list \<Rightarrow> byte \<Rightarrow> int \<Rightarrow> conn \<Rightarrow> (size_t \<times> int \<times> utp_context) option" where
  "selective_ack_bytes base m len min_rtt = (\<lambda>(s, ctx).
     if cur_window_packets s = 0 then Some (0, min_rtt, ctx)
     else do {
       let (now, ctx1) = utp_call_get_microseconds ctx (Some (self s));
       (acked_bytes, min_rtt') \<leftarrow> selective_ack_bytes_loop (unat len * 8 + 1) base m now s (0, min_rtt);
       Some (acked_bytes, min_rtt', ctx1)
     })"

text \<open>
  \<open>resends\<close> is the stack of packets to resend, an array of 128 entries; when it is nearly full the
  lower half is thrown away. The state of the loop is \<open>count\<close>, the stack and the connection.
\<close>

definition may_fast_resend :: "uint32 \<Rightarrow> nat \<Rightarrow> UTPSocket \<Rightarrow> bool" where
  "may_fast_resend v count s \<longleftrightarrow>
     (v - ucast (fast_resend_seq_nr s)) AND ACK_NR_MASK \<le> of_nat OUTGOING_BUFFER_MAX_SIZE \<and>
     DUPLICATE_ACKS_BEFORE_RESEND \<le> count"

definition push_resend :: "uint32 \<Rightarrow> uint32 list \<Rightarrow> uint32 list option" where
  "push_resend v resends = do {
     cassert (length resends < MAX_EACK);
     Some (resends @ [v])
   }"

definition selective_ack_bit ::
    "uint32 \<Rightarrow> byte list \<Rightarrow> int \<Rightarrow> nat \<times> uint32 list \<times> conn \<Rightarrow> (nat \<times> uint32 list \<times> conn) option" where
  "selective_ack_bit base m bits = (\<lambda>(count, resends, s, ctx).
     let v = base + word_of_int bits in
     if outside_window v s then Some (count, resends, s, ctx)
     else do {
       bit_set \<leftarrow> mask_bit m bits;
       let count1 = (if bit_set then count + 1 else count);
       case cb_get (outbuf s) (ucast v) of
         None \<Rightarrow> Some (count1, resends, s, ctx)
       | Some pkt \<Rightarrow>
           if transmissions pkt = 0 then Some (count1, resends, s, ctx)
           else if bit_set then do {
             cassert (ucast v AND cb_mask (outbuf s) \<noteq>
               (ucast (seq_nr s) - ucast (cur_window_packets s)) AND cb_mask (outbuf s));
             (_, c) \<leftarrow> ack_packet (ucast v) (s, ctx);
             Some (count1, resends, c)
           }
           else if may_fast_resend v count1 s then do {
             let resends1 = (if MAX_EACK - 2 \<le> length resends then drop (MAX_EACK div 2) resends else resends);
             resends2 \<leftarrow> push_resend v resends1;
             Some (count1, resends2, s, ctx)
           }
           else Some (count1, resends, s, ctx)
     })"

fun selective_ack_loop ::
    "nat \<Rightarrow> uint32 \<Rightarrow> byte list \<Rightarrow> nat \<times> uint32 list \<times> conn \<Rightarrow> (nat \<times> uint32 list \<times> conn) option" where
  "selective_ack_loop n base m acc =
     Option.bind (selective_ack_bit base m (int n - 1) acc) (\<lambda>acc'.
       case n of 0 \<Rightarrow> Some acc' | Suc k \<Rightarrow> selective_ack_loop k base m acc')"

text \<open>The stack from its top; at most 4 packets are sent.\<close>

fun resend_loop :: "uint32 list \<Rightarrow> nat \<Rightarrow> bool \<Rightarrow> conn \<Rightarrow> (bool \<times> conn) option" where
  "resend_loop [] i back_off c = Some (back_off, c)"
| "resend_loop (v # vs) i back_off (s, ctx) =
     (case cb_get (outbuf s) (ucast v) of
        None \<Rightarrow> resend_loop vs i back_off (s, ctx)
      | Some pkt \<Rightarrow> do {
          (s1, ctx1) \<leftarrow> send_packet (ucast v) (s, utp_log UTP_LOG_NORMAL (Some (self s)) ctx);
          let c = (s1\<lparr>fast_resend_seq_nr := ucast ((v + 1) AND ACK_NR_MASK)\<rparr>, ctx1);
          if 4 \<le> i + 1 then Some (True, c) else resend_loop vs (i + 1) True c
        })"

definition selective_ack :: "uint32 \<Rightarrow> byte list \<Rightarrow> byte \<Rightarrow> conn \<Rightarrow> conn option" where
  "selective_ack base m len = (\<lambda>(s, ctx).
     if cur_window_packets s = 0 then Some (s, ctx)
     else do {
       (count, resends, s1, ctx1) \<leftarrow> selective_ack_loop (unat len * 8) base m (0, [], s, ctx);
       resends' \<leftarrow> (if may_fast_resend (base - 1) count s1
                    then push_resend ((base - 1) AND ACK_NR_MASK) resends else Some resends);
       (back_off, s2, ctx2) \<leftarrow> resend_loop (rev resends') 0 False (s1, ctx1);
       s3 \<leftarrow> (if back_off then maybe_decay_win (current_ms ctx2) s2 else Some s2);
       Some (s3\<lparr>duplicate_ack := of_nat count\<rparr>, ctx2)
     })"

subsection \<open>Cumulative acks\<close>

text \<open>How many packets the ack number covers; an old one covers none.\<close>

definition ack_count :: "uint16 \<Rightarrow> UTPSocket \<Rightarrow> nat" where
  "ack_count pk_ack_nr s = (
     let acks = unat ((ucast pk_ack_nr - (ucast (seq_nr s) - 1 - ucast (cur_window_packets s))) AND ACK_NR_MASK)
     in if unat (cur_window_packets s) < acks then 0 else acks)"

text \<open>Duplicate acks; three of them may mean that an MTU probe was lost.\<close>

definition count_duplicate :: "uint16 \<Rightarrow> byte \<Rightarrow> conn \<Rightarrow> conn option" where
  "count_duplicate pk_ack_nr pk_flags = (\<lambda>(s, ctx).
     if 0 < cur_window_packets s then
       if ucast pk_ack_nr = (ucast (seq_nr s) - ucast (cur_window_packets s) - 1) AND ACK_NR_MASK \<and>
          0 < cur_window_packets s \<and> pk_flags = ST_STATE
       then
         let s1 = s\<lparr>duplicate_ack := duplicate_ack s + 1\<rparr> in
         if unat (duplicate_ack s1) = DUPLICATE_ACKS_BEFORE_RESEND \<and> mtu_probe_seq s1 \<noteq> 0 then
           if ucast pk_ack_nr = (mtu_probe_seq s1 - 1) AND ACK_NR_MASK then mtu_probe_lost (s1, ctx)
           else Some (s1\<lparr>mtu_probe_size := 0, mtu_probe_seq := 0\<rparr>, ctx)
         else Some (s1, ctx)
       else Some (s\<lparr>duplicate_ack := 0\<rparr>, ctx)
     else Some (s, ctx))"

text \<open>The bytes of the packets \<open>i\<close> to \<open>acks - 1\<close>, and the smallest round trip time.\<close>

fun count_acked :: "nat \<Rightarrow> nat \<Rightarrow> uint64 \<Rightarrow> size_t \<times> int \<times> conn \<Rightarrow> (size_t \<times> int \<times> conn) option" where
  "count_acked i 0 now acc = Some acc"
| "count_acked i (Suc n) now (acked_bytes, min_rtt, s, ctx) = (
     let sq = (ucast (seq_nr s) - ucast (cur_window_packets s) + of_nat i :: uint32) AND ACK_NR_MASK in
     case cb_get (outbuf s) (ucast sq) of
       None \<Rightarrow> count_acked (i + 1) n now (acked_bytes, min_rtt, s, ctx)
     | Some pkt \<Rightarrow>
         if transmissions pkt = 0 then count_acked (i + 1) n now (acked_bytes, min_rtt, s, ctx)
         else do {
           cassert (0 \<le> as_int (pkt_payload pkt));
           c \<leftarrow> (if mtu_probe_seq s \<noteq> 0 \<and> sq = mtu_probe_seq s then mtu_probe_acked (s, ctx) else Some (s, ctx));
           count_acked (i + 1) n now (acked_bytes + pkt_payload pkt, sample_rtt now pkt min_rtt, c)
         })"

text \<open>The acked packets leave the window; then those at its start that were acked selectively.\<close>

fun ack_loop :: "nat \<Rightarrow> conn \<Rightarrow> conn option" where
  "ack_loop 0 c = Some c"
| "ack_loop (Suc n) c = do {
     (ack_status, s1, ctx1) \<leftarrow> ack_packet (seq_nr (fst c) - cur_window_packets (fst c)) c;
     if ack_status = 2 then Some (s1, ctx1)
     else ack_loop n (s1\<lparr>cur_window_packets := cur_window_packets s1 - 1\<rparr>, ctx1)
   }"

function trim_window :: "UTPSocket \<Rightarrow> UTPSocket" where
  "trim_window s =
     (if 0 < cur_window_packets s \<and> cb_get (outbuf s) (ucast (seq_nr s) - ucast (cur_window_packets s)) = None
      then trim_window (s\<lparr>cur_window_packets := cur_window_packets s - 1\<rparr>) else s)"
  by pat_completeness auto
termination
  by (relation "measure (\<lambda>s. unat (cur_window_packets s))") (auto simp: unat_gt_0 unat_minus_one word_gt_0)

text \<open>The last packet no longer waits for company.\<close>

definition flush_nagle :: "conn \<Rightarrow> conn option" where
  "flush_nagle = (\<lambda>(s, ctx).
     if cur_window_packets s = 1 then do {
       pkt \<leftarrow> cb_get (outbuf s) (ucast (seq_nr s) - 1);
       if transmissions pkt = 0 then send_packet (ucast (seq_nr s) - 1) (s, ctx) else Some (s, ctx)
     } else Some (s, ctx))"

definition fast_timeout_retry :: "conn \<Rightarrow> conn option" where
  "fast_timeout_retry = (\<lambda>(s, ctx).
     if fast_timeout s then
       if (ucast (seq_nr s) - ucast (cur_window_packets s)) AND ACK_NR_MASK \<noteq> ucast (fast_resend_seq_nr s)
       then Some (s\<lparr>fast_timeout := False\<rparr>, ctx)
       else case cb_get (outbuf s) (ucast (seq_nr s) - ucast (cur_window_packets s)) of
         None \<Rightarrow> Some (s, ctx)
       | Some pkt \<Rightarrow>
           if 0 < transmissions pkt
           then send_packet (ucast (seq_nr s) - ucast (cur_window_packets s))
                  (s\<lparr>fast_resend_seq_nr := fast_resend_seq_nr s + 1\<rparr>, ctx)
           else Some (s, ctx)
     else Some (s, ctx))"

declare trim_window.simps [simp del] selective_ack_bytes_loop.simps [simp del] selective_ack_loop.simps [simp del]

subsection \<open>The invariant while packets are acked\<close>

text \<open>
  The sending invariant without the condition that the oldest slot is filled: between the removal of
  an acked packet and the step of the window it is not.
\<close>

definition out_mid :: "nat \<Rightarrow> UTPSocket \<Rightarrow> bool" where
  "out_mid T s \<longleftrightarrow> cb_ok (outbuf s) \<and> unat (cur_window_packets s) \<le> 2 ^ cb_bits (outbuf s) \<and>
     unat (cur_window_packets s) \<le> OUTGOING_BUFFER_MAX_SIZE \<and>
     (\<forall>p. Some p \<in> set (out_window s) \<longrightarrow> pkt_ok T p) \<and>
     unat (cur_window s) = flight_bytes (out_window s) \<and> out_clean s"

lemma out_ok_mid: "out_ok T s \<longleftrightarrow> out_mid T s \<and> (out_window s \<noteq> [] \<longrightarrow> hd (out_window s) \<noteq> None)"
  by (auto simp: out_ok_def out_mid_def)

text \<open>The fields that the processing of an ack leaves alone.\<close>

definition ak_erase :: "UTPSocket \<Rightarrow> UTPSocket" where
  "ak_erase s = (tx_erase s)\<lparr>cur_window_packets := 0, rtt := 0, rtt_var := 0, rto := 0, rtt_hist := dh_clear 0,
     retransmit_timeout := 0, rto_timeout := 0, retransmit_count := 0, fast_resend_seq_nr := 0,
     fast_timeout := False, duplicate_ack := 0, max_window := 0, slow_start := False, ssthresh := 0,
     last_rwin_decay := 0\<rparr>"

definition ak_frame :: "UTPSocket \<Rightarrow> UTPSocket \<Rightarrow> bool" where
  "ak_frame s s' \<longleftrightarrow> ak_erase s' = ak_erase s"

lemma ak_frame_refl [simp, intro]: "ak_frame s s"
  by (simp add: ak_frame_def)

lemma ak_frame_trans [trans]: "ak_frame a b \<Longrightarrow> ak_frame b c \<Longrightarrow> ak_frame a c"
  by (simp add: ak_frame_def)

lemma tx_frame_ak_frame: "tx_frame s s' \<Longrightarrow> ak_frame s s'"
  by (simp add: ak_frame_def ak_erase_def tx_frame_def)

lemma ak_frame_update [simp]:
  "ak_frame s (s'\<lparr>cur_window := x\<rparr>) = ak_frame s s'" "ak_frame s (s'\<lparr>outbuf := b\<rparr>) = ak_frame s s'"
  "ak_frame s (s'\<lparr>cur_window_packets := c\<rparr>) = ak_frame s s'" "ak_frame s (s'\<lparr>rtt := r\<rparr>) = ak_frame s s'"
  "ak_frame s (s'\<lparr>rtt_var := r\<rparr>) = ak_frame s s'" "ak_frame s (s'\<lparr>rto := r\<rparr>) = ak_frame s s'"
  "ak_frame s (s'\<lparr>rtt_hist := h\<rparr>) = ak_frame s s'" "ak_frame s (s'\<lparr>retransmit_timeout := r\<rparr>) = ak_frame s s'"
  "ak_frame s (s'\<lparr>rto_timeout := t\<rparr>) = ak_frame s s'" "ak_frame s (s'\<lparr>retransmit_count := c\<rparr>) = ak_frame s s'"
  "ak_frame s (s'\<lparr>fast_resend_seq_nr := c\<rparr>) = ak_frame s s'" "ak_frame s (s'\<lparr>fast_timeout := b'\<rparr>) = ak_frame s s'"
  "ak_frame s (s'\<lparr>duplicate_ack := d\<rparr>) = ak_frame s s'" "ak_frame s (s'\<lparr>max_window := x\<rparr>) = ak_frame s s'"
  "ak_frame s (s'\<lparr>slow_start := b'\<rparr>) = ak_frame s s'" "ak_frame s (s'\<lparr>ssthresh := x\<rparr>) = ak_frame s s'"
  "ak_frame s (s'\<lparr>last_rwin_decay := i\<rparr>) = ak_frame s s'"
  "ak_frame s (s'\<lparr>mtu_probe_seq := r\<rparr>) = ak_frame s s'" "ak_frame s (s'\<lparr>mtu_probe_size := r\<rparr>) = ak_frame s s'"
  by (simp_all add: ak_frame_def ak_erase_def tx_erase_def mtu_erase_def)

lemma ak_frame_fields:
  assumes "ak_frame s s'"
  shows "self s' = self s" "addr s' = addr s" "seq_nr s' = seq_nr s" "ack_nr s' = ack_nr s" "state s' = state s"
    "inbuf s' = inbuf s" "reorder_count s' = reorder_count s" "got_fin s' = got_fin s"
    "got_fin_reached s' = got_fin_reached s" "eof_pkt s' = eof_pkt s" "opt_sndbuf s' = opt_sndbuf s"
    "opt_rcvbuf s' = opt_rcvbuf s" "our_hist s' = our_hist s" "their_hist s' = their_hist s"
    "clock_drift s' = clock_drift s" "average_delay s' = average_delay s" "current_delay_sum s' = current_delay_sum s"
    "current_delay_samples s' = current_delay_samples s" "conn_id_recv s' = conn_id_recv s" "conn_id_send s' = conn_id_send s"
    "target_delay s' = target_delay s" "read_shutdown s' = read_shutdown s" "fin_sent s' = fin_sent s"
    "close_requested s' = close_requested s" "max_window_user s' = max_window_user s" "conn_seed s' = conn_seed s"
  using assms by (cases s; cases s'; simp add: ak_frame_def ak_erase_def tx_erase_def mtu_erase_def)+

text \<open>
  What holds before and after each step; \<open>span lo hi\<close>: the clock readings from the oldest packet in
  flight on lie within 35 minutes.
\<close>

definition span :: "nat \<Rightarrow> nat \<Rightarrow> bool" where
  "span lo hi \<longleftrightarrow> hi < lo + (2 ^ 31 - 1) \<and> hi < 2 ^ 63"

definition ack_inv :: "nat \<Rightarrow> nat \<Rightarrow> nat \<Rightarrow> nat \<Rightarrow> conn \<Rightarrow> bool" where
  "ack_inv T L lo hi = (\<lambda>(s, ctx). out_mid T s \<and> mtu_ok L s \<and> unat (rtt s) < 2 ^ 31 \<and> unat (max_window s) < 2 ^ 40 \<and>
     ctx_ok ctx \<and> app_ok L ctx \<and> clock_ok lo hi ctx \<and> times_ok lo ctx s)"

definition ack_step :: "nat \<Rightarrow> nat \<Rightarrow> nat \<Rightarrow> nat \<Rightarrow> conn \<Rightarrow> conn \<Rightarrow> bool" where
  "ack_step T L lo hi = (\<lambda>(s, ctx) (s', ctx'). ak_frame s s' \<and> ctx_frame (self s) ctx ctx' \<and>
     unat (cur_window_packets s') \<le> unat (cur_window_packets s) \<and> ack_inv T L lo hi (s', ctx'))"

lemma ack_step_refl: "ack_inv T L lo hi c \<Longrightarrow> ack_step T L lo hi c c"
  by (cases c) (simp add: ack_step_def)

lemma ack_step_trans: "ack_step T L lo hi a b \<Longrightarrow> ack_step T' L lo hi b c \<Longrightarrow> ack_step T' L lo hi a c"
  using ak_frame_fields(1) [of "fst a" "fst b"]
  by (cases a; cases b; cases c) (auto simp: ack_step_def intro: ak_frame_trans ctx_frame_trans)

lemma ack_stepD: "ack_step T L lo hi c c' \<Longrightarrow> ack_inv T L lo hi c'"
  by (cases c; cases c') (simp add: ack_step_def)

lemma ack_inv_mono:
  assumes "ack_inv T L lo hi c" and "T \<le> T'"
  shows "ack_inv T' L lo hi c"
proof -
  obtain s ctx where c: "c = (s, ctx)" by (cases c)
  have "\<forall>p. Some p \<in> set (out_window s) \<longrightarrow> pkt_ok T' p"
    using assms pkt_ok_mono by (auto simp: ack_inv_def out_mid_def c)
  then show ?thesis using assms by (simp add: ack_inv_def out_mid_def c)
qed

text \<open>A change of the socket that the invariant does not see, after callbacks only.\<close>

lemma times_ok_cong:
  assumes "out_window s' = out_window s"
  shows "times_ok lo ctx s' = times_ok lo ctx s"
  by (simp add: times_ok_def assms)

lemma times_ok_frame: "ctx_frame i ctx ctx' \<Longrightarrow> times_ok lo ctx s \<Longrightarrow> times_ok lo ctx' s"
  using ctx_frame_time(4) by (auto simp: times_ok_def)

lemma out_midD:
  assumes "out_mid T s"
  shows "cb_ok (outbuf s)" "unat (cur_window_packets s) \<le> 2 ^ cb_bits (outbuf s)"
    "unat (cur_window_packets s) \<le> 1024" "\<And>p. Some p \<in> set (out_window s) \<Longrightarrow> pkt_ok T p"
    "unat (cur_window s) = flight_bytes (out_window s)" "out_clean s"
  using assms by (simp_all add: out_mid_def OUTGOING_BUFFER_MAX_SIZE_def)

lemma out_mid_nth:
  "out_mid T s \<Longrightarrow> j < unat (cur_window_packets s) \<Longrightarrow> out_window s ! j = Some p \<Longrightarrow> pkt_ok T p"
  using out_midD(4) nth_mem [of j "out_window s"] by simp

lemma out_mid_cong:
  assumes "seq_nr s' = seq_nr s" "cur_window_packets s' = cur_window_packets s" "outbuf s' = outbuf s"
    "cur_window s' = cur_window s"
  shows "out_mid T s' = out_mid T s"
  using assms out_window_cong [of s' s] out_clean_cong [of s' s] by (simp add: out_mid_def)

lemma out_mid_remove:
  assumes mid: "out_mid T s" and j: "j < unat (cur_window_packets s)" and p: "out_window s ! j = Some p"
    and s': "outbuf s' = cb_put (outbuf s) (out_base s + of_nat j) None" "seq_nr s' = seq_nr s"
      "cur_window_packets s' = cur_window_packets s"
    and cw: "unat (cur_window s') + flight_size (Some p) = unat (cur_window s)"
  shows "out_mid T s'" and "out_window s' = (out_window s)[j := None]"
proof -
  note o = out_midD [OF mid]
  show w: "out_window s' = (out_window s)[j := None]"
    using out_window_put [OF o(1,2) j, of None] s' by (simp add: out_window_cong [of s' "s\<lparr>outbuf := outbuf s'\<rparr>"])
  have "flight_bytes (out_window s') + flight_size (Some p) = flight_bytes (out_window s)"
    using flight_bytes_update [of j "out_window s" None] j p by (simp add: w flight_size_def [of None])
  then have "unat (cur_window s') = flight_bytes (out_window s')" using cw o(5) by simp
  moreover have "\<forall>q. Some q \<in> set (out_window s') \<longrightarrow> pkt_ok T q"
    using o(4) set_update_subset_insert [of "out_window s" j None] unfolding w by auto
  moreover have "out_clean s'" by (rule out_clean_put [OF o(6,1,2) j s'])
  ultimately show "out_mid T s'"
    using o(2,3) s' by (simp add: out_mid_def cb_ok_put o(1) OUTGOING_BUFFER_MAX_SIZE_def)
qed

subsection \<open>Acking one packet\<close>

lemma sint_diff_small:
  fixes a b :: uint32
  assumes "unat a < 2 ^ 31" and "unat b < 2 ^ 31"
  shows "sint (a - b) \<noteq> - (2 ^ 31)"
proof
  assume "sint (a - b) = - (2 ^ 31)"
  then have "a - b = word_of_int (- (2 ^ 31))" by (metis of_int_sint scast_id)
  also have "\<dots> = 2 ^ 31" by simp
  finally have "a = b + 2 ^ 31" by (simp add: algebra_simps)
  then have "unat a = unat b + 2 ^ 31" using assms(2) by (simp add: unat_word_ariths)
  then show False using assms(1) by simp
qed

lemma update_rtt_spec:
  assumes "unat (rtt s) < 2 ^ 31" and "unat ertt < 2 ^ 31"
  shows "wpo (update_rtt ertt ms s) (\<lambda>s'. \<exists>r v t h. s' = s\<lparr>rtt := r, rtt_var := v, rto := t, rtt_hist := h\<rparr> \<and>
           unat r < 2 ^ 31 \<and> (dh_ok (rtt_hist s) \<longrightarrow> dh_ok h))"
proof (cases "rtt s = 0")
  case True
  then have "update_rtt ertt ms s = Some (s\<lparr>rtt := ertt, rtt_var := ertt div 2,
      rto := max (ertt + ertt div 2 * 4) 1000, rtt_hist := rtt_hist s\<rparr>)" by (simp add: update_rtt_def Let_def)
  then show ?thesis unfolding wpo_ex using assms(2) by blast
next
  case False
  have "unat (rtt s - rtt s div 8) = unat (rtt s) - unat (rtt s) div 8"
    by (subst unat_sub) (simp_all add: word_le_nat_alt unat_div)
  moreover have "unat (rtt s - rtt s div 8 + ertt div 8) =
      (unat (rtt s - rtt s div 8) + unat ertt div 8) mod 2 ^ 32" by (simp add: unat_word_ariths unat_div mod_add_right_eq)
  ultimately have "unat (rtt s - rtt s div 8 + ertt div 8) < 2 ^ 31" using assms by simp
  moreover define v where "v = rtt_var s + word_of_int (sint (word_of_int \<bar>sint (rtt s - ertt)\<bar> - rtt_var s) sdiv 4)"
  moreover define t where "t = max (rtt s - rtt s div 8 + ertt div 8 + v * 4) 1000"
  ultimately have "unat (rtt s - rtt s div 8 + ertt div 8) < 2 ^ 31" "update_rtt ertt ms s = Some (s\<lparr>rtt := rtt s - rtt s div 8 + ertt div 8, rtt_var := v, rto := t,
      rtt_hist := dh_add_sample (rtt_hist s) ertt ms\<rparr>)"
    using False sint_diff_small [OF assms] by (simp_all add: update_rtt_def Let_def)
  then show ?thesis unfolding wpo_ex using dh_ok_add_sample by blast
qed

text \<open>How long packet \<open>p\<close> has been under way at time \<open>now\<close>.\<close>

lemma elapsed_bounds:
  assumes "stamped lo ctx p" and "0 < transmissions p" and "clock_ok lo hi ctx" and "span lo hi"
    and "utp_call_get_microseconds ctx a = (now, ctx')"
  shows "time_sent p \<le> now" "unat (now - time_sent p) < 2 ^ 31 - 1" "unat now < 2 ^ 63"
proof -
  note r = microseconds_reading [OF assms(5,3)]
  have lo: "lo \<le> unat (time_sent p)" "time_sent p \<le> reading ctx (length (calls ctx)) a"
    using assms(1,2) by (auto simp: stamped_def)
  then show le: "time_sent p \<le> now" by (simp add: r(4))
  show "unat (now - time_sent p) < 2 ^ 31 - 1"
    using lo(1) r(2) assms(4) unfolding unat_sub [OF le] span_def by auto
  show "unat now < 2 ^ 63" using r(2) assms(4) by (simp add: span_def)
qed

lemma ack_inv_update:
  assumes "ack_inv T L lo hi (s, ctx)" and "trace_ext ctx ctx'" and "out_mid T s'" and "ak_frame s s'"
    and "mtu_ok L s'" and "unat (rtt s') < 2 ^ 31" and "unat (max_window s') < 2 ^ 40"
    and "\<And>p. Some p \<in> set (out_window s') \<Longrightarrow> Some p \<in> set (out_window s)"
    and "unat (cur_window_packets s') \<le> unat (cur_window_packets s)"
  shows "ack_step T L lo hi (s, ctx) (s', ctx')"
proof -
  have fr: "ctx_frame (self s) ctx ctx'" using assms(2) by (rule trace_ext_ctx_frame)
  have "times_ok lo ctx' s'" using assms(1,8) ctx_frame_time(4) [OF fr] by (auto simp: ack_inv_def times_ok_def)
  then show ?thesis
    using assms(1,3-7,9) fr ctx_frame_ok [OF fr] app_ok_frame [OF fr] ctx_frame_time(3) [OF fr]
    by (simp add: ack_step_def ack_inv_def)
qed

lemma ack_packet_rtt:
  assumes inv: "ack_inv T L lo hi (s, ctx)" and sp: "span lo hi" and p: "stamped lo ctx p" "0 < transmissions p"
    and s1: "rtt s1 = rtt s"
  shows "wpo (if transmissions p = 1 then do {
                let (now, ctx1) = utp_call_get_microseconds ctx (Some (self s));
                s2 \<leftarrow> update_rtt (ucast ((now - time_sent p) div 1000)) (current_ms ctx1) s1;
                Some (s2, ctx1)
              } else Some (s1, ctx)) (\<lambda>(s2, ctx2). trace_ext ctx ctx2 \<and>
           (\<exists>r v t h. s2 = s1\<lparr>rtt := r, rtt_var := v, rto := t, rtt_hist := h\<rparr> \<and> unat r < 2 ^ 31))"
proof (cases "transmissions p = 1")
  case True
  obtain now ctx1 where t: "utp_call_get_microseconds ctx (Some (self s)) = (now, ctx1)" by fastforce
  have clk: "clock_ok lo hi ctx" and rtt: "unat (rtt s1) < 2 ^ 31" using inv s1 by (simp_all add: ack_inv_def)
  note el = elapsed_bounds [OF p clk sp t]
  have "unat ((now - time_sent p) div 1000) \<le> unat (now - time_sent p)" by (simp add: unat_div)
  then have small: "unat ((now - time_sent p) div 1000) < 2 ^ 31" using el(2) by simp
  then have "unat (ucast ((now - time_sent p) div 1000) :: uint32) = unat ((now - time_sent p) div 1000)"
    by (intro unat_ucast_small) simp
  with small have e: "unat (ucast ((now - time_sent p) div 1000) :: uint32) < 2 ^ 31" by simp
  show ?thesis
    using True trace_ext_microseconds [OF t]
    by (simp add: t, intro wpo_bindI [OF update_rtt_spec [OF rtt e]]) auto
next
  case False
  have "s1 = s1\<lparr>rtt := rtt s1, rtt_var := rtt_var s1, rto := rto s1, rtt_hist := rtt_hist s1\<rparr>" by simp
  moreover have "unat (rtt s1) < 2 ^ 31" using inv s1 by (simp add: ack_inv_def)
  ultimately show ?thesis using False by (simp only: if_False wpo_Some prod.case trace_ext_refl simp_thms) blast
qed

definition ack_result :: "UTPSocket \<Rightarrow> nat \<Rightarrow> nat \<Rightarrow> UTPSocket \<Rightarrow> bool" where
  "ack_result s j st s' \<longleftrightarrow> seq_nr s' = seq_nr s \<and> cur_window_packets s' = cur_window_packets s \<and>
     (if st = 2 then s' = s \<and> (\<exists>p. out_window s ! j = Some p \<and> transmissions p = 0)
      else out_window s' = (out_window s)[j := None])"

lemma ack_packet_spec:
  assumes inv: "ack_inv T L lo hi (s, ctx)" and sp: "span lo hi" and j: "j < unat (cur_window_packets s)"
    and sq: "sq = seq_nr s - cur_window_packets s + of_nat j"
  shows "wpo (ack_packet sq (s, ctx)) (\<lambda>(st, c'). ack_step T L lo hi (s, ctx) c' \<and> ack_result s j st (fst c'))"
proof -
  have mid: "out_mid T s" and tm: "times_ok lo ctx s" using inv by (simp_all add: ack_inv_def)
  note o = out_midD [OF mid]
  have idx: "(ucast (ucast sq :: size_t) :: uint16) = seq_nr s - cur_window_packets s + of_nat j" using sq by simp
  note slot = out_slot [OF o(1) j idx]
  show ?thesis
  proof (cases "out_window s ! j")
    case None
    then have "(out_window s)[j := None] = out_window s" by (metis list_update_id)
    then show ?thesis using None ack_step_refl [OF inv] by (simp add: ack_packet_def slot(1) ack_result_def)
  next
    case (Some p)
    show ?thesis
    proof (cases "transmissions p = 0")
      case True
      then show ?thesis using Some ack_step_refl [OF inv] by (simp add: ack_packet_def slot(1) ack_result_def)
    next
      case False
      have pk: "pkt_ok T p" by (rule out_mid_nth [OF mid j Some])
      have mem: "Some p \<in> set (out_window s)" using Some j by (metis length_out_window nth_mem)
      then have st: "stamped lo ctx p" using tm by (simp add: times_ok_def)
      define s1 where "s1 = s\<lparr>outbuf := cb_put (outbuf s) (ucast sq) None\<rparr>"
      have fl: "flight_size (Some p) \<le> unat (cur_window s)"
        unfolding o(5) flight_bytes_def using mem by (intro member_le_sum_list) (auto simp: image_iff)
      have fin: "wpo (do {
           let s3 = s2\<lparr>retransmit_timeout := rto s2, rto_timeout := current_ms ctx2 + ucast (rto s2)\<rparr>;
           s4 \<leftarrow>
             (if \<not> need_resend p then do {
                cassert (pkt_payload p \<le> cur_window s3);
                Some (s3\<lparr>cur_window := cur_window s3 - pkt_payload p\<rparr>)
              } else Some s3);
           Some (0 :: nat, (s4\<lparr>retransmit_count := 0\<rparr>, ctx2))
         }) (\<lambda>(st, c'). ack_step T L lo hi (s, ctx) c' \<and> ack_result s j st (fst c'))"
        if tr: "trace_ext ctx ctx2" and s2: "s2 = s1\<lparr>rtt := r, rtt_var := v, rto := t, rtt_hist := h\<rparr>"
          and r: "unat r < 2 ^ 31" for s2 ctx2 r v t h
      proof -
        define cw where "cw = (if need_resend p then cur_window s else cur_window s - pkt_payload p)"
        define s4 where "s4 = s2\<lparr>retransmit_timeout := rto s2, rto_timeout := current_ms ctx2 + ucast (rto s2),
            cur_window := cw, retransmit_count := 0\<rparr>"
        have le: "pkt_payload p \<le> cur_window s" if "\<not> need_resend p"
          using fl that False by (simp add: flight_size_def in_flight_def word_le_nat_alt)
        have cw: "unat (cur_window s4) + flight_size (Some p) = unat (cur_window s)"
          using fl False le by (auto simp: s4_def cw_def flight_size_def in_flight_def unat_sub)
        have s4: "outbuf s4 = cb_put (outbuf s) (out_base s + of_nat j) None" "seq_nr s4 = seq_nr s"
          "cur_window_packets s4 = cur_window_packets s" by (simp_all add: s4_def s2 s1_def slot(2))
        note rm = out_mid_remove [OF mid j Some s4 cw]
        have "ack_step T L lo hi (s, ctx) (s4, ctx2)"
        proof (rule ack_inv_update [OF inv tr rm(1)])
          show "Some q \<in> set (out_window s)" if "Some q \<in> set (out_window s4)" for q
            using that set_update_subset_insert [of "out_window s" j None] by (auto simp: rm(2))
        qed (use inv r in \<open>simp_all add: ack_inv_def s4_def s2 s1_def mtu_ok_def\<close>)
        moreover have "ack_result s j 0 s4" using s4 rm(2) by (simp add: ack_result_def)
        ultimately show ?thesis
          using le by (cases "need_resend p") (simp_all add: Let_def s4_def cw_def s2 s1_def)
      qed
      show ?thesis
        unfolding ack_packet_def prod.case slot(1) Some option.case if_not_P [OF False] s1_def [symmetric] Let_def
        using False fin unfolding Let_def
        by (intro wpo_bindI [OF ack_packet_rtt [OF inv sp st, of s1, unfolded Let_def]]) (auto simp: s1_def)
    qed
  qed
qed

subsection \<open>Acked packets leave the window\<close>

lemma out_base_Suc:
  assumes "0 < unat (cur_window_packets s)"
  shows "out_base (s\<lparr>cur_window_packets := cur_window_packets s - 1\<rparr>) = out_base s + 1"
proof -
  have "ucast (cur_window_packets s - 1) = (ucast (cur_window_packets s) - 1 :: size_t)"
    using assms by (simp add: word_unat_eq_iff unat_ucast_up unat_sub word_le_nat_alt)
  then show ?thesis by (simp add: out_base_def)
qed

lemma out_mid_advance:
  assumes mid: "out_mid T s" and n: "0 < unat (cur_window_packets s)" and hd: "out_window s ! 0 = None"
  defines "s' \<equiv> s\<lparr>cur_window_packets := cur_window_packets s - 1\<rparr>"
  shows "out_mid T s'" and "out_window s' = tl (out_window s)"
    and "unat (cur_window_packets s') = unat (cur_window_packets s) - 1"
proof -
  note o = out_midD [OF mid]
  let ?b = "outbuf s" and ?n = "unat (cur_window_packets s)"
  show n': "unat (cur_window_packets s') = ?n - 1" using n by (simp add: s'_def unat_sub word_le_nat_alt)
  have base: "out_base s' = out_base s + 1" unfolding s'_def using n by (rule out_base_Suc)
  show w: "out_window s' = tl (out_window s)"
    by (rule nth_equalityI) (simp_all add: n' nth_tl out_window_def base, simp add: s'_def algebra_simps)
  have w0: "out_window s = None # tl (out_window s)" using n hd by (cases "out_window s") (auto simp flip: length_out_window)
  have "flight_bytes (out_window s) = flight_bytes (tl (out_window s))"
    by (subst w0) (simp add: flight_bytes_def flight_size_def)
  moreover have "out_clean s'"
    unfolding out_clean_def base n'
  proof (intro allI impI, elim conjE)
    fix j assume j: "?n - 1 \<le> j" "j < 2 ^ cb_bits (outbuf s')"
    have eq: "cb_get (outbuf s') (out_base s + 1 + of_nat j) = cb_get ?b (out_base s + of_nat (Suc j))"
      by (simp add: s'_def algebra_simps)
    show "cb_get (outbuf s') (out_base s + 1 + of_nat j) = None"
    proof (cases "Suc j < 2 ^ cb_bits ?b")
      case True
      moreover have "?n \<le> Suc j" using j(1) by linarith
      ultimately show ?thesis unfolding eq using o(6) unfolding out_clean_def by blast
    next
      case False
      then have "Suc j = 2 ^ cb_bits ?b" using j(2) by (simp add: s'_def)
      then have "cb_get ?b (out_base s + of_nat (Suc j)) = cb_get ?b (out_base s + of_nat 0)"
        by (simp add: cb_get_eq [OF o(1)] unat_add_of_nat_mod [OF cb.bits_le_64 [OF o(1)]] del: of_nat_Suc of_nat_0 of_nat_power)
      also have "\<dots> = None" using hd n by (simp add: out_window_def)
      finally show ?thesis unfolding eq .
    qed
  qed
  moreover have "\<forall>p. Some p \<in> set (out_window s') \<longrightarrow> pkt_ok T p"
    using o(4) w w0 by (metis list.set_intros(2))
  ultimately show "out_mid T s'"
    using o(1-3,5) n' by (simp add: out_mid_def w le_diff_conv) (simp add: s'_def OUTGOING_BUFFER_MAX_SIZE_def)
qed

lemma ack_step_advance:
  assumes inv: "ack_inv T L lo hi (s, ctx)" and n: "0 < unat (cur_window_packets s)" and hd: "out_window s ! 0 = None"
  shows "ack_step T L lo hi (s, ctx) (s\<lparr>cur_window_packets := cur_window_packets s - 1\<rparr>, ctx)"
proof -
  have mid: "out_mid T s" using inv by (simp add: ack_inv_def)
  note a = out_mid_advance [OF mid n hd]
  show ?thesis
  proof (rule ack_inv_update [OF inv _ a(1)])
    show "Some p \<in> set (out_window s)"
      if "Some p \<in> set (out_window (s\<lparr>cur_window_packets := cur_window_packets s - 1\<rparr>))" for p
      using that set_drop_subset [of 1 "out_window s"] unfolding a(2) by (auto simp: drop_Suc)
    show "unat (cur_window_packets (s\<lparr>cur_window_packets := cur_window_packets s - 1\<rparr>)) \<le> unat (cur_window_packets s)"
      using a(3) by linarith
  qed (use inv in \<open>simp_all add: ack_inv_def\<close>)
qed

text \<open>The window from which \<open>n\<close> packets were acked; the loop stops at a packet that was never sent.\<close>

definition acked_prefix :: "nat \<Rightarrow> UTPSocket \<Rightarrow> UTPSocket \<Rightarrow> bool" where
  "acked_prefix n s s' \<longleftrightarrow> (\<exists>k \<le> n. out_window s' = drop k (out_window s) \<and>
     (k < n \<longrightarrow> (\<exists>p. out_window s ! k = Some p \<and> transmissions p = 0)))"

lemma acked_prefix_Suc:
  assumes "acked_prefix n t s'" and w: "out_window t = drop 1 (out_window s)" and n: "Suc n \<le> length (out_window s)"
  shows "acked_prefix (Suc n) s s'"
proof -
  obtain k where k: "k \<le> n" "out_window s' = drop k (out_window t)"
    and p: "k < n \<Longrightarrow> \<exists>p. out_window t ! k = Some p \<and> transmissions p = 0"
    using assms(1) unfolding acked_prefix_def by metis
  have "out_window s ! Suc k = Some q" if "k < n" "out_window t ! k = Some q" for q
    using that n unfolding w by simp
  then have "\<exists>p. out_window s ! Suc k = Some p \<and> transmissions p = 0" if "Suc k < Suc n" using p that by auto
  then show ?thesis unfolding acked_prefix_def using k by (intro exI [of _ "Suc k"]) (simp add: w)
qed

lemma ack_loop_spec:
  assumes "ack_inv T L lo hi (s, ctx)" and "span lo hi" and "n \<le> unat (cur_window_packets s)"
  shows "wpo (ack_loop n (s, ctx)) (\<lambda>c'. ack_step T L lo hi (s, ctx) c' \<and> acked_prefix n s (fst c'))"
  using assms(1,3)
proof (induction n arbitrary: s ctx)
  case 0
  then show ?case using ack_step_refl by (simp add: acked_prefix_def)
next
  case (Suc n)
  let ?c = "unat (cur_window_packets s)"
  have pos: "0 < ?c" using Suc.prems by simp
  have "wpo (ack_packet (seq_nr s - cur_window_packets s) (s, ctx))
      (\<lambda>(st, c'). ack_step T L lo hi (s, ctx) c' \<and> ack_result s 0 st (fst c'))"
    by (rule ack_packet_spec [OF Suc.prems(1) assms(2) pos]) simp
  then show ?case
    unfolding ack_loop.simps fst_conv
  proof (rule wpo_bindI, clarify, goal_cases)
    case (1 st s1 ctx1)
    then have st: "ack_step T L lo hi (s, ctx) (s1, ctx1)" and r: "ack_result s 0 st s1" by simp_all
    show ?case
    proof (cases "st = 2")
      case True
      then have "acked_prefix (Suc n) s s1" using r by (auto simp: ack_result_def acked_prefix_def intro!: exI [of _ 0])
      then show ?thesis using True st by simp
    next
      case False
      have inv1: "ack_inv T L lo hi (s1, ctx1)" using st by (rule ack_stepD)
      have w1: "out_window s1 = (out_window s)[0 := None]" and c1: "cur_window_packets s1 = cur_window_packets s"
        using r False by (simp_all add: ack_result_def)
      let ?s = "s1\<lparr>cur_window_packets := cur_window_packets s1 - 1\<rparr>"
      have hd: "0 < unat (cur_window_packets s1)" "out_window s1 ! 0 = None" using pos by (simp_all add: w1 c1)
      note adv = out_mid_advance(2,3) [OF _ hd, of T]
      have mid1: "out_mid T s1" using inv1 by (simp add: ack_inv_def)
      have step: "ack_step T L lo hi (s, ctx) (?s, ctx1)"
        by (rule ack_step_trans [OF st ack_step_advance [OF inv1 hd]])
      have w: "out_window ?s = drop 1 (out_window s)"
        unfolding adv(1) [OF mid1] w1 using pos by (cases "out_window s") (auto simp flip: length_out_window)
      have "acked_prefix (Suc n) s s'" if "acked_prefix n ?s s'" for s'
        using that w Suc.prems(2) by (intro acked_prefix_Suc) simp_all
      moreover have "wpo (ack_loop n (?s, ctx1)) (\<lambda>c'. ack_step T L lo hi (?s, ctx1) c' \<and> acked_prefix n ?s (fst c'))"
        using step adv(2) [OF mid1] Suc.prems(2) c1 by (intro Suc.IH ack_stepD [OF step]) simp
      ultimately show ?thesis
        using False step by (auto elim!: wpo_mono intro: ack_step_trans)
    qed
  qed
qed

lemma trim_window_spec:
  assumes "ack_inv T L lo hi (s, ctx)"
  shows "ack_step T L lo hi (s, ctx) (trim_window s, ctx) \<and> out_ok T (trim_window s) \<and>
         out_window (trim_window s) = dropWhile (\<lambda>x. x = None) (out_window s)"
  using assms
proof (induction s rule: trim_window.induct)
  case (1 s)
  note inv = 1(2)
  have mid: "out_mid T s" using inv by (simp add: ack_inv_def)
  have get: "cb_get (outbuf s) (ucast (seq_nr s) - ucast (cur_window_packets s)) = out_window s ! 0"
    if "0 < unat (cur_window_packets s)"
    using out_slot(1) [OF out_midD(1) [OF mid] that, of "out_base s"] by (simp add: out_base_def ucast16)
  show ?case
  proof (cases "0 < cur_window_packets s \<and> cb_get (outbuf s) (ucast (seq_nr s) - ucast (cur_window_packets s)) = None")
    case True
    then have n: "0 < unat (cur_window_packets s)" by (simp add: word_less_nat_alt)
    with True have hd: "out_window s ! 0 = None" using get by simp
    let ?s = "s\<lparr>cur_window_packets := cur_window_packets s - 1\<rparr>"
    note step = ack_step_advance [OF inv n hd]
    have "out_window s = None # out_window ?s"
      unfolding out_mid_advance(2) [OF mid n hd] using n hd by (cases "out_window s") (auto simp flip: length_out_window)
    then have "dropWhile (\<lambda>x. x = None) (out_window s) = dropWhile (\<lambda>x. x = None) (out_window ?s)" by simp
    then show ?thesis
      using 1(1) [OF True ack_stepD [OF step]] ack_step_trans [OF step] trim_window.simps [of s] True by simp
  next
    case False
    then have "out_window s \<noteq> [] \<longrightarrow> hd (out_window s) \<noteq> None"
      using get by (cases "out_window s") (auto simp flip: length_out_window simp: word_less_nat_alt)
    moreover from this have "dropWhile (\<lambda>x. x = None) (out_window s) = out_window s"
      by (cases "out_window s") auto
    ultimately show ?thesis
      using False mid ack_step_refl [OF inv] trim_window.simps [of s] by (auto simp: out_ok_mid)
  qed
qed

subsection \<open>Retransmission\<close>

text \<open>A step that keeps the sending invariant.\<close>

definition send_step :: "nat \<Rightarrow> nat \<Rightarrow> nat \<Rightarrow> nat \<Rightarrow> conn \<Rightarrow> conn \<Rightarrow> bool" where
  "send_step T L lo hi c c' \<longleftrightarrow> ack_step T L lo hi c c' \<and> out_ok T (fst c') \<and>
     window_data (out_window (fst c')) = window_data (out_window (fst c))"

lemma send_step_trans: "send_step T L lo hi a b \<Longrightarrow> send_step T' L lo hi b c \<Longrightarrow> send_step T' L lo hi a c"
  unfolding send_step_def using ack_step_trans [of T L lo hi a b T' c] by simp

lemma send_step_refl: "ack_inv T L lo hi (s, ctx) \<Longrightarrow> out_ok T s \<Longrightarrow> send_step T L lo hi (s, ctx) (s, ctx)"
  by (simp add: send_step_def ack_step_refl)

lemma send_step_mono: "send_step T L lo hi c c' \<Longrightarrow> T \<le> T' \<Longrightarrow> send_step T' L lo hi c c'"
  by (cases c; cases c') (auto simp: send_step_def ack_step_def intro: ack_inv_mono out_ok_mono)

lemma tx_step_send_step:
  assumes inv: "ack_inv T L lo hi (s, ctx)" and st: "tx_step T' L (s, ctx) (s', ctx')" and r: "rtt s' = rtt s"
  shows "send_step T' L lo hi (s, ctx) (s', ctx')"
proof -
  have fr: "ctx_frame (self s) ctx ctx'" and tx: "tx_frame s s'" and o: "out_ok T' s'"
    and tm: "times_ok lo ctx' s'" using st inv unfolding tx_step_def ack_inv_def prod.case by blast+
  have "max_window s' = max_window s" using tx_frame_fields(14) [OF tx] .
  then show ?thesis
    using st inv r tm o fr tx_frame_fields(3) [OF tx] ctx_frame_time(3) [OF fr] app_ok_frame [OF fr] tx_frame_ak_frame [OF tx]
    by (simp add: send_step_def ack_step_def ack_inv_def tx_step_def out_ok_mid)
qed

lemma tx_frame_rtt: "tx_frame s s' \<Longrightarrow> rtt s' = rtt s"
  by (cases s; cases s'; simp add: tx_frame_def tx_erase_def mtu_erase_def)

lemma send_packet_step:
  assumes inv: "ack_inv T L lo hi (s, ctx)" and out: "out_ok T s" and T: "T + 1 < 2 ^ 31"
    and p: "cb_get (outbuf s) idx = Some p"
  shows "wpo (send_packet idx (s, ctx)) (send_step (T + 1) L lo hi (s, ctx))"
proof -
  obtain j where j: "j < unat (cur_window_packets s)" "out_window s ! j = Some p"
    "\<And>v. cb_put (outbuf s) idx v = cb_put (outbuf s) (out_base s + of_nat j) v"
    using slot_in_window [OF out p] by blast
  have pk: "pkt_ok T p" by (rule out_ok_nth [OF out j(1,2)])
  have pre: "mtu_ok L s" "ctx_ok ctx" "app_ok L ctx" using inv by (simp_all add: ack_inv_def)
  have "send_step (T + 1) L lo hi (s, ctx) (s', ctx')" if sent: "packet_sent T L (s, ctx) j p (s', ctx')" for s' ctx'
  proof (rule tx_step_send_step [OF inv])
    show st: "tx_step (T + 1) L (s, ctx) (s', ctx')"
      using out_ok_mono [OF out, of "T + 1"] j sent by (intro packet_sent_tx_step) simp_all
    show "rtt s' = rtt s" using st by (intro tx_frame_rtt) (simp add: tx_step_def)
  qed
  then show ?thesis
    using wpo_mono [OF send_packet_slot [OF out pre T j(1) p j(3) pk]] by (metis surj_pair)
qed

lemma ack_inv_hidden [simp]:
  "ack_inv T L lo hi (s\<lparr>fast_timeout := b\<rparr>, ctx) = ack_inv T L lo hi (s, ctx)"
  "ack_inv T L lo hi (s\<lparr>fast_resend_seq_nr := q\<rparr>, ctx) = ack_inv T L lo hi (s, ctx)"
  "ack_inv T L lo hi (s\<lparr>duplicate_ack := d\<rparr>, ctx) = ack_inv T L lo hi (s, ctx)"
  by (simp_all add: ack_inv_def out_mid_def mtu_ok_def times_ok_def out_window_def out_base_def out_clean_def)

lemma out_window_hidden [simp]:
  "out_window (s\<lparr>fast_timeout := b\<rparr>) = out_window s" "out_window (s\<lparr>fast_resend_seq_nr := q\<rparr>) = out_window s"
  "out_window (s\<lparr>duplicate_ack := d\<rparr>) = out_window s"
  by (simp_all add: out_window_def out_base_def)

lemma out_ok_hidden [simp]:
  "out_ok T (s\<lparr>fast_timeout := b\<rparr>) = out_ok T s" "out_ok T (s\<lparr>fast_resend_seq_nr := q\<rparr>) = out_ok T s"
  "out_ok T (s\<lparr>duplicate_ack := d\<rparr>) = out_ok T s"
  by (simp_all add: out_ok_def out_window_def out_base_def out_clean_def)

lemma send_step_hidden [simp]:
  "send_step T L lo hi c (s\<lparr>fast_timeout := b\<rparr>, ctx) = send_step T L lo hi c (s, ctx)"
  "send_step T L lo hi c (s\<lparr>fast_resend_seq_nr := q\<rparr>, ctx) = send_step T L lo hi c (s, ctx)"
  "send_step T L lo hi c (s\<lparr>duplicate_ack := d\<rparr>, ctx) = send_step T L lo hi c (s, ctx)"
  by (cases c; simp add: send_step_def ack_step_def)+

lemma send_stepD:
  assumes "send_step T L lo hi c (s', ctx')"
  shows "ack_inv T L lo hi (s', ctx')" "out_ok T s'"
  using assms by (auto simp: send_step_def dest: ack_stepD)

lemma out_base_slot:
  assumes "out_ok T s" and "0 < unat (cur_window_packets s)"
  shows "cb_get (outbuf s) (ucast (seq_nr s) - ucast (cur_window_packets s)) = out_window s ! 0"
  using out_slot(1) [OF out_okD(1) [OF assms(1)] assms(2), of "out_base s"] by (simp add: out_base_def ucast16)

lemma flush_nagle_spec:
  assumes inv: "ack_inv T L lo hi (s, ctx)" and out: "out_ok T s" and T: "T + 1 < 2 ^ 31"
  shows "wpo (flush_nagle (s, ctx)) (send_step (T + 1) L lo hi (s, ctx))"
proof -
  have stay: "send_step (T + 1) L lo hi (s, ctx) (s, ctx)"
    using send_step_mono [OF send_step_refl [OF inv out]] by simp
  show ?thesis
  proof (cases "cur_window_packets s = 1")
    case True
    then have "out_window s ! 0 \<noteq> None"
      using out length_out_window [of s] by (cases "out_window s") (auto simp: out_ok_def)
    then obtain p where p: "cb_get (outbuf s) (ucast (seq_nr s) - 1) = Some p"
      using out_base_slot [OF out] True by auto
    then show ?thesis using True stay send_packet_step [OF inv out T p] by (simp add: flush_nagle_def)
  qed (use stay in \<open>simp add: flush_nagle_def\<close>)
qed

lemma fast_timeout_retry_spec:
  assumes inv: "ack_inv T L lo hi (s, ctx)" and out: "out_ok T s" and T: "T + 1 < 2 ^ 31"
  shows "wpo (fast_timeout_retry (s, ctx)) (send_step (T + 1) L lo hi (s, ctx))"
proof -
  have stay: "send_step (T + 1) L lo hi (s, ctx) (s, ctx)"
    using send_step_mono [OF send_step_refl [OF inv out]] by simp
  let ?s = "s\<lparr>fast_resend_seq_nr := fast_resend_seq_nr s + 1\<rparr>"
  have "wpo (send_packet idx (?s, ctx)) (send_step (T + 1) L lo hi (s, ctx))" if "cb_get (outbuf s) idx = Some p" for idx p
    using wpo_mono [OF send_packet_step [of T L lo hi ?s ctx idx p]] send_step_trans [of "T + 1" L lo hi "(s, ctx)" "(?s, ctx)" "T + 1"]
      that inv out T stay by simp
  then show ?thesis using stay by (simp add: fast_timeout_retry_def split: option.splits)
qed

lemma maybe_decay_win_step:
  assumes inv: "ack_inv T L lo hi (s, ctx)" and out: "out_ok T s"
  shows "wpo (maybe_decay_win ms s) (\<lambda>s'. send_step T L lo hi (s, ctx) (s', ctx))"
proof -
  have small: "unat (max_window s) < 2 ^ 40" using inv by (simp add: ack_inv_def)
  have "unat (max_window s) div 2 < 2 ^ 40" by (rule order_le_less_trans [OF div_le_dividend small])
  then have "unat (max 10 (max_window s div 2)) < 2 ^ 40" by (simp add: max_def unat_div)
  moreover have "maybe_decay_win ms s = Some (if can_decay_win (sint ms) s
      then s\<lparr>max_window := max 10 (max_window s div 2), last_rwin_decay := sint ms, slow_start := False,
           ssthresh := max 10 (max_window s div 2)\<rparr> else s)"
    using small by (simp add: maybe_decay_win_def MIN_WINDOW_SIZE_def decayed_window max_def Let_def not_le)
  moreover have "out_window (s\<lparr>max_window := x, last_rwin_decay := i, slow_start := b, ssthresh := x\<rparr>) = out_window s" for x i b
    by (simp add: out_window_def out_base_def)
  ultimately show ?thesis
    using inv out by (simp add: send_step_def ack_step_def ack_inv_def out_mid_def out_ok_def mtu_ok_def times_ok_def out_clean_def out_base_def)
qed

lemma resend_loop_spec:
  assumes "ack_inv T L lo hi (s, ctx)" and "out_ok T s" and "T + (4 - i) < 2 ^ 31" and "i < 4"
  shows "wpo (resend_loop vs i b (s, ctx)) (\<lambda>(_, c'). send_step (T + (4 - i)) L lo hi (s, ctx) c')"
  using assms
proof (induction vs arbitrary: T i b s ctx)
  case Nil
  then show ?case using send_step_mono [OF send_step_refl] by simp
next
  case (Cons v vs)
  let ?ctx = "utp_log UTP_LOG_NORMAL (Some (self s)) ctx"
  note inv = Cons.prems(1) and out = Cons.prems(2) and T = Cons.prems(3) and i = Cons.prems(4)
  show ?case
  proof (cases "cb_get (outbuf s) (ucast v)")
    case None
    then show ?thesis using Cons.IH [OF inv out T i] by simp
  next
    case (Some p)
    have log: "send_step T L lo hi (s, ctx) (s, ?ctx)"
      unfolding send_step_def using ack_inv_update [OF inv trace_ext_log, of s] inv out by (simp add: ack_inv_def)
    have "wpo (send_packet (ucast v) (s, ?ctx)) (send_step (T + 1) L lo hi (s, ?ctx))"
      using T i by (intro send_packet_step [OF send_stepD(1) [OF log] out _ Some]) simp
    then show ?thesis
      unfolding resend_loop.simps Some option.case
    proof (rule wpo_bindI, clarify, goal_cases)
      case (1 s1 ctx1)
      define c where "c = (s1\<lparr>fast_resend_seq_nr := ucast ((v + 1) AND ACK_NR_MASK)\<rparr>, ctx1)"
      have c: "send_step (T + 1) L lo hi (s, ctx) c" unfolding c_def using send_step_trans [OF log 1(1)] by simp
      have loop: "wpo (resend_loop vs (i + 1) True c) (\<lambda>(_, c'). send_step (T + 1 + (4 - (i + 1))) L lo hi c c')"
        if "i + 1 < 4"
        using that T send_stepD [OF 1(1)] unfolding c_def
        by (intro Cons.IH) simp_all
      have eq: "T + 1 + (4 - (i + 1)) = T + (4 - i)" using i by simp
      have rest: "wpo (resend_loop vs (i + 1) True c) (\<lambda>(_, c'). send_step (T + (4 - i)) L lo hi (s, ctx) c')"
        if "i + 1 < 4"
        by (intro wpo_mono [OF loop [OF that, unfolded eq]]) (clarify, erule send_step_trans [OF c])
      show ?case
        using rest i send_step_mono [OF c, of "T + (4 - i)"] by (simp add: Let_def flip: c_def)
    qed
  qed
qed

subsection \<open>Selective acks\<close>

lemma ucast_32_64_16 [simp]: "(ucast (ucast (x :: uint32) :: size_t) :: uint16) = ucast x"
  by (rule bit_eqI) (auto simp: bit_simps)

lemma ucast16_add32: "(ucast (x + y :: uint32) :: uint16) = ucast x + ucast y"
  using ucast16_diff32 [of x "- y"] ucast16_diff32 [of 0 y] by simp

lemma ucast16_of_nat32 [simp]: "(ucast (of_nat n :: uint32) :: uint16) = of_nat n"
  by (rule bit_eqI) (auto simp: bit_simps)

lemma outside_window_index:
  assumes "\<not> outside_window v s" and n: "0 < unat (cur_window_packets s)"
  obtains j where "0 < j" "j < unat (cur_window_packets s)"
    "(ucast v :: uint16) = seq_nr s - cur_window_packets s + of_nat j"
proof -
  let ?c = "cur_window_packets s"
  define d where "d = seq_nr s - ucast v - 1"
  have "(ucast (seq_nr s) - v - 1 :: uint32) AND ACK_NR_MASK = ucast d"
    by (simp add: mask16 ucast16_diff32 d_def)
  then have "(ucast d :: uint32) < ucast (?c - 1)" using assms(1) by (simp add: outside_window_def not_le)
  then have "unat d < unat (?c - 1)" by (simp add: word_less_nat_alt unat_ucast_up)
  moreover have c1: "unat (?c - 1) = unat ?c - 1" using n by (simp add: unat_sub word_le_nat_alt)
  ultimately have d: "unat d < unat ?c - 1" by simp
  have "of_nat (unat ?c - 1 - unat d) = ?c - 1 - d" using d n by (simp add: of_nat_diff)
  then have "ucast v = seq_nr s - ?c + of_nat (unat ?c - 1 - unat d)" by (simp add: d_def)
  then show thesis using that [of "unat ?c - 1 - unat d"] d by simp
qed

lemma mask_bit_eq: "nat bits div 8 < length m \<Longrightarrow> mask_bit m bits = Some (0 \<le> bits \<and> bit (m ! (nat bits div 8)) (nat bits mod 8))"
  by (simp add: mask_bit_def mask_byte_def)

text \<open>The sent packets at the positions \<open>P\<close> leave the window.\<close>

definition strike :: "(nat \<Rightarrow> bool) \<Rightarrow> OutgoingPacket option list \<Rightarrow> OutgoingPacket option list" where
  "strike P w = map (\<lambda>j. case w ! j of None \<Rightarrow> None
     | Some p \<Rightarrow> if P j \<and> 0 < transmissions p then None else Some p) [0..<length w]"

lemma length_strike [simp]: "length (strike P w) = length w"
  by (simp add: strike_def)

lemma nth_strike: "j < length w \<Longrightarrow> strike P w ! j = (case w ! j of None \<Rightarrow> None
     | Some p \<Rightarrow> if P j \<and> 0 < transmissions p then None else Some p)"
  by (simp add: strike_def split: option.split)

lemma strike_strike: "strike P (strike Q w) = strike (\<lambda>j. P j \<or> Q j) w"
  by (rule nth_equalityI) (auto simp: nth_strike split: option.splits)

lemma strike_cong: "(\<And>j. j < length w \<Longrightarrow> P j = Q j) \<Longrightarrow> strike P w = strike Q w"
  by (rule nth_equalityI) (auto simp: nth_strike split: option.splits)

lemma strike_none:
  assumes "\<And>j p. j < length w \<Longrightarrow> P j \<Longrightarrow> w ! j = Some p \<Longrightarrow> transmissions p = 0"
  shows "strike P w = w"
  using assms by (intro nth_equalityI) (auto simp: nth_strike split: option.splits)

lemma strike_one:
  assumes "j < length w" and "P j" and "\<And>i. i < length w \<Longrightarrow> P i \<Longrightarrow> i = j" and "w ! j = Some p" and "0 < transmissions p"
  shows "strike P w = w[j := None]"
proof (rule nth_equalityI)
  fix i assume "i < length (strike P w)"
  then have i: "i < length w" by simp
  show "strike P w ! i = w[j := None] ! i"
  proof (cases "i = j")
    case False
    then have "\<not> P i" using assms(3) i by blast
    then show ?thesis using False i by (simp add: nth_strike split: option.split)
  qed (use assms(1,2,4,5) i in \<open>simp add: nth_strike\<close>)
qed simp

text \<open>Bit \<open>bits\<close> of the mask reports packet \<open>j\<close> of the window, which is not the oldest, as received.\<close>

definition bit_marks :: "uint32 \<Rightarrow> byte list \<Rightarrow> int \<Rightarrow> UTPSocket \<Rightarrow> nat \<Rightarrow> bool" where
  "bit_marks base m bits s j \<longleftrightarrow> 0 \<le> bits \<and> bit (m ! (nat bits div 8)) (nat bits mod 8) \<and> 0 < j \<and>
     (ucast (base + word_of_int bits) :: uint16) = seq_nr s - cur_window_packets s + of_nat j"

definition sack_marks :: "uint32 \<Rightarrow> byte list \<Rightarrow> nat \<Rightarrow> UTPSocket \<Rightarrow> nat \<Rightarrow> bool" where
  "sack_marks base m n s j \<longleftrightarrow> (\<exists>b < n. bit_marks base m (int b) s j)"

definition sack_pre :: "nat \<Rightarrow> nat \<Rightarrow> nat \<Rightarrow> nat \<Rightarrow> nat \<times> uint32 list \<times> conn \<Rightarrow> bool" where
  "sack_pre T L lo hi = (\<lambda>(count, resends, s, ctx). ack_inv T L lo hi (s, ctx) \<and> out_ok T s \<and>
     0 < unat (cur_window_packets s) \<and> length resends \<le> 126)"

definition sack_post ::
    "nat \<Rightarrow> nat \<Rightarrow> nat \<Rightarrow> nat \<Rightarrow> (nat \<Rightarrow> bool) \<Rightarrow> nat \<times> uint32 list \<times> conn \<Rightarrow> nat \<times> uint32 list \<times> conn \<Rightarrow> bool" where
  "sack_post T L lo hi P = (\<lambda>(_, _, s, ctx) (count', resends', s', ctx'). ack_step T L lo hi (s, ctx) (s', ctx') \<and> out_ok T s' \<and>
     seq_nr s' = seq_nr s \<and> cur_window_packets s' = cur_window_packets s \<and> length resends' \<le> 126 \<and>
     out_window s' = strike P (out_window s))"

lemma window_index_inj:
  assumes "(x :: uint16) + of_nat i = x + of_nat j" and "i < 2 ^ 16" and "j < 2 ^ 16"
  shows "i = j"
proof -
  have "unat (of_nat i :: uint16) = i" "unat (of_nat j :: uint16) = j"
    using assms(2,3) by (intro unat_of_nat_small; simp)+
  moreover have "(of_nat i :: uint16) = of_nat j" using assms(1) by simp
  ultimately show ?thesis by metis
qed

lemma inside_window:
  assumes "0 < j" and "j < unat (cur_window_packets s)" and "(ucast v :: uint16) = seq_nr s - cur_window_packets s + of_nat j"
  shows "\<not> outside_window v s"
proof -
  let ?c = "cur_window_packets s"
  define d where "d = seq_nr s - ucast v - 1"
  have "d = ?c - 1 - of_nat j" unfolding d_def assms(3) by simp
  also have "\<dots> = of_nat (unat ?c - 1 - j)" using assms(1,2) by (simp add: of_nat_diff)
  finally have d: "unat d = unat ?c - 1 - j"
    using unat_less_pow [of ?c] by (simp only:, intro unat_of_nat_small) simp
  have "unat (?c - 1) = unat ?c - 1" using assms(2) by (simp add: unat_sub word_le_nat_alt)
  then have "(ucast d :: uint32) < ucast (?c - 1)" using d assms(1,2) by (simp add: word_less_nat_alt unat_ucast_up)
  moreover have "(ucast (seq_nr s) - v - 1 :: uint32) AND ACK_NR_MASK = ucast d"
    by (simp add: mask16 ucast16_diff32 d_def)
  ultimately show ?thesis by (simp add: outside_window_def)
qed

lemma slot_not_oldest:
  assumes "out_ok T s" and "0 < j" and "j < unat (cur_window_packets s)"
    and "(ucast i :: uint16) = seq_nr s - cur_window_packets s + of_nat j"
  shows "i AND cb_mask (outbuf s) \<noteq> out_base s AND cb_mask (outbuf s)"
proof
  note o = out_okD [OF assms(1)]
  let ?k = "cb_bits (outbuf s)"
  assume "i AND cb_mask (outbuf s) = out_base s AND cb_mask (outbuf s)"
  from arg_cong [OF this, of unat] have "unat i mod 2 ^ ?k = unat (out_base s + of_nat 0) mod 2 ^ ?k"
    by (simp add: cb_slot [OF o(1)])
  moreover have "unat i mod 2 ^ ?k = unat (out_base s + of_nat j) mod 2 ^ ?k"
    using assms(4) by (intro slot_eq [OF o(1)]) (simp add: out_base_def ucast16)
  ultimately have "j = 0"
    using mod_pow2_add_inj [OF cb.bits_le_64 [OF o(1)], of j 0 "out_base s"] assms(3) o(2) by simp
  then show False using assms(2) by simp
qed

lemma selective_ack_bit_spec:
  assumes pre: "sack_pre T L lo hi (count, resends, s, ctx)" and sp: "span lo hi" and m: "nat bits div 8 < length m"
  shows "wpo (selective_ack_bit base m bits (count, resends, s, ctx))
           (sack_post T L lo hi (bit_marks base m bits s) (count, resends, s, ctx))"
proof -
  let ?v = "base + word_of_int bits" and ?n = "unat (cur_window_packets s)" and ?P = "bit_marks base m bits s"
  have inv: "ack_inv T L lo hi (s, ctx)" and out: "out_ok T s" and n: "0 < ?n" and r: "length resends \<le> 126"
    using pre by (simp_all add: sack_pre_def)
  note o = out_okD [OF out]
  have keep: "sack_post T L lo hi ?P (count, resends, s, ctx) (count', resends', s, ctx)"
    if "length resends' \<le> 126" "strike ?P (out_window s) = out_window s" for count' resends'
    using that ack_step_refl [OF inv] out by (simp add: sack_post_def)
  show ?thesis
  proof (cases "outside_window ?v s")
    case True
    then have "\<not> ?P j" if "j < ?n" for j using inside_window [OF _ that] by (auto simp: bit_marks_def)
    then have "strike ?P (out_window s) = out_window s" by (intro strike_none) auto
    then show ?thesis using True keep r by (simp add: selective_ack_bit_def Let_def)
  next
    case False
    then obtain j where j: "0 < j" "j < ?n" "(ucast ?v :: uint16) = seq_nr s - cur_window_packets s + of_nat j"
      using outside_window_index n by blast
    let ?bit = "0 \<le> bits \<and> bit (m ! (nat bits div 8)) (nat bits mod 8)"
    have P: "?P i \<longleftrightarrow> ?bit \<and> i = j" if "i < ?n" for i
      using j that o(3) window_index_inj [of "seq_nr s - cur_window_packets s" i j] by (auto simp: bit_marks_def)
    have idx: "(ucast (ucast ?v :: size_t) :: uint16) = seq_nr s - cur_window_packets s + of_nat j"
      using j(3) by simp
    note slot = out_slot(1) [OF o(1) j(2) idx]
    show ?thesis
    proof (cases "\<exists>p. out_window s ! j = Some p \<and> 0 < transmissions p")
      case unsent: False
      then have "strike ?P (out_window s) = out_window s" using P by (intro strike_none) auto
      then show ?thesis
        using False unsent r keep mask_bit_eq [OF m]
        by (auto simp: selective_ack_bit_def Let_def slot split: option.splits)
    next
      case True
      then obtain p where p: "out_window s ! j = Some p" "0 < transmissions p" by blast
      show ?thesis
      proof (cases ?bit)
        case False': False
        then have same: "strike ?P (out_window s) = out_window s" using P by (intro strike_none) auto
        have "length (if MAX_EACK - 2 \<le> length resends then drop (MAX_EACK div 2) resends else resends) < 126"
          using r by (simp add: MAX_EACK_def)
        moreover have "mask_bit m bits = Some False" using False' mask_bit_eq [OF m] by auto
        ultimately show ?thesis
          using False p r keep [OF _ same]
          by (simp add: selective_ack_bit_def Let_def slot push_resend_def MAX_EACK_def)
      next
        case bit: True
        have ne: "ucast ?v AND cb_mask (outbuf s) \<noteq>
            (ucast (seq_nr s) - ucast (cur_window_packets s)) AND cb_mask (outbuf s)"
          using slot_not_oldest [OF out j(1,2) idx] by (simp add: out_base_def)
        have "wpo (ack_packet (ucast ?v) (s, ctx)) (\<lambda>(st, c'). ack_step T L lo hi (s, ctx) c' \<and> ack_result s j st (fst c'))"
          by (rule ack_packet_spec [OF inv sp j(2,3)])
        moreover have "sack_post T L lo hi ?P (count, resends, s, ctx) (count + 1, resends, s', ctx')"
          if "ack_step T L lo hi (s, ctx) (s', ctx')" "ack_result s j st s'" for st s' ctx'
        proof -
          have w: "out_window s' = strike ?P (out_window s)"
            using that(2) p j(2) P bit by (subst strike_one [of j]) (auto simp: ack_result_def split: if_splits)
          have "out_window s' \<noteq> [] \<longrightarrow> hd (out_window s') \<noteq> None"
            using out j(1) that(2) by (cases "out_window s"; cases j) (auto simp: out_ok_mid ack_result_def split: if_splits)
          then have "out_ok T s'" using that(1) by (simp add: out_ok_mid ack_step_def ack_inv_def)
          then show ?thesis using that r w by (simp add: sack_post_def ack_result_def)
        qed
        ultimately show ?thesis
          using False p bit ne mask_bit_eq [OF m]
          by (simp add: selective_ack_bit_def Let_def slot) (erule wpo_bindI, clarsimp)
      qed
    qed
  qed
qed

lemma bit_marks_cong:
  "seq_nr s' = seq_nr s \<Longrightarrow> cur_window_packets s' = cur_window_packets s \<Longrightarrow> bit_marks base m bits s' = bit_marks base m bits s"
  by (auto simp: bit_marks_def fun_eq_iff)

lemma sack_post_trans:
  assumes "sack_post T L lo hi P a b" and "sack_post T L lo hi Q b c"
  shows "sack_post T L lo hi (\<lambda>j. Q j \<or> P j) a c"
  using assms ack_step_trans [of T L lo hi] by (cases a; cases b; cases c) (auto simp: sack_post_def strike_strike)

lemma sack_post_pre:
  assumes "sack_pre T L lo hi a" and "sack_post T L lo hi P a b"
  shows "sack_pre T L lo hi b"
  using assms by (cases a; cases b) (auto simp: sack_pre_def sack_post_def dest: ack_stepD)

text \<open>The loop goes through the bits \<open>n - 1\<close> to \<open>0\<close>; bit \<open>-1\<close> is never set.\<close>

lemma selective_ack_loop_spec:
  assumes "sack_pre T L lo hi (count, resends, s, ctx)" and "span lo hi" and "n \<le> 8 * length m" and "m \<noteq> []"
  shows "wpo (selective_ack_loop n base m (count, resends, s, ctx))
           (sack_post T L lo hi (sack_marks base m n s) (count, resends, s, ctx))"
  using assms(1,3)
proof (induction n arbitrary: count resends s ctx)
  case 0
  have "bit_marks base m (- 1) s = sack_marks base m 0 s" by (auto simp: bit_marks_def sack_marks_def fun_eq_iff)
  then show ?case
    using selective_ack_bit_spec [OF 0(1) assms(2), of "- 1" m base] assms(4)
    by (subst selective_ack_loop.simps) (auto elim!: wpo_bindI)
next
  case (Suc n)
  have "wpo (selective_ack_bit base m (int n) (count, resends, s, ctx))
      (sack_post T L lo hi (bit_marks base m (int n) s) (count, resends, s, ctx))"
    using Suc.prems assms(2) by (intro selective_ack_bit_spec) simp_all
  then show ?case
  proof (subst selective_ack_loop.simps, simp, elim wpo_bindI, goal_cases)
    case (1 acc)
    obtain count1 resends1 s1 ctx1 where acc: "acc = (count1, resends1, s1, ctx1)" by (cases acc)
    have sq: "seq_nr s1 = seq_nr s" "cur_window_packets s1 = cur_window_packets s"
      using 1(2) by (simp_all add: acc sack_post_def)
    have "sack_marks base m n s1 = sack_marks base m n s"
      by (simp add: sack_marks_def fun_eq_iff bit_marks_cong [OF sq])
    then have IH: "wpo (selective_ack_loop n base m acc) (sack_post T L lo hi (sack_marks base m n s) acc)"
      using Suc.IH [of count1 resends1 s1 ctx1] sack_post_pre [OF Suc.prems(1) 1(2)] Suc.prems(2) by (simp add: acc)
    have "sack_marks base m (Suc n) s = (\<lambda>j. sack_marks base m n s j \<or> bit_marks base m (int n) s j)"
      by (auto simp: sack_marks_def fun_eq_iff less_Suc_eq)
    then show ?case using IH sack_post_trans [OF 1(2)] by (auto elim!: wpo_mono)
  qed
qed

lemma selective_ack_spec:
  assumes inv: "ack_inv T L lo hi (s, ctx)" and out: "out_ok T s" and sp: "span lo hi" and T: "T + 4 < 2 ^ 31"
    and m: "unat len \<le> length m" "m \<noteq> []"
  shows "wpo (selective_ack base m len (s, ctx)) (\<lambda>(s', ctx').
     ack_step (T + 4) L lo hi (s, ctx) (s', ctx') \<and> out_ok (T + 4) s' \<and>
     window_data (out_window s') = window_data (strike (sack_marks base m (8 * unat len) s) (out_window s)))"
proof (cases "cur_window_packets s = 0")
  case True
  then have "out_window s = []" by (simp add: out_window_def)
  then show ?thesis
    using True out_ok_mono [OF out, of "T + 4"] ack_step_refl [OF ack_inv_mono [OF inv, of "T + 4"]]
    by (simp add: selective_ack_def strike_def)
next
  case False
  let ?P = "sack_marks base m (8 * unat len) s"
  have "0 < unat (cur_window_packets s)" using False by (simp add: unat_gt_0)
  then have "wpo (selective_ack_loop (unat len * 8) base m (0, [], s, ctx)) (sack_post T L lo hi ?P (0, [], s, ctx))"
    using selective_ack_loop_spec [of T L lo hi 0 "[]" s ctx "unat len * 8" m base] inv out sp m
    by (simp add: sack_pre_def mult.commute)
  then show ?thesis
    unfolding selective_ack_def prod.case if_not_P [OF False]
  proof (rule wpo_bindI, clarify, goal_cases)
    case (1 count resends s1 ctx1)
    have s1: "ack_step T L lo hi (s, ctx) (s1, ctx1)" "out_ok T s1" "length resends \<le> 126"
      "out_window s1 = strike ?P (out_window s)" using 1(1) by (simp_all add: sack_post_def)
    obtain vs where vs: "(if may_fast_resend (base - 1) count s1
        then push_resend ((base - 1) AND ACK_NR_MASK) resends else Some resends) = Some vs"
      using s1(3) by (cases "may_fast_resend (base - 1) count s1") (simp_all add: push_resend_def MAX_EACK_def)
    have "wpo (resend_loop (rev vs) 0 False (s1, ctx1)) (\<lambda>(_, c'). send_step (T + 4) L lo hi (s1, ctx1) c')"
      using resend_loop_spec [OF ack_stepD [OF s1(1)] s1(2), of 0 "rev vs" False] T by simp
    then show ?case
      unfolding vs Option.bind.bind_lunit
    proof (rule wpo_bindI, clarify, goal_cases)
      case (1 back_off s2 ctx2)
      have s2: "send_step (T + 4) L lo hi (s1, ctx1) (s2, ctx2)" using 1(1) .
      have "wpo (if back_off then maybe_decay_win (current_ms ctx2) s2 else Some s2)
          (\<lambda>s3. send_step (T + 4) L lo hi (s2, ctx2) (s3, ctx2))"
        using maybe_decay_win_step [OF send_stepD [OF s2]] send_step_refl [OF send_stepD [OF s2]] by simp
      then show ?case
      proof (rule wpo_bindI, goal_cases)
        case (1 s3)
        have "send_step (T + 4) L lo hi (s1, ctx1) (s3\<lparr>duplicate_ack := of_nat count\<rparr>, ctx2)"
          using send_step_trans [OF s2 1] by simp
        then show ?case using s1(1,4) ack_step_trans [OF s1(1)] by (simp add: send_step_def)
      qed
    qed
  qed
qed

subsection \<open>Counting the acked bytes\<close>

text \<open>
  The bytes counted so far, in at most \<open>k\<close> packets, and the smallest round trip time, which is known
  when bytes were counted and at most \<open>R\<close>.
\<close>

definition acked_ok :: "int \<Rightarrow> nat \<Rightarrow> size_t \<Rightarrow> int \<Rightarrow> bool" where
  "acked_ok R k b r \<longleftrightarrow> unat b \<le> k * 2 ^ 16 \<and> 0 \<le> r \<and> r \<le> R \<and> (0 < b \<longrightarrow> r < INT_MAX)"

lemma sample_rtt_bounds:
  assumes "stamped lo ctx p" and "0 < transmissions p" and "clock_ok lo hi ctx" and "span lo hi"
    and "utp_call_get_microseconds ctx a = (now, ctx')" and "0 \<le> r"
  shows "0 \<le> sample_rtt now p r" "sample_rtt now p r < INT_MAX" "sample_rtt now p r \<le> r"
proof -
  note el = elapsed_bounds [OF assms(1-5)]
  have "int (unat (now - time_sent p)) < int (2 ^ 31 - 1)" using el(2) by (simp only: of_nat_less_iff)
  then have "uint (now - time_sent p) < 2 ^ 31 - 1" unfolding uint_nat by simp
  moreover from this have "sint (now - time_sent p) = uint (now - time_sent p)"
    unfolding sint_uint using uint_ge_0 [of "now - time_sent p"]
    by (intro signed_take_bit_int_eq_self) (simp_all del: uint_ge_0 unsigned_greater_eq)
  ultimately show "0 \<le> sample_rtt now p r" "sample_rtt now p r < INT_MAX" "sample_rtt now p r \<le> r"
    using assms(6) by (auto simp: sample_rtt_def INT_MAX_def)
qed

lemma acked_ok_add:
  assumes "acked_ok R k b r" and "pkt_ok T p" and "k < 2 ^ 20" and "0 \<le> r'" and "r' < INT_MAX" and "r' \<le> r"
  shows "acked_ok R (Suc k) (b + pkt_payload p) r'" and "0 \<le> as_int (pkt_payload p)"
proof -
  have p: "unat (pkt_payload p) < 2 ^ 16" using assms(2) by (simp add: pkt_ok_def)
  then show "0 \<le> as_int (pkt_payload p)" by (subst as_int_small) simp_all
  have "unat b \<le> k * 2 ^ 16" using assms(1) by (simp add: acked_ok_def)
  moreover have "unat (b + pkt_payload p) \<le> unat b + unat (pkt_payload p)"
    unfolding unat_word_ariths by (rule mod_less_eq_dividend)
  ultimately have "unat (b + pkt_payload p) \<le> Suc k * 2 ^ 16" using p by simp
  then show "acked_ok R (Suc k) (b + pkt_payload p) r'" using assms(1,4-6) by (simp add: acked_ok_def)
qed

lemma acked_ok_mono: "acked_ok R k b r \<Longrightarrow> k \<le> k' \<Longrightarrow> acked_ok R k' b r"
  by (auto simp: acked_ok_def)

lemma selective_ack_bytes_bit_spec:
  assumes inv: "ack_inv T L lo hi (s, ctx)" and sp: "span lo hi" and t: "utp_call_get_microseconds ctx a = (now, ctx')"
    and pos: "0 < unat (cur_window_packets s)" and acc: "acked_ok R k b r" "k < 2 ^ 20" and m: "nat bits div 8 < length m"
  shows "wpo (selective_ack_bytes_bit base m now s bits (b, r)) (\<lambda>(b', r'). acked_ok R (Suc k) b' r')"
proof (cases "outside_window (base + word_of_int bits) s")
  case True
  then show ?thesis using acked_ok_mono [OF acc(1)] by (simp add: selective_ack_bytes_bit_def Let_def)
next
  case False
  let ?v = "base + word_of_int bits"
  have mid: "out_mid T s" and tm: "times_ok lo ctx s" and clk: "clock_ok lo hi ctx" using inv by (simp_all add: ack_inv_def)
  obtain j where j: "j < unat (cur_window_packets s)" "(ucast ?v :: uint16) = seq_nr s - cur_window_packets s + of_nat j"
    using outside_window_index [OF False pos] by blast
  have slot: "cb_get (outbuf s) (ucast ?v) = out_window s ! j"
    using j(2) by (intro out_slot(1) [OF out_midD(1) [OF mid] j(1)]) simp
  show ?thesis
  proof (cases "\<exists>p. out_window s ! j = Some p \<and> 0 < transmissions p")
    case True
    then obtain p where p: "out_window s ! j = Some p" "0 < transmissions p" by blast
    have "stamped lo ctx p" using tm p(1) j(1) by (metis times_ok_def length_out_window nth_mem)
    note r = sample_rtt_bounds [OF this p(2) clk sp t, of r]
    note a = acked_ok_add [OF acc(1) out_mid_nth [OF mid j(1) p(1)] acc(2), of "sample_rtt now p r"]
    show ?thesis
      using False p slot mask_bit_eq [OF m] acc(1) r a acked_ok_mono [OF acc(1)]
      by (simp add: selective_ack_bytes_bit_def Let_def acked_ok_def [of R k])
  next
    case unsent: False
    then show ?thesis
      using False slot acked_ok_mono [OF acc(1)] by (auto simp: selective_ack_bytes_bit_def Let_def split: option.splits)
  qed
qed

lemma selective_ack_bytes_loop_spec:
  assumes inv: "ack_inv T L lo hi (s, ctx)" and sp: "span lo hi" and t: "utp_call_get_microseconds ctx a = (now, ctx')"
    and pos: "0 < unat (cur_window_packets s)" and ne: "m \<noteq> []"
    and "acked_ok R k b r" and "n \<le> 8 * length m" and "k + n < 2 ^ 20"
  shows "wpo (selective_ack_bytes_loop n base m now s (b, r)) (\<lambda>(b', r'). acked_ok R (k + n + 1) b' r')"
  using assms(6-8)
proof (induction n arbitrary: k b r)
  case 0
  then show ?case
    using selective_ack_bytes_bit_spec [OF inv sp t pos 0(1), of "- 1" m base] ne
    by (subst selective_ack_bytes_loop.simps) (auto elim!: wpo_bindI)
next
  case (Suc n)
  have "wpo (selective_ack_bytes_bit base m now s (int n) (b, r)) (\<lambda>(b', r'). acked_ok R (Suc k) b' r')"
    using Suc.prems by (intro selective_ack_bytes_bit_spec [OF inv sp t pos]) simp_all
  moreover have "wpo (selective_ack_bytes_loop n base m now s (b', r')) (\<lambda>(b', r'). acked_ok R (k + Suc n + 1) b' r')"
    if "acked_ok R (Suc k) b' r'" for b' r'
    using Suc.IH [OF that] Suc.prems by simp
  ultimately show ?case by (subst selective_ack_bytes_loop.simps, simp, elim wpo_bindI) auto
qed

lemma selective_ack_bytes_spec:
  assumes inv: "ack_inv T L lo hi (s, ctx)" and sp: "span lo hi" and m: "unat len < length m" and r: "0 \<le> r"
  shows "wpo (selective_ack_bytes base m len r (s, ctx)) (\<lambda>(b, r', ctx'). trace_ext ctx ctx' \<and>
           unat b \<le> 2 ^ 28 \<and> 0 \<le> r' \<and> (0 < b \<longrightarrow> r' < INT_MAX) \<and> r' \<le> r)"
proof (cases "cur_window_packets s = 0")
  case True
  then show ?thesis using r by (simp add: selective_ack_bytes_def)
next
  case False
  obtain now ctx1 where t: "utp_call_get_microseconds ctx (Some (self s)) = (now, ctx1)" by fastforce
  have pos: "0 < unat (cur_window_packets s)" using False by (simp add: unat_gt_0)
  have l: "unat len < 256" using unat_less_pow [of len] by simp
  have "wpo (selective_ack_bytes_loop (unat len * 8 + 1) base m now s (0, r)) (\<lambda>(b', r'). acked_ok r (0 + (unat len * 8 + 1) + 1) b' r')"
    using m r l by (intro selective_ack_bytes_loop_spec [OF inv sp t pos]) (auto simp: acked_ok_def)
  then show ?thesis
    using False t trace_ext_microseconds [OF t] l
    by (simp add: selective_ack_bytes_def) (elim wpo_bindI, auto simp: acked_ok_def)
qed

text \<open>Path MTU events do not touch the window.\<close>

lemma mtu_only_ack_step:
  assumes inv: "ack_inv T L lo hi (s, ctx)" and m: "mtu_ok L s'" "mtu_only s s'" and tr: "trace_ext ctx ctx'"
  shows "ack_step T L lo hi (s, ctx) (s', ctx')" "out_window s' = out_window s" "out_ok T s' = out_ok T s"
    "cur_window_packets s' = cur_window_packets s" "seq_nr s' = seq_nr s"
proof -
  note f = tx_frame_fields [OF mtu_only_tx_frame [OF m(2)]] mtu_only_fields [OF m(2)]
  have eq: "outbuf s' = outbuf s" "cur_window s' = cur_window s" "rtt s' = rtt s"
    using m(2) by (cases s; cases s'; simp add: mtu_only_def mtu_erase_def)+
  show sq: "seq_nr s' = seq_nr s" and cwp: "cur_window_packets s' = cur_window_packets s" using f by simp_all
  show w: "out_window s' = out_window s" by (rule out_window_cong [OF sq cwp eq(1)])
  show "out_ok T s' = out_ok T s"
    using out_clean_cong [OF sq cwp eq(1)] by (simp add: out_ok_def w sq cwp eq)
  have "out_mid T s'" using inv out_mid_cong [OF sq cwp eq(1,2)] by (simp add: ack_inv_def)
  then show "ack_step T L lo hi (s, ctx) (s', ctx')"
    using inv m(1) eq(3) f(14) w cwp tx_frame_ak_frame [OF mtu_only_tx_frame [OF m(2)]]
    by (intro ack_inv_update [OF inv tr]) (simp_all add: ack_inv_def)
qed

lemma count_duplicate_spec:
  assumes inv: "ack_inv T L lo hi (s, ctx)"
  shows "wpo (count_duplicate a fl (s, ctx)) (\<lambda>(s', ctx'). ack_step T L lo hi (s, ctx) (s', ctx') \<and>
           out_window s' = out_window s \<and> out_ok T s' = out_ok T s \<and> cur_window_packets s' = cur_window_packets s)"
    (is "wpo _ ?Q")
proof -
  have mtu: "mtu_ok L s" using inv by (simp add: ack_inv_def)
  have upd: "?Q (s\<lparr>duplicate_ack := d\<rparr>, ctx)" for d using ack_step_refl [OF inv] by (simp add: ack_step_def)
  have lost: "wpo (mtu_probe_lost (s\<lparr>duplicate_ack := d\<rparr>, ctx)) ?Q" if "mtu_probe_seq s \<noteq> 0" for d
  proof -
    let ?s = "s\<lparr>duplicate_ack := d\<rparr>"
    have inv': "ack_inv T L lo hi (?s, ctx)" using inv by simp
    have "wpo (mtu_probe_lost (?s, ctx)) (\<lambda>(s', ctx'). mtu_ok L s' \<and> mtu_only ?s s' \<and> trace_ext ctx ctx')"
      using mtu that by (intro mtu_probe_lost_ok) (simp_all add: mtu_ok_def)
    then show ?thesis
    proof (rule wpo_mono, clarify)
      fix s' ctx' assume "mtu_ok L s'" "mtu_only ?s s'" "trace_ext ctx ctx'"
      note st = mtu_only_ack_step [OF inv' this]
      have "ack_step T L lo hi (s, ctx) (s', ctx')"
        using ack_step_trans [OF _ st(1)] upd by blast
      then show "ack_step T L lo hi (s, ctx) (s', ctx') \<and> out_window s' = out_window s \<and> out_ok T s' = out_ok T s \<and>
          cur_window_packets s' = cur_window_packets s" using st(2-5) by simp
    qed
  qed
  have drop: "?Q (s\<lparr>duplicate_ack := d, mtu_probe_size := 0, mtu_probe_seq := 0\<rparr>, ctx)" for d
  proof -
    let ?t = "s\<lparr>mtu_probe_size := 0, mtu_probe_seq := 0\<rparr>"
    have "mtu_ok L ?t" "mtu_only s ?t" using mtu by (simp_all add: mtu_ok_def mtu_only_def mtu_erase_def)
    note st = mtu_only_ack_step [OF inv this trace_ext_refl]
    have "s\<lparr>duplicate_ack := d, mtu_probe_size := 0, mtu_probe_seq := 0\<rparr> = ?t\<lparr>duplicate_ack := d\<rparr>" by simp
    then show ?thesis using st by (simp only:) (simp add: ack_step_def)
  qed
  have same: "?Q (s, ctx)" using ack_step_refl [OF inv] by simp
  show ?thesis
    using upd lost drop same by (simp add: count_duplicate_def Let_def del: split_paired_All)
qed

lemma count_acked_spec:
  assumes "ack_inv T L lo hi (s, ctx)" and "i + n \<le> unat (cur_window_packets s)" and "acked_ok R k b r" and "k + n < 2 ^ 20"
    and fresh: "\<And>p r. Some p \<in> set W \<Longrightarrow> 0 < transmissions p \<Longrightarrow> 0 \<le> r \<Longrightarrow> 0 \<le> sample_rtt now p r \<and> sample_rtt now p r < INT_MAX"
    and "out_window s = W"
  shows "wpo (count_acked i n now (b, r, s, ctx)) (\<lambda>(b', r', s', ctx'). acked_ok R (k + n) b' r' \<and>
           ack_step T L lo hi (s, ctx) (s', ctx') \<and> out_window s' = W \<and> out_ok T s' = out_ok T s \<and>
           cur_window_packets s' = cur_window_packets s)"
  using assms(1-4,6)
proof (induction n arbitrary: i k b r s ctx)
  case 0
  then show ?case using ack_step_refl by simp
next
  case (Suc n)
  note inv = Suc.prems(1) and le = Suc.prems(2) and acc = Suc.prems(3) and kn = Suc.prems(4) and W = Suc.prems(5)
  let ?sq = "(ucast (seq_nr s) - ucast (cur_window_packets s) + of_nat i :: uint32) AND ACK_NR_MASK"
  have mid: "out_mid T s" using inv by (simp add: ack_inv_def)
  have i: "i < unat (cur_window_packets s)" using le by simp
  have "(ucast (ucast ?sq :: size_t) :: uint16) = seq_nr s - cur_window_packets s + of_nat i"
    by (simp add: mask16 ucast16_diff32 ucast16_add32)
  note slot = out_slot(1) [OF out_midD(1) [OF mid] i this]
  have skip: "wpo (count_acked (i + 1) n now (b, r, s, ctx)) (\<lambda>(b', r', s', ctx'). acked_ok R (k + Suc n) b' r' \<and>
           ack_step T L lo hi (s, ctx) (s', ctx') \<and> out_window s' = W \<and> out_ok T s' = out_ok T s \<and>
           cur_window_packets s' = cur_window_packets s)"
    using Suc.IH [OF inv, of "i + 1" k b r] le acc kn W acked_ok_mono by (auto elim!: wpo_mono)
  show ?case
  proof (cases "\<exists>p. out_window s ! i = Some p \<and> 0 < transmissions p")
    case False
    then show ?thesis using skip by (auto simp: Let_def slot split: option.splits)
  next
    case True
    then obtain p where p: "out_window s ! i = Some p" "0 < transmissions p" by blast
    have mem: "Some p \<in> set W" using p(1) i W by (metis length_out_window nth_mem)
    have r: "0 \<le> sample_rtt now p r" "sample_rtt now p r < INT_MAX"
      using fresh [OF mem p(2)] acc by (simp_all add: acked_ok_def)
    have "sample_rtt now p r \<le> r" by (simp add: sample_rtt_def)
    note a = acked_ok_add [OF acc out_mid_nth [OF mid i p(1)] _ r this]
    have probe: "wpo (if mtu_probe_seq s \<noteq> 0 \<and> ?sq = mtu_probe_seq s then mtu_probe_acked (s, ctx) else Some (s, ctx))
        (\<lambda>(s', ctx'). mtu_ok L s' \<and> mtu_only s s' \<and> trace_ext ctx ctx')"
      using mtu_probe_acked_ok [of L s ctx] inv by (simp add: ack_inv_def mtu_only_def)
    have "wpo (count_acked (i + 1) n now (b + pkt_payload p, sample_rtt now p r, s1, ctx1))
        (\<lambda>(b', r', s', ctx'). acked_ok R (k + Suc n) b' r' \<and> ack_step T L lo hi (s, ctx) (s', ctx') \<and> out_window s' = W \<and>
           out_ok T s' = out_ok T s \<and> cur_window_packets s' = cur_window_packets s)"
      if m: "mtu_ok L s1" "mtu_only s s1" "trace_ext ctx ctx1" for s1 ctx1
    proof -
      note st = mtu_only_ack_step [OF inv m]
      show ?thesis
        using wpo_mono [OF Suc.IH [OF ack_stepD [OF st(1)], of "i + 1" "Suc k" "b + pkt_payload p" "sample_rtt now p r"]]
          le kn a(1) st W ack_step_trans [OF st(1)] by (auto elim!: wpo_mono)
    qed
    then have rest: "wpo ((if mtu_probe_seq s \<noteq> 0 \<and> ?sq = mtu_probe_seq s then mtu_probe_acked (s, ctx) else Some (s, ctx)) \<bind>
        (\<lambda>c. count_acked (i + 1) n now (b + pkt_payload p, sample_rtt now p r, c)))
        (\<lambda>(b', r', s', ctx'). acked_ok R (k + Suc n) b' r' \<and> ack_step T L lo hi (s, ctx) (s', ctx') \<and> out_window s' = W \<and>
           out_ok T s' = out_ok T s \<and> cur_window_packets s' = cur_window_packets s)"
      by (intro wpo_bindI [OF probe]) auto
    have "(transmissions p = 0) = False" "(0 \<le> as_int (pkt_payload p)) = True" using p(2) a(2) kn by simp_all
    then show ?thesis
      using rest unfolding count_acked.simps Let_def slot p(1) option.case by (simp only: if_False cassert_simps bind.bind_lunit)
  qed
qed

subsection \<open>Properties\<close>

text \<open>C16: A selective ack does what its mask says. The mask starts two packets behind the ack number; a packet of the window
  other than the oldest whose bit is set and that has been sent is removed, every other packet stays in its place with
  its contents. No bit, whatever the length of the mask, makes the code leave the array of resends, the window or its
  accounting of the bytes in flight; the packets that are resent because of it are resent in the limits of the
  window, and the state of the connection and the receiving side do not change.\<close>

theorem selective_ack_correct:
  assumes "ack_inv T L lo hi (s, ctx)" and "out_ok T s" and "span lo hi" and "T + 4 < 2 ^ 31"
    and "unat len \<le> length m" and "m \<noteq> []"
  shows "\<exists>s' ctx'. selective_ack base m len (s, ctx) = Some (s', ctx') \<and>
     window_data (out_window s') = window_data (strike (sack_marks base m (8 * unat len) s) (out_window s)) \<and>
     ack_inv (T + 4) L lo hi (s', ctx') \<and> out_ok (T + 4) s' \<and> ak_frame s s'"
  using selective_ack_spec [OF assms] unfolding wpo_ex by (fastforce simp: ack_step_def)

text \<open>A sender with packets 1, 2 and 3 in flight, sent by a clock that stands still.\<close>

definition example_sent :: OutgoingPacket where
  "example_sent = example_packet\<lparr>transmissions := 1, time_sent := 500\<rparr>"

definition example_sender :: UTPSocket where
  "example_sender = example_socket\<lparr>seq_nr := 4, cur_window_packets := 3, cur_window := 9,
     outbuf := cb_put (cb_put (cb_put (cb_new 4) 1 (Some example_sent)) 2 (Some example_sent)) 3 (Some example_sent)\<rparr>"

definition example_stopped :: utp_context where
  "example_stopped = example_context\<lparr>callbacks := (callbacks example_context)(UTP_GET_MICROSECONDS \<mapsto> \<lambda>_ _. 1000)\<rparr>"

lemma example_stopped_ok: "ctx_ok example_stopped" "app_ok 100 example_stopped" "clock_ok 500 1000 example_stopped"
  using example_ctx_ok example_app_ok
  by (simp_all add: example_stopped_def ctx_ok_def ack_ok_def app_ok_def mtu_callback_ok_def rcv_callback_ok_def
      clock_ok_def reading_def)

lemma example_sender_ring:
  "ring_window cb_get (outbuf example_sender) 1 16 = replicate 3 (Some example_sent) @ replicate 13 None"
proof -
  let ?b = "cb_new 4 :: OutgoingPacket SizableCircularBuffer"
  have b: "cb_ok ?b" "cb_bits ?b = 4" by (simp_all add: cb_ok_new cb_bits_new)
  have put: "ring_window cb_get (cb_put b (1 + of_nat i) v) 1 16 = (ring_window cb_get b 1 16)[i := v]"
    if "cb_ok b" "cb_bits b = 4" "i < 16" for b :: "OutgoingPacket SizableCircularBuffer" and i v
    using that by (intro cb.window_put) simp_all
  have "ring_window cb_get ?b 1 16 = replicate 16 None" by (rule nth_equalityI) (simp_all add: cb_get_new)
  then have "ring_window cb_get (outbuf example_sender) 1 16 = (replicate 16 None)[0 := Some example_sent, 1 := Some example_sent, 2 := Some example_sent]"
    using put [of ?b 0] put [OF cb_ok_put [OF b(1)], of _ _ 1] put [OF cb_ok_put [OF cb_ok_put [OF b(1)]], of _ _ _ _ 2]
    by (simp add: example_sender_def b)
  then show ?thesis by (simp add: numeral_eq_Suc)
qed

lemma example_sender_window: "out_window example_sender = replicate 3 (Some example_sent)"
proof -
  have "out_window example_sender = take 3 (ring_window cb_get (outbuf example_sender) 1 16)"
    by (rule nth_equalityI) (simp_all add: out_window_def out_base_def example_sender_def example_socket_def zero_socket_def)
  then show ?thesis by (simp add: example_sender_ring)
qed

lemma example_sender_ok: "out_ok 1 example_sender" "ack_inv 1 100 500 1000 (example_sender, example_stopped)"
proof -
  let ?b = "cb_new 4 :: OutgoingPacket SizableCircularBuffer"
  have b: "cb_ok ?b" "cb_bits ?b = 4" by (simp_all add: cb_ok_new cb_bits_new)
  have "cb_get (outbuf example_sender) (1 + of_nat j) = None" if "3 \<le> j" "j < 16" for j
    using that arg_cong [OF example_sender_ring, of "\<lambda>w. w ! j"] by (simp add: nth_append)
  then have "out_clean example_sender"
    by (auto simp: out_clean_def out_base_def example_sender_def example_socket_def zero_socket_def b)
  moreover have "cb_bits (outbuf example_sender) = 4" "cb_ok (outbuf example_sender)"
    by (simp_all add: example_sender_def cb_bits_put cb_ok_put b)
  ultimately show ok: "out_ok 1 example_sender"
    unfolding out_ok_def example_sender_window
    by (simp add: example_sender_def example_socket_def zero_socket_def OUTGOING_BUFFER_MAX_SIZE_def pkt_ok_def example_sent_def
        example_packet_def new_packet_def get_header_size_def sizeof_PacketFormatV1_def flight_bytes_def flight_size_def in_flight_def
        sum_list_replicate)
  have "mtu_ok 100 example_sender" by (simp add: mtu_ok_def example_sender_def example_socket_def zero_socket_def)
  moreover have "times_ok 500 example_stopped example_sender"
    unfolding times_ok_def example_sender_window by (simp add: stamped_def example_sent_def reading_def example_stopped_def word_le_nat_alt)
  ultimately show "ack_inv 1 100 500 1000 (example_sender, example_stopped)"
    using ok example_stopped_ok by (simp add: ack_inv_def out_ok_mid) (simp add: example_sender_def example_socket_def zero_socket_def)
qed

text \<open>The mask whose second bit is set, behind an ack of packet 0: packet 3 is taken out.\<close>

theorem selective_ack_correct_witness:
  "\<exists>s' ctx'. selective_ack 2 [2, 0] 1 (example_sender, example_stopped) = Some (s', ctx') \<and>
     map (\<lambda>x. x = None) (out_window s') = [False, False, True]"
proof -
  let ?w = "strike (sack_marks 2 [2, 0] 8 example_sender) (out_window example_sender)"
  obtain s' ctx' where s': "selective_ack 2 [2, 0] 1 (example_sender, example_stopped) = Some (s', ctx')"
      "window_data (out_window s') = window_data ?w"
    using selective_ack_correct [OF example_sender_ok(2,1), of 1 "[2, 0]" 2] by (auto simp: span_def)
  have "bit ([2, 0 :: byte] ! (b div 8)) (b mod 8) \<longleftrightarrow> b = 1" if "b < 8" for b
  proof -
    have "b div 8 = 0" "b mod 8 = b" using that by simp_all
    then show ?thesis using that bit_exp_iff [of 1 b, where 'a = byte] by (simp add: bit_exp_iff)
  qed
  then have "sack_marks 2 [2, 0] 8 example_sender j \<longleftrightarrow> 0 < j \<and> (3 :: uint16) = 1 + of_nat j" for j
    by (auto simp: sack_marks_def bit_marks_def example_sender_def example_socket_def zero_socket_def intro!: exI [of _ "1 :: nat"])
  then have "?w = [Some example_sent, Some example_sent, None]"
    by (simp add: strike_def example_sender_window upt_rec numeral_eq_Suc example_sent_def)
  then have "map (map_option pkt_data) (out_window s') = window_data [Some example_sent, Some example_sent, None]"
    using s'(2) by (simp add: window_data_def)
  then have "map (\<lambda>x. x = None) (map (map_option pkt_data) (out_window s')) = [False, False, True]" by (simp add: window_data_def)
  then show ?thesis using s'(1) by (auto simp: comp_def)
qed

end
