(* ===== verification/Utp_Delay.thy ===== *)
theory Utp_Delay
  imports Utp_Ack
begin

section \<open>Delay measurement\<close>

text \<open>
  The part of \<^verbatim>\<open>utp_process_incoming\<close> that turns the two time stamps of a packet into delay
  samples of both directions, and the estimate of the drift between the two clocks. The peer chooses
  the time stamps freely.
\<close>

definition MAX_AVERAGE_DELAY_SAMPLE :: uint32 where "MAX_AVERAGE_DELAY_SAMPLE = 0x1FFFFFFF"

subsection \<open>Operations\<close>

text \<open>The delay towards us is what we report back; \<open>time\<close> is the arrival of the packet.\<close>

definition record_their_delay :: "uint32 \<Rightarrow> uint64 \<Rightarrow> uint64 \<Rightarrow> UTPSocket \<Rightarrow> UTPSocket" where
  "record_their_delay tv_usec time ms s = (
     let p = ucast tv_usec :: uint64;
         their_delay = (if p = 0 then 0 else ucast (time - p) :: uint32);
         prev_delay_base = delay_base (their_hist s);
         s1 = s\<lparr>last_measured_delay := ms, reply_micro := their_delay,
                their_hist := (if their_delay \<noteq> 0 then dh_add_sample (their_hist s) their_delay ms else their_hist s)\<rparr>
     in if prev_delay_base \<noteq> 0 \<and> wrapping_compare_less (delay_base (their_hist s1)) prev_delay_base TIMESTAMP_MASK \<and>
           prev_delay_base - delay_base (their_hist s1) \<le> 10000
        then s1\<lparr>our_hist := dh_shift (our_hist s1) (prev_delay_base - delay_base (their_hist s1))\<rparr>
        else s1)"

text \<open>The distance of a sample from the baseline, clamped.\<close>

definition average_sample :: "uint32 \<Rightarrow> uint32 \<Rightarrow> int" where
  "average_sample base actual_delay = (
     let dist_down = base - actual_delay; dist_up = actual_delay - base
     in if dist_up < dist_down then uint (min dist_up MAX_AVERAGE_DELAY_SAMPLE)
        else - uint (min dist_down MAX_AVERAGE_DELAY_SAMPLE))"

text \<open>Every five seconds the average is taken, moved around zero, and compared with the previous one.\<close>

definition roll_average :: "UTPSocket \<Rightarrow> UTPSocket option" where
  "roll_average s = do {
     let prev_average_delay = average_delay s;
     cassert (current_delay_samples s \<noteq> 0);
     let avg = current_delay_sum s sdiv current_delay_samples s;
     cassert (avg < INT_MAX);
     cassert (- INT_MAX < avg);
     let min_sample = min prev_average_delay avg;
     let max_sample = max prev_average_delay avg;
     let adjust = (if 0 < min_sample then - min_sample else if max_sample < 0 then - max_sample else 0);
     let s1 = s\<lparr>average_sample_time := average_sample_time s + 5000, current_delay_sum := 0, current_delay_samples := 0,
               average_delay_base := average_delay_base s - word_of_int adjust, average_delay := avg + adjust\<rparr>;
     let drift = average_delay s1 - (prev_average_delay + adjust);
     Some (s1\<lparr>clock_drift := (clock_drift s1 * 7 + drift) sdiv 8, clock_drift_raw := drift\<rparr>)
   }"

definition record_our_delay :: "uint32 \<Rightarrow> uint64 \<Rightarrow> UTPSocket \<Rightarrow> UTPSocket option" where
  "record_our_delay actual_delay ms s =
     (if actual_delay \<noteq> 0 then
        let s1 = s\<lparr>our_hist := dh_add_sample (our_hist s) actual_delay ms\<rparr>;
            s2 = (if average_delay_base s1 = 0 then s1\<lparr>average_delay_base := actual_delay\<rparr> else s1);
            s3 = s2\<lparr>current_delay_sum := current_delay_sum s2 + average_sample (average_delay_base s2) actual_delay,
                    current_delay_samples := current_delay_samples s2 + 1\<rparr>
        in if average_sample_time s3 < ms then roll_average s3 else Some s3
      else Some s)"

text \<open>A queuing delay cannot exceed the round trip time.\<close>

definition limit_our_delay :: "int \<Rightarrow> UTPSocket \<Rightarrow> UTPSocket" where
  "limit_our_delay min_rtt s =
     (if min_rtt < uint (dh_get_value (our_hist s))
      then s\<lparr>our_hist := dh_shift (our_hist s) (word_of_int (uint (dh_get_value (our_hist s)) - min_rtt))\<rparr> else s)"

subsection \<open>The averages stay in range\<close>

definition delay_cap :: int where "delay_cap = 0x1FFFFFFF"

definition delay_ok :: "UTPSocket \<Rightarrow> bool" where
  "delay_ok s \<longleftrightarrow> dh_ok (our_hist s) \<and> dh_ok (their_hist s) \<and> 0 \<le> current_delay_samples s \<and>
     \<bar>current_delay_sum s\<bar> \<le> current_delay_samples s * delay_cap \<and> \<bar>average_delay s\<bar> \<le> delay_cap \<and> \<bar>clock_drift s\<bar> \<le> 2 * delay_cap"

lemma average_sample_bound: "\<bar>average_sample base d\<bar> \<le> delay_cap"
proof -
  have "uint (min x MAX_AVERAGE_DELAY_SAMPLE) \<le> delay_cap" for x
    by (simp add: min_def MAX_AVERAGE_DELAY_SAMPLE_def delay_cap_def word_le_def)
  then show ?thesis by (simp add: average_sample_def Let_def)
qed

lemma sdiv_abs_le:
  fixes a b c :: int
  assumes "0 < b" and "\<bar>a\<bar> \<le> b * c"
  shows "\<bar>a sdiv b\<bar> \<le> c"
proof -
  have "\<bar>a\<bar> div b \<le> c" using assms by (metis mult.commute nonzero_mult_div_cancel_right zdiv_mono1 less_irrefl)
  moreover have "0 \<le> \<bar>a\<bar> div b" using assms(1) by (simp add: pos_imp_zdiv_nonneg_iff)
  ultimately show ?thesis using assms(1) by (auto simp: signed_divide_int_def abs_if sgn_if)
qed

definition dl_erase :: "UTPSocket \<Rightarrow> UTPSocket" where
  "dl_erase s = s\<lparr>their_hist := dh_clear 0, our_hist := dh_clear 0, last_measured_delay := 0, reply_micro := 0,
     average_delay := 0, current_delay_sum := 0, current_delay_samples := 0, average_delay_base := 0,
     average_sample_time := 0, clock_drift := 0, clock_drift_raw := 0\<rparr>"

definition dl_frame :: "UTPSocket \<Rightarrow> UTPSocket \<Rightarrow> bool" where
  "dl_frame s s' \<longleftrightarrow> dl_erase s' = dl_erase s"

lemma dl_frame_refl [simp]: "dl_frame s s"
  by (simp add: dl_frame_def)

lemma dl_frame_trans: "dl_frame a b \<Longrightarrow> dl_frame b c \<Longrightarrow> dl_frame a c"
  by (simp add: dl_frame_def)

lemma record_their_delay_spec: "delay_ok s \<Longrightarrow> delay_ok (record_their_delay tv time ms s) \<and> dl_frame s (record_their_delay tv time ms s)"
  by (auto simp: record_their_delay_def Let_def delay_ok_def dh_ok_add_sample dh_ok_shift dl_frame_def dl_erase_def)

lemma limit_our_delay_spec: "delay_ok s \<Longrightarrow> delay_ok (limit_our_delay r s) \<and> dl_frame s (limit_our_delay r s)"
  by (auto simp: limit_our_delay_def delay_ok_def dh_ok_shift dl_frame_def dl_erase_def)

lemma roll_average_spec:
  assumes ok: "delay_ok s" and pos: "0 < current_delay_samples s"
  shows "wpo (roll_average s) (\<lambda>s'. delay_ok s' \<and> dl_frame s s')"
proof -
  define avg where "avg = current_delay_sum s sdiv current_delay_samples s"
  have avg: "\<bar>avg\<bar> \<le> delay_cap" unfolding avg_def using ok pos by (intro sdiv_abs_le) (simp_all add: delay_ok_def)
  define adj where "adj = (if 0 < min (average_delay s) avg then - min (average_delay s) avg
     else if max (average_delay s) avg < 0 then - max (average_delay s) avg else 0)"
  have prev: "\<bar>average_delay s\<bar> \<le> delay_cap" and cd: "\<bar>clock_drift s\<bar> \<le> 2 * delay_cap" using ok by (simp_all add: delay_ok_def)
  have a: "\<bar>avg + adj\<bar> \<le> delay_cap" using avg prev by (auto simp: adj_def min_def max_def)
  have "\<bar>clock_drift s * 7 + (avg - average_delay s)\<bar> \<le> 8 * (2 * delay_cap)" using avg prev cd by linarith
  then have d: "\<bar>(clock_drift s * 7 + (avg - average_delay s)) sdiv 8\<bar> \<le> 2 * delay_cap" by (intro sdiv_abs_le) simp_all
  have b: "avg < INT_MAX" "- INT_MAX < avg" using avg by (simp_all add: INT_MAX_def delay_cap_def)
  show ?thesis
    using ok pos a b d unfolding roll_average_def Let_def avg_def [symmetric] adj_def [symmetric]
    by (simp add: delay_ok_def dl_frame_def dl_erase_def delay_cap_def)
qed

lemma record_our_delay_spec:
  assumes ok: "delay_ok s"
  shows "wpo (record_our_delay d ms s) (\<lambda>s'. delay_ok s' \<and> dl_frame s s')"
proof (cases "d = 0")
  case True
  then show ?thesis using ok by (simp add: record_our_delay_def)
next
  case False
  define b where "b = (if average_delay_base s = 0 then d else average_delay_base s)"
  define s3 where "s3 = s\<lparr>our_hist := dh_add_sample (our_hist s) d ms, average_delay_base := b,
     current_delay_sum := current_delay_sum s + average_sample b d, current_delay_samples := current_delay_samples s + 1\<rparr>"
  have "\<bar>average_sample b d\<bar> \<le> delay_cap" by (rule average_sample_bound)
  then have s3: "delay_ok s3" "dl_frame s s3" "0 < current_delay_samples s3"
    using ok by (auto simp: s3_def delay_ok_def dh_ok_add_sample dl_frame_def dl_erase_def distrib_right)
  have "record_our_delay d ms s = (if average_sample_time s3 < ms then roll_average s3 else Some s3)"
    using False by (simp add: record_our_delay_def Let_def s3_def b_def)
  then show ?thesis
    using s3 roll_average_spec [OF s3(1,3)] by (auto elim!: wpo_mono intro: dl_frame_trans)
qed

subsection \<open>Properties\<close>

text \<open>A series of acks with the delays that the peer reports, each with the time of its arrival.\<close>

fun record_delays :: "(uint32 \<times> uint64) list \<Rightarrow> UTPSocket \<Rightarrow> UTPSocket option" where
  "record_delays [] s = Some s"
| "record_delays ((d, ms) # xs) s = Option.bind (record_our_delay d ms s) (record_delays xs)"

lemma record_delays_spec: "delay_ok s \<Longrightarrow> wpo (record_delays xs s) (\<lambda>s'. delay_ok s' \<and> dl_frame s s')"
proof (induction xs arbitrary: s)
  case (Cons x xs)
  obtain d ms where x: "x = (d, ms)" by (cases x)
  show ?case
    unfolding x record_delays.simps
  proof (rule wpo_bindI [OF record_our_delay_spec [OF Cons.prems]])
    fix s1 assume s1: "delay_ok s1 \<and> dl_frame s s1"
    show "wpo (record_delays xs s1) (\<lambda>s'. delay_ok s' \<and> dl_frame s s')"
      using Cons.IH [of s1] s1 by (auto elim!: wpo_mono intro: dl_frame_trans)
  qed
qed simp

text \<open>C37: Whatever delays a peer reports, and however often, the average delay and the estimate of the clock drift stay
  in the range of their 32-bit fields: the assertions on the average of the samples hold, there is no division by
  zero, and the drift that congestion control turns into a penalty is less than \<open>2 ^ 30\<close> microseconds. Nothing but
  the delay estimates changes.\<close>

theorem delay_estimates_bounded:
  assumes "delay_ok s"
  shows "wpo (record_delays xs s) (\<lambda>s'. delay_ok s' \<and> dl_frame s s' \<and> \<bar>average_delay s'\<bar> < 2 ^ 29 \<and> \<bar>clock_drift s'\<bar> < 2 ^ 30)"
  by (rule wpo_mono [OF record_delays_spec [OF assms]]) (simp add: delay_ok_def delay_cap_def)

text \<open>Two samples at opposite ends of the number circle, ten seconds apart.\<close>

theorem delay_estimates_bounded_witness:
  "wpo (record_delays [(1, 1000), (0x80000001, 11000)] example_socket) (\<lambda>s'. \<bar>average_delay s'\<bar> < 2 ^ 29 \<and> \<bar>clock_drift s'\<bar> < 2 ^ 30)"
proof -
  have "delay_ok example_socket" by (simp add: delay_ok_def example_socket_def zero_socket_def delay_cap_def)
  from delay_estimates_bounded [OF this] show ?thesis by (rule wpo_mono) simp
qed

end
