(* ===== verification/Utp_Recv.thy ===== *)
theory Utp_Recv
  imports Utp_Send_Inv
begin

section \<open>Receiving data\<close>

text \<open>
  The last part of \<^verbatim>\<open>utp_process_incoming\<close>: FIN packets, delivery of in-order data, the
  reordering buffer \<open>inbuf\<close>. A stored packet is the list of its bytes.
\<close>

subsection \<open>Operations\<close>

definition REORDER_BUFFER_MAX_SIZE :: uint32 where "REORDER_BUFFER_MAX_SIZE = 1024"

text \<open>The number of packets a packet is ahead of the expected one.\<close>

definition relative_seqnr :: "uint16 \<Rightarrow> UTPSocket \<Rightarrow> uint32" where
  "relative_seqnr pk_seq_nr s = (ucast pk_seq_nr - ucast (ack_nr s) - 1) AND SEQ_NR_MASK"

text \<open>A packet outside of the reorder window is dropped; an old one may have lost its ack.\<close>

definition drop_stray :: "uint32 \<Rightarrow> byte \<Rightarrow> conn \<Rightarrow> conn" where
  "drop_stray seqnr pk_flags = (\<lambda>(s, ctx).
     (s, if (SEQ_NR_MASK + 1) - REORDER_BUFFER_MAX_SIZE \<le> seqnr \<and> pk_flags \<noteq> ST_STATE
         then schedule_ack (self s) ctx else ctx))"

definition post_data :: "byte list \<Rightarrow> conn \<Rightarrow> utp_context" where
  "post_data data = (\<lambda>(s, ctx).
     if data \<noteq> [] \<and> \<not> read_shutdown s then utp_call_on_read ctx (self s) data else ctx)"

definition check_eof :: "conn \<Rightarrow> conn option" where
  "check_eof = (\<lambda>(s, ctx).
     if \<not> got_fin_reached s \<and> got_fin s \<and> eof_pkt s = ack_nr s then do {
       let s1 = s\<lparr>got_fin_reached := True, rto_timeout := current_ms ctx + ucast (min (rto s * 3) 60)\<rparr>;
       let ctx1 = utp_call_on_state_change ctx (self s) UTP_STATE_EOF;
       (s2, ctx2) \<leftarrow> send_ack False (s1, ctx1);
       Some (s2\<lparr>reorder_count := 0\<rparr>, ctx2)
     } else Some (s, ctx))"

text \<open>The next packet is taken out of the reorder buffer.\<close>

definition take_reordered :: "byte list \<Rightarrow> conn \<Rightarrow> conn option" where
  "take_reordered p = (\<lambda>(s, ctx). do {
     let s1 = s\<lparr>inbuf := cb_put (inbuf s) (ucast (ack_nr s) + 1) None\<rparr>;
     let ctx1 = post_data p (s1, ctx);
     let s2 = s1\<lparr>ack_nr := ack_nr s1 + 1\<rparr>;
     cassert (0 < reorder_count s2);
     Some (s2\<lparr>reorder_count := reorder_count s2 - 1\<rparr>, ctx1)
   })"

partial_function (option) reorder_loop :: "conn \<Rightarrow> conn option" where
  "reorder_loop c =
     Option.bind (check_eof c) (\<lambda>c1.
       if reorder_count (fst c1) = 0 then Some c1
       else case cb_get (inbuf (fst c1)) (ucast (ack_nr (fst c1)) + 1) of
         None \<Rightarrow> Some c1
       | Some p \<Rightarrow> Option.bind (take_reordered p c1) reorder_loop)"

declare reorder_loop.simps [code]

definition recv_in_order :: "byte list \<Rightarrow> conn \<Rightarrow> conn option" where
  "recv_in_order data = (\<lambda>(s, ctx). do {
     let ctx1 = post_data data (s, ctx);
     (s2, ctx2) \<leftarrow> reorder_loop (s\<lparr>ack_nr := ack_nr s + 1\<rparr>, ctx1);
     Some (s2, schedule_ack (self s2) ctx2)
   })"

text \<open>
  The stored length is an unsigned 32-bit integer. The result says whether the packet was stored.
\<close>

definition recv_out_of_order :: "uint16 \<Rightarrow> uint32 \<Rightarrow> byte list \<Rightarrow> conn \<Rightarrow> (bool \<times> conn) option" where
  "recv_out_of_order pk_seq_nr seqnr data = (\<lambda>(s, ctx).
     if got_fin s \<and> eof_pkt s < pk_seq_nr then Some (False, (s, ctx))
     else if 0x3ff < seqnr then Some (False, (s, ctx))
     else do {
       b \<leftarrow> cb_ensure_size (inbuf s) (ucast pk_seq_nr + 1) (ucast (seqnr + 1));
       let s1 = s\<lparr>inbuf := b\<rparr>;
       if cb_get (inbuf s1) (ucast pk_seq_nr) \<noteq> None then Some (False, (s1, ctx))
       else do {
         let mem = take (unat (of_nat (length data) :: uint32)) data;
         cassert (cb_get (inbuf s1) (ucast pk_seq_nr) = None);
         cassert (ucast pk_seq_nr AND cb_mask (inbuf s1) \<noteq> (ucast (ack_nr s1) + 1) AND cb_mask (inbuf s1));
         let s2 = s1\<lparr>inbuf := cb_put (inbuf s1) (ucast pk_seq_nr) (Some mem), reorder_count := reorder_count s1 + 1\<rparr>;
         Some (True, (s2, schedule_ack (self s2) ctx))
       }
     })"

definition got_fin_packet :: "byte \<Rightarrow> uint16 \<Rightarrow> UTPSocket \<Rightarrow> UTPSocket" where
  "got_fin_packet pk_flags pk_seq_nr s =
     (if pk_flags = ST_FIN \<and> \<not> got_fin s then s\<lparr>got_fin := True, eof_pkt := pk_seq_nr\<rparr> else s)"

text \<open>The result is the number of bytes consumed.\<close>

definition recv_data :: "byte \<Rightarrow> uint16 \<Rightarrow> uint32 \<Rightarrow> byte list \<Rightarrow> conn \<Rightarrow> (size_t \<times> conn) option" where
  "recv_data pk_flags pk_seq_nr seqnr data = (\<lambda>(s, ctx).
     let s1 = got_fin_packet pk_flags pk_seq_nr s in
     if seqnr = 0 then do {
       c \<leftarrow> recv_in_order data (s1, ctx);
       Some (of_nat (length data), c)
     } else do {
       (stored, c) \<leftarrow> recv_out_of_order pk_seq_nr seqnr data (s1, ctx);
       Some (if stored then of_nat (length data) else 0, c)
     })"

subsection \<open>The window of the receiver\<close>

definition in_window :: "UTPSocket \<Rightarrow> byte list option list" where
  "in_window s = ring_window cb_get (inbuf s) (ucast (ack_nr s) + 1) (2 ^ cb_bits (inbuf s))"

definition stored :: "'a option list \<Rightarrow> nat" where
  "stored w = length (filter (\<lambda>x. x \<noteq> None) w)"

text \<open>
  Between packets: the slot of the expected packet and the slot before it are empty, and
  \<open>reorder_count\<close> is the number of stored packets. Once the end of the stream has been reached,
  packets sent past it may be left in the buffer. The loop that delivers packets may have
  the expected packet at hand.
\<close>

definition in_loop :: "UTPSocket \<Rightarrow> bool" where
  "in_loop s \<longleftrightarrow> cb_ok (inbuf s) \<and> 4 \<le> cb_bits (inbuf s) \<and>
     (\<not> got_fin_reached s \<longrightarrow> last (in_window s) = None \<and> unat (reorder_count s) = stored (in_window s))"

definition in_ok :: "UTPSocket \<Rightarrow> bool" where
  "in_ok s \<longleftrightarrow> in_loop s \<and> (\<not> got_fin_reached s \<longrightarrow> hd (in_window s) = None)"

lemma stored_Cons [simp]: "stored (x # w) = (if x = None then 0 else 1) + stored w"
  by (simp add: stored_def)

lemma stored_append [simp]: "stored (v @ w) = stored v + stored w"
  by (simp add: stored_def)

lemma stored_Nil [simp]: "stored [] = 0"
  by (simp add: stored_def)

lemma stored_replicate [simp]: "stored (replicate n None) = 0"
  by (simp add: stored_def)

lemma stored_0_iff: "stored w = 0 \<longleftrightarrow> (\<forall>x \<in> set w. x = None)"
  by (auto simp: stored_def filter_empty_conv)

lemma stored_update:
  assumes "j < length w" and "w ! j = None"
  shows "stored (w[j := Some x]) = stored w + 1"
proof -
  have "w = take j w @ None # drop (Suc j) w" using id_take_nth_drop [OF assms(1)] assms(2) by simp
  then have "stored w = stored (take j w) + stored (drop (Suc j) w)"
    by (metis add_0 stored_Cons stored_append)
  then show ?thesis using assms by (simp add: upd_conv_take_nth_drop)
qed

text \<open>One step of the window: its first slot, now empty, becomes the last.\<close>

lemma length_in_window [simp]: "length (in_window s) = 2 ^ cb_bits (inbuf s)"
  by (simp add: in_window_def)

lemma in_window_nth: "j < 2 ^ cb_bits (inbuf s) \<Longrightarrow> in_window s ! j = cb_get (inbuf s) (ucast (ack_nr s) + 1 + of_nat j)"
  by (simp add: in_window_def)

lemma in_window_hd: "hd (in_window s) = cb_get (inbuf s) (ucast (ack_nr s) + 1)"
  using in_window_nth [of 0 s] by (simp add: hd_conv_nth flip: length_0_conv)

lemma in_window_ne [simp]: "in_window s \<noteq> []"
  by (simp flip: length_0_conv)

lemma in_slot:
  assumes "cb_ok (inbuf s)" and "j < 2 ^ cb_bits (inbuf s)" and "(ucast (i :: size_t) :: uint16) = ack_nr s + 1 + of_nat j"
  shows "cb_get (inbuf s) i = in_window s ! j"
  unfolding in_window_nth [OF assms(2)] using assms(1)
  by (rule cb_get_cong16) (simp add: assms(3) ucast16)

lemma in_slot_mod:
  assumes ok: "cb_ok (inbuf s)"
  shows "cb_get (inbuf s) (ucast (ack_nr s) + 1 + of_nat j) = in_window s ! (j mod 2 ^ cb_bits (inbuf s))"
proof -
  have "cb_bits (inbuf s) \<le> LENGTH(64)" using cb.bits_le_64 [OF ok] .
  then have "unat (ucast (ack_nr s) + 1 + of_nat j :: size_t) mod 2 ^ cb_bits (inbuf s) =
      unat (ucast (ack_nr s) + 1 + of_nat (j mod 2 ^ cb_bits (inbuf s)) :: size_t) mod 2 ^ cb_bits (inbuf s)"
    by (simp add: unat_add_of_nat_mod mod_add_right_eq)
  then show ?thesis by (simp add: in_window_nth cb_get_eq [OF ok])
qed

lemma in_window_step:
  assumes ok: "cb_ok (inbuf s)" and s': "s' = s\<lparr>ack_nr := ack_nr s + 1, inbuf := cb_put (inbuf s) (ucast (ack_nr s) + 1) None,
      reorder_count := r\<rparr>"
  shows "in_window s' = tl (in_window s) @ [None]"
proof (rule nth_equalityI)
  let ?n = "2 ^ cb_bits (inbuf s) :: nat"
  show "length (in_window s') = length (tl (in_window s) @ [None])" by (simp add: s')
  fix j assume "j < length (in_window s')"
  then have j: "j < ?n" by (simp add: s')
  let ?i = "ucast (ack_nr s) + 1 :: size_t"
  have "unat (?i + of_nat ?n) mod ?n = unat ?i mod ?n"
    using ok cb.bits_le [OF ok] by (subst unat_add_of_nat_mod) simp_all
  then have wrap: "cb_get (cb_put (inbuf s) ?i None) (?i + of_nat ?n) = None"
    by (simp add: cb_get_put [OF ok])
  have "in_window s' ! j = cb_get (cb_put (inbuf s) ?i None) (?i + of_nat (Suc j))"
    using j by (simp add: s' in_window_nth)
      (rule cb_get_cong16, simp add: ok cb_ok_put, simp add: ucast16)
  also have "\<dots> = (if Suc j = ?n then None else cb_get (inbuf s) (?i + of_nat (Suc j)))"
  proof (cases "Suc j = ?n")
    case True
    then show ?thesis using wrap by simp
  next
    case False
    then show ?thesis using j cb.get_put_offset [OF ok, of 0 "Suc j" ?i None] by simp
  qed
  also have "\<dots> = (tl (in_window s) @ [None]) ! j"
    using j by (auto simp: nth_append nth_tl in_window_nth algebra_simps)
  finally show "in_window s' ! j = (tl (in_window s) @ [None]) ! j" .
qed

subsection \<open>What the outside sees\<close>

text \<open>
  The data and the end of the stream reported to the application for socket \<open>i\<close>, and the datagrams sent
  for it, in order.
\<close>

fun upcall :: "sid \<Rightarrow> utp_callback_arguments \<Rightarrow> bool" where
  "upcall i (On_Read j b) = (j = i)"
| "upcall i (On_State_Change j st) = (j = i \<and> st = UTP_STATE_EOF)"
| "upcall i _ = False"

definition upcalls :: "sid \<Rightarrow> utp_context \<Rightarrow> utp_callback_arguments list" where
  "upcalls i ctx = filter (upcall i) (calls ctx)"

fun datagram :: "sid \<Rightarrow> utp_callback_arguments \<Rightarrow> byte list list" where
  "datagram i (Sendto (Some j) b _ _ _) = (if j = i then [b] else [])"
| "datagram i _ = []"

definition datagrams :: "sid \<Rightarrow> utp_context \<Rightarrow> byte list list" where
  "datagrams i ctx = concat (map (datagram i) (calls ctx))"

lemma calls_utp_call:
  "calls (snd (utp_call name a ctx)) = calls ctx @ (if callbacks ctx name = None then [] else [a])"
  by (simp add: utp_call_def split: option.splits)

lemma trace_utp_call [simp]:
  "upcalls i (snd (utp_call name a ctx)) = upcalls i ctx @ (if callbacks ctx name \<noteq> None \<and> upcall i a then [a] else [])"
  "datagrams i (snd (utp_call name a ctx)) = datagrams i ctx @ (if callbacks ctx name \<noteq> None then datagram i a else [])"
  by (simp_all add: upcalls_def datagrams_def calls_utp_call)

lemma trace_remove:
  "removeSocketFromAckList j ctx = Some ctx' \<Longrightarrow> calls ctx' = calls ctx"
  by (auto simp: removeSocketFromAckList_def Let_def bind_eq_Some_conv split: if_splits)

lemma trace_report_overhead:
  "upcalls i (report_overhead len type (s, ctx)) = upcalls i ctx"
  "datagrams i (report_overhead len type (s, ctx)) = datagrams i ctx"
  by (simp_all add: report_overhead_def get_overhead_def get_udp_overhead_def utp_call_defs Let_def
      split: prod.split)
    (auto simp: utp_call_def upcalls_def datagrams_def split: option.splits)

lemma trace_register [simp]:
  "upcalls i (utp_register_sent_packet ctx n) = upcalls i ctx"
  "datagrams i (utp_register_sent_packet ctx n) = datagrams i ctx"
  "callbacks (utp_register_sent_packet ctx n) = callbacks ctx"
  by (simp_all add: utp_register_sent_packet_def upcalls_def datagrams_def Let_def)

lemma trace_send_to_addr:
  "upcalls i (send_to_addr ctx sock b a flags) = upcalls i ctx"
  "callbacks ctx UTP_SENDTO \<noteq> None \<Longrightarrow>
   datagrams i (send_to_addr ctx (Some j) b a flags) = datagrams i ctx @ (if j = i then [b] else [])"
  by (simp_all add: send_to_addr_def utp_call_defs split: prod.split)

lemma send_data_trace:
  assumes "send_data h rest len type flags (s, ctx) = Some (h', s', ctx')"
  shows "upcalls i ctx' = upcalls i ctx"
    and "callbacks ctx UTP_SENDTO \<noteq> None \<Longrightarrow> datagrams (self s) ctx' = datagrams (self s) ctx @
           [take (unat len) (pf_bytes h' @ rest)]"
    and "\<exists>t. h' = h\<lparr>pf_tv_usec := t, pf_reply_micro := reply_micro s\<rparr>"
proof -
  obtain time ctx1 where t: "utp_call_get_microseconds ctx (Some (self s)) = (time, ctx1)"
    by (cases "utp_call_get_microseconds ctx (Some (self s))")
  have c1: "ctx1 = snd (utp_call UTP_GET_MICROSECONDS (Get_Microseconds (Some (self s))) ctx)"
    using t by (simp add: utp_call_get_microseconds_def)
  then have d1: "datagrams j ctx1 = datagrams j ctx" for j by simp
  note tr = trace_ext_microseconds [OF t] trace_ext_report_overhead [of ctx1 len type "s\<lparr>last_sent_packet := current_ms ctx1\<rparr>"]
  have cb: "callbacks (report_overhead len type (s\<lparr>last_sent_packet := current_ms ctx1\<rparr>, ctx1)) = callbacks ctx"
    using trace_ext_fields(1) [OF tr(1)] trace_ext_fields(1) [OF tr(2)] by simp
  have r: "read_bytes m 0 n = Some b \<Longrightarrow> b = take n m" for m n b by (auto simp: read_bytes_def split: if_splits)
  show "upcalls i ctx' = upcalls i ctx" "\<exists>t. h' = h\<lparr>pf_tv_usec := t, pf_reply_micro := reply_micro s\<rparr>"
    using assms by (auto simp: send_data_def t Let_def bind_eq_Some_conv upcalls_def dest!: trace_remove)
      (auto simp flip: upcalls_def simp: trace_send_to_addr trace_report_overhead c1)
  show "datagrams (self s) ctx' = datagrams (self s) ctx @ [take (unat len) (pf_bytes h' @ rest)]"
    if "callbacks ctx UTP_SENDTO \<noteq> None"
    using assms that by (auto simp: send_data_def t Let_def bind_eq_Some_conv datagrams_def dest!: trace_remove r)
      (auto simp flip: datagrams_def simp: trace_send_to_addr trace_report_overhead cb d1)
qed

subsection \<open>Acknowledgements\<close>

lemma bit_eack_fold:
  "bit (fold (\<lambda>i m. if P i then m OR push_bit i 1 else m) [0..<n] (0 :: uint32)) k \<longleftrightarrow> k < n \<and> k < 32 \<and> P k"
  by (induction n) (auto simp: bit_simps less_Suc_eq)

text \<open>Bit \<open>k\<close> of the mask stands for packet \<open>ack_nr + 2 + k\<close>.\<close>

lemma bit_eack_mask:
  assumes ok: "in_ok s" and fin: "\<not> got_fin_reached s"
  shows "bit (eack_mask s) k \<longleftrightarrow> k < 30 \<and> Suc k < 2 ^ cb_bits (inbuf s) \<and> in_window s ! Suc k \<noteq> None"
proof -
  let ?n = "2 ^ cb_bits (inbuf s) :: nat"
  have cb: "cb_ok (inbuf s)" and hd: "in_window s ! 0 = None"
    using ok fin by (simp_all add: in_ok_def in_loop_def hd_conv_nth)
  obtain b16: "cb_bits (inbuf s) \<le> 16" and m: "cb_mask (inbuf s) = 2 ^ cb_bits (inbuf s) - 1" using cb by (rule cb_okE)
  have n: "unat (cb_size (inbuf s)) = ?n"
    using b16 by (simp add: cb_size_def m unat_pow2)
  then have w: "unat (min (14 + 16) (cb_size (inbuf s))) = min 30 ?n"
    by (simp add: min_def word_le_nat_alt)
  have slot: "cb_get (inbuf s) (ucast (ack_nr s) + of_nat k + 2) = in_window s ! (Suc k mod ?n)" if "k < ?n"
    using in_slot_mod [OF cb, of "Suc k"] by (simp add: algebra_simps)
  show ?thesis
    unfolding eack_mask_def Let_def bit_eack_fold w
  proof (cases "Suc k < ?n")
    case True
    then show "(k < min 30 ?n \<and> k < 32 \<and> cb_get (inbuf s) (ucast (ack_nr s) + of_nat k + 2) \<noteq> None) =
        (k < 30 \<and> Suc k < ?n \<and> in_window s ! Suc k \<noteq> None)" using slot by auto
  next
    case False
    then have "k < ?n \<Longrightarrow> Suc k mod ?n = 0" by (simp add: not_less le_eq_less_or_eq less_Suc_eq_le)
    then show "(k < min 30 ?n \<and> k < 32 \<and> cb_get (inbuf s) (ucast (ack_nr s) + of_nat k + 2) \<noteq> None) =
        (k < 30 \<and> Suc k < ?n \<and> in_window s ! Suc k \<noteq> None)" using False slot hd by auto
  qed
qed

text \<open>The bytes of the selective ack extension.\<close>

definition ack_extension :: "UTPSocket \<Rightarrow> byte list" where
  "ack_extension s = (if reorder_count s \<noteq> 0 \<and> \<not> got_fin_reached s
     then let m = eack_mask s in
       [0, 4, ucast m, ucast (drop_bit 8 m), ucast (drop_bit 16 m), ucast (drop_bit 24 m)]
     else [])"

definition ack_sent :: "conn \<Rightarrow> conn \<Rightarrow> bool" where
  "ack_sent = (\<lambda>(s, ctx) (s', ctx'). (\<exists>w t. s' = s\<lparr>last_rcv_win := w, last_sent_packet := t\<rparr> \<and> w \<le> opt_rcvbuf s) \<and>
     ctx_ok ctx' \<and> ctx_frame (self s) ctx ctx' \<and> self s \<notin> set (ack_sockets ctx') \<and>
     (\<forall>i. upcalls i ctx' = upcalls i ctx) \<and>
     (callbacks ctx UTP_SENDTO \<noteq> None \<longrightarrow> (\<exists>h. datagrams (self s) ctx' = datagrams (self s) ctx @ [pf_bytes h @ ack_extension s] \<and>
        pf_type h = ST_STATE \<and> pf_version h = 1 \<and> pf_ack_nr h = ack_nr s \<and> pf_seq_nr h = seq_nr s \<and>
        pf_connid h = ucast (conn_id_send s) \<and> pf_ext h = (if ack_extension s = [] then 0 else 1) \<and>
        pf_windowsize h = ucast (last_rcv_win s'))))"

lemma send_ack_eq:
  assumes "reorder_count s \<noteq> 0 \<and> \<not> got_fin_reached s \<longrightarrow> \<not> synack \<and> cb_get (inbuf s) (ucast (ack_nr s) + 1) = None"
  shows "send_ack synack (s, ctx) = get_rcv_window (s, ctx) \<bind> (\<lambda>(w, ctx1).
     send_data ((ack_header (s\<lparr>last_rcv_win := w\<rparr>))\<lparr>pf_ext := (if ack_extension s = [] then 0 else 1)\<rparr>)
       (if ack_extension s = [] then [0, 0, 0, 0, 0, 0] else ack_extension s)
       (of_nat (20 + length (ack_extension s))) ack_overhead 0 (s\<lparr>last_rcv_win := w\<rparr>, ctx1) \<bind> (\<lambda>(_, s2, ctx2).
     removeSocketFromAckList (self s2) ctx2 \<bind> (\<lambda>ctx3. Some (s2, ctx3))))"
proof -
  have e: "(ack_header s)\<lparr>pf_ext := 0\<rparr> = ack_header s" for s by (simp add: ack_header_def)
  show ?thesis
  proof (cases "reorder_count s \<noteq> 0 \<and> \<not> got_fin_reached s")
    case True
    then show ?thesis using assms
      by (simp add: send_ack_def ack_extension_def eack_mask_def pfa_zero_def Let_def get_header_size_def
          sizeof_PacketFormatV1_def)
  next
    case False
    then have "ack_extension s = []" by (auto simp: ack_extension_def)
    then show ?thesis using False
      by (auto simp: send_ack_def pfa_zero_def Let_def get_header_size_def sizeof_PacketFormatV1_def e
          intro!: Option.bind_cong)
  qed
qed

lemma ack_header_fields:
  "pf_type (ack_header s) = ST_STATE" "pf_version (ack_header s) = 1"
  by (simp_all add: ack_header_def pf_type_def pf_version_def pf_set_type_def pf_set_version_def pf_zero_def ST_STATE_def)

lemma length_ack_extension: "length (ack_extension s) \<le> 6" "ack_extension s = [] \<or> length (ack_extension s) = 6"
  by (auto simp: ack_extension_def Let_def)

lemma get_rcv_window_trace:
  assumes "app_ok L ctx"
  shows "wpo (get_rcv_window (s, ctx)) (\<lambda>(w, ctx'). (\<forall>i. upcalls i ctx' = upcalls i ctx) \<and>
           (\<forall>i. datagrams i ctx' = datagrams i ctx))"
proof -
  have "wpo (get_rcv_window (s, ctx)) (\<lambda>_. True)" using get_rcv_window_spec [OF assms] by (rule wpo_mono) simp
  moreover have "calls ctx' = calls ctx \<or> calls ctx' = calls ctx @ [Get_Read_Buffer_Size (self s)]"
    if "get_rcv_window (s, ctx) = Some (w, ctx')" for w ctx'
    using that by (auto simp: get_rcv_window_def utp_call_defs utp_call_def bind_eq_Some_conv split: option.splits)
  ultimately show ?thesis by (fastforce simp: wpo_ex upcalls_def datagrams_def)
qed

lemma send_ack_spec:
  assumes ok: "ctx_ok ctx" and app: "app_ok L ctx"
    and re: "reorder_count s \<noteq> 0 \<and> \<not> got_fin_reached s \<longrightarrow> \<not> synack \<and> cb_get (inbuf s) (ucast (ack_nr s) + 1) = None"
  shows "wpo (send_ack synack (s, ctx)) (ack_sent (s, ctx))"
  unfolding send_ack_eq [OF re]
proof (rule wpo_bindI [OF wpo_conj [OF get_rcv_window_spec [OF app] get_rcv_window_trace [OF app]]], clarify)
  fix w ctx1
  assume tr: "trace_ext ctx ctx1" and w: "w \<le> opt_rcvbuf s"
    and up1: "\<forall>i. upcalls i ctx1 = upcalls i ctx" and dg1: "\<forall>i. datagrams i ctx1 = datagrams i ctx"
  let ?s = "s\<lparr>last_rcv_win := w\<rparr>" and ?e = "ack_extension s"
  let ?h = "(ack_header ?s)\<lparr>pf_ext := (if ?e = [] then 0 else 1)\<rparr>"
  let ?r = "if ?e = [] then [0, 0, 0, 0, 0, 0] else ?e" and ?l = "of_nat (20 + length ?e) :: size_t"
  have fr: "ctx_frame (self s) ctx ctx1" using tr by (rule trace_ext_ctx_frame)
  have l: "unat ?l = 20 + length ?e" using length_ack_extension(2) [of s] by auto
  have len: "unat ?l \<le> 20 + length ?r" using l length_ack_extension [of s] by auto
  obtain h t ctx2 where d: "send_data ?h ?r ?l ack_overhead 0 (?s, ctx1) = Some (h, ?s\<lparr>last_sent_packet := t\<rparr>, ctx2)"
    and ctx2: "ctx_ok ctx2" "ctx_frame (self s) ctx1 ctx2"
    using send_data_spec [OF ctx_frame_ok [OF fr ok] len, of ?h ack_overhead 0 ?s] by (auto simp: wpo_ex)
  obtain ctx3 where r: "removeSocketFromAckList (self s) ctx2 = Some ctx3"
    and ctx3: "ctx_frame (self s) ctx2 ctx3" "ctx_ok ctx3" "self s \<notin> set (ack_sockets ctx3)"
    using ctx_frame_remove [OF ctx2(1), of "self s"] by (auto simp: wpo_ex)
  have c: "calls ctx3 = calls ctx2" by (rule trace_remove [OF r])
  have up: "upcalls i ctx3 = upcalls i ctx" for i
    using send_data_trace(1) [OF d] up1 c by (simp add: upcalls_def)
  have "datagrams (self s) ctx3 = datagrams (self s) ctx @ [pf_bytes h @ ?e]" if "callbacks ctx UTP_SENDTO \<noteq> None"
    using send_data_trace(2) [OF d] that dg1 c l trace_ext_fields(1) [OF tr]
    by (auto simp: datagrams_def sizeof_PacketFormatV1_def)
  moreover have "pf_type h = ST_STATE" "pf_version h = 1" "pf_ack_nr h = ack_nr s" "pf_seq_nr h = seq_nr s"
    "pf_connid h = ucast (conn_id_send s)" "pf_ext h = (if ?e = [] then 0 else 1)" "pf_windowsize h = ucast w"
    using send_data_trace(3) [OF d] ack_header_fields [of ?s]
    by (auto simp: pf_type_def pf_version_def ack_header_def)
  ultimately have "ack_sent (s, ctx) (?s\<lparr>last_sent_packet := t\<rparr>, ctx3)"
    using w ctx3 up ctx_frame_trans [OF ctx_frame_trans [OF fr ctx2(2)] ctx3(1)]
    unfolding ack_sent_def prod.case by fastforce
  then show "wpo (send_data ?h ?r ?l ack_overhead 0 (?s, ctx1) \<bind> (\<lambda>(_, s2, ctx2).
     removeSocketFromAckList (self s2) ctx2 \<bind> (\<lambda>ctx3. Some (s2, ctx3)))) (ack_sent (s, ctx))"
    unfolding d by (simp add: r)
qed

lemma in_ok_slots:
  assumes "in_ok s" and "\<not> got_fin_reached s"
  shows "cb_get (inbuf s) (ucast (ack_nr s) + 1) = None" and "cb_get (inbuf s) (ucast (ack_nr s - 1) + 1) = None"
proof -
  let ?k = "cb_bits (inbuf s)" and ?n = "2 ^ cb_bits (inbuf s) :: nat"
  have ok: "cb_ok (inbuf s)" and l: "last (in_window s) = None" and h: "hd (in_window s) = None"
    using assms by (simp_all add: in_ok_def in_loop_def)
  show "cb_get (inbuf s) (ucast (ack_nr s) + 1) = None" using h by (simp add: in_window_hd)
  have "unat (ucast (ack_nr s) :: size_t) mod ?n = unat (ucast (ack_nr s) + of_nat ?n :: size_t) mod ?n"
    using cb.bits_le [OF ok] by (subst unat_add_of_nat_mod) simp_all
  also have "ucast (ack_nr s) + of_nat ?n = ucast (ack_nr s) + 1 + (of_nat (?n - 1) :: size_t)"
    by (simp add: of_nat_diff)
  finally have "cb_get (inbuf s) (ucast (ack_nr s)) = in_window s ! (?n - 1)"
    using in_slot_mod [OF ok, of "?n - 1"] by (simp add: cb_get_eq [OF ok])
  moreover have "cb_get (inbuf s) (ucast (ack_nr s - 1) + 1) = cb_get (inbuf s) (ucast (ack_nr s))"
    using ok by (rule cb_get_cong16) (simp add: ucast16)
  ultimately show "cb_get (inbuf s) (ucast (ack_nr s - 1) + 1) = None"
    using l by (simp add: last_conv_nth)
qed

lemma send_keep_alive_spec:
  assumes ok: "in_ok s" and ctx: "ctx_ok ctx" and app: "app_ok L ctx"
  shows "wpo (send_keep_alive (s, ctx)) (\<lambda>(s', ctx').
           ack_sent (s\<lparr>ack_nr := ack_nr s - 1\<rparr>, ctx) (s'\<lparr>ack_nr := ack_nr s - 1\<rparr>, ctx') \<and> ack_nr s' = ack_nr s)"
  unfolding send_keep_alive_def prod.case
proof (rule wpo_bindI [OF send_ack_spec [OF ctx app]])
  let ?s = "s\<lparr>ack_nr := ack_nr s - 1\<rparr>"
  show "reorder_count ?s \<noteq> 0 \<and> \<not> got_fin_reached ?s \<longrightarrow> \<not> False \<and> cb_get (inbuf ?s) (ucast (ack_nr ?s) + 1) = None"
    using in_ok_slots(2) [OF ok] by simp
  fix c assume c: "ack_sent (?s, ctx) c"
  obtain s1 ctx1 where s1: "c = (s1, ctx1)" by (cases c)
  have a: "ack_nr s1 = ack_nr s - 1" using c by (auto simp: s1 ack_sent_def)
  have "s1\<lparr>ack_nr := ack_nr s1\<rparr> = s1" by simp
  then have e: "s1\<lparr>ack_nr := ack_nr s - 1\<rparr> = s1" unfolding a .
  show "wpo (case c of (s1, ctx1) \<Rightarrow> Some (s1\<lparr>ack_nr := ack_nr s1 + 1\<rparr>, ctx1))
      (\<lambda>(s', ctx'). ack_sent (?s, ctx) (s'\<lparr>ack_nr := ack_nr s - 1\<rparr>, ctx') \<and> ack_nr s' = ack_nr s)"
    using c by (simp add: s1 a e)
qed

text \<open>The mask as the peer reads it: bit \<open>k mod 8\<close> of byte \<open>k div 8\<close>.\<close>

lemma ack_extension_bits:
  assumes "k < 32" and "reorder_count s \<noteq> 0" and "\<not> got_fin_reached s"
  shows "bit (ack_extension s ! (2 + k div 8)) (k mod 8) = bit (eack_mask s) k"
proof -
  have "k div 8 = 0 \<or> k div 8 = 1 \<or> k div 8 = 2 \<or> k div 8 = 3" using assms(1) by auto
  moreover have "k mod 8 = k - 8 * (k div 8)" "8 * (k div 8) \<le> k" "k mod 8 < 8" by (simp_all add: modulo_nat_def)
  ultimately show ?thesis
    using assms(2,3) by (elim disjE) (simp_all add: ack_extension_def Let_def bit_simps)
qed

text \<open>C30: on a socket whose reordering buffer is consistent, acks and keep-alives are sent without
  tripping an assertion. They change nothing of the socket but the advertised window and the time
  of the last packet, cancel the pending ack, and put exactly one datagram on the wire. Its header
  acks \<open>ack_nr\<close> (for a keep-alive the number before it), and while packets wait for reordering, it
  carries a selective ack in which bit \<open>k\<close> is set exactly when packet \<open>ack_nr + 2 + k\<close> has
  been received.\<close>

theorem acks_correct:
  assumes ok: "in_ok s" and ctx: "ctx_ok ctx" and app: "app_ok L ctx"
  shows "wpo (send_ack False (s, ctx)) (ack_sent (s, ctx)) \<and>
    wpo (send_keep_alive (s, ctx)) (\<lambda>(s', ctx').
      ack_sent (s\<lparr>ack_nr := ack_nr s - 1\<rparr>, ctx) (s'\<lparr>ack_nr := ack_nr s - 1\<rparr>, ctx') \<and> ack_nr s' = ack_nr s) \<and>
    (\<not> got_fin_reached s \<and> reorder_count s \<noteq> 0 \<longrightarrow>
      take 2 (ack_extension s) = [0, 4] \<and> length (ack_extension s) = 6 \<and>
      (\<forall>k < 32. bit (ack_extension s ! (2 + k div 8)) (k mod 8) \<longleftrightarrow>
         k < 30 \<and> Suc k < 2 ^ cb_bits (inbuf s) \<and> in_window s ! Suc k \<noteq> None))"
proof (intro conjI impI)
  show "wpo (send_ack False (s, ctx)) (ack_sent (s, ctx))"
    using in_ok_slots(1) [OF ok] by (intro send_ack_spec [OF ctx app]) auto
  show "wpo (send_keep_alive (s, ctx)) (\<lambda>(s', ctx').
      ack_sent (s\<lparr>ack_nr := ack_nr s - 1\<rparr>, ctx) (s'\<lparr>ack_nr := ack_nr s - 1\<rparr>, ctx') \<and> ack_nr s' = ack_nr s)"
    by (rule send_keep_alive_spec [OF assms])
  assume f: "\<not> got_fin_reached s \<and> reorder_count s \<noteq> 0"
  then show "take 2 (ack_extension s) = [0, 4]" "length (ack_extension s) = 6"
    by (simp_all add: ack_extension_def Let_def)
  show "\<forall>k < 32. bit (ack_extension s ! (2 + k div 8)) (k mod 8) \<longleftrightarrow>
         k < 30 \<and> Suc k < 2 ^ cb_bits (inbuf s) \<and> in_window s ! Suc k \<noteq> None"
    using f bit_eack_mask [OF ok] ack_extension_bits [of _ s] by blast
qed

lemma example_socket_in_ok: "in_ok example_socket"
proof -
  have b: "cb_bits (inbuf example_socket) = 4" "cb_ok (inbuf example_socket)" "inbuf example_socket = cb_new 4"
    by (simp_all add: example_socket_def zero_socket_def cb_bits_new cb_ok_new)
  have "in_window example_socket = replicate 16 None"
    by (rule nth_equalityI) (simp_all add: b in_window_nth cb_get_new cb_bits_new)
  then show ?thesis using b by (simp add: in_ok_def in_loop_def example_socket_def zero_socket_def)
qed

text \<open>A receiver that has got packet 3 while it waits for packet 1.\<close>

definition example_receiver :: UTPSocket where
  "example_receiver = example_socket\<lparr>opt_rcvbuf := 100000, inbuf := cb_put (cb_new 4) 3 (Some [7, 8]), reorder_count := 1\<rparr>"

lemma example_in_window:
  "in_window example_receiver = [None, None, Some [7, 8]] @ replicate 13 None"
proof -
  let ?b = "cb_new 4 :: byte list SizableCircularBuffer"
  have b: "cb_ok ?b" "cb_bits ?b = 4" by (simp_all add: cb_ok_new cb_bits_new)
  have "in_window example_receiver = ring_window cb_get (cb_put ?b (1 + of_nat 2) (Some [7, 8])) 1 16"
    by (simp add: in_window_def example_receiver_def example_socket_def zero_socket_def b)
  also have "\<dots> = (ring_window cb_get ?b 1 16)[2 := Some [7, 8]]" using b by (intro cb.window_put) simp_all
  also have "ring_window cb_get ?b 1 16 = replicate 16 None" by (rule nth_equalityI) (simp_all add: cb_get_new)
  finally show ?thesis by (simp add: numeral_eq_Suc)
qed

lemma example_in_ok: "in_ok example_receiver"
proof -
  have "cb_bits (inbuf example_receiver) = 4" "cb_ok (inbuf example_receiver)"
    by (simp_all add: example_receiver_def cb_bits_put cb_ok_put cb_ok_new cb_bits_new)
  then show ?thesis
    unfolding in_ok_def in_loop_def example_in_window by (simp add: example_receiver_def)
qed

theorem acks_correct_witness:
  "wpo (send_ack False (example_receiver, example_context)) (ack_sent (example_receiver, example_context)) \<and>
   length (ack_extension example_receiver) = 6 \<and>
   filter (\<lambda>k. bit (ack_extension example_receiver ! (2 + k div 8)) (k mod 8)) [0..<32] = [1]"
proof -
  have g: "\<not> got_fin_reached example_receiver" "reorder_count example_receiver \<noteq> 0"
    by (simp_all add: example_receiver_def example_socket_def zero_socket_def)
  have b: "cb_bits (inbuf example_receiver) = 4"
    by (simp add: example_receiver_def cb_bits_put cb_bits_new)
  have "(k < 30 \<and> Suc k < 2 ^ 4 \<and> in_window example_receiver ! Suc k \<noteq> None) = (k = 1)" for k
    unfolding example_in_window by (auto simp: nth_append nth_Cons split: nat.splits)
  then have "wpo (send_ack False (example_receiver, example_context)) (ack_sent (example_receiver, example_context))"
    "length (ack_extension example_receiver) = 6"
    and bits: "\<forall>k < 32. bit (ack_extension example_receiver ! (2 + k div 8)) (k mod 8) \<longleftrightarrow> k = 1"
    using acks_correct [OF example_in_ok example_ctx_ok example_app_ok] g b by simp_all
  moreover have "filter (\<lambda>k. bit (ack_extension example_receiver ! (2 + k div 8)) (k mod 8)) [0..<32] =
      filter (\<lambda>k. k = 1) [0..<32]" by (rule filter_cong) (use bits in simp_all)
  moreover have "filter (\<lambda>k. k = 1) [0..<32] = [1 :: nat]" by (simp add: upt_rec)
  ultimately show ?thesis by simp
qed

subsection \<open>The debug invariant\<close>

lemma fold_add_of_nat: "fold (\<lambda>i n. n + of_nat (f i)) xs n = n + (of_nat (sum_list (map f xs)) :: size_t)"
  by (induction xs arbitrary: n) (simp_all add: algebra_simps)

lemma outstanding_bytes_eq:
  assumes "out_ok T s"
  shows "outstanding_bytes s = of_nat (flight_bytes (out_window s))"
proof -
  let ?n = "unat (cur_window_packets s)" and ?w = "out_window s"
  have ok: "cb_ok (outbuf s)" using out_okD(1) [OF assms] .
  have slot: "cb_get (outbuf s) (ucast (seq_nr s) - of_nat i - 1) = ?w ! (?n - 1 - i)" if "i < ?n" for i
  proof (rule out_slot(1) [OF ok])
    have "of_nat (?n - 1 - i) = cur_window_packets s - 1 - (of_nat i :: uint16)"
      using that by (simp add: of_nat_diff)
    then show "(ucast (ucast (seq_nr s) - of_nat i - 1 :: size_t) :: uint16) =
        seq_nr s - cur_window_packets s + of_nat (?n - 1 - i)"
      by (simp add: ucast16)
  qed (use that in simp)
  have "outstanding_bytes s = fold (\<lambda>i n. n + of_nat (flight_size (?w ! (?n - 1 - i)))) [0..<?n] 0"
    unfolding outstanding_bytes_def
    by (rule fold_cong) (auto simp: slot flight_size_def in_flight_def fun_eq_iff split: option.splits)
  also have "\<dots> = of_nat (sum_list (map (\<lambda>i. flight_size (?w ! (?n - 1 - i))) [0..<?n]))"
    by (simp add: fold_add_of_nat)
  also have "map (\<lambda>i. flight_size (?w ! (?n - 1 - i))) [0..<?n] = rev (map flight_size ?w)"
    by (rule nth_equalityI) (simp_all add: rev_nth)
  finally show ?thesis by (simp add: flight_bytes_def sum_list_rev)
qed



end
