(* ===== verification/Utp_Reorder.thy ===== *)
theory Utp_Reorder
  imports Utp_Recv
begin

section \<open>Reordering\<close>

text \<open>
  The receiver keeps its reordering buffer consistent on every packet, and delivers the stream of
  the peer in order, whatever the network does to the packets.
\<close>

subsection \<open>What receiving leaves alone\<close>

definition rx_erase :: "UTPSocket \<Rightarrow> UTPSocket" where
  "rx_erase s = s\<lparr>got_fin := False, eof_pkt := 0, ack_nr := 0, got_fin_reached := False, rto_timeout := 0,
     reorder_count := 0, inbuf := cb_new 0, last_rcv_win := 0, last_sent_packet := 0\<rparr>"

definition rx_frame :: "UTPSocket \<Rightarrow> UTPSocket \<Rightarrow> bool" where
  "rx_frame s s' \<longleftrightarrow> rx_erase s' = rx_erase s"

text \<open>In the context, sending, reporting and the pending ack of socket \<open>i\<close>.\<close>

definition ctx_step :: "sid \<Rightarrow> utp_context \<Rightarrow> utp_context \<Rightarrow> bool" where
  "ctx_step i ctx ctx' \<longleftrightarrow> ctx_erase ctx' = ctx_erase ctx \<and> (\<exists>cs. calls ctx' = calls ctx @ cs) \<and>
     set (ack_sockets ctx') - {i} = set (ack_sockets ctx) - {i} \<and> (ctx_ok ctx \<longrightarrow> ctx_ok ctx')"

lemma rx_frame_refl [simp]: "rx_frame s s"
  by (simp add: rx_frame_def)

lemma rx_frame_trans: "rx_frame a b \<Longrightarrow> rx_frame b c \<Longrightarrow> rx_frame a c"
  by (simp add: rx_frame_def)

lemma rx_frame_update [simp]:
  "rx_frame s (s'\<lparr>got_fin := b\<rparr>) = rx_frame s s'" "rx_frame s (s'\<lparr>eof_pkt := n\<rparr>) = rx_frame s s'"
  "rx_frame s (s'\<lparr>ack_nr := n\<rparr>) = rx_frame s s'" "rx_frame s (s'\<lparr>got_fin_reached := b\<rparr>) = rx_frame s s'"
  "rx_frame s (s'\<lparr>rto_timeout := t\<rparr>) = rx_frame s s'" "rx_frame s (s'\<lparr>reorder_count := n\<rparr>) = rx_frame s s'"
  "rx_frame s (s'\<lparr>inbuf := r\<rparr>) = rx_frame s s'" "rx_frame s (s'\<lparr>last_rcv_win := w\<rparr>) = rx_frame s s'"
  "rx_frame s (s'\<lparr>last_sent_packet := t\<rparr>) = rx_frame s s'"
  by (simp_all add: rx_frame_def rx_erase_def)

lemma rx_frame_fields:
  assumes "rx_frame s s'"
  shows "self s' = self s" "read_shutdown s' = read_shutdown s" "state s' = state s"
    "outbuf s' = outbuf s" "seq_nr s' = seq_nr s" "cur_window s' = cur_window s"
    "cur_window_packets s' = cur_window_packets s"
  using assms by (cases s; cases s'; simp add: rx_frame_def rx_erase_def)+

lemma ctx_step_refl [simp]: "ctx_step i ctx ctx"
  by (simp add: ctx_step_def)

lemma ctx_step_trans [trans]: "ctx_step i a b \<Longrightarrow> ctx_step i b c \<Longrightarrow> ctx_step i a c"
  unfolding ctx_step_def by auto

lemma ctx_frame_step: "ctx_frame i ctx ctx' \<Longrightarrow> ctx_step i ctx ctx'"
  by (auto simp: ctx_frame_def ctx_step_def)

lemma ctx_step_call [simp]: "ctx_step i ctx (snd (utp_call name a ctx))"
  by (rule ctx_frame_step, rule trace_ext_ctx_frame) simp

lemma ctx_step_post_data [simp]: "ctx_step i ctx (post_data p (s, ctx))"
  by (simp add: post_data_def utp_call_on_read_def)

lemma ctx_step_schedule [simp]: "ctx_step i ctx (schedule_ack i ctx)"
proof -
  have "ctx_ok (schedule_ack i ctx)" if "ctx_ok ctx"
    using that schedule_ack_spec [of ctx i] by (simp add: ctx_ok_def) (simp add: schedule_ack_def)
  moreover have "set (ack_sockets (schedule_ack i ctx)) - {i} = set (ack_sockets ctx) - {i}"
    by (auto simp: schedule_ack_def)
  ultimately show ?thesis by (simp add: ctx_step_def) (simp add: schedule_ack_def ctx_erase_def)
qed

lemma ctx_step_fields:
  assumes "ctx_step i ctx ctx'"
  shows "callbacks ctx' = callbacks ctx" "current_ms ctx' = current_ms ctx" "utp_sockets ctx' = utp_sockets ctx"
    "socks ctx' = socks ctx"
  using assms by (cases ctx; cases ctx'; simp add: ctx_step_def ctx_erase_def)+

lemma ctx_step_ok: "ctx_step i ctx ctx' \<Longrightarrow> ctx_ok ctx \<Longrightarrow> ctx_ok ctx'"
  by (simp add: ctx_step_def)

lemma ctx_step_app: "ctx_step i ctx ctx' \<Longrightarrow> app_ok L ctx \<Longrightarrow> app_ok L ctx'"
  using app_ok_cong ctx_step_fields(1) by blast

lemma upcalls_schedule [simp]: "upcalls i (schedule_ack j ctx) = upcalls i ctx"
  by (simp add: upcalls_def schedule_ack_def)

lemma upcalls_post_data:
  assumes "callbacks ctx UTP_ON_READ \<noteq> None"
  shows "upcalls (self s) (post_data p (s, ctx)) =
         upcalls (self s) ctx @ (if p \<noteq> [] \<and> \<not> read_shutdown s then [On_Read (self s) p] else [])"
  using assms by (simp add: post_data_def utp_call_on_read_def)

subsection \<open>The loop\<close>

lemma check_eof_spec:
  assumes inv: "in_loop s" and ctx: "ctx_ok ctx" and app: "app_ok L ctx"
  shows "wpo (check_eof (s, ctx)) (\<lambda>(s', ctx'). in_loop s' \<and> rx_frame s s' \<and> ctx_step (self s) ctx ctx' \<and>
           in_window s' = in_window s \<and> inbuf s' = inbuf s \<and> ack_nr s' = ack_nr s \<and> got_fin s' = got_fin s \<and> eof_pkt s' = eof_pkt s \<and>
           (if \<not> got_fin_reached s \<and> got_fin s \<and> eof_pkt s = ack_nr s
            then got_fin_reached s' \<and> reorder_count s' = 0 \<and>
                 (callbacks ctx UTP_ON_STATE_CHANGE \<noteq> None \<longrightarrow>
                  upcalls (self s) ctx' = upcalls (self s) ctx @ [On_State_Change (self s) UTP_STATE_EOF])
            else s' = s \<and> ctx' = ctx))"
proof (cases "\<not> got_fin_reached s \<and> got_fin s \<and> eof_pkt s = ack_nr s")
  case True
  let ?s = "s\<lparr>got_fin_reached := True, rto_timeout := current_ms ctx + ucast (min (rto s * 3) 60)\<rparr>"
  let ?c = "utp_call_on_state_change ctx (self s) UTP_STATE_EOF"
  have st: "ctx_step (self s) ctx ?c" by (simp add: utp_call_on_state_change_def)
  have eq: "check_eof (s, ctx) = send_ack False (?s, ?c) \<bind> (\<lambda>(s2, ctx2). Some (s2\<lparr>reorder_count := 0\<rparr>, ctx2))"
    using True by (simp add: check_eof_def)
  show ?thesis
    unfolding eq
  proof (rule wpo_bindI [OF send_ack_spec [OF ctx_step_ok [OF st ctx] ctx_step_app [OF st app]]], simp, goal_cases)
    case (1 c)
    obtain w t ctx' where c: "c = (?s\<lparr>last_rcv_win := w, last_sent_packet := t\<rparr>, ctx')"
      and fr: "ctx_frame (self s) ?c ctx'" and up: "upcalls (self s) ctx' = upcalls (self s) ?c"
      using 1 by (cases c) (auto simp: ack_sent_def)
    have up': "callbacks ctx UTP_ON_STATE_CHANGE \<noteq> None \<Longrightarrow>
        upcalls (self s) ?c = upcalls (self s) ctx @ [On_State_Change (self s) UTP_STATE_EOF]"
      by (simp add: utp_call_on_state_change_def)
    have "ctx_step (self s) ctx ctx'" using ctx_step_trans [OF st ctx_frame_step [OF fr]] .
    then show ?case using True inv up up'
      by (simp add: c in_loop_def in_window_def)
  qed
next
  case False
  then have eq: "check_eof (s, ctx) = Some (s, ctx)" by (auto simp: check_eof_def)
  show ?thesis unfolding eq using False inv by auto
qed

definition taken :: "UTPSocket \<Rightarrow> UTPSocket" where
  "taken s = s\<lparr>ack_nr := ack_nr s + 1, inbuf := cb_put (inbuf s) (ucast (ack_nr s) + 1) None,
     reorder_count := reorder_count s - 1\<rparr>"

lemma take_reordered_eq:
  assumes "reorder_count s \<noteq> 0"
  shows "take_reordered p (s, ctx) = Some (taken s, post_data p (s, ctx))"
  using assms by (simp add: take_reordered_def taken_def post_data_def word_neq_0_conv)

lemma in_window_taken: "cb_ok (inbuf s) \<Longrightarrow> in_window (taken s) = tl (in_window s) @ [None]"
  by (rule in_window_step) (simp_all add: taken_def)

lemma stored_tl: "w \<noteq> [] \<Longrightarrow> hd w = Some p \<Longrightarrow> stored w = Suc (stored (tl w))"
  by (cases w) simp_all

lemma in_loop_taken:
  assumes "in_loop s" and "hd (in_window s) = Some p" and "reorder_count s \<noteq> 0"
  shows "in_loop (taken s)" and "stored (in_window (taken s)) < stored (in_window s)"
proof -
  have ok: "cb_ok (inbuf s)" using assms(1) by (simp add: in_loop_def)
  have st: "stored (in_window s) = Suc (stored (tl (in_window s)))" using assms(2) by (intro stored_tl) simp_all
  have r: "unat (reorder_count s - 1) = unat (reorder_count s) - 1"
    using assms(3) by (simp add: unat_sub word_le_nat_alt unat_eq_0 Suc_le_eq flip: neq0_conv)
  show "stored (in_window (taken s)) < stored (in_window s)" using st by (simp add: in_window_taken [OF ok])
  show "in_loop (taken s)"
    unfolding in_loop_def in_window_taken [OF ok] using assms(1) ok st r
    by (simp add: taken_def in_loop_def cb_ok_put)
qed

definition eof_checked :: "UTPSocket \<Rightarrow> bool" where
  "eof_checked s \<longleftrightarrow> (got_fin s \<and> eof_pkt s = ack_nr s \<longrightarrow> got_fin_reached s)"

lemma reorder_loop_rule:
  assumes "in_loop s" and "ctx_ok ctx" and "app_ok L ctx" and "P (s, ctx)"
    and fin: "\<And>s ctx. in_loop s \<Longrightarrow> ctx_ok ctx \<Longrightarrow> app_ok L ctx \<Longrightarrow> P (s, ctx) \<Longrightarrow> wpo (check_eof (s, ctx)) P"
    and del: "\<And>s ctx p. in_loop s \<Longrightarrow> ctx_ok ctx \<Longrightarrow> P (s, ctx) \<Longrightarrow> eof_checked s \<Longrightarrow> reorder_count s \<noteq> 0 \<Longrightarrow>
                hd (in_window s) = Some p \<Longrightarrow> P (taken s, post_data p (s, ctx))"
  shows "wpo (reorder_loop (s, ctx)) (\<lambda>(s', ctx'). in_ok s' \<and> rx_frame s s' \<and> ctx_step (self s) ctx ctx' \<and>
           eof_checked s' \<and> P (s', ctx'))"
  using assms(1-4)
proof (induction "stored (in_window s)" arbitrary: s ctx rule: less_induct)
  case less
  show ?case
  proof (subst reorder_loop.simps,
      rule wpo_bindI [OF wpo_conj [OF check_eof_spec [OF less.prems(1-3)] fin [OF less.prems]]], clarify, goal_cases)
    case (1 s1 ctx1)
    have s1: "in_loop s1" "rx_frame s s1" "ctx_step (self s) ctx ctx1" "in_window s1 = in_window s" "eof_checked s1"
      using 1 by (auto simp: eof_checked_def split: if_splits)
    have c1: "ctx_ok ctx1" "app_ok L ctx1" using s1(3) less.prems ctx_step_ok ctx_step_app by blast+
    show ?case
    proof (cases "reorder_count s1 = 0 \<or> hd (in_window s1) = None")
      case True
      have "\<not> got_fin_reached s1 \<Longrightarrow> hd (in_window s1) = None"
        using True s1(1) by (auto simp: in_loop_def stored_0_iff)
      then show ?thesis using True s1 1 by (auto simp: in_ok_def in_window_hd)
    next
      case False
      then obtain p where p: "hd (in_window s1) = Some p" "reorder_count s1 \<noteq> 0" by auto
      note t = in_loop_taken [OF s1(1) p]
      let ?s = "taken s1" and ?c = "post_data p (s1, ctx1)"
      have step: "ctx_step (self s) ctx ?c" using s1(3) ctx_step_post_data by (rule ctx_step_trans)
      have fr: "rx_frame s ?s" using s1(2) by (simp add: taken_def)
      have "wpo (reorder_loop (?s, ?c)) (\<lambda>(s', ctx'). in_ok s' \<and> rx_frame ?s s' \<and> ctx_step (self ?s) ?c ctx' \<and>
           eof_checked s' \<and> P (s', ctx'))"
        using t s1(4) c1 step less.prems del [OF s1(1) c1(1) _ s1(5) p(2,1)] 1
        by (intro less.hyps) (auto intro: ctx_step_ok ctx_step_app)
      then show ?thesis
        using p take_reordered_eq [OF p(2), of p ctx1] rx_frame_fields(1) [OF fr]
        by (auto simp: in_window_hd elim!: wpo_mono intro: rx_frame_trans [OF fr] ctx_step_trans [OF step])
    qed
  qed
qed

subsection \<open>In-order packets\<close>

lemma cb_put_None: "cb_get b i = None \<Longrightarrow> cb_put b i None = b"
  by (cases b) (simp add: cb_get_def cb_put_def list_update_same_conv, metis list_update_id)

lemma in_window_advance:
  assumes "cb_ok (inbuf s)" and "hd (in_window s) = None"
  shows "in_window (s\<lparr>ack_nr := ack_nr s + 1\<rparr>) = tl (in_window s) @ [None]"
  using assms(2)
  by (intro in_window_step [OF assms(1), where r = "reorder_count s"])
    (simp add: in_window_hd cb_put_None [of "inbuf s" "ucast (ack_nr s) + 1"])

lemma in_loop_advance:
  assumes "in_ok s"
  shows "in_loop (s\<lparr>ack_nr := ack_nr s + 1\<rparr>)"
proof (cases "got_fin_reached s")
  case True
  then show ?thesis using assms by (simp add: in_ok_def in_loop_def)
next
  case False
  then have h: "hd (in_window s) = None" and ok: "cb_ok (inbuf s)" using assms by (simp_all add: in_ok_def in_loop_def)
  have "stored (in_window s) = stored (tl (in_window s))"
    using h by (cases "in_window s") simp_all
  then show ?thesis
    using assms False unfolding in_ok_def in_loop_def in_window_advance [OF ok h] by simp
qed

lemma recv_in_order_rule:
  assumes inv: "in_ok s" and ctx: "ctx_ok ctx" and app: "app_ok L ctx"
    and P: "P (s\<lparr>ack_nr := ack_nr s + 1\<rparr>, post_data data (s, ctx))"
    and fin: "\<And>s ctx. in_loop s \<Longrightarrow> ctx_ok ctx \<Longrightarrow> app_ok L ctx \<Longrightarrow> P (s, ctx) \<Longrightarrow> wpo (check_eof (s, ctx)) P"
    and del: "\<And>s ctx p. in_loop s \<Longrightarrow> ctx_ok ctx \<Longrightarrow> P (s, ctx) \<Longrightarrow> eof_checked s \<Longrightarrow> reorder_count s \<noteq> 0 \<Longrightarrow>
                hd (in_window s) = Some p \<Longrightarrow> P (taken s, post_data p (s, ctx))"
  shows "wpo (recv_in_order data (s, ctx)) (\<lambda>(s', ctx'). in_ok s' \<and> rx_frame s s' \<and> ctx_step (self s) ctx ctx' \<and>
           eof_checked s' \<and> (\<exists>ctx2. P (s', ctx2) \<and> ctx' = schedule_ack (self s) ctx2))"
proof -
  let ?s = "s\<lparr>ack_nr := ack_nr s + 1\<rparr>" and ?c = "post_data data (s, ctx)"
  have st: "ctx_step (self s) ctx ?c" by simp
  have fr: "rx_frame s ?s" by simp
  have loop: "wpo (reorder_loop (?s, ?c)) (\<lambda>(s', ctx'). in_ok s' \<and> rx_frame ?s s' \<and> ctx_step (self ?s) ?c ctx' \<and>
       eof_checked s' \<and> P (s', ctx'))"
    by (rule reorder_loop_rule [where P = P, OF in_loop_advance [OF inv] ctx_step_ok [OF st ctx] ctx_step_app [OF st app] P])
      (fact fin, fact del)
  show ?thesis
    unfolding recv_in_order_def prod.case Let_def
  proof (rule wpo_bindI [OF loop], clarify, goal_cases)
    case (1 s2 ctx2)
    have s2: "rx_frame s s2" using fr 1 by (blast intro: rx_frame_trans)
    have "ctx_step (self s) ctx (schedule_ack (self s) ctx2)"
      using ctx_step_trans [OF ctx_step_trans [OF st] ctx_step_schedule] 1 by simp
    then show ?case using 1 s2 rx_frame_fields(1) [OF s2] by auto
  qed
qed

subsection \<open>Out-of-order packets\<close>

lemma relative_seqnr_eq: "relative_seqnr pk s = ucast (pk - ack_nr s - 1)"
  using mask16 [of "ucast pk - ucast (ack_nr s) - 1"]
  by (simp add: relative_seqnr_def SEQ_NR_MASK_def ACK_NR_MASK_def ucast16_diff32)

lemma relative_seqnr_pk: "pk = ack_nr s + 1 + of_nat (unat (relative_seqnr pk s))"
  by (simp add: relative_seqnr_eq unat_ucast_up)

lemma stored_less: "None \<in> set w \<Longrightarrow> stored w < length w"
  unfolding stored_def by (rule length_filter_less [of None]) simp_all

definition put_in :: "UTPSocket \<Rightarrow> UTPSocket \<Rightarrow> nat \<Rightarrow> byte list option \<Rightarrow> bool" where
  "put_in s s' j x \<longleftrightarrow> (\<exists>m. let w = in_window s @ replicate m None in j + 1 < length w \<and>
     (case x of None \<Rightarrow> in_window s' = w \<and> reorder_count s' = reorder_count s
      | Some b \<Rightarrow> w ! j = None \<and> in_window s' = w[j := Some b] \<and> reorder_count s' = reorder_count s + 1))"

lemma hd_update: "0 < j \<Longrightarrow> hd (xs[j := x]) = hd xs"
  by (cases xs; cases j) simp_all

lemma in_ok_put_in:
  assumes inv: "in_ok s" and cb: "cb_ok (inbuf s')" "cb_bits (inbuf s) \<le> cb_bits (inbuf s')"
    and gf: "got_fin_reached s' = got_fin_reached s" and put: "put_in s s' j x" and j: "0 < j"
  shows "in_ok s'"
proof (cases "got_fin_reached s")
  case True
  then show ?thesis using inv cb gf by (simp add: in_ok_def in_loop_def)
next
  case False
  then have h: "hd (in_window s) = None" and l: "last (in_window s) = None"
    and st: "unat (reorder_count s) = stored (in_window s)"
    using inv by (simp_all add: in_ok_def in_loop_def)
  obtain m where len: "j + 1 < length (in_window s @ replicate m None)"
    and x: "case x of None \<Rightarrow> in_window s' = in_window s @ replicate m None \<and> reorder_count s' = reorder_count s
      | Some b \<Rightarrow> (in_window s @ replicate m None) ! j = None \<and>
          in_window s' = (in_window s @ replicate m None)[j := Some b] \<and> reorder_count s' = reorder_count s + 1"
    using put by (auto simp: put_in_def Let_def split: option.splits)
  let ?w = "in_window s @ replicate m None"
  have w: "?w \<noteq> []" "hd ?w = None" "last ?w = None" "stored ?w = stored (in_window s)"
    using h l by (simp_all, cases m) simp_all
  have hl: "hd (in_window s') = None \<and> last (in_window s') = None"
    using x w(1-3) len j by (auto simp: hd_update last_list_update split: option.splits)
  have "unat (reorder_count s') = stored (in_window s')"
  proof (cases x)
    case None
    then show ?thesis using x st by simp
  next
    case (Some b)
    then have s': "stored (in_window s') = stored (in_window s) + 1" "reorder_count s' = reorder_count s + 1"
      using x stored_update [of j ?w b] len w(4) by auto
    have "stored (in_window s') < length (in_window s')"
      using hl by (intro stored_less) (metis hd_in_set in_window_ne)
    also have "\<dots> \<le> 2 ^ 16" using cb.bits_le [OF cb(1)] by (simp add: power_increasing [of _ 16 "2 :: nat", simplified])
    finally show ?thesis using s' st by (simp add: unat_word_ariths)
  qed
  then show ?thesis using hl inv cb by (simp add: in_ok_def in_loop_def)
qed

text \<open>Growing the buffer for packet \<open>pk\<close> leaves the window as it is and makes room behind it.\<close>

lemma in_window_put:
  assumes "cb_ok (inbuf s)" and "j < 2 ^ cb_bits (inbuf s)" and "(ucast (i :: size_t) :: uint16) = ack_nr s + 1 + of_nat j"
  shows "in_window (s\<lparr>inbuf := cb_put (inbuf s) i v\<rparr>) = (in_window s)[j := v]"
proof -
  have "cb_put (inbuf s) i v = cb_put (inbuf s) (ucast (ack_nr s) + 1 + of_nat j) v"
    using assms(1) by (rule cb_put_cong16) (simp add: assms(3) ucast16)
  then show ?thesis using cb.window_put [OF assms(1) _ assms(2)] by (simp add: in_window_def)
qed

lemma in_slots_differ:
  assumes ok: "cb_ok (inbuf s)" and j: "j < 2 ^ cb_bits (inbuf s)" and i: "(ucast (i :: size_t) :: uint16) = ack_nr s + 1 + of_nat j"
    and "0 < j"
  shows "i AND cb_mask (inbuf s) \<noteq> (ucast (ack_nr s) + 1) AND cb_mask (inbuf s)"
proof
  let ?b = "ucast (ack_nr s) + 1 :: size_t"
  assume "i AND cb_mask (inbuf s) = ?b AND cb_mask (inbuf s)"
  then have "unat i mod 2 ^ cb_bits (inbuf s) = unat ?b mod 2 ^ cb_bits (inbuf s)" by (metis cb_slot [OF ok])
  moreover have "unat i mod 2 ^ cb_bits (inbuf s) = unat (?b + of_nat j) mod 2 ^ cb_bits (inbuf s)"
    using ok by (rule slot_eq) (simp add: i ucast16)
  ultimately have "unat (?b + of_nat j) mod 2 ^ cb_bits (inbuf s) = unat (?b + of_nat 0) mod 2 ^ cb_bits (inbuf s)"
    by simp
  then show False using mod_pow2_add_inj [OF cb.bits_le_64 [OF ok] j, of 0 ?b] \<open>0 < j\<close> by simp
qed

lemma in_window_ensure:
  assumes ok: "cb_ok (inbuf s)" and r: "r = relative_seqnr pk s" "r \<le> 0x3ff"
  shows "wpo (cb_ensure_size (inbuf s) (ucast pk + 1) (ucast (r + 1))) (\<lambda>b. cb_ok b \<and> cb_bits (inbuf s) \<le> cb_bits b \<and>
           unat r + 1 < 2 ^ cb_bits b \<and>
           (\<exists>m. in_window (s\<lparr>inbuf := b\<rparr>) = in_window s @ replicate m None))"
proof -
  let ?i = "ucast (r + 1) :: size_t" and ?p = "ucast pk + 1 :: size_t"
  have r1: "unat (r + 1) = unat r + 1" using r(2) by (simp add: word_le_nat_alt unat_word_ariths)
  then have i: "unat ?i = unat r + 1" by (simp add: unat_ucast_up)
  then have i16: "unat ?i < 2 ^ 16" using r(2) by (simp add: word_le_nat_alt)
  have "(ucast x :: uint16) = of_nat (unat x)" for x :: size_t by simp
  note gi = this [of ?i, unfolded i]
  have pk: "pk = ack_nr s + 1 + of_nat (unat r)" using relative_seqnr_pk [of pk s] r(1) by simp
  have "(ucast (?p - ?i) :: uint16) = pk + 1 - (of_nat (unat r) + 1)" by (simp add: ucast16 gi)
  also have "\<dots> = ucast (ucast (ack_nr s) + 1 :: size_t)" unfolding pk by (simp add: ucast16)
  finally have "(ucast (?p - ?i) :: uint16) = ucast (ucast (ack_nr s) + 1 :: size_t)" .
  then have base: "unat (?p - ?i) mod 2 ^ 16 = unat (ucast (ack_nr s) + 1 :: size_t) mod 2 ^ 16"
    by (metis unat_ucast16)
  show ?thesis
  proof (rule wpo_mono [OF cb.full_window_ensure [OF ok i16]], clarify, intro conjI)
    fix b :: "byte list SizableCircularBuffer"
    assume b: "cb_ok b" and idx: "unat ?i < 2 ^ cb_bits b"
      and w: "ring_window cb_get b (?p - ?i) (2 ^ cb_bits b) = ring_window cb_get (inbuf s) (?p - ?i) (2 ^ cb_bits (inbuf s)) @
        replicate (2 ^ cb_bits b - 2 ^ cb_bits (inbuf s)) None"
    show "unat r + 1 < 2 ^ cb_bits b" using idx by (simp add: i)
    show "\<exists>m. in_window (s\<lparr>inbuf := b\<rparr>) = in_window s @ replicate m None"
      using w cb.window_cong [OF b base] cb.window_cong [OF ok base] by (auto simp: in_window_def)
  qed
qed

lemma recv_out_of_order_spec:
  assumes inv: "in_ok s" and r: "r = relative_seqnr pk s" and r0: "r \<noteq> 0"
  shows "wpo (recv_out_of_order pk r data (s, ctx)) (\<lambda>(st, s', ctx'). in_ok s' \<and> rx_frame s s' \<and>
           ctx_step (self s) ctx ctx' \<and> (\<forall>i. upcalls i ctx' = upcalls i ctx) \<and>
           ack_nr s' = ack_nr s \<and> got_fin s' = got_fin s \<and> eof_pkt s' = eof_pkt s \<and> got_fin_reached s' = got_fin_reached s \<and>
           (s' = s \<or> put_in s s' (unat r) (if st then Some (take (unat (of_nat (length data) :: uint32)) data) else None)))"
proof (cases "got_fin s \<and> eof_pkt s < pk \<or> 0x3ff < r")
  case True
  then show ?thesis using inv by (auto simp: recv_out_of_order_def)
next
  case False
  let ?mem = "take (unat (of_nat (length data) :: uint32)) data"
  have ok: "cb_ok (inbuf s)" and gf: "\<not> (got_fin s \<and> eof_pkt s < pk)" and r3: "\<not> 0x3ff < r" "r \<le> 0x3ff"
    using inv False by (auto simp: in_ok_def in_loop_def)
  have j: "0 < unat r" using r0 by (simp add: unat_gt_0)
  show ?thesis
    unfolding recv_out_of_order_def prod.case if_not_P [OF gf] if_not_P [OF r3(1)]
  proof (rule wpo_bindI [OF in_window_ensure [OF ok r r3(2)]], clarify)
    fix b m
    assume b: "cb_ok b" "cb_bits (inbuf s) \<le> cb_bits b" and rb: "unat r + 1 < 2 ^ cb_bits b"
      and w: "in_window (s\<lparr>inbuf := b\<rparr>) = in_window s @ replicate m None"
    let ?s = "s\<lparr>inbuf := b\<rparr>" and ?w = "in_window s @ replicate m None"
    have pk: "(ucast (ucast pk :: size_t) :: uint16) = ack_nr ?s + 1 + of_nat (unat r)"
      using relative_seqnr_pk [of pk s] r by simp
    have get: "cb_get b (ucast pk) = ?w ! unat r"
      using in_slot [OF _ _ pk] b(1) rb by (simp add: w)
    have lenw: "length ?w = 2 ^ cb_bits b" using length_in_window [of ?s] unfolding w by simp
    have ne: "ucast pk AND cb_mask b \<noteq> (ucast (ack_nr s) + 1) AND cb_mask b"
      using in_slots_differ [OF _ _ pk] b(1) rb j by simp
    have frame: "put_in s ?s (unat r) None" using w rb lenw unfolding put_in_def by (intro exI [of _ m]) simp
    show "wpo (let s1 = ?s in
        if cb_get (inbuf s1) (ucast pk) \<noteq> None then Some (False, s1, ctx)
        else do {
          let mem = ?mem;
          _ \<leftarrow> cassert (cb_get (inbuf s1) (ucast pk) = None);
          _ \<leftarrow> cassert (ucast pk AND cb_mask (inbuf s1) \<noteq> (ucast (ack_nr s1) + 1) AND cb_mask (inbuf s1));
          let s2 = s1\<lparr>inbuf := cb_put (inbuf s1) (ucast pk) (Some mem), reorder_count := reorder_count s1 + 1\<rparr>;
          Some (True, s2, schedule_ack (self s2) ctx)
        }) (\<lambda>(st, s', ctx'). in_ok s' \<and> rx_frame s s' \<and>
           ctx_step (self s) ctx ctx' \<and> (\<forall>i. upcalls i ctx' = upcalls i ctx) \<and>
           ack_nr s' = ack_nr s \<and> got_fin s' = got_fin s \<and> eof_pkt s' = eof_pkt s \<and> got_fin_reached s' = got_fin_reached s \<and>
           (s' = s \<or> put_in s s' (unat r) (if st then Some ?mem else None)))"
    proof (cases "?w ! unat r = None")
      case False
      then show ?thesis using in_ok_put_in [OF inv _ _ _ frame j] b frame by (simp add: get)
    next
      case True
      let ?s2 = "?s\<lparr>inbuf := cb_put b (ucast pk) (Some ?mem), reorder_count := reorder_count s + 1\<rparr>"
      have "in_window ?s2 = in_window (?s\<lparr>inbuf := cb_put (inbuf ?s) (ucast pk) (Some ?mem)\<rparr>)"
        by (simp add: in_window_def)
      also have "\<dots> = ?w[unat r := Some ?mem]"
        unfolding w [symmetric] using b(1) rb by (intro in_window_put [OF _ _ pk]) simp_all
      finally have "put_in s ?s2 (unat r) (Some ?mem)"
        using True rb lenw unfolding put_in_def by (intro exI [of _ m]) simp
      then show ?thesis
        using in_ok_put_in [OF inv, of ?s2 "unat r" "Some ?mem"] b j ne True by (simp add: get cb_ok_put)
    qed
  qed
qed

subsection \<open>Every packet\<close>

lemma got_fin_packet_simps [simp]:
  "in_ok (got_fin_packet fl pk s) = in_ok s" "in_window (got_fin_packet fl pk s) = in_window s"
  "rx_frame s (got_fin_packet fl pk s)" "self (got_fin_packet fl pk s) = self s"
  "relative_seqnr pk' (got_fin_packet fl pk s) = relative_seqnr pk' s" "ack_nr (got_fin_packet fl pk s) = ack_nr s"
  "got_fin_reached (got_fin_packet fl pk s) = got_fin_reached s" "read_shutdown (got_fin_packet fl pk s) = read_shutdown s"
  by (simp_all add: got_fin_packet_def in_ok_def in_loop_def in_window_def relative_seqnr_def)

lemma recv_data_keeps:
  assumes inv: "in_ok s" and ctx: "ctx_ok ctx" and app: "app_ok L ctx"
  shows "wpo (recv_data pk_flags pk_seq_nr (relative_seqnr pk_seq_nr s) data (s, ctx)) (\<lambda>(n, s', ctx').
           in_ok s' \<and> rx_frame s s' \<and> ctx_ok ctx' \<and> ctx_step (self s) ctx ctx' \<and> unat n \<le> length data)"
proof -
  let ?s = "got_fin_packet pk_flags pk_seq_nr s" and ?r = "relative_seqnr pk_seq_nr s"
  have inv': "in_ok ?s" and fr: "rx_frame s ?s" using inv by simp_all
  have n: "unat (of_nat (length data) :: size_t) \<le> length data" by (simp add: unat_of_nat)
  show ?thesis
  proof (cases "?r = 0")
    case True
    have "wpo (recv_in_order data (?s, ctx)) (\<lambda>(s', ctx'). in_ok s' \<and> rx_frame ?s s' \<and> ctx_step (self ?s) ctx ctx' \<and>
           eof_checked s' \<and> (\<exists>ctx2. True \<and> ctx' = schedule_ack (self ?s) ctx2))"
    proof (rule recv_in_order_rule [where P = "\<lambda>_. True", OF inv' ctx app TrueI])
      show "wpo (check_eof (s, ctx)) (\<lambda>_. True)" if "in_loop s" "ctx_ok ctx" "app_ok L ctx" for s ctx
        by (rule wpo_mono [OF check_eof_spec [OF that]]) simp
    qed simp
    then show ?thesis
      unfolding recv_data_def prod.case Let_def if_P [OF True]
      by (rule wpo_bindI) (use n ctx in \<open>auto intro: rx_frame_trans [OF fr] ctx_step_ok\<close>)
  next
    case False
    have r: "?r = relative_seqnr pk_seq_nr ?s" by simp
    show ?thesis
      unfolding recv_data_def prod.case Let_def if_not_P [OF False]
      by (rule wpo_bindI [OF recv_out_of_order_spec [OF inv' r False]])
        (use n ctx in \<open>auto intro: rx_frame_trans [OF fr] ctx_step_ok\<close>)
  qed
qed

text \<open>Whatever packet arrives on a socket whose reordering buffer is consistent, with any
  flags, sequence number and data: the receiver trips no assertion and ends, the buffer stays
  consistent, and nothing outside the receiving state of the socket and its pending ack changes.\<close>

lemma recv_data_safe:
  assumes inv: "in_ok s" and ctx: "ctx_ok ctx" and app: "app_ok L ctx"
  shows "wpo (recv_data pk_flags pk_seq_nr (relative_seqnr pk_seq_nr s) data (s, ctx)) (\<lambda>(n, s', ctx').
           in_ok s' \<and> rx_frame s s' \<and> ctx_ok ctx' \<and> ctx_step (self s) ctx ctx' \<and> unat n \<le> length data)"
  by (rule recv_data_keeps [OF assms])

end
