(* ===== verification/Utp_Incoming.thy ===== *)
theory Utp_Incoming
  imports Utp_Delay Utp_Reorder
begin

section \<open>Incoming packets\<close>

text \<open>
  \<^verbatim>\<open>utp_process_incoming\<close>, the handler of every packet that belongs to a connection. \<open>p\<close> are the
  bytes of the packet, \<open>slack\<close> the bytes that can be read behind it in the receive buffer.
\<close>

definition ACK_NR_ALLOWED_WINDOW :: uint16 where "ACK_NR_ALLOWED_WINDOW = of_nat DUPLICATE_ACKS_BEFORE_RESEND"

subsection \<open>The parts of the handler\<close>

text \<open>The ack number is older than what we wait for or was never sent.\<close>

definition invalid_ack_nr :: "byte \<Rightarrow> uint16 \<Rightarrow> UTPSocket \<Rightarrow> bool" where
  "invalid_ack_nr pk_flags pk_ack_nr s = (
     let curr_window = max (cur_window_packets s + ACK_NR_ALLOWED_WINDOW) ACK_NR_ALLOWED_WINDOW
     in (pk_flags \<noteq> ST_SYN \<or> state s \<noteq> CS_SYN_RECV) \<and>
        (wrapping_compare_less (ucast (seq_nr s) - 1) (ucast pk_ack_nr) ACK_NR_MASK \<or>
         wrapping_compare_less (ucast pk_ack_nr) (ucast (seq_nr s) - 1 - ucast curr_window) ACK_NR_MASK))"

text \<open>The selective ack that starts at offset \<open>i\<close> of the memory: the mask and its length.\<close>

definition selack_at :: "byte list \<Rightarrow> nat option \<Rightarrow> (byte list \<times> byte) option option" where
  "selack_at mem sel = (case sel of
       None \<Rightarrow> Some None
     | Some i \<Rightarrow> do {
         len \<leftarrow> byte_at mem (i - 1);
         Some (Some (drop i mem, len))
       })"

text \<open>The acked bytes, the delays and congestion control.\<close>

definition measure_ack ::
    "PacketFormatV1 \<Rightarrow> uint64 \<Rightarrow> nat \<Rightarrow> (byte list \<times> byte) option \<Rightarrow> conn \<Rightarrow> conn option" where
  "measure_ack pf time nacks selack = (\<lambda>(s, ctx). do {
     let (now, ctx1) = utp_call_get_microseconds ctx (Some (self s));
     (acked, min_rtt, s1, ctx2) \<leftarrow> count_acked 0 nacks now (0, 2 ^ 63 - 1, s, ctx1);
     (acked_bytes, min_rtt', ctx3) \<leftarrow>
       (case selack of
          None \<Rightarrow> Some (acked, min_rtt, ctx2)
        | Some (m, len) \<Rightarrow> do {
            (b, r, ctx3) \<leftarrow> selective_ack_bytes ((ucast (pf_ack_nr pf) + 2) AND ACK_NR_MASK) m len min_rtt (s1, ctx2);
            Some (acked + b, r, ctx3)
          });
     let s2 = record_their_delay (pf_tv_usec pf) time (current_ms ctx3) s1;
     let actual_delay = (if uint (pf_reply_micro pf) = INT_MAX then 0 else pf_reply_micro pf);
     s3 \<leftarrow> record_our_delay actual_delay (current_ms ctx3) s2;
     cassert (0 \<le> min_rtt');
     let s4 = limit_our_delay min_rtt' s3;
     if actual_delay \<noteq> 0 \<and> 1 \<le> acked_bytes then apply_ccontrol acked_bytes actual_delay min_rtt' (s4, ctx3)
     else Some (s4, ctx3)
   })"

text \<open>The advertised window, and the connection states that an ack changes.\<close>

definition update_user_window :: "PacketFormatV1 \<Rightarrow> conn \<Rightarrow> conn" where
  "update_user_window pf = (\<lambda>(s, ctx).
     let s1 = s\<lparr>max_window_user := ucast (pf_windowsize pf)\<rparr>
     in (if max_window_user s1 = 0 then s1\<lparr>zerowindow_time := current_ms ctx + 15000\<rparr> else s1, ctx))"

definition incoming_complete :: "byte \<Rightarrow> conn \<Rightarrow> conn" where
  "incoming_complete pk_flags = (\<lambda>(s, ctx).
     if pk_flags = ST_DATA \<and> state s = CS_SYN_RECV
     then (s\<lparr>state := CS_CONNECTED\<rparr>, utp_call_on_state_change ctx (self s) UTP_STATE_WRITABLE)
     else (s, ctx))"

definition outgoing_complete :: "byte \<Rightarrow> nat \<Rightarrow> conn \<Rightarrow> conn" where
  "outgoing_complete pk_flags nacks = (\<lambda>(s, ctx).
     if pk_flags = ST_STATE \<and> state s = CS_SYN_SENT
     then (s\<lparr>state := CS_CONNECTED\<rparr>,
           if callbacks ctx UTP_ON_CONNECT \<noteq> None then utp_call_on_connect ctx (self s)
           else utp_call_on_state_change ctx (self s) UTP_STATE_CONNECT)
     else if fin_sent s \<and> unat (cur_window_packets s) = nacks
     then let s1 = s\<lparr>fin_sent_acked := True\<rparr> in (if close_requested s1 then s1\<lparr>state := CS_DESTROY\<rparr> else s1, ctx)
     else (s, ctx))"

definition update_fast_resend :: "uint16 \<Rightarrow> UTPSocket \<Rightarrow> UTPSocket" where
  "update_fast_resend pk_ack_nr s =
     (if wrapping_compare_less (ucast (fast_resend_seq_nr s)) ((ucast pk_ack_nr + 1) AND ACK_NR_MASK) ACK_NR_MASK
      then s\<lparr>fast_resend_seq_nr := ucast ((ucast pk_ack_nr + 1 :: uint32) AND ACK_NR_MASK)\<rparr> else s)"

text \<open>The assertion that the oldest packet of the window exists.\<close>

definition assert_oldest :: "UTPSocket \<Rightarrow> unit option" where
  "assert_oldest s = cassert (cur_window_packets s = 0 \<or>
     cb_get (outbuf s) (ucast (seq_nr s) - ucast (cur_window_packets s)) \<noteq> None)"

definition advance_window :: "uint16 \<Rightarrow> nat \<Rightarrow> conn \<Rightarrow> conn option" where
  "advance_window pk_ack_nr nacks = (\<lambda>(s, ctx). do {
     (s1, ctx1) \<leftarrow> ack_loop nacks (update_fast_resend pk_ack_nr s, ctx);
     let s2 = trim_window s1;
     _ \<leftarrow> assert_oldest s2;
     c \<leftarrow> flush_nagle (s2, ctx1);
     fast_timeout_retry c
   })"

definition process_ack :: "PacketFormatV1 \<Rightarrow> byte \<Rightarrow> nat \<Rightarrow> conn \<Rightarrow> conn option" where
  "process_ack pf pk_flags nacks c =
     (if nacks \<le> unat (cur_window_packets (fst c))
      then advance_window (pf_ack_nr pf) nacks
             (outgoing_complete pk_flags nacks (incoming_complete pk_flags (update_user_window pf c)))
      else Some c)"

definition mark_writable :: "conn \<Rightarrow> conn" where
  "mark_writable = (\<lambda>(s, ctx).
     if state s = CS_CONNECTED_FULL then
       let (full, s1, ctx1) = is_full (- 1) (s, ctx)
       in if \<not> full then (s1\<lparr>state := CS_CONNECTED\<rparr>, utp_call_on_state_change ctx1 (self s) UTP_STATE_WRITABLE)
          else (s1, ctx1)
     else (s, ctx))"

subsection \<open>The handler\<close>

text \<open>The acknowledgment of a packet whose header is accepted.\<close>

definition handle_ack :: "PacketFormatV1 \<Rightarrow> uint64 \<Rightarrow> (byte list \<times> byte) option \<Rightarrow> conn \<Rightarrow> conn option" where
  "handle_ack pf time selack c0 = do {
     let pk_flags = pf_type pf;
     let nacks = ack_count (pf_ack_nr pf) (fst c0);
     c1 \<leftarrow> count_duplicate (pf_ack_nr pf) pk_flags c0;
     c2 \<leftarrow> measure_ack pf time nacks selack c1;
     c3 \<leftarrow> process_ack pf pk_flags nacks c2;
     c4 \<leftarrow> (case selack of
              None \<Rightarrow> Some c3
            | Some (m, len) \<Rightarrow> selective_ack (ucast (pf_ack_nr pf) + 2) m len c3);
     _ \<leftarrow> assert_oldest (fst c4);
     Some (mark_writable c4)
   }"

text \<open>From the acknowledgment on; \<open>data\<close> is the payload.\<close>

definition process_accepted ::
    "PacketFormatV1 \<Rightarrow> uint64 \<Rightarrow> uint32 \<Rightarrow> (byte list \<times> byte) option \<Rightarrow> byte list \<Rightarrow> conn \<Rightarrow> (size_t \<times> conn) option" where
  "process_accepted pf time seqnr selack data c0 = do {
     let pk_flags = pf_type pf;
     c5 \<leftarrow> handle_ack pf time selack c0;
     if pk_flags = ST_STATE then Some (0, c5)
     else if state (fst c5) \<noteq> CS_CONNECTED \<and> state (fst c5) \<noteq> CS_CONNECTED_FULL then Some (0, c5)
     else recv_data pk_flags (pf_seq_nr pf) seqnr data c5
   }"

definition process_parsed :: "byte list \<Rightarrow> byte list \<Rightarrow> bool \<Rightarrow> PacketFormatV1 \<Rightarrow> uint64 \<Rightarrow> ext_result \<Rightarrow> conn \<Rightarrow> (size_t \<times> conn) option" where
  "process_parsed p slack syn pf time r = (\<lambda>(s, ctx). do {
     let s1 = s\<lparr>extensions := ext_bits r\<rparr>;
     case r of
       Ext_Invalid _ \<Rightarrow> Some (0, (s1, ctx))
     | Ext_Ok _ sel data \<Rightarrow> do {
         let s2 = (if state s1 = CS_SYN_SENT
                   then s1\<lparr>ack_nr := ucast ((ucast (pf_seq_nr pf) - 1 :: uint32) AND SEQ_NR_MASK)\<rparr> else s1);
         let s3 = s2\<lparr>last_got_packet := current_ms ctx\<rparr>;
         if syn then Some (0, (s3, ctx))
         else do {
           let seqnr = relative_seqnr (pf_seq_nr pf) s3;
           if REORDER_BUFFER_MAX_SIZE \<le> seqnr then Some (0, drop_stray seqnr (pf_type pf) (s3, ctx))
           else do {
             selack \<leftarrow> selack_at (p @ slack) sel;
             process_accepted pf time seqnr selack (drop data p) (s3, ctx)
           }
         }
       }
   })"

definition utp_process_incoming :: "byte list \<Rightarrow> byte list \<Rightarrow> bool \<Rightarrow> conn \<Rightarrow> (size_t \<times> conn) option" where
  "utp_process_incoming p slack syn = (\<lambda>(s, ctx0). do {
     let ctx1 = utp_register_recv_packet ctx0 (of_nat (length p));
     let (ms, ctx2) = utp_call_get_milliseconds ctx1 (Some (self s));
     let ctx3 = ctx2\<lparr>current_ms := ms\<rparr>;
     pf \<leftarrow> pf_of_bytes (p @ slack);
     let pk_flags = pf_type pf;
     if ST_NUM_STATES \<le> pk_flags then Some (0, (s, ctx3))
     else do {
       let (time, ctx4) = utp_call_get_microseconds ctx3 (Some (self s));
       if invalid_ack_nr pk_flags (pf_ack_nr pf) s then Some (0, (s, ctx4))
       else do {
         cassert (pk_flags \<noteq> ST_RESET);
         if length p < sizeof_PacketFormatV1 then Some (0, (s, ctx4))
         else do {
           r \<leftarrow> parse_extensions p (extensions s);
           process_parsed p slack syn pf time r (s, ctx4)
         }
       }
     }
   })"

subsection \<open>The invariant of a connection\<close>

text \<open>While we wait for the answer to our SYN nothing has been received.\<close>

definition syn_ok :: "UTPSocket \<Rightarrow> bool" where
  "syn_ok s \<longleftrightarrow> state s \<noteq> CS_UNINITIALIZED \<and> (state s = CS_SYN_SENT \<longrightarrow> (\<forall>i. cb_get (inbuf s) i = None) \<and> reorder_count s = 0)"

definition sock_inv :: "nat \<Rightarrow> nat \<Rightarrow> nat \<Rightarrow> nat \<Rightarrow> conn \<Rightarrow> bool" where
  "sock_inv T L lo hi = (\<lambda>(s, ctx). ack_inv T L lo hi (s, ctx) \<and> out_ok T s \<and> in_ok s \<and> delay_ok s \<and> syn_ok s \<and>
     unat (opt_sndbuf s) < 2 ^ 40 \<and> length (extensions s) = 8)"

text \<open>What identifies the connection, and its configuration, stays.\<close>

definition same_conn :: "UTPSocket \<Rightarrow> UTPSocket \<Rightarrow> bool" where
  "same_conn s s' \<longleftrightarrow> self s' = self s \<and> addr s' = addr s \<and> conn_id_recv s' = conn_id_recv s \<and>
     conn_id_send s' = conn_id_send s \<and> conn_seed s' = conn_seed s \<and> seq_nr s' = seq_nr s \<and>
     opt_sndbuf s' = opt_sndbuf s \<and> opt_rcvbuf s' = opt_rcvbuf s \<and> target_delay s' = target_delay s \<and>
     userdata s' = userdata s \<and> read_shutdown s' = read_shutdown s \<and> close_requested s' = close_requested s \<and>
     fin_sent s' = fin_sent s"

text \<open>In the context the time, the packet counters, the trace and the pending ack of the socket change.\<close>

definition ctx_evolve :: "sid \<Rightarrow> utp_context \<Rightarrow> utp_context \<Rightarrow> bool" where
  "ctx_evolve i ctx ctx' \<longleftrightarrow> ctx_step i (ctx\<lparr>current_ms := 0, nraw_recv := []\<rparr>) (ctx'\<lparr>current_ms := 0, nraw_recv := []\<rparr>)"

text \<open>The fields that the sending invariant reads.\<close>

definition core :: "UTPSocket \<Rightarrow> _" where
  "core s = (outbuf s, seq_nr s, cur_window_packets s, cur_window s, rtt s,
     (mtu_floor s, mtu_ceiling s, mtu_last s, mtu_probe_seq s, mtu_probe_size s))"

definition rx_core :: "UTPSocket \<Rightarrow> _" where
  "rx_core s = (inbuf s, ack_nr s, reorder_count s, got_fin_reached s)"

definition delay_core :: "UTPSocket \<Rightarrow> _" where
  "delay_core s = (our_hist s, their_hist s, current_delay_samples s, current_delay_sum s, average_delay s, clock_drift s)"

text \<open>The invariant is kept; up to the delivery of the payload nothing of the receiving side changes.\<close>

definition conn_done :: "nat \<Rightarrow> nat \<Rightarrow> nat \<Rightarrow> nat \<Rightarrow> conn \<Rightarrow> conn \<Rightarrow> bool" where
  "conn_done T L lo hi = (\<lambda>(s, ctx) (s', ctx'). same_conn s s' \<and> ctx_evolve (self s) ctx ctx' \<and>
     unat (cur_window_packets s') \<le> unat (cur_window_packets s) \<and> (state s' = CS_SYN_SENT \<longrightarrow> state s = CS_SYN_SENT) \<and>
     sock_inv T L lo hi (s', ctx'))"

definition conn_step :: "nat \<Rightarrow> nat \<Rightarrow> nat \<Rightarrow> nat \<Rightarrow> conn \<Rightarrow> conn \<Rightarrow> bool" where
  "conn_step T L lo hi c c' \<longleftrightarrow> conn_done T L lo hi c c' \<and> rx_core (fst c') = rx_core (fst c)"

lemma same_conn_refl [simp]: "same_conn s s"
  by (simp add: same_conn_def)

lemma same_conn_trans: "same_conn a b \<Longrightarrow> same_conn b c \<Longrightarrow> same_conn a c"
  by (simp add: same_conn_def)

lemma ctx_evolve_refl [simp]: "ctx_evolve i ctx ctx"
  by (simp add: ctx_evolve_def)

lemma ctx_evolve_trans: "ctx_evolve i a b \<Longrightarrow> ctx_evolve i b c \<Longrightarrow> ctx_evolve i a c"
  unfolding ctx_evolve_def by (rule ctx_step_trans)

lemma ctx_step_evolve: "ctx_step i ctx ctx' \<Longrightarrow> ctx_evolve i ctx ctx'"
proof -
  assume st: "ctx_step i ctx ctx'"
  have "ctx_ok (c\<lparr>current_ms := 0, nraw_recv := []\<rparr>) = ctx_ok c" for c by (simp add: ctx_ok_def ack_ok_def)
  moreover have "ctx_erase (c\<lparr>current_ms := 0, nraw_recv := []\<rparr>) = (ctx_erase c)\<lparr>current_ms := 0, nraw_recv := []\<rparr>" for c
    by (simp add: ctx_erase_def)
  ultimately show ?thesis using st by (simp add: ctx_evolve_def ctx_step_def)
qed

lemma conn_done_trans: "conn_done T L lo hi a b \<Longrightarrow> conn_done T' L lo hi b c \<Longrightarrow> conn_done T' L lo hi a c"
  by (cases a; cases b; cases c) (auto simp: conn_done_def same_conn_def intro: ctx_evolve_trans)

lemma conn_doneD: "conn_done T L lo hi c c' \<Longrightarrow> sock_inv T L lo hi c'"
  by (cases c; cases c') (simp add: conn_done_def)

lemma conn_step_refl: "sock_inv T L lo hi c \<Longrightarrow> conn_step T L lo hi c c"
  by (cases c) (simp add: conn_step_def conn_done_def)

lemma conn_step_trans: "conn_step T L lo hi a b \<Longrightarrow> conn_step T' L lo hi b c \<Longrightarrow> conn_step T' L lo hi a c"
  unfolding conn_step_def using conn_done_trans [of T L lo hi a b T' c] by simp

lemma conn_stepD: "conn_step T L lo hi c c' \<Longrightarrow> sock_inv T L lo hi c'"
  unfolding conn_step_def by (blast dest: conn_doneD)

lemma in_ok_cong:
  assumes "inbuf s' = inbuf s" "ack_nr s' = ack_nr s" "reorder_count s' = reorder_count s" "got_fin_reached s' = got_fin_reached s"
  shows "in_ok s' = in_ok s"
  using assms by (simp add: in_ok_def in_loop_def in_window_def)

lemma ak_frame_same_conn: "ak_frame s s' \<Longrightarrow> same_conn s s'"
  by (cases s; cases s'; simp add: ak_frame_def ak_erase_def tx_erase_def mtu_erase_def same_conn_def)

lemma ak_frame_extensions: "ak_frame s s' \<Longrightarrow> extensions s' = extensions s"
  by (cases s; cases s'; simp add: ak_frame_def ak_erase_def tx_erase_def mtu_erase_def)

lemma ack_step_conn_step:
  assumes inv: "sock_inv T L lo hi c" and st: "ack_step T' L lo hi c c'" and out: "out_ok T' (fst c')"
  shows "conn_step T' L lo hi c c'"
proof -
  obtain s ctx s' ctx' where c: "c = (s, ctx)" "c' = (s', ctx')" by (cases c; cases c')
  have fr: "ak_frame s s'" "ctx_frame (self s) ctx ctx'" "ack_inv T' L lo hi (s', ctx')"
    "unat (cur_window_packets s') \<le> unat (cur_window_packets s)" using st by (simp_all add: ack_step_def c)
  note f = ak_frame_fields [OF fr(1)]
  have "in_ok s'" using inv in_ok_cong [OF f(6,4,7,9)] by (simp add: sock_inv_def c)
  moreover have "delay_ok s'" using inv f by (simp add: sock_inv_def delay_ok_def c)
  moreover have "syn_ok s'" using inv f by (simp add: sock_inv_def syn_ok_def c)
  ultimately show ?thesis
    using inv fr(3,4) out f(11) ak_frame_same_conn [OF fr(1)] ak_frame_extensions [OF fr(1)] ctx_step_evolve [OF ctx_frame_step [OF fr(2)]]
    by (simp add: conn_step_def conn_done_def sock_inv_def rx_core_def f c)
qed

lemma core_window:
  assumes "core s' = core s"
  shows "out_window s' = out_window s" "out_ok T s' = out_ok T s" "cur_window_packets s' = cur_window_packets s"
  using assms by (auto simp: core_def out_window_def out_base_def out_ok_def out_clean_def)

lemma core_ack_inv:
  assumes "core s' = core s" and "ack_inv T L lo hi (s, ctx)" and "unat (max_window s') < 2 ^ 40"
  shows "ack_inv T L lo hi (s', ctx)"
  using assms core_window(1) [OF assms(1)]
  by (auto simp: ack_inv_def out_mid_def mtu_ok_def times_ok_def out_clean_def out_base_def core_def)

lemma core_conn_step:
  assumes inv: "sock_inv T L lo hi (s, ctx)" and core: "core s' = core s" and same: "same_conn s s'"
    and rx: "rx_core s' = rx_core s" and dl: "delay_core s' = delay_core s" and mw: "unat (max_window s') < 2 ^ 40"
    and ext: "length (extensions s') = 8" and st: "state s' = CS_SYN_SENT \<longrightarrow> state s = CS_SYN_SENT"
    and un: "state s' = CS_UNINITIALIZED \<longrightarrow> state s = CS_UNINITIALIZED"
  shows "conn_step T L lo hi (s, ctx) (s', ctx)"
proof -
  have "in_ok s' = in_ok s" "delay_ok s' = delay_ok s" "syn_ok s \<longrightarrow> syn_ok s'"
    using rx dl st un in_ok_cong [of s' s] by (auto simp: rx_core_def delay_core_def delay_ok_def syn_ok_def)
  then show ?thesis
    using inv core_ack_inv [OF core _ mw] core_window(2,3) [OF core] same ext st
    by (simp add: conn_step_def conn_done_def sock_inv_def same_conn_def rx)
qed

lemma dl_conn_step:
  assumes inv: "sock_inv T L lo hi (s, ctx)" and fr: "dl_frame s s'" and ok: "delay_ok s'"
  shows "conn_step T L lo hi (s, ctx) (s', ctx)" "core s' = core s"
proof -
  show core: "core s' = core s" using fr by (cases s; cases s'; simp add: dl_frame_def dl_erase_def core_def)
  have eq: "max_window s' = max_window s" "extensions s' = extensions s" "state s' = state s" "rx_core s' = rx_core s" "same_conn s s'"
    using fr by (cases s; cases s'; simp add: dl_frame_def dl_erase_def rx_core_def same_conn_def)+
  have "in_ok s' = in_ok s" "syn_ok s' = syn_ok s"
    using eq in_ok_cong [of s' s] by (auto simp: rx_core_def syn_ok_def)
  moreover have inv1: "ack_inv T L lo hi (s, ctx)" using inv by (simp add: sock_inv_def)
  moreover from this have "unat (max_window s') < 2 ^ 40" using eq(1) by (simp add: ack_inv_def)
  note core_ack_inv [OF core inv1 this]
  ultimately show "conn_step T L lo hi (s, ctx) (s', ctx)"
    using inv core_window(2,3) [OF core] eq ok by (simp add: conn_step_def conn_done_def sock_inv_def same_conn_def)
qed

lemma trace_conn_step:
  assumes inv: "sock_inv T L lo hi (s, ctx)" and tr: "trace_ext ctx ctx'"
  shows "conn_step T L lo hi (s, ctx) (s, ctx')"
proof -
  have "ack_step T L lo hi (s, ctx) (s, ctx')"
    using inv by (intro ack_inv_update [OF _ tr]) (simp_all add: sock_inv_def ack_inv_def)
  then show ?thesis using inv by (intro ack_step_conn_step [OF inv]) (simp_all add: sock_inv_def)
qed

lemma cc_conn_step:
  assumes inv: "sock_inv T L lo hi (s, ctx)" and r: "cc_result k s s'"
  shows "conn_step T L lo hi (s, ctx) (s', ctx)" "core s' = core s"
proof -
  obtain a b w where s': "s' = s\<lparr>slow_start := a, ssthresh := b, max_window := w\<rparr>" using r unfolding cc_result_def by blast
  have "unat w \<le> max 10 (unat (opt_sndbuf s))" "unat (opt_sndbuf s) < 2 ^ 40"
    using r inv by (simp_all add: cc_result_def sock_inv_def s')
  then have "unat w < 2 ^ 40" by (simp add: max_def split: if_splits)
  then show "conn_step T L lo hi (s, ctx) (s', ctx)"
    using inv by (intro core_conn_step [OF inv]) (simp_all add: s' core_def rx_core_def delay_core_def same_conn_def sock_inv_def)
  show "core s' = core s" by (simp add: s' core_def)
qed

subsection \<open>The parts keep the invariant\<close>

definition selack_ok :: "(byte list \<times> byte) option \<Rightarrow> bool" where
  "selack_ok selack \<longleftrightarrow> (\<forall>m len. selack = Some (m, len) \<longrightarrow> unat len < length m)"

lemma acked_total_bound:
  assumes "acked_ok R (0 + n) b r" and "n \<le> 1024" and "unat b' \<le> 2 ^ 28"
  shows "unat (b + b') < 2 ^ 40" and "unat b < 2 ^ 40" and "0 < b + b' \<Longrightarrow> 0 < b \<or> 0 < b'"
proof -
  have b: "unat b \<le> 1024 * 2 ^ 16" using assms(1,2) by (simp add: acked_ok_def)
  moreover have "unat (b + b') \<le> unat b + unat b'" unfolding unat_word_ariths by (rule mod_less_eq_dividend)
  ultimately show "unat (b + b') < 2 ^ 40" "unat b < 2 ^ 40" using assms(3) by simp_all
  show "0 < b \<or> 0 < b'" if "0 < b + b'" using that by (cases "b = 0") (auto simp: word_gt_0)
qed

lemma measure_finish:
  assumes inv: "sock_inv T L lo hi (s, ctx)" and b: "unat b < 2 ^ 40" and r: "0 \<le> r" "0 < b \<Longrightarrow> r < INT_MAX"
  shows "wpo (do {
     let s2 = record_their_delay tv time ms s;
     s3 \<leftarrow> record_our_delay d ms s2;
     cassert (0 \<le> r);
     let s4 = limit_our_delay r s3;
     if d \<noteq> 0 \<and> 1 \<le> b then apply_ccontrol b d r (s4, ctx) else Some (s4, ctx)
   }) (\<lambda>c'. conn_step T L lo hi (s, ctx) c' \<and> core (fst c') = core s)"
proof -
  define s2 where "s2 = record_their_delay tv time ms s"
  have s2: "delay_ok s2" "dl_frame s s2" using inv record_their_delay_spec by (simp_all add: s2_def sock_inv_def)
  show ?thesis
    unfolding s2_def [symmetric] Let_def
  proof (rule wpo_bindI [OF record_our_delay_spec [OF s2(1)]])
    fix s3 assume s3: "delay_ok s3 \<and> dl_frame s2 s3"
    define s4 where "s4 = limit_our_delay r s3"
    have s4: "delay_ok s4" "dl_frame s s4"
      using limit_our_delay_spec [of s3 r] s3 s2(2) by (auto simp: s4_def intro: dl_frame_trans)
    note st = dl_conn_step [OF inv s4(2,1)]
    have "wpo (apply_ccontrol b d r (s4, ctx)) (\<lambda>c'. conn_step T L lo hi (s, ctx) c' \<and> core (fst c') = core s)"
      if pos: "1 \<le> b"
    proof -
      have inv4: "sock_inv T L lo hi (s4, ctx)" using st(1) by (rule conn_stepD)
      have "0 < b" using pos by (simp add: word_le_nat_alt word_less_nat_alt)
      moreover have "\<bar>clock_drift s4\<bar> \<le> 2 ^ 31" using s4(1) by (simp add: delay_ok_def delay_cap_def)
      moreover have "unat (get_packet_size s4) < 2 ^ 16" "unat (max_window s4) < 2 ^ 40"
        using inv4 get_packet_size_bounds(1) [of L s4] by (auto simp: sock_inv_def ack_inv_def)
      ultimately have "cc_pre b r s4" using b r by (simp add: cc_pre_def)
      from apply_ccontrol_spec [OF this] show ?thesis
      proof (rule wpo_mono, clarify)
        fix s' ctx' assume cc: "cc_result (cc_allowance b r s4) s4 s'" and tr: "trace_ext ctx ctx'"
        note step = cc_conn_step [OF inv4 cc]
        have "conn_step T L lo hi (s, ctx) (s', ctx')"
          using conn_step_trans [OF conn_step_trans [OF st(1) step(1)] trace_conn_step [OF conn_stepD [OF step(1)] tr]] .
        then show "conn_step T L lo hi (s, ctx) (s', ctx') \<and> core (fst (s', ctx')) = core s" using step(2) st(2) by simp
      qed
    qed
    then show "wpo (cassert (0 \<le> r) \<bind> (\<lambda>_. if d \<noteq> 0 \<and> 1 \<le> b then apply_ccontrol b d r (limit_our_delay r s3, ctx)
        else Some (limit_our_delay r s3, ctx))) (\<lambda>c'. conn_step T L lo hi (s, ctx) c' \<and> core (fst c') = core s)"
      using r(1) st by (simp flip: s4_def)
  qed
qed

lemma measure_ack_spec:
  assumes inv: "sock_inv T L lo hi (s, ctx)" and sp: "span lo hi" and n: "n \<le> unat (cur_window_packets s)" and sel: "selack_ok selack"
  shows "wpo (measure_ack pf time n selack (s, ctx)) (\<lambda>c'. conn_step T L lo hi (s, ctx) c' \<and>
           out_window (fst c') = out_window s \<and> cur_window_packets (fst c') = cur_window_packets s)"
    (is "wpo _ ?Q")
proof -
  obtain now ctx1 where t: "utp_call_get_microseconds ctx (Some (self s)) = (now, ctx1)" by fastforce
  have a: "ack_inv T L lo hi (s, ctx)" and out: "out_ok T s" using inv by (simp_all add: sock_inv_def)
  have st1: "conn_step T L lo hi (s, ctx) (s, ctx1)" by (rule trace_conn_step [OF inv trace_ext_microseconds [OF t]])
  have a1: "ack_inv T L lo hi (s, ctx1)" using conn_stepD [OF st1] by (simp add: sock_inv_def)
  have fresh: "0 \<le> sample_rtt now p r \<and> sample_rtt now p r < INT_MAX"
    if "Some p \<in> set (out_window s)" "0 < transmissions p" "0 \<le> r" for p r
    using sample_rtt_bounds [OF _ that(2) _ sp t that(3)] a that(1) by (auto simp: ack_inv_def times_ok_def)
  have n': "n \<le> 1024" using n out_okD(3) [OF out] by simp
  have "wpo (count_acked 0 n now (0, 2 ^ 63 - 1, s, ctx1)) (\<lambda>(b', r', s', ctx'). acked_ok (2 ^ 63 - 1) (0 + n) b' r' \<and>
      ack_step T L lo hi (s, ctx1) (s', ctx') \<and> out_window s' = out_window s \<and> out_ok T s' = out_ok T s \<and>
      cur_window_packets s' = cur_window_packets s)"
    using n n' by (intro count_acked_spec [OF a1 _ _ _ fresh]) (simp_all add: acked_ok_def)
  then show ?thesis
    unfolding measure_ack_def prod.case t Let_def
  proof (rule wpo_bindI, clarify, goal_cases)
    case (1 b r s1 ctx2)
    have acc: "acked_ok (2 ^ 63 - 1) (0 + n) b r" and w: "out_window s1 = out_window s" "cur_window_packets s1 = cur_window_packets s"
      and st: "ack_step T L lo hi (s, ctx1) (s1, ctx2)" and o1: "out_ok T s1" using 1(2-) out by simp_all
    have st2: "conn_step T L lo hi (s, ctx) (s1, ctx2)"
      using conn_step_trans [OF st1 ack_step_conn_step [OF conn_stepD [OF st1] st]] o1 by simp
    have inv2: "sock_inv T L lo hi (s1, ctx2)" using st2 by (rule conn_stepD)
    have fin: "wpo (do {
         let s2 = record_their_delay (pf_tv_usec pf) time (current_ms ctx3) s1;
         s3 \<leftarrow> record_our_delay d (current_ms ctx3) s2;
         cassert (0 \<le> r3);
         let s4 = limit_our_delay r3 s3;
         if d \<noteq> 0 \<and> 1 \<le> b3 then apply_ccontrol b3 d r3 (s4, ctx3) else Some (s4, ctx3)
       }) ?Q"
      if tr: "trace_ext ctx2 ctx3" and b3: "unat b3 < 2 ^ 40" and r3: "0 \<le> r3" "0 < b3 \<Longrightarrow> r3 < INT_MAX" for ctx3 b3 r3 d
    proof -
      have st3: "conn_step T L lo hi (s, ctx) (s1, ctx3)"
        by (rule conn_step_trans [OF st2 trace_conn_step [OF inv2 tr]])
      show ?thesis
        using w by (intro wpo_mono [OF measure_finish [OF conn_stepD [OF st3] b3 r3]])
          (auto dest: core_window(1,3) intro: conn_step_trans [OF st3])
    qed
    note tot = acked_total_bound [OF acc n']
    have r0: "0 \<le> r" "0 < b \<Longrightarrow> r < INT_MAX" using acc by (auto simp: acked_ok_def)
    show ?case
    proof (cases selack)
      case None
      have tb: "unat b < 2 ^ 40" using tot(2) [of 0] by simp
      show ?thesis
        unfolding None option.case bind.bind_lunit prod.case
        by (rule fin [unfolded Let_def, OF trace_ext_refl tb r0]) simp_all
    next
      case (Some x)
      obtain m len where x: "x = (m, len)" by (cases x)
      have len: "unat len < length m" using sel Some x by (simp add: selack_ok_def)
      have a2: "ack_inv T L lo hi (s1, ctx2)" using inv2 by (simp add: sock_inv_def)
      have "wpo (selective_ack_bytes base m len r (s1, ctx2) \<bind> (\<lambda>(b', r', ctx3). Some (b + b', r', ctx3)))
          (\<lambda>(b3, r3, ctx3). trace_ext ctx2 ctx3 \<and> unat b3 < 2 ^ 40 \<and> 0 \<le> r3 \<and> (0 < b3 \<longrightarrow> r3 < INT_MAX))" for base
      proof (rule wpo_bindI [OF selective_ack_bytes_spec [OF a2 sp len r0(1)]], clarify, goal_cases)
        case (1 b' r' ctx3)
        have "r' < INT_MAX" if "0 < b + b'"
          using tot(3) [OF 1(2) that] 1 r0(2) by auto
        then show ?case using 1 tot(1) [OF 1(2)] by simp
      qed
      then show ?thesis
        unfolding Some x option.case prod.case
      proof (rule wpo_bindI, clarify, goal_cases)
        case (1 b3 r3 ctx3)
        then show ?case by (intro fin [unfolded Let_def]) simp_all
      qed
    qed
  qed
qed

lemma assert_oldest_ok: "out_ok T s \<Longrightarrow> assert_oldest s = Some ()"
proof -
  assume out: "out_ok T s"
  have "cb_get (outbuf s) (ucast (seq_nr s) - ucast (cur_window_packets s)) \<noteq> None" if "cur_window_packets s \<noteq> 0"
  proof -
    have n: "0 < unat (cur_window_packets s)" using that by (simp add: unat_gt_0)
    then have "out_window s \<noteq> []" by (simp flip: length_0_conv)
    then show ?thesis using out out_base_slot [OF out n] by (simp add: out_ok_def hd_conv_nth)
  qed
  then show ?thesis by (auto simp: assert_oldest_def cassert_def)
qed

text \<open>The acked packets and those acked selectively before them have left the window.\<close>

definition window_advanced :: "nat \<Rightarrow> UTPSocket \<Rightarrow> UTPSocket \<Rightarrow> bool" where
  "window_advanced n s s' \<longleftrightarrow> (\<exists>k \<le> n.
     window_data (out_window s') = window_data (dropWhile (\<lambda>x. x = None) (drop k (out_window s))) \<and>
     (k < n \<longrightarrow> (\<exists>p. out_window s ! k = Some p \<and> transmissions p = 0)))"

lemma update_fast_resend_step:
  "ack_inv T L lo hi (s, ctx) \<Longrightarrow> ack_step T L lo hi (s, ctx) (update_fast_resend a s, ctx)"
  using ack_step_refl [of T L lo hi "(s, ctx)"] by (simp add: update_fast_resend_def ack_step_def)

lemma update_fast_resend_window [simp]:
  "out_window (update_fast_resend a s) = out_window s" "cur_window_packets (update_fast_resend a s) = cur_window_packets s"
  by (simp_all add: update_fast_resend_def)

lemma advance_window_spec:
  assumes inv: "ack_inv T L lo hi (s, ctx)" and sp: "span lo hi" and T: "T + 2 < 2 ^ 31" and n: "n \<le> unat (cur_window_packets s)"
  shows "wpo (advance_window a n (s, ctx)) (\<lambda>c'. ack_step (T + 2) L lo hi (s, ctx) c' \<and> out_ok (T + 2) (fst c') \<and>
           window_advanced n s (fst c'))"
proof -
  let ?s = "update_fast_resend a s"
  have st0: "ack_step T L lo hi (s, ctx) (?s, ctx)" by (rule update_fast_resend_step [OF inv])
  have "wpo (ack_loop n (?s, ctx)) (\<lambda>c'. ack_step T L lo hi (?s, ctx) c' \<and> acked_prefix n ?s (fst c'))"
    using n by (intro ack_loop_spec [OF ack_stepD [OF st0] sp]) simp
  then show ?thesis
    unfolding advance_window_def prod.case Let_def
  proof (rule wpo_bindI, clarify, goal_cases)
    case (1 s1 ctx1)
    have st1: "ack_step T L lo hi (s, ctx) (s1, ctx1)" using ack_step_trans [OF st0] 1(2) by simp
    obtain k where k: "k \<le> n" "out_window s1 = drop k (out_window s)"
      and stop: "k < n \<longrightarrow> (\<exists>p. out_window s ! k = Some p \<and> transmissions p = 0)"
      using 1(3) by (auto simp: acked_prefix_def)
    define s2 where "s2 = trim_window s1"
    have st2: "ack_step T L lo hi (s, ctx) (s2, ctx1)" and o2: "out_ok T s2"
      and w2: "out_window s2 = dropWhile (\<lambda>x. x = None) (drop k (out_window s))"
      using trim_window_spec [OF ack_stepD [OF st1]] ack_step_trans [OF st1] k(2) by (simp_all add: s2_def)
    have "wpo (flush_nagle (s2, ctx1)) (send_step (T + 1) L lo hi (s2, ctx1))"
      using T by (intro flush_nagle_spec [OF ack_stepD [OF st2] o2]) simp
    then show ?case
      unfolding s2_def [symmetric] assert_oldest_ok [OF o2] bind.bind_lunit
    proof (rule wpo_bindI)
      fix c3 assume n3: "send_step (T + 1) L lo hi (s2, ctx1) c3"
      obtain s3 ctx3 where c3: "c3 = (s3, ctx3)" by (cases c3)
      have "wpo (fast_timeout_retry (s3, ctx3)) (send_step (T + 1 + 1) L lo hi (s3, ctx3))"
        using T n3 by (intro fast_timeout_retry_spec) (simp_all add: c3 send_stepD)
      then show "wpo (fast_timeout_retry c3) (\<lambda>c'. ack_step (T + 2) L lo hi (s, ctx) c' \<and> out_ok (T + 2) (fst c') \<and> window_advanced n s (fst c'))"
        unfolding c3
      proof (rule wpo_mono)
        fix c' assume "send_step (T + 1 + 1) L lo hi (s3, ctx3) c'"
        then have c': "send_step (T + 2) L lo hi (s2, ctx1) c'" using send_step_trans [OF n3 [unfolded c3]] by simp
        then have "ack_step (T + 2) L lo hi (s, ctx) c'" using ack_step_trans [OF st2] by (simp add: send_step_def)
        moreover have "window_advanced n s (fst c')"
          unfolding window_advanced_def using c' k(1) stop w2 by (intro exI [of _ k]) (simp add: send_step_def)
        ultimately show "ack_step (T + 2) L lo hi (s, ctx) c' \<and> out_ok (T + 2) (fst c') \<and> window_advanced n s (fst c')"
          using c' by (simp add: send_step_def)
      qed
    qed
  qed
qed

lemma update_user_window_step:
  assumes inv: "sock_inv T L lo hi (s, ctx)"
  shows "conn_step T L lo hi (s, ctx) (update_user_window pf (s, ctx)) \<and> core (fst (update_user_window pf (s, ctx))) = core s"
  using inv by (auto simp: update_user_window_def Let_def core_def rx_core_def delay_core_def same_conn_def sock_inv_def ack_inv_def
      intro!: core_conn_step [OF inv])

lemma core_update [simp]:
  "core (s\<lparr>state := st\<rparr>) = core s" "core (s\<lparr>fin_sent_acked := b\<rparr>) = core s" "core (s\<lparr>last_maxed_out_window := t\<rparr>) = core s"
  "core (s\<lparr>last_got_packet := t\<rparr>) = core s" "core (s\<lparr>extensions := e\<rparr>) = core s" "core (s\<lparr>ack_nr := n\<rparr>) = core s"
  by (simp_all add: core_def)

text \<open>A change of the state that does not go back to the handshake, and a report to the application.\<close>

lemma state_conn_step:
  assumes inv: "sock_inv T L lo hi (s, ctx)" and "st \<noteq> CS_SYN_SENT" "st \<noteq> CS_UNINITIALIZED" and tr: "trace_ext ctx ctx'"
  shows "conn_step T L lo hi (s, ctx) (s\<lparr>state := st\<rparr>, ctx')"
    "conn_step T L lo hi (s, ctx) (s\<lparr>fin_sent_acked := True, state := st\<rparr>, ctx')"
    "conn_step T L lo hi (s, ctx) (s\<lparr>fin_sent_acked := True\<rparr>, ctx')"
proof -
  have "conn_step T L lo hi (s, ctx) (s\<lparr>state := st\<rparr>, ctx)" "conn_step T L lo hi (s, ctx) (s\<lparr>fin_sent_acked := True, state := st\<rparr>, ctx)"
    "conn_step T L lo hi (s, ctx) (s\<lparr>fin_sent_acked := True\<rparr>, ctx)"
    using inv assms(2,3)
    by (auto intro!: core_conn_step [OF inv] simp: rx_core_def delay_core_def same_conn_def sock_inv_def ack_inv_def)
  then show "conn_step T L lo hi (s, ctx) (s\<lparr>state := st\<rparr>, ctx')"
    "conn_step T L lo hi (s, ctx) (s\<lparr>fin_sent_acked := True, state := st\<rparr>, ctx')"
    "conn_step T L lo hi (s, ctx) (s\<lparr>fin_sent_acked := True\<rparr>, ctx')"
    using conn_step_trans [OF _ trace_conn_step [OF conn_stepD tr]] by blast+
qed

lemma incoming_complete_step:
  assumes inv: "sock_inv T L lo hi (s, ctx)"
  shows "conn_step T L lo hi (s, ctx) (incoming_complete fl (s, ctx)) \<and> core (fst (incoming_complete fl (s, ctx))) = core s"
  using conn_step_refl [OF inv] state_conn_step(1) [OF inv, of CS_CONNECTED]
  by (simp add: incoming_complete_def utp_call_on_state_change_def)

lemma outgoing_complete_step:
  assumes inv: "sock_inv T L lo hi (s, ctx)"
  shows "conn_step T L lo hi (s, ctx) (outgoing_complete fl n (s, ctx)) \<and> core (fst (outgoing_complete fl n (s, ctx))) = core s"
  using conn_step_refl [OF inv] state_conn_step [OF inv, of CS_CONNECTED] state_conn_step [OF inv, of CS_DESTROY]
  by (simp add: outgoing_complete_def utp_call_on_state_change_def utp_call_on_connect_def Let_def)

lemma process_ack_spec:
  assumes inv: "sock_inv T L lo hi (s, ctx)" and sp: "span lo hi" and T: "T + 2 < 2 ^ 31" and n: "n \<le> unat (cur_window_packets s)"
  shows "wpo (process_ack pf fl n (s, ctx)) (\<lambda>c'. conn_step (T + 2) L lo hi (s, ctx) c' \<and> window_advanced n s (fst c'))"
proof -
  obtain s1 ctx1 where 1: "update_user_window pf (s, ctx) = (s1, ctx1)" by fastforce
  obtain s2 ctx2 where 2: "incoming_complete fl (s1, ctx1) = (s2, ctx2)" by fastforce
  obtain s3 ctx3 where 3: "outgoing_complete fl n (s2, ctx2) = (s3, ctx3)" by fastforce
  have st1: "conn_step T L lo hi (s, ctx) (s1, ctx1)" "core s1 = core s" using update_user_window_step [OF inv, of pf] by (simp_all add: 1)
  have st2: "conn_step T L lo hi (s1, ctx1) (s2, ctx2)" "core s2 = core s1" using incoming_complete_step [OF conn_stepD [OF st1(1)], of fl] by (simp_all add: 2)
  have st3: "conn_step T L lo hi (s2, ctx2) (s3, ctx3)" "core s3 = core s2" using outgoing_complete_step [OF conn_stepD [OF st2(1)], of fl n] by (simp_all add: 3)
  have st: "conn_step T L lo hi (s, ctx) (s3, ctx3)" by (rule conn_step_trans [OF conn_step_trans [OF st1(1) st2(1)] st3(1)])
  have inv3: "sock_inv T L lo hi (s3, ctx3)" using st by (rule conn_stepD)
  have w: "out_window s3 = out_window s" "cur_window_packets s3 = cur_window_packets s"
    using core_window [of s3 s] st1(2) st2(2) st3(2) by simp_all
  have "wpo (advance_window (pf_ack_nr pf) n (s3, ctx3)) (\<lambda>c'. ack_step (T + 2) L lo hi (s3, ctx3) c' \<and> out_ok (T + 2) (fst c') \<and>
      window_advanced n s3 (fst c'))"
    using inv3 n w by (intro advance_window_spec [OF _ sp T]) (simp_all add: sock_inv_def)
  then show ?thesis
    using n unfolding process_ack_def fst_conv 1 2 3
    by (simp, elim wpo_mono) (auto simp: window_advanced_def w intro: conn_step_trans [OF st] ack_step_conn_step [OF inv3])
qed

lemma mark_writable_step:
  assumes inv: "sock_inv T L lo hi (s, ctx)"
  shows "conn_step T L lo hi (s, ctx) (mark_writable (s, ctx)) \<and> core (fst (mark_writable (s, ctx))) = core s"
proof -
  obtain full c1 where f: "is_full (- 1) (s, ctx) = (full, c1)" by (cases "is_full (- 1) (s, ctx)")
  have pre: "out_ok T s" "mtu_ok L s" using inv by (simp_all add: sock_inv_def ack_inv_def)
  have c1: "c1 = (if full then (s\<lparr>last_maxed_out_window := current_ms ctx\<rparr>, ctx) else (s, ctx))" by (rule is_full_spec(2) [OF pre f])
  let ?s = "s\<lparr>last_maxed_out_window := current_ms ctx\<rparr>"
  have "conn_step T L lo hi (s, ctx) (?s, ctx)" "core ?s = core s"
    using inv by (auto intro!: core_conn_step [OF inv] simp: core_def rx_core_def delay_core_def same_conn_def sock_inv_def ack_inv_def)
  then show ?thesis
    using conn_step_refl [OF inv] state_conn_step(1) [OF inv, of CS_CONNECTED] f c1
    by (auto simp: mark_writable_def utp_call_on_state_change_def Let_def)
qed

lemma ctx_step_time:
  assumes "ctx_step i ctx ctx'"
  shows "clock_ok lo hi ctx \<Longrightarrow> clock_ok lo hi ctx'" "times_ok lo ctx s \<Longrightarrow> times_ok lo ctx' s"
proof -
  have "reading ctx' = reading ctx" using ctx_step_fields(1) [OF assms] by (simp add: reading_def fun_eq_iff)
  moreover have "length (calls ctx) \<le> length (calls ctx')" using assms unfolding ctx_step_def by (elim conjE exE) simp
  ultimately show "clock_ok lo hi ctx \<Longrightarrow> clock_ok lo hi ctx'" "times_ok lo ctx s \<Longrightarrow> times_ok lo ctx' s"
    by (auto simp: clock_ok_def times_ok_def stamped_def)
qed

lemma rx_conn_done:
  assumes inv: "sock_inv T L lo hi (s, ctx)" and ok: "in_ok s'" and fr: "rx_frame s s'" and cs: "ctx_step (self s) ctx ctx'"
    and st: "state s \<noteq> CS_SYN_SENT"
  shows "conn_done T L lo hi (s, ctx) (s', ctx')"
proof -
  have core: "core s' = core s" and eq: "same_conn s s'" "delay_core s' = delay_core s" "max_window s' = max_window s"
      "extensions s' = extensions s" "state s' = state s"
    using fr by (cases s; cases s'; simp add: rx_frame_def rx_erase_def core_def same_conn_def delay_core_def)+
  have a: "ack_inv T L lo hi (s, ctx)" using inv by (simp add: sock_inv_def)
  moreover have "unat (max_window s') < 2 ^ 40" using a eq(3) by (simp add: ack_inv_def)
  ultimately have "ack_inv T L lo hi (s', ctx)" by (rule core_ack_inv [OF core])
  then have "ack_inv T L lo hi (s', ctx')"
    using ctx_step_time [OF cs] ctx_step_ok [OF cs] ctx_step_app [OF cs] by (simp add: ack_inv_def)
  moreover have "delay_ok s' = delay_ok s" using eq(2) by (simp add: delay_ok_def delay_core_def)
  moreover have "syn_ok s'" using inv st eq(5) by (simp add: sock_inv_def syn_ok_def)
  ultimately show ?thesis
    using inv ok core_window(2,3) [OF core] eq ctx_step_evolve [OF cs] by (simp add: conn_done_def sock_inv_def same_conn_def)
qed

lemma sack_step:
  assumes inv: "sock_inv (T + 2) L lo hi (s, ctx)" and sp: "span lo hi" and T: "T + 6 < 2 ^ 31" and sel: "selack_ok selack"
  shows "wpo (case selack of None \<Rightarrow> Some (s, ctx) | Some (m, len) \<Rightarrow> selective_ack base m len (s, ctx)) (conn_step (T + 6) L lo hi (s, ctx))"
proof (cases selack)
  case None
  have "ack_step (T + 6) L lo hi (s, ctx) (s, ctx)" "out_ok (T + 6) s"
    using inv ack_step_refl [OF ack_inv_mono [of "T + 2" L lo hi "(s, ctx)" "T + 6"]] out_ok_mono [of "T + 2" s "T + 6"]
    by (simp_all add: sock_inv_def)
  then show ?thesis using None ack_step_conn_step [OF inv] by simp
next
  case (Some x)
  obtain m len where x: "x = (m, len)" by (cases x)
  have len: "unat len < length m" using sel Some x by (simp add: selack_ok_def)
  have e: "T + 2 + 4 = T + 6" by simp
  have "wpo (selective_ack base m len (s, ctx)) (\<lambda>(s', ctx').
     ack_step (T + 6) L lo hi (s, ctx) (s', ctx') \<and> out_ok (T + 6) s' \<and>
     window_data (out_window s') = window_data (strike (sack_marks base m (8 * unat len) s) (out_window s)))"
    using inv T len by (intro selective_ack_spec [OF _ _ sp, of "T + 2", unfolded e]) (auto simp: sock_inv_def)
  then show ?thesis
    unfolding Some x option.case prod.case by (rule wpo_mono) (auto intro: ack_step_conn_step [OF inv])
qed

lemma handle_ack_spec:
  assumes inv: "sock_inv T L lo hi (s, ctx)" and sp: "span lo hi" and T: "T + 6 < 2 ^ 31" and sel: "selack_ok selack"
  shows "wpo (handle_ack pf time selack (s, ctx)) (conn_step (T + 6) L lo hi (s, ctx))"
proof -
  let ?n = "ack_count (pf_ack_nr pf) s" and ?a = "pf_ack_nr pf" and ?fl = "pf_type pf"
  have n: "?n \<le> unat (cur_window_packets s)" by (simp add: ack_count_def Let_def)
  have a: "ack_inv T L lo hi (s, ctx)" and out: "out_ok T s" using inv by (simp_all add: sock_inv_def)
  show ?thesis
    unfolding handle_ack_def Let_def fst_conv
  proof (rule wpo_bindI [OF count_duplicate_spec [OF a]], clarify, goal_cases)
    case (1 s1 ctx1)
    have st1: "conn_step T L lo hi (s, ctx) (s1, ctx1)" using 1 out by (intro ack_step_conn_step [OF inv]) simp_all
    have n1: "?n \<le> unat (cur_window_packets s1)" using n 1 by simp
    show ?case
    proof (rule wpo_bindI [OF measure_ack_spec [OF conn_stepD [OF st1] sp n1 sel]], clarify, goal_cases)
      case (1 s2 ctx2)
      have st2: "conn_step T L lo hi (s, ctx) (s2, ctx2)" by (rule conn_step_trans [OF st1 1(1)])
      have n2: "?n \<le> unat (cur_window_packets s2)" using n1 1 by simp
      have T2: "T + 2 < 2 ^ 31" using T by simp
      show ?case
      proof (rule wpo_bindI [OF process_ack_spec [OF conn_stepD [OF st2] sp T2 n2]], clarify, goal_cases)
        case (1 s3 ctx3)
        have st3: "conn_step (T + 2) L lo hi (s, ctx) (s3, ctx3)" by (rule conn_step_trans [OF st2 1(1)])
        note sack = sack_step [OF conn_stepD [OF st3] sp T sel, of "ucast ?a + 2"]
        show ?case
        proof (rule wpo_bindI [OF sack], goal_cases)
          case (1 c4)
          have st4: "conn_step (T + 6) L lo hi (s, ctx) c4" by (rule conn_step_trans [OF st3 1])
          obtain s4 ctx4 where c4: "c4 = (s4, ctx4)" by (cases c4)
          have o4: "out_ok (T + 6) s4" using conn_stepD [OF st4] by (simp add: sock_inv_def c4)
          have "conn_step (T + 6) L lo hi (s, ctx) (mark_writable (s4, ctx4))"
            using conn_step_trans [OF st4] mark_writable_step [OF conn_stepD [OF st4 [unfolded c4]]] by (simp add: c4)
          then show ?case by (simp add: assert_oldest_ok [OF o4] c4)
        qed
      qed
    qed
  qed
qed

lemma process_accepted_spec:
  assumes inv: "sock_inv T L lo hi (s, ctx)" and sp: "span lo hi" and T: "T + 6 < 2 ^ 31" and sel: "selack_ok selack"
  shows "wpo (process_accepted pf time (relative_seqnr (pf_seq_nr pf) s) selack data (s, ctx))
           (\<lambda>(n, c'). conn_done (T + 6) L lo hi (s, ctx) c' \<and> unat n \<le> length data)"
  unfolding process_accepted_def Let_def
proof (rule wpo_bindI [OF handle_ack_spec [OF assms]], clarify, goal_cases)
  case (1 s5 ctx5)
  have d5: "conn_done (T + 6) L lo hi (s, ctx) (s5, ctx5)" and "ack_nr s5 = ack_nr s"
    using 1 by (simp_all add: conn_step_def rx_core_def)
  then have sq: "relative_seqnr (pf_seq_nr pf) s = relative_seqnr (pf_seq_nr pf) s5" by (simp add: relative_seqnr_def)
  have inv5: "sock_inv (T + 6) L lo hi (s5, ctx5)" by (rule conn_stepD [OF 1])
  then have "in_ok s5" "ctx_ok ctx5" "app_ok L ctx5" by (simp_all add: sock_inv_def ack_inv_def)
  then have recv: "wpo (recv_data (pf_type pf) (pf_seq_nr pf) (relative_seqnr (pf_seq_nr pf) s) data (s5, ctx5)) (\<lambda>(n, s', ctx').
     in_ok s' \<and> rx_frame s5 s' \<and> ctx_ok ctx' \<and> ctx_step (self s5) ctx5 ctx' \<and> unat n \<le> length data)"
    unfolding sq by (rule recv_data_keeps)
  have "wpo (recv_data (pf_type pf) (pf_seq_nr pf) (relative_seqnr (pf_seq_nr pf) s) data (s5, ctx5))
     (\<lambda>(n, c'). conn_done (T + 6) L lo hi (s, ctx) c' \<and> unat n \<le> length data)" if "state s5 \<noteq> CS_SYN_SENT"
    using that by (intro wpo_mono [OF recv]) (auto intro: conn_done_trans [OF d5] rx_conn_done [OF inv5])
  then show ?case using d5 by auto
qed

subsection \<open>The handler keeps the invariant\<close>

lemma sock_inv_ctx [simp]:
  "sock_inv T L lo hi (s, ctx\<lparr>current_ms := ms\<rparr>) = sock_inv T L lo hi (s, ctx)"
  "sock_inv T L lo hi (s, ctx\<lparr>nraw_recv := c\<rparr>) = sock_inv T L lo hi (s, ctx)"
  by (simp_all add: sock_inv_def ack_inv_def ctx_ok_def ack_ok_def app_ok_cong [of "ctx\<lparr>current_ms := ms\<rparr>" ctx]
      app_ok_cong [of "ctx\<lparr>nraw_recv := c\<rparr>" ctx] clock_ok_def times_ok_def stamped_def reading_def)

lemma conn_done_clock:
  assumes inv: "sock_inv T L lo hi (s, ctx)" and ms: "utp_call_get_milliseconds (utp_register_recv_packet ctx len) a = (t, ctx1)"
  shows "conn_done T L lo hi (s, ctx) (s, ctx1\<lparr>current_ms := t'\<rparr>)"
proof -
  let ?c = "utp_register_recv_packet ctx len"
  have inv0: "sock_inv T L lo hi (s, ?c)" using inv by (simp add: utp_register_recv_packet_def Let_def)
  have "conn_step T L lo hi (s, ?c) (s, ctx1)" by (rule trace_conn_step [OF inv0 trace_ext_milliseconds [OF ms]])
  then have "sock_inv T L lo hi (s, ctx1)" "ctx_evolve (self s) ?c ctx1" by (simp_all add: conn_step_def conn_done_def)
  moreover have "ctx_evolve (self s) ctx ?c" "ctx_evolve (self s) ctx1 (ctx1\<lparr>current_ms := t'\<rparr>)"
    by (simp_all add: ctx_evolve_def utp_register_recv_packet_def Let_def)
  ultimately show ?thesis by (auto simp: conn_done_def intro: ctx_evolve_trans)
qed

lemma syn_ack_nr_in_ok:
  assumes "in_ok s" and "syn_ok s" and "state s = CS_SYN_SENT"
  shows "in_ok (s\<lparr>ack_nr := n\<rparr>)" "syn_ok (s\<lparr>ack_nr := n\<rparr>)"
proof -
  have e: "cb_get (inbuf s) i = None" "reorder_count s = 0" for i using assms(2,3) by (simp_all add: syn_ok_def)
  then show "syn_ok (s\<lparr>ack_nr := n\<rparr>)" using assms(3) by (simp add: syn_ok_def)
  have w: "in_window (s\<lparr>ack_nr := n\<rparr>) = replicate (2 ^ cb_bits (inbuf s)) None"
    by (rule nth_equalityI) (simp_all add: in_window_nth e)
  show "in_ok (s\<lparr>ack_nr := n\<rparr>)" using assms(1) e unfolding in_ok_def in_loop_def w by (simp add: hd_replicate last_replicate)
qed

lemma conn_done_header:
  assumes inv: "sock_inv T L lo hi (s, ctx)" and e: "length e = 8"
  shows "conn_done T L lo hi (s, ctx) (s\<lparr>extensions := e\<rparr>, ctx)"
    and "conn_done T L lo hi (s, ctx) ((if state s = CS_SYN_SENT then s\<lparr>extensions := e, ack_nr := n\<rparr> else s\<lparr>extensions := e\<rparr>)\<lparr>last_got_packet := t\<rparr>, ctx)"
proof -
  have st: "conn_step T L lo hi (s, ctx) (s\<lparr>extensions := e\<rparr>, ctx)" "conn_step T L lo hi (s, ctx) (s\<lparr>extensions := e, last_got_packet := t\<rparr>, ctx)"
    using inv e by (auto intro!: core_conn_step [OF inv] simp: rx_core_def delay_core_def same_conn_def sock_inv_def ack_inv_def)
  then show "conn_done T L lo hi (s, ctx) (s\<lparr>extensions := e\<rparr>, ctx)" by (simp add: conn_step_def)
  have "conn_done T L lo hi (s, ctx) (s\<lparr>extensions := e, ack_nr := n, last_got_packet := t\<rparr>, ctx)" if "state s = CS_SYN_SENT"
  proof -
    let ?s = "s\<lparr>extensions := e, last_got_packet := t\<rparr>"
    have i: "sock_inv T L lo hi (?s, ctx)" using st(2) by (rule conn_stepD)
    then have a: "ack_inv T L lo hi (?s, ctx)" "unat (max_window (?s\<lparr>ack_nr := n\<rparr>)) < 2 ^ 40" by (simp_all add: sock_inv_def ack_inv_def)
    have "in_ok (?s\<lparr>ack_nr := n\<rparr>)" "syn_ok (?s\<lparr>ack_nr := n\<rparr>)"
      using i that by (auto simp: sock_inv_def intro!: syn_ack_nr_in_ok)
    moreover have "ack_inv T L lo hi (?s\<lparr>ack_nr := n\<rparr>, ctx)" by (rule core_ack_inv [OF _ a]) simp
    moreover have "out_ok T (?s\<lparr>ack_nr := n\<rparr>)" using i core_window(2) [of "?s\<lparr>ack_nr := n\<rparr>" ?s] by (simp add: sock_inv_def)
    moreover have "delay_ok (?s\<lparr>ack_nr := n\<rparr>)" using i by (simp add: sock_inv_def delay_ok_def)
    ultimately have "conn_done T L lo hi (s, ctx) (?s\<lparr>ack_nr := n\<rparr>, ctx)"
      using i by (simp add: conn_done_def sock_inv_def same_conn_def)
    moreover have "?s\<lparr>ack_nr := n\<rparr> = s\<lparr>extensions := e, ack_nr := n, last_got_packet := t\<rparr>" by simp
    ultimately show ?thesis by (simp only:)
  qed
  then show "conn_done T L lo hi (s, ctx) ((if state s = CS_SYN_SENT then s\<lparr>extensions := e, ack_nr := n\<rparr> else s\<lparr>extensions := e\<rparr>)\<lparr>last_got_packet := t\<rparr>, ctx)"
    using st(2) by (simp add: conn_step_def)
qed

lemma selack_at_ok:
  assumes "ext_safe p (Ext_Ok e sel d)" and "slack \<noteq> []"
  obtains selack where "selack_at (p @ slack) sel = Some selack" "selack_ok selack"
proof (cases sel)
  case None
  then show ?thesis using that by (simp add: selack_at_def selack_ok_def)
next
  case (Some i)
  have i: "22 \<le> i" "i + unat (p ! (i - 1)) \<le> length p"
    using assms(1) Some by (auto simp: ext_safe_def sizeof_PacketFormatV1_def)
  then have lt: "i - 1 < length p" by linarith
  have "byte_at (p @ slack) (i - 1) = Some (p ! (i - 1))" using lt by (simp add: byte_at_def nth_append)
  moreover have "unat (p ! (i - 1)) < length (drop i (p @ slack))"
    using i(2) assms(2) by (cases slack) (simp_all add: less_diff_conv)
  ultimately show ?thesis using that [of "Some (drop i (p @ slack), p ! (i - 1))"] Some by (simp add: selack_at_def selack_ok_def)
qed

lemma drop_stray_done:
  assumes inv: "sock_inv T L lo hi (s, ctx)"
  shows "conn_done T L lo hi (s, ctx) (drop_stray q fl (s, ctx))"
proof -
  have st: "ctx_step (self s) ctx (schedule_ack (self s) ctx)" by simp
  have "sock_inv T L lo hi (s, schedule_ack (self s) ctx)"
    using inv ctx_step_time [OF st] ctx_step_ok [OF st] ctx_step_app [OF st] by (simp add: sock_inv_def ack_inv_def)
  then show ?thesis
    using inv ctx_step_evolve [OF st] by (simp add: drop_stray_def conn_done_def)
qed

lemma utp_process_incoming_keeps:
  assumes inv: "sock_inv T L lo hi (s, ctx)" and sp: "span lo hi" and T: "T + 6 < 2 ^ 31"
    and p: "20 \<le> length p" "length p < 2 ^ 31" and slack: "slack \<noteq> []" and rst: "drop_bit 4 (p ! 0) \<noteq> ST_RESET"
  shows "wpo (utp_process_incoming p slack syn (s, ctx)) (\<lambda>(n, c'). conn_done (T + 6) L lo hi (s, ctx) c' \<and> unat n \<le> length p)"
proof -
  obtain ms ctx2 where ms: "utp_call_get_milliseconds (utp_register_recv_packet ctx (of_nat (length p))) (Some (self s)) = (ms, ctx2)" by fastforce
  define ctx3 where "ctx3 = ctx2\<lparr>current_ms := ms\<rparr>"
  have d3: "conn_done T L lo hi (s, ctx) (s, ctx3)" unfolding ctx3_def by (rule conn_done_clock [OF inv ms])
  obtain pf where pf: "pf_of_bytes (p @ slack) = Some pf" "pf_type pf = drop_bit 4 (p ! 0)"
    using p(1) by (cases p) (simp_all add: pf_of_bytes_def pf_type_def sizeof_PacketFormatV1_def nth_append)
  obtain time ctx4 where time: "utp_call_get_microseconds ctx3 (Some (self s)) = (time, ctx4)" by fastforce
  have "conn_step T L lo hi (s, ctx3) (s, ctx4)" by (rule trace_conn_step [OF conn_doneD [OF d3] trace_ext_microseconds [OF time]])
  then have d4: "conn_done T L lo hi (s, ctx) (s, ctx4)" using conn_done_trans [OF d3] by (simp add: conn_step_def)
  have inv4: "sock_inv T L lo hi (s, ctx4)" by (rule conn_doneD [OF d4])
  have up: "conn_done T L lo hi (s, ctx) c \<Longrightarrow> conn_done (T + 6) L lo hi (s, ctx) c" for c
    using ack_inv_mono [of T L lo hi c "T + 6"] out_ok_mono [of T "fst c" "T + 6"]
    by (cases c) (simp add: conn_done_def sock_inv_def)
  have ext: "wpo (parse_extensions p (extensions s)) (ext_safe p)"
    using inv p by (intro parse_extensions_safe) (simp_all add: sock_inv_def sizeof_PacketFormatV1_def)
  have body: "wpo (process_parsed p slack syn pf time r (s, ctx4)) (\<lambda>(n, c'). conn_done (T + 6) L lo hi (s, ctx) c' \<and> unat n \<le> length p)" if r: "ext_safe p r" for r
  proof (cases r)
    case (Ext_Invalid e)
    then show ?thesis using r up [OF conn_done_trans [OF d4 conn_done_header(1) [OF inv4]]] by (simp add: ext_safe_def process_parsed_def)
  next
    case (Ext_Ok e sel data)
    define s3 where "s3 = (if state s = CS_SYN_SENT
       then s\<lparr>extensions := e, ack_nr := ucast ((ucast (pf_seq_nr pf) - 1 :: uint32) AND SEQ_NR_MASK)\<rparr>
       else s\<lparr>extensions := e\<rparr>)\<lparr>last_got_packet := current_ms ctx4\<rparr>"
    have d: "conn_done T L lo hi (s, ctx) (s3, ctx4)"
      unfolding s3_def using r Ext_Ok by (intro conn_done_trans [OF d4 conn_done_header(2) [OF inv4]]) (simp add: ext_safe_def)
    obtain selack where sel: "selack_at (p @ slack) sel = Some selack" "selack_ok selack"
      using selack_at_ok r slack unfolding Ext_Ok by blast
    have "wpo (process_accepted pf time (relative_seqnr (pf_seq_nr pf) s3) selack (drop data p) (s3, ctx4))
        (\<lambda>(n, c'). conn_done (T + 6) L lo hi (s, ctx) c' \<and> unat n \<le> length p)"
      by (rule wpo_mono [OF process_accepted_spec [OF conn_doneD [OF d] sp T sel(2)]]) (auto intro: conn_done_trans [OF d])
    moreover have "conn_done (T + 6) L lo hi (s, ctx) (drop_stray q (pf_type pf) (s3, ctx4))" for q
      by (rule up [OF conn_done_trans [OF d drop_stray_done [OF conn_doneD [OF d]]]])
    moreover have "(if state (s\<lparr>extensions := e\<rparr>) = CS_SYN_SENT
        then s\<lparr>extensions := e\<rparr>\<lparr>ack_nr := ucast ((ucast (pf_seq_nr pf) - 1 :: uint32) AND SEQ_NR_MASK)\<rparr>
        else s\<lparr>extensions := e\<rparr>)\<lparr>last_got_packet := current_ms ctx4\<rparr> = s3" by (simp add: s3_def)
    ultimately show ?thesis using up [OF d]
      by (simp only: process_parsed_def Ext_Ok ext_result.case ext_result.sel Let_def sel(1) bind.bind_lunit wpo_Some prod.case split: if_split) simp
  qed
  show ?thesis
    unfolding utp_process_incoming_def prod.case ms Let_def ctx3_def [symmetric] pf(1) bind.bind_lunit time
    using up [OF d3] up [OF d4] rst p(1) wpo_bindI [OF ext body] by (simp add: pf(2) sizeof_PacketFormatV1_def Let_def)
qed

subsection \<open>Properties\<close>


text \<open>C11: An ack moves the window past the packets that it acknowledges: of \<open>n\<close> acked packets, all of them sent or already
  acked selectively, none is left, and neither is an empty slot at the new end of the window; the packets
  behind them keep their order and contents, and the invariant holds again.\<close>

theorem cumulative_ack_advances:
  assumes "sock_inv T L lo hi (s, ctx)" and "span lo hi" and "T + 2 < 2 ^ 31" and "n \<le> unat (cur_window_packets s)"
    and "\<And>k p. k < n \<Longrightarrow> out_window s ! k = Some p \<Longrightarrow> 0 < transmissions p"
  shows "\<exists>s' ctx'. process_ack pf fl n (s, ctx) = Some (s', ctx') \<and>
     window_data (out_window s') = window_data (dropWhile (\<lambda>x. x = None) (drop n (out_window s))) \<and>
     sock_inv (T + 2) L lo hi (s', ctx')"
proof -
  obtain s' ctx' where r: "process_ack pf fl n (s, ctx) = Some (s', ctx')" and st: "conn_step (T + 2) L lo hi (s, ctx) (s', ctx')"
    and w: "window_advanced n s s'"
    using process_ack_spec [OF assms(1-4), of pf fl] unfolding wpo_ex by fastforce
  have "window_data (out_window s') = window_data (dropWhile (\<lambda>x. x = None) (drop n (out_window s)))"
    using w assms(5) unfolding window_advanced_def by (metis le_neq_implies_less less_irrefl)
  then show ?thesis using r conn_stepD [OF st] by blast
qed

lemma example_sender_inv: "sock_inv 1 100 500 1000 (example_sender, example_stopped)"
proof -
  have "inbuf example_sender = inbuf example_socket" "ack_nr example_sender = ack_nr example_socket"
    "reorder_count example_sender = reorder_count example_socket" "got_fin_reached example_sender = got_fin_reached example_socket"
    by (simp_all add: example_sender_def)
  then have "in_ok example_sender" using example_socket_in_ok in_ok_cong by blast
  moreover have "delay_ok example_sender" "syn_ok example_sender" "unat (opt_sndbuf example_sender) < 2 ^ 40" "length (extensions example_sender) = 8"
    by (simp_all add: delay_ok_def syn_ok_def delay_cap_def example_sender_def example_socket_def zero_socket_def)
  ultimately show ?thesis using example_sender_ok by (simp add: sock_inv_def)
qed

text \<open>A data packet with a selective ack of four bytes, an ack number of 1 and three bytes of payload.\<close>

definition example_datagram :: "byte list" where
  "example_datagram = [1, 1, 0, 7, 0, 0, 0, 9, 0, 0, 0, 5, 0, 1, 0, 0, 0, 1, 0, 1, 0, 4, 1, 0, 0, 0, 104, 101, 121]"


theorem cumulative_ack_advances_witness:
  "\<exists>s' ctx'. process_ack (pf_zero\<lparr>pf_windowsize := 5000\<rparr>) ST_STATE 2 (example_sender, example_stopped) = Some (s', ctx') \<and>
     window_data (out_window s') = [Some (pkt_data example_sent)]"
proof -
  have n: "2 \<le> unat (cur_window_packets example_sender)" by (simp add: example_sender_def)
  have sp: "span 500 1000" by (simp add: span_def)
  have "0 < transmissions p" if "k < 2" "out_window example_sender ! k = Some p" for k p
    using that by (auto simp: example_sender_window example_sent_def)
  then obtain s' ctx' where "process_ack (pf_zero\<lparr>pf_windowsize := 5000\<rparr>) ST_STATE 2 (example_sender, example_stopped) = Some (s', ctx')"
     "window_data (out_window s') = window_data (dropWhile (\<lambda>x. x = None) (drop 2 (out_window example_sender)))"
    using cumulative_ack_advances [OF example_sender_inv sp _ n, of "pf_zero\<lparr>pf_windowsize := 5000\<rparr>" ST_STATE] by auto
  then show ?thesis by (simp add: example_sender_window window_data_def numeral_eq_Suc)
qed

text \<open>C38: The byte behind the datagram is really needed. A selective ack whose mask ends with the memory that can be read makes
  \<^verbatim>\<open>selective_ack_bytes\<close>, which counts its bits from \<open>8 * len\<close> instead of \<open>8 * len - 1\<close>, read one byte past
  the end as soon as the packet that this bit stands for lies in the window.\<close>

theorem selective_ack_overread:
  assumes "unat len = length m" and "cur_window_packets s \<noteq> 0"
    and "\<not> outside_window (base + of_nat (8 * length m)) s"
    and "cb_get (outbuf s) (ucast (base + of_nat (8 * length m))) = Some p" and "0 < transmissions p"
  shows "selective_ack_bytes base m len min_rtt (s, ctx) = None"
proof -
  have "mask_bit m (8 * int (length m)) = None" by (simp add: mask_bit_def mask_byte_def nat_mult_distrib)
  then have "selective_ack_bytes_bit base m now s (8 * int (length m)) acc = None" for now acc
    using assms(3-5) by (cases acc) (simp add: selective_ack_bytes_bit_def)
  then have "selective_ack_bytes_loop (length m * 8 + 1) base m now s acc = None" for now acc
    by (subst selective_ack_bytes_loop.simps) (simp add: mult.commute)
  then show ?thesis using assms(1,2) by (simp add: selective_ack_bytes_def split: prod.split)
qed

text \<open>A packet may carry an empty mask as its last bytes.\<close>

theorem selective_ack_overread_witness:
  "selective_ack_bytes 2 [] 0 50000 (example_sender, example_stopped) = None"
proof (rule selective_ack_overread)
  show "cb_get (outbuf example_sender) (ucast (2 + of_nat (8 * length ([] :: byte list)) :: uint32)) = Some example_sent"
    using arg_cong [OF example_sender_ring, of "\<lambda>w. w ! 1"] by (simp add: nth_append)
qed (simp_all add: outside_window_def example_sender_def example_socket_def zero_socket_def ACK_NR_MASK_def example_sent_def word_le_nat_alt)

end
