(* ===== verification/Utp_Timeouts.thy ===== *)
theory Utp_Timeouts
  imports Utp_Incoming
begin

section \<open>Timers of a connection\<close>

text \<open>
  \<^verbatim>\<open>UTPSocket::check_timeouts\<close>: what a socket does when the application lets time pass. It flushes
  queued packets, gives up or retransmits when the retransmission timer has run out, makes the socket
  writable again and sends keep-alives.
\<close>

definition PACKET_SIZE :: size_t where "PACKET_SIZE = 1435"
definition KEEPALIVE_INTERVAL :: int where "KEEPALIVE_INTERVAL = 29000"

text \<open>The states in the order of the enumeration.\<close>

fun state_nr :: "CONN_STATE \<Rightarrow> nat" where
  "state_nr CS_UNINITIALIZED = 0"
| "state_nr CS_IDLE = 1"
| "state_nr CS_SYN_SENT = 2"
| "state_nr CS_SYN_RECV = 3"
| "state_nr CS_CONNECTED = 4"
| "state_nr CS_CONNECTED_FULL = 5"
| "state_nr CS_RESET = 6"
| "state_nr CS_DESTROY = 7"

instantiation CONN_STATE :: linorder
begin

definition less_eq_CONN_STATE :: "CONN_STATE \<Rightarrow> CONN_STATE \<Rightarrow> bool" where
  "less_eq_CONN_STATE a b \<longleftrightarrow> state_nr a \<le> state_nr b"

definition less_CONN_STATE :: "CONN_STATE \<Rightarrow> CONN_STATE \<Rightarrow> bool" where
  "less_CONN_STATE a b \<longleftrightarrow> state_nr a < state_nr b"

instance
proof
  fix a b :: CONN_STATE
  show "a \<le> b \<Longrightarrow> b \<le> a \<Longrightarrow> a = b" by (cases a; cases b) (simp_all add: less_eq_CONN_STATE_def)
qed (auto simp: less_eq_CONN_STATE_def less_CONN_STATE_def)

end

subsection \<open>The parts of the handler\<close>

text \<open>The only outstanding packet was the MTU probe: the loss says nothing about congestion.\<close>

definition probe_timed_out :: "UTPSocket \<Rightarrow> bool" where
  "probe_timed_out s \<longleftrightarrow> cur_window_packets s = 1 \<and>
     (ucast (seq_nr s) - 1) AND ACK_NR_MASK = mtu_probe_seq s \<and> mtu_probe_seq s \<noteq> 0"

definition timeout_probe :: "conn \<Rightarrow> conn option" where
  "timeout_probe = (\<lambda>(s, ctx). do {
     (s1, ctx1) \<leftarrow> (if probe_timed_out s then mtu_probe_lost (s, ctx) else Some (s, ctx));
     Some (s1\<lparr>mtu_probe_seq := 0, mtu_probe_size := 0\<rparr>, utp_log UTP_LOG_MTU (Some (self s)) ctx1)
   })"

text \<open>The congestion window after a loss: an idle connection decays by a third, any other starts over.\<close>

definition timeout_window :: "UTPSocket \<Rightarrow> UTPSocket" where
  "timeout_window s = (
     let packet_size = as_int (get_packet_size s);
         s1 = s\<lparr>duplicate_ack := 0\<rparr>
     in if cur_window_packets s = 0 \<and> packet_size < as_int (max_window s)
        then s1\<lparr>max_window := max (max_window s * 2 div 3) (word_of_int packet_size)\<rparr>
        else s1\<lparr>max_window := word_of_int packet_size, slow_start := True\<rparr>)"

text \<open>Every packet in flight is considered lost.\<close>

definition mark_lost :: "nat \<Rightarrow> UTPSocket \<Rightarrow> UTPSocket option" where
  "mark_lost i s = (case cb_get (outbuf s) (ucast (seq_nr s) - of_nat i - 1) of
       None \<Rightarrow> Some s
     | Some pkt \<Rightarrow>
         if transmissions pkt = 0 \<or> need_resend pkt then Some s
         else do {
           cassert (pkt_payload pkt \<le> cur_window s);
           Some (s\<lparr>outbuf := cb_put (outbuf s) (ucast (seq_nr s) - of_nat i - 1) (Some (pkt\<lparr>need_resend := True\<rparr>)),
                   cur_window := cur_window s - pkt_payload pkt\<rparr>)
         })"

fun mark_all_lost :: "nat \<Rightarrow> nat \<Rightarrow> UTPSocket \<Rightarrow> UTPSocket option" where
  "mark_all_lost 0 i s = Some s"
| "mark_all_lost (Suc n) i s = Option.bind (mark_lost i s) (mark_all_lost n (Suc i))"

definition resend_oldest :: "conn \<Rightarrow> conn option" where
  "resend_oldest = (\<lambda>(s, ctx).
     if 0 < cur_window_packets s then do {
       let s1 = s\<lparr>retransmit_count := retransmit_count s + 1, fast_timeout := True, timeout_seq_nr := seq_nr s\<rparr>;
       let ctx1 = utp_log UTP_LOG_NORMAL (Some (self s)) ctx;
       let idx = ucast (seq_nr s) - ucast (cur_window_packets s);
       cassert (cb_get (outbuf s1) idx \<noteq> None);
       send_packet idx (s1, ctx1)
     } else Some (s, ctx))"

text \<open>
  The retransmission timer has run out. The first component tells that the handler returns: the
  connection has been given up.
\<close>

definition retransmit :: "bool \<Rightarrow> uint32 \<Rightarrow> conn \<Rightarrow> conn option" where
  "retransmit ignore_loss new_timeout = (\<lambda>(s, ctx). do {
     let s1 = s\<lparr>retransmit_timeout := new_timeout, rto_timeout := current_ms ctx + ucast new_timeout\<rparr>;
     let s2 = (if ignore_loss then s1 else timeout_window s1);
     s3 \<leftarrow> mark_all_lost (unat (cur_window_packets s2)) 0 s2;
     resend_oldest (s3, ctx)
   })"

definition on_rto :: "conn \<Rightarrow> (bool \<times> conn) option" where
  "on_rto = (\<lambda>(s0, ctx0). do {
     let ignore_loss = probe_timed_out s0;
     (s, ctx) \<leftarrow> timeout_probe (s0, ctx0);
     let new_timeout = (if ignore_loss then retransmit_timeout s else retransmit_timeout s * 2);
     if state s = CS_SYN_RECV
     then Some (True, (s\<lparr>state := CS_DESTROY\<rparr>, utp_call_on_error ctx (self s) UTP_ETIMEDOUT))
     else if 4 \<le> retransmit_count s \<or> state s = CS_SYN_SENT \<and> 2 \<le> retransmit_count s
     then Some (True, (s\<lparr>state := (if close_requested s then CS_DESTROY else CS_RESET)\<rparr>,
                       utp_call_on_error ctx (self s) UTP_ETIMEDOUT))
     else do {
       c \<leftarrow> retransmit ignore_loss new_timeout (s, ctx);
       Some (False, c)
     }
   })"

definition keep_alive_due :: "utp_context \<Rightarrow> UTPSocket \<Rightarrow> bool" where
  "keep_alive_due ctx s \<longleftrightarrow> CS_CONNECTED \<le> state s \<and> \<not> fin_sent s \<and> KEEPALIVE_INTERVAL \<le> as_int (current_ms ctx - last_sent_packet s)"

definition rto_expired :: "utp_context \<Rightarrow> UTPSocket \<Rightarrow> bool" where
  "rto_expired ctx s \<longleftrightarrow> 0 \<le> as_int (current_ms ctx - rto_timeout s) \<and> 0 < rto_timeout s"

definition open_window :: "utp_context \<Rightarrow> UTPSocket \<Rightarrow> UTPSocket" where
  "open_window ctx s = (if 0 \<le> as_int (current_ms ctx - zerowindow_time s) \<and> max_window_user s = 0
     then s\<lparr>max_window_user := PACKET_SIZE\<rparr> else s)"

definition check_timers :: "conn \<Rightarrow> conn option" where
  "check_timers = (\<lambda>(s, ctx). do {
     let s1 = open_window ctx s;
     (returned, c) \<leftarrow> (if rto_expired ctx s1 then on_rto (s1, ctx) else Some (False, (s1, ctx)));
     if returned then Some c
     else do {
       let (s2, ctx2) = mark_writable c;
       if keep_alive_due ctx2 s2 then send_keep_alive (s2, ctx2) else Some (s2, ctx2)
     }
   })"

text \<open>The check without the debug assertions of \<^verbatim>\<open>check_invariant\<close>.\<close>

definition check_timeouts :: "conn \<Rightarrow> conn option" where
  "check_timeouts = (\<lambda>(s, ctx). do {
     _ \<leftarrow> assert_oldest s;
     c \<leftarrow> (if state s \<noteq> CS_DESTROY then map_option snd (flush_packets (s, ctx)) else Some (s, ctx));
     if state (fst c) \<in> {CS_SYN_SENT, CS_SYN_RECV, CS_CONNECTED_FULL, CS_CONNECTED} then check_timers c else Some c
   })"

subsection \<open>Losing every packet\<close>

definition lose :: "OutgoingPacket \<Rightarrow> OutgoingPacket" where
  "lose p = (if in_flight p then p\<lparr>need_resend := True\<rparr> else p)"

lemma lose_ok [simp]: "pkt_ok T (lose p) = pkt_ok T p" "pkt_data (lose p) = pkt_data p" "\<not> in_flight (lose p)"
  "stamped lo ctx (lose p) = stamped lo ctx p"
  by (auto simp: lose_def pkt_ok_def pkt_data_def in_flight_def stamped_def)

lemma window_data_lose [simp]: "window_data (map (map_option lose) w) = window_data w"
  by (simp add: window_data_def comp_def option.map_comp)

lemma flight_bytes_lose [simp]: "flight_bytes (map (map_option lose) w) = 0"
  by (auto simp: flight_bytes_def flight_size_def comp_def split: option.splits)

definition flight_only :: "UTPSocket \<Rightarrow> UTPSocket \<Rightarrow> bool" where
  "flight_only s s' \<longleftrightarrow> s'\<lparr>outbuf := outbuf s, cur_window := cur_window s\<rparr> = s"

lemma flight_only_refl [simp]: "flight_only s s"
  by (simp add: flight_only_def)

lemma flight_only_update [simp]: "flight_only s (s\<lparr>outbuf := b, cur_window := w\<rparr>)"
  by (simp add: flight_only_def)

lemma flight_only_trans: "flight_only a b \<Longrightarrow> flight_only b c \<Longrightarrow> flight_only a c"
  by (cases a; cases b; cases c; simp add: flight_only_def)

lemma flight_only_eq: "flight_only s s' \<Longrightarrow> s' = s\<lparr>outbuf := outbuf s', cur_window := cur_window s'\<rparr>"
  by (cases s; cases s'; simp add: flight_only_def)

lemma mark_lost_spec:
  assumes inv: "ack_inv T L lo hi (s, ctx)" and out: "out_ok T s" and i: "i < unat (cur_window_packets s)"
  defines "j \<equiv> unat (cur_window_packets s) - 1 - i"
  shows "wpo (mark_lost i s) (\<lambda>s'. ack_step T L lo hi (s, ctx) (s', ctx) \<and> out_ok T s' \<and>
     out_window s' = (out_window s)[j := map_option lose (out_window s ! j)] \<and> flight_only s s')"
    (is "wpo _ ?Q")
proof -
  let ?i = "ucast (seq_nr s) - of_nat i - 1 :: size_t"
  note o = out_okD [OF out]
  have j: "j < unat (cur_window_packets s)" using i by (simp add: j_def)
  have "Suc (i + j) = unat (cur_window_packets s)" using i by (simp add: j_def)
  then have "of_nat (Suc (i + j)) = cur_window_packets s" by simp
  then have "of_nat j = cur_window_packets s - 1 - of_nat i" by (simp add: algebra_simps)
  then have slot: "(ucast ?i :: uint16) = seq_nr s - cur_window_packets s + of_nat j" by (simp add: ucast16)
  have get: "cb_get (outbuf s) ?i = out_window s ! j" by (rule out_slot(1) [OF o(1) j slot])
  have put: "cb_put (outbuf s) ?i v = cb_put (outbuf s) (out_base s + of_nat j) v" for v by (rule out_slot(2) [OF o(1) j slot])
  have stay: "?Q s" if "map_option lose (out_window s ! j) = out_window s ! j"
    using that ack_step_refl [OF inv] out j by simp
  have lost: "pkt_payload p \<le> cur_window s \<and> ?Q (s\<lparr>outbuf := cb_put (outbuf s) ?i (Some (lose p)), cur_window := cur_window s - pkt_payload p\<rparr>)"
    if p: "out_window s ! j = Some p" and fl: "in_flight p" for p
  proof -
    let ?s' = "s\<lparr>outbuf := cb_put (outbuf s) ?i (Some (lose p)), cur_window := cur_window s - pkt_payload p\<rparr>"
    have w: "out_window ?s' = (out_window s)[j := Some (lose p)]"
      using out_window_put [OF o(1,2) j, of "Some (lose p)"] by (simp add: put out_window_def out_base_def)
    have fb: "flight_bytes (out_window ?s') + unat (pkt_payload p) = flight_bytes (out_window s)"
      using flight_bytes_update [of j "out_window s" "Some (lose p)"] j p fl by (simp add: w flight_size_def)
    then have le: "pkt_payload p \<le> cur_window s" using o(5) by (simp add: word_le_nat_alt)
    then have "unat (cur_window ?s') = flight_bytes (out_window ?s')" using fb o(5) by (simp add: unat_sub)
    moreover have pk: "\<forall>q. Some q \<in> set (out_window ?s') \<longrightarrow> pkt_ok T q \<and> stamped lo ctx q"
      using o(4) p j nth_mem [of j "out_window s"] set_update_subset_insert [of "out_window s" j "Some (lose p)"] inv unfolding w
      by (auto simp: ack_inv_def times_ok_def)
    moreover have "out_clean s" using out by (simp add: out_ok_def)
    from out_clean_put [OF this o(1,2) j, of ?s' "Some (lose p)"] have "out_clean ?s'" by (simp add: put)
    moreover have "hd (out_window ?s') \<noteq> None" if "out_window ?s' \<noteq> []"
      using out that p unfolding w by (cases "out_window s"; cases j) (auto simp: out_ok_def)
    ultimately have ok: "out_ok T ?s'"
      using o(2,3) by (simp add: out_ok_def cb_ok_put o(1) OUTGOING_BUFFER_MAX_SIZE_def)
    have "ack_inv T L lo hi (?s', ctx)"
      using inv ok pk by (simp add: ack_inv_def times_ok_def out_ok_mid mtu_ok_def)
    then show ?thesis using le ok w p by (auto simp: ack_step_def)
  qed
  show ?thesis
  proof (cases "out_window s ! j")
    case None
    then show ?thesis using stay by (simp add: mark_lost_def get)
  next
    case (Some p)
    show ?thesis
    proof (cases "in_flight p")
      case True
      then have "mark_lost i s = do { cassert (pkt_payload p \<le> cur_window s);
          Some (s\<lparr>outbuf := cb_put (outbuf s) ?i (Some (lose p)), cur_window := cur_window s - pkt_payload p\<rparr>) }"
        by (simp add: mark_lost_def get Some lose_def in_flight_def)
      then show ?thesis using lost [OF Some True] by (simp add: cassert_def)
    next
      case False
      then have "mark_lost i s = Some s" by (auto simp: mark_lost_def get Some in_flight_def)
      then show ?thesis using stay False by (simp add: Some lose_def)
    qed
  qed
qed

lemma mark_all_lost_loop:
  assumes "ack_inv T L lo hi (s, ctx)" and "out_ok T s" and "i + n = unat (cur_window_packets s)"
  shows "wpo (mark_all_lost n i s) (\<lambda>s'. ack_step T L lo hi (s, ctx) (s', ctx) \<and> out_ok T s' \<and>
     out_window s' = map (map_option lose) (take n (out_window s)) @ drop n (out_window s) \<and> flight_only s s')"
  using assms
proof (induction n arbitrary: i s)
  case 0
  then show ?case using ack_step_refl [OF 0(1)] by simp
next
  case (Suc n)
  have i: "i < unat (cur_window_packets s)" "unat (cur_window_packets s) - 1 - i = n" using Suc.prems(3) by simp_all
  show ?case
    unfolding mark_all_lost.simps
  proof (rule wpo_bindI [OF mark_lost_spec [OF Suc.prems(1,2) i(1)]], goal_cases)
    case (1 s1)
    have s1: "ack_step T L lo hi (s, ctx) (s1, ctx)" "out_ok T s1" "out_window s1 = (out_window s)[n := map_option lose (out_window s ! n)]"
      "flight_only s s1"
      using 1 i(2) by simp_all
    have c1: "cur_window_packets s1 = cur_window_packets s" using flight_only_eq [OF s1(4)] by (cases s; cases s1; simp)
    have n: "n < length (out_window s)" using i by simp
    have w: "map (map_option lose) (take n (out_window s1)) @ drop n (out_window s1) =
        map (map_option lose) (take (Suc n) (out_window s)) @ drop (Suc n) (out_window s)"
      using n by (simp add: s1(3) take_Suc_conv_app_nth drop_update_cancel Cons_nth_drop_Suc [symmetric])
    have "wpo (mark_all_lost n (Suc i) s1) (\<lambda>s'. ack_step T L lo hi (s1, ctx) (s', ctx) \<and> out_ok T s' \<and>
       out_window s' = map (map_option lose) (take n (out_window s1)) @ drop n (out_window s1) \<and> flight_only s1 s')"
      using Suc.prems(3) c1 by (intro Suc.IH [OF ack_stepD [OF s1(1)] s1(2)]) simp
    then show ?case unfolding w by (rule wpo_mono) (use s1(1,4) in \<open>auto intro: ack_step_trans flight_only_trans\<close>)
  qed
qed

lemma mark_all_lost_spec:
  assumes "ack_inv T L lo hi (s, ctx)" and "out_ok T s"
  shows "wpo (mark_all_lost (unat (cur_window_packets s)) 0 s) (\<lambda>s'. ack_step T L lo hi (s, ctx) (s', ctx) \<and> out_ok T s' \<and>
     out_window s' = map (map_option lose) (out_window s) \<and> cur_window s' = 0 \<and> flight_only s s')"
proof (rule wpo_mono [OF mark_all_lost_loop [OF assms]])
  fix s' assume r: "ack_step T L lo hi (s, ctx) (s', ctx) \<and> out_ok T s' \<and>
     out_window s' = map (map_option lose) (take (unat (cur_window_packets s)) (out_window s)) @ drop (unat (cur_window_packets s)) (out_window s) \<and>
     flight_only s s'"
  then have w: "out_window s' = map (map_option lose) (out_window s)" by simp
  then have "unat (cur_window s') = 0" using r out_okD(5) [of T s'] by simp
  then show "ack_step T L lo hi (s, ctx) (s', ctx) \<and> out_ok T s' \<and> out_window s' = map (map_option lose) (out_window s) \<and>
     cur_window s' = 0 \<and> flight_only s s'" using r w by (simp add: unat_eq_0)
qed simp

subsection \<open>The invariant\<close>

lemma timeout_probe_spec:
  assumes inv: "sock_inv T L lo hi (s, ctx)"
  shows "wpo (timeout_probe (s, ctx)) (\<lambda>(s', ctx'). conn_step T L lo hi (s, ctx) (s', ctx') \<and> mtu_only s s' \<and> trace_ext ctx ctx')"
proof -
  have a: "ack_inv T L lo hi (s, ctx)" and o: "out_ok T s" and m: "mtu_ok L s" using inv by (simp_all add: sock_inv_def ack_inv_def)
  have fin: "conn_step T L lo hi (s, ctx) (t, ctx2) \<and> mtu_only s t \<and> trace_ext ctx ctx2"
    if "mtu_ok L s1" "mtu_only s s1" "trace_ext ctx ctx1" "t = s1\<lparr>mtu_probe_seq := 0, mtu_probe_size := 0\<rparr>"
      "ctx2 = utp_log UTP_LOG_MTU (Some (self s)) ctx1" for s1 ctx1 t ctx2
  proof -
    have t: "mtu_ok L t" "mtu_only s t" using that(1,2) by (simp_all add: that(4) mtu_ok_def mtu_only_def mtu_erase_def)
    have tr: "trace_ext ctx ctx2" unfolding that(5) by (rule trace_ext_trans [OF that(3) trace_ext_log])
    note st = mtu_only_ack_step [OF a t tr]
    show ?thesis using ack_step_conn_step [OF inv st(1)] st(3) o t(2) tr by simp
  qed
  have "wpo (if probe_timed_out s then mtu_probe_lost (s, ctx) else Some (s, ctx)) (\<lambda>(s', ctx'). mtu_ok L s' \<and> mtu_only s s' \<and> trace_ext ctx ctx')"
    using mtu_probe_lost_ok [of L s ctx] m by (auto simp: probe_timed_out_def mtu_ok_def)
  then show ?thesis unfolding timeout_probe_def prod.case by (rule wpo_bindI) (use fin in auto)
qed

lemma packet_size_int:
  assumes "mtu_ok L s"
  shows "word_of_int (as_int (get_packet_size s)) = get_packet_size s" and "unat (get_packet_size s) < 2 ^ 16"
proof -
  show ps: "unat (get_packet_size s) < 2 ^ 16" using get_packet_size_bounds(1) [OF assms] by simp
  then have "as_int (get_packet_size s) = int (unat (get_packet_size s))" by (intro as_int_small) simp
  then show "word_of_int (as_int (get_packet_size s)) = get_packet_size s" by simp
qed

lemma timeout_window_step:
  assumes inv: "sock_inv T L lo hi (s, ctx)"
  shows "conn_step T L lo hi (s, ctx) (timeout_window s, ctx)" "core (timeout_window s) = core s"
proof -
  have m: "mtu_ok L s" and mw: "unat (max_window s) < 2 ^ 40" using inv by (simp_all add: sock_inv_def ack_inv_def)
  have "max_window s * 2 div 3 \<le> max_window s" 
  proof -
    have "unat (max_window s * 2) = unat (max_window s) * 2" using mw by (simp add: unat_word_ariths)
    then show ?thesis by (simp add: word_le_nat_alt unat_div)
  qed
  then have "unat (max (max_window s * 2 div 3) (get_packet_size s)) < 2 ^ 40" "unat (get_packet_size s) < 2 ^ 40"
    using mw packet_size_int(2) [OF m] by (simp_all add: max_def word_le_nat_alt)
  then show "conn_step T L lo hi (s, ctx) (timeout_window s, ctx)" "core (timeout_window s) = core s"
    using inv by (auto simp: timeout_window_def Let_def packet_size_int(1) [OF m] core_def rx_core_def delay_core_def same_conn_def sock_inv_def
        intro!: core_conn_step [OF inv])
qed

definition resent :: "UTPSocket \<Rightarrow> UTPSocket \<Rightarrow> bool" where
  "resent s s' \<longleftrightarrow> (if cur_window_packets s = 0 then s' = s
     else retransmit_count s' = retransmit_count s + 1 \<and> fast_timeout s' \<and>
       (\<exists>p p'. out_window s ! 0 = Some p \<and> out_window s' = (out_window s)[0 := Some p'] \<and> in_flight p' \<and> pkt_data p' = pkt_data p \<and>
          cur_window s' = cur_window s + (if in_flight p then 0 else pkt_payload p)))"

lemma resend_oldest_spec:
  assumes inv: "sock_inv T L lo hi (s, ctx)" and T: "T + 1 < 2 ^ 31"
  shows "wpo (resend_oldest (s, ctx)) (\<lambda>(s', ctx'). conn_step (T + 1) L lo hi (s, ctx) (s', ctx') \<and> resent s s' \<and>
     retransmit_timeout s' = retransmit_timeout s \<and> rto_timeout s' = rto_timeout s \<and> state s' = state s)"
proof (cases "cur_window_packets s = 0")
  case True
  have "conn_step (T + 1) L lo hi (s, ctx) (s, ctx)"
    using inv ack_inv_mono [of T L lo hi "(s, ctx)" "T + 1"] out_ok_mono [of T s "T + 1"] by (intro conn_step_refl) (simp add: sock_inv_def)
  then show ?thesis using True by (simp add: resend_oldest_def resent_def)
next
  case False
  define t where "t = s\<lparr>retransmit_count := retransmit_count s + 1, fast_timeout := True, timeout_seq_nr := seq_nr s\<rparr>"
  define ctx1 where "ctx1 = utp_log UTP_LOG_NORMAL (Some (self s)) ctx"
  have "conn_step T L lo hi (s, ctx) (t, ctx)"
    using inv by (auto intro!: core_conn_step [OF inv] simp: t_def core_def rx_core_def delay_core_def same_conn_def sock_inv_def ack_inv_def)
  from conn_step_trans [OF this trace_conn_step [OF conn_stepD [OF this], of ctx1]]
  have st: "conn_step T L lo hi (s, ctx) (t, ctx1)" by (simp add: ctx1_def)
  have inv1: "sock_inv T L lo hi (t, ctx1)" by (rule conn_stepD [OF st])
  then have o: "out_ok T t" and a: "ack_inv T L lo hi (t, ctx1)" and m: "mtu_ok L t" "ctx_ok ctx1" "app_ok L ctx1"
    by (simp_all add: sock_inv_def ack_inv_def)
  have w: "out_window t = out_window s" "cur_window_packets t = cur_window_packets s" by (simp_all add: t_def out_window_def out_base_def)
  have pos: "0 < unat (cur_window_packets t)" using False by (simp add: w unat_gt_0)
  let ?idx = "ucast (seq_nr s) - ucast (cur_window_packets s) :: size_t"
  have idx: "?idx = out_base t" by (simp add: out_base_def t_def)
  have "out_window t ! 0 \<noteq> None" using o pos length_out_window [of t] by (cases "out_window t") (auto simp: out_ok_def)
  then obtain p where p: "out_window t ! 0 = Some p" by auto
  have get: "cb_get (outbuf t) ?idx = Some p" using out_base_slot [OF o pos] p by (simp add: t_def)
  have pk: "pkt_ok T p" by (rule out_ok_nth [OF o pos p])
  have eq: "resend_oldest (s, ctx) = send_packet ?idx (t, ctx1)"
    using False get by (simp add: resend_oldest_def t_def ctx1_def Let_def cassert_def word_gt_0)
  have put: "cb_put (outbuf t) ?idx v = cb_put (outbuf t) (out_base t + of_nat 0) v" for v by (simp add: idx)
  show ?thesis
    unfolding eq
  proof (rule wpo_mono [OF send_packet_slot [OF o m T pos get put pk]], clarify)
    fix s' ctx' assume sent: "packet_sent T L (t, ctx1) 0 p (s', ctx')"
    have tx: "tx_step (T + 1) L (t, ctx1) (s', ctx')"
      using sent by (intro packet_sent_tx_step [OF out_ok_mono [OF o] _ pos p]) simp_all
    have fr: "tx_frame t s'" using tx by (simp add: tx_step_def)
    have "send_step (T + 1) L lo hi (t, ctx1) (s', ctx')" by (rule tx_step_send_step [OF a tx tx_frame_rtt [OF fr]])
    then have "conn_step (T + 1) L lo hi (t, ctx1) (s', ctx')" by (intro ack_step_conn_step [OF inv1]) (simp_all add: send_step_def)
    then have "conn_step (T + 1) L lo hi (s, ctx) (s', ctx')" by (rule conn_step_trans [OF st])
    moreover have f: "retransmit_timeout s' = retransmit_timeout s" "rto_timeout s' = rto_timeout s" "state s' = state s"
        "retransmit_count s' = retransmit_count s + 1" "fast_timeout s'" "seq_nr s' = seq_nr t" "cur_window_packets s' = cur_window_packets t"
      using fr unfolding t_def by (cases s; cases s'; simp add: tx_frame_def tx_erase_def mtu_erase_def)+
    moreover obtain p' where p': "outbuf s' = cb_put (outbuf t) (out_base t + of_nat 0) (Some p')" "in_flight p'" "pkt_data p' = pkt_data p"
      using sent unfolding packet_sent_def pkt_data_def by auto
    then have "out_window s' = (out_window t)[0 := Some p']"
      using out_window_put [OF out_okD(1,2) [OF o] pos, of "Some p'"] f(6,7) out_window_cong [of s' "t\<lparr>outbuf := outbuf s'\<rparr>"] by simp
    moreover have "cur_window s' = cur_window s + (if in_flight p then 0 else pkt_payload p)"
      using sent by (simp add: packet_sent_def t_def)
    ultimately show "conn_step (T + 1) L lo hi (s, ctx) (s', ctx') \<and> resent s s' \<and>
       retransmit_timeout s' = retransmit_timeout s \<and> rto_timeout s' = rto_timeout s \<and> state s' = state s"
      using False p p'(2,3) unfolding w resent_def by auto
  qed
qed

text \<open>
  A retransmission: everything in flight is lost, the oldest packet is sent again, the timer runs
  for \<open>new_timeout\<close> and the data of the window is what it was.
\<close>

definition retransmitted :: "uint32 \<Rightarrow> UTPSocket \<times> utp_context \<Rightarrow> UTPSocket \<Rightarrow> bool" where
  "retransmitted new_timeout = (\<lambda>(s, ctx) s'. retransmit_timeout s' = new_timeout \<and> rto_timeout s' = current_ms ctx + ucast new_timeout \<and>
     state s' = state s \<and> window_data (out_window s') = window_data (out_window s) \<and>
     (if cur_window_packets s = 0 then cur_window s' = 0 \<and> retransmit_count s' = retransmit_count s
      else retransmit_count s' = retransmit_count s + 1 \<and>
        (\<exists>p. out_window s' = Some p # map (map_option lose) (tl (out_window s)) \<and> in_flight p \<and> cur_window s' = pkt_payload p)))"

lemma ack_step_mono: "ack_step T L lo hi c c' \<Longrightarrow> T \<le> T' \<Longrightarrow> ack_step T' L lo hi c c'"
  by (cases c; cases c') (auto simp: ack_step_def intro: ack_inv_mono)

lemma retransmit_spec:
  assumes inv: "sock_inv T L lo hi (s, ctx)" and T: "T + 1 < 2 ^ 31"
  shows "wpo (retransmit ign nt (s, ctx)) (\<lambda>(s', ctx'). conn_step (T + 1) L lo hi (s, ctx) (s', ctx') \<and> retransmitted nt (s, ctx) s')"
proof -
  define s1 where "s1 = s\<lparr>retransmit_timeout := nt, rto_timeout := current_ms ctx + ucast nt\<rparr>"
  define s2 where "s2 = (if ign then s1 else timeout_window s1)"
  have st1: "conn_step T L lo hi (s, ctx) (s1, ctx)" "core s1 = core s"
    using inv by (auto intro!: core_conn_step [OF inv] simp: s1_def core_def rx_core_def delay_core_def same_conn_def sock_inv_def ack_inv_def)
  have st2: "conn_step T L lo hi (s1, ctx) (s2, ctx)" "core s2 = core s1"
    using timeout_window_step [OF conn_stepD [OF st1(1)]] conn_step_refl [OF conn_stepD [OF st1(1)]] by (simp_all add: s2_def)
  have st: "conn_step T L lo hi (s, ctx) (s2, ctx)" by (rule conn_step_trans [OF st1(1) st2(1)])
  have inv2: "sock_inv T L lo hi (s2, ctx)" using st by (rule conn_stepD)
  have w: "out_window s2 = out_window s" "cur_window_packets s2 = cur_window_packets s"
    using core_window [of s2 s] st1(2) st2(2) by simp_all
  have f2: "retransmit_timeout s2 = nt" "rto_timeout s2 = current_ms ctx + ucast nt" "state s2 = state s" "retransmit_count s2 = retransmit_count s"
    by (simp_all add: s2_def s1_def timeout_window_def Let_def)
  have "ack_inv T L lo hi (s2, ctx)" "out_ok T s2" using inv2 by (simp_all add: sock_inv_def)
  note lost = mark_all_lost_spec [OF this]
  have "retransmit ign nt (s, ctx) = Option.bind (mark_all_lost (unat (cur_window_packets s2)) 0 s2) (\<lambda>s3. resend_oldest (s3, ctx))"
    by (simp add: retransmit_def s2_def s1_def Let_def)
  then show ?thesis
  proof (simp only:, rule_tac wpo_bindI [OF lost], goal_cases)
    case (1 s3)
    then have fo: "flight_only s2 s3" by simp
    then have f3: "retransmit_timeout s3 = nt" "rto_timeout s3 = current_ms ctx + ucast nt" "state s3 = state s"
        "retransmit_count s3 = retransmit_count s" "cur_window_packets s3 = cur_window_packets s"
      using f2 w(2) by (cases s2; cases s3; simp add: flight_only_def)+
    have st3: "conn_step T L lo hi (s2, ctx) (s3, ctx)" using 1 by (intro ack_step_conn_step [OF inv2]) simp_all
    have w3: "out_window s3 = map (map_option lose) (out_window s)" "cur_window s3 = 0" using 1 w by simp_all
    have st03: "conn_step T L lo hi (s, ctx) (s3, ctx)" by (rule conn_step_trans [OF st st3])
    show ?case
    proof (rule wpo_mono [OF resend_oldest_spec [OF conn_stepD [OF st3] T]], clarify)
      fix s' ctx' assume r: "conn_step (T + 1) L lo hi (s3, ctx) (s', ctx')" "resent s3 s'" "retransmit_timeout s' = retransmit_timeout s3"
        "rto_timeout s' = rto_timeout s3" "state s' = state s3"
      have "retransmitted nt (s, ctx) s'"
      proof (cases "cur_window_packets s = 0")
        case True
        then show ?thesis using r(2-5) f3 w3 by (simp add: retransmitted_def resent_def)
      next
        case False
        then obtain p p' where p: "out_window s3 ! 0 = Some p" "out_window s' = (out_window s3)[0 := Some p']" "in_flight p'"
            "pkt_data p' = pkt_data p" "cur_window s' = (if in_flight p then 0 else pkt_payload p)"
          using r(2) f3 w3(2) by (auto simp: resent_def)
        obtain x xs where xs: "out_window s = x # xs" using False length_out_window [of s] by (cases "out_window s") (auto simp: unat_eq_0)
        obtain q where q: "x = Some q" "p = lose q" using p(1) unfolding w3(1) xs by auto
        have "pkt_payload p' = pkt_payload p" "cur_window s' = pkt_payload p" using p(4,5) q by (simp_all add: pkt_data_def)
        then show ?thesis
          using False r(2-5) f3 p(2-4) q unfolding retransmitted_def prod.case w3(1) xs resent_def by (simp add: window_data_def option.map_comp comp_def)
      qed
      then show "conn_step (T + 1) L lo hi (s, ctx) (s', ctx') \<and> retransmitted nt (s, ctx) s'" using conn_step_trans [OF st03 r(1)] by simp
    qed
  qed
qed

definition gives_up :: "UTPSocket \<Rightarrow> bool" where
  "gives_up s \<longleftrightarrow> state s = CS_SYN_RECV \<or> 4 \<le> retransmit_count s \<or> state s = CS_SYN_SENT \<and> 2 \<le> retransmit_count s"

definition next_timeout :: "UTPSocket \<Rightarrow> uint32" where
  "next_timeout s = (if probe_timed_out s then retransmit_timeout s else 2 * retransmit_timeout s)"

definition rto_result :: "conn \<Rightarrow> bool \<Rightarrow> conn \<Rightarrow> bool" where
  "rto_result = (\<lambda>(s, ctx) returned (s', ctx'). returned = gives_up s \<and>
     (if gives_up s then (\<exists>ctx1. trace_ext ctx ctx1 \<and> ctx' = utp_call_on_error ctx1 (self s) UTP_ETIMEDOUT) \<and>
        state s' = (if state s = CS_SYN_RECV \<or> close_requested s then CS_DESTROY else CS_RESET)
      else retransmitted (next_timeout s) (s, ctx) s'))"

lemma conn_step_mono: "conn_step T L lo hi c c' \<Longrightarrow> T \<le> T' \<Longrightarrow> conn_step T' L lo hi c c'"
  using ack_inv_mono [of T L lo hi c' T'] out_ok_mono [of T "fst c'" T']
  by (cases c; cases c') (simp add: conn_step_def conn_done_def sock_inv_def)

lemma conn_step_done: "conn_step T L lo hi c c' \<Longrightarrow> conn_done T L lo hi c c'"
  by (simp add: conn_step_def)

lemma on_rto_spec:
  assumes inv: "sock_inv T L lo hi (s, ctx)" and T: "T + 1 < 2 ^ 31"
  shows "wpo (on_rto (s, ctx)) (\<lambda>(returned, c'). conn_step (T + 1) L lo hi (s, ctx) c' \<and> rto_result (s, ctx) returned c')"
  unfolding on_rto_def prod.case Let_def
proof (rule wpo_bindI [OF timeout_probe_spec [OF inv]], clarify, goal_cases)
  case (1 s1 ctx1)
  have f: "self s1 = self s" "state s1 = state s" "retransmit_count s1 = retransmit_count s" "close_requested s1 = close_requested s"
      "retransmit_timeout s1 = retransmit_timeout s" "outbuf s1 = outbuf s" "seq_nr s1 = seq_nr s" "cur_window_packets s1 = cur_window_packets s"
    using 1(2) by (cases s; cases s1; simp add: mtu_only_def mtu_erase_def)+
  have w: "out_window s1 = out_window s" by (rule out_window_cong [OF f(7,8,6)])
  have ms: "current_ms ctx1 = current_ms ctx" using 1(3) by (rule trace_ext_fields)
  have inv1: "sock_inv T L lo hi (s1, ctx1)" by (rule conn_stepD [OF 1(1)])
  have err: "trace_ext ctx1 (utp_call_on_error ctx1 (self s1) UTP_ETIMEDOUT)" by (simp add: utp_call_on_error_def)
  have up: "conn_step (T + 1) L lo hi (s, ctx) (s1\<lparr>state := st\<rparr>, utp_call_on_error ctx1 (self s1) UTP_ETIMEDOUT)" if "st \<noteq> CS_SYN_SENT" "st \<noteq> CS_UNINITIALIZED" for st
    by (rule conn_step_mono [OF conn_step_trans [OF 1(1) state_conn_step(1) [OF inv1 that err]]]) simp
  have re: "wpo (retransmit (probe_timed_out s) (next_timeout s) (s1, ctx1)) (\<lambda>c. conn_step (T + 1) L lo hi (s, ctx) c \<and> retransmitted (next_timeout s) (s, ctx) (fst c))"
    by (rule wpo_mono [OF retransmit_spec [OF inv1 T]])
      (auto intro: conn_step_trans [OF 1(1)] simp: retransmitted_def w f ms split: if_splits)
  show ?case
  proof (cases "gives_up s")
    case True
    then show ?thesis using up [of CS_DESTROY] up [of CS_RESET] 1(3) by (auto simp: gives_up_def rto_result_def f)
  next
    case False
    have nt: "(if probe_timed_out s then retransmit_timeout s1 else retransmit_timeout s1 * 2) = next_timeout s"
      by (simp add: next_timeout_def f mult.commute)
    have "\<not> (state s1 = CS_SYN_RECV)" "\<not> (4 \<le> retransmit_count s1 \<or> state s1 = CS_SYN_SENT \<and> 2 \<le> retransmit_count s1)"
      using False by (simp_all add: gives_up_def f)
    then show ?thesis
      using False re unfolding nt by (simp only: if_False) (auto elim!: wpo_bindI simp: rto_result_def split: prod.split)
  qed
qed

lemma ctx_frame_conn_step:
  assumes inv: "sock_inv T L lo hi (s, ctx)" and fr: "ctx_frame (self s) ctx ctx'"
  shows "conn_step T L lo hi (s, ctx) (s, ctx')"
proof (rule ack_step_conn_step [OF inv])
  show "ack_step T L lo hi (s, ctx) (s, ctx')"
    using inv fr ctx_frame_ok [OF fr] app_ok_frame [OF fr] ctx_frame_time(3) [OF fr] times_ok_frame [OF fr]
    by (simp add: ack_step_def sock_inv_def ack_inv_def)
qed (use inv in \<open>simp add: sock_inv_def\<close>)

lemma keep_alive_step:
  assumes inv: "sock_inv T L lo hi (s, ctx)"
  shows "wpo (send_keep_alive (s, ctx)) (conn_step T L lo hi (s, ctx))"
proof -
  have pre: "in_ok s" "ctx_ok ctx" "app_ok L ctx" using inv by (simp_all add: sock_inv_def ack_inv_def)
  show ?thesis
  proof (rule wpo_mono [OF send_keep_alive_spec [OF pre]], clarify)
    fix s' ctx' assume r: "ack_sent (s\<lparr>ack_nr := ack_nr s - 1\<rparr>, ctx) (s'\<lparr>ack_nr := ack_nr s - 1\<rparr>, ctx')" "ack_nr s' = ack_nr s"
    obtain w t where "s'\<lparr>ack_nr := ack_nr s - 1\<rparr> = s\<lparr>ack_nr := ack_nr s - 1, last_rcv_win := w, last_sent_packet := t\<rparr>"
      and fr: "ctx_frame (self s) ctx ctx'" using r(1) by (auto simp: ack_sent_def)
    then have s': "s' = s\<lparr>last_rcv_win := w, last_sent_packet := t\<rparr>" using r(2) by (cases s; cases s'; simp)
    have "conn_step T L lo hi (s, ctx') (s', ctx')" unfolding s'
      using conn_stepD [OF ctx_frame_conn_step [OF inv fr]]
      by (intro core_conn_step) (auto simp: core_def rx_core_def delay_core_def same_conn_def sock_inv_def ack_inv_def)
    then show "conn_step T L lo hi (s, ctx) (s', ctx')" by (rule conn_step_trans [OF ctx_frame_conn_step [OF inv fr]])
  qed
qed

lemma check_timers_spec:
  assumes inv: "sock_inv T L lo hi (s, ctx)" and T: "T + 1 < 2 ^ 31"
  shows "wpo (check_timers (s, ctx)) (conn_step (T + 1) L lo hi (s, ctx))"
proof -
  have st: "conn_step T L lo hi (s, ctx) (open_window ctx s, ctx)"
    using inv by (auto intro!: core_conn_step [OF inv] simp: open_window_def core_def rx_core_def delay_core_def same_conn_def sock_inv_def ack_inv_def)
  note inv1 = conn_stepD [OF st]
  have r: "wpo (if rto_expired ctx (open_window ctx s) then on_rto (open_window ctx s, ctx) else Some (False, (open_window ctx s, ctx)))
      (\<lambda>(returned, c). conn_step (T + 1) L lo hi (s, ctx) c)"
    using wpo_mono [OF on_rto_spec [OF inv1 T]] conn_step_trans [OF st] conn_step_mono [OF st, of "T + 1"] by (auto simp: split_beta)
  have tail: "wpo (case mark_writable c of (s2, ctx2) \<Rightarrow> if keep_alive_due ctx2 s2 then send_keep_alive (s2, ctx2) else Some (s2, ctx2))
      (conn_step (T + 1) L lo hi (s, ctx))" if c: "conn_step (T + 1) L lo hi (s, ctx) c" for c
  proof -
    obtain s2 ctx2 where m: "mark_writable c = (s2, ctx2)" by fastforce
    have m2: "conn_step (T + 1) L lo hi (s, ctx) (s2, ctx2)"
      using conn_step_trans [OF c] mark_writable_step [of "T + 1" L lo hi "fst c" "snd c"] conn_stepD [OF c] by (simp add: m)
    show ?thesis using m2 wpo_mono [OF keep_alive_step [OF conn_stepD [OF m2]]] conn_step_trans [OF m2] by (simp add: m)
  qed
  show ?thesis
    unfolding check_timers_def prod.case Let_def by (rule wpo_bindI [OF r]) (use tail in \<open>auto\<close>)
qed

lemma check_timeouts_spec:
  assumes inv: "sock_inv T L lo hi (s, ctx)" and T: "T + 2 < 2 ^ 31"
  shows "wpo (check_timeouts (s, ctx)) (conn_step (T + 2) L lo hi (s, ctx))"
proof -
  have pre: "out_ok T s" "mtu_ok L s" "ctx_ok ctx" "app_ok L ctx" and a: "ack_inv T L lo hi (s, ctx)"
    using inv by (simp_all add: sock_inv_def ack_inv_def)
  have T1: "T + 1 < 2 ^ 31" "T + 1 + 1 < 2 ^ 31" using T by simp_all
  have as: "assert_oldest s = Some ()" using assert_oldest_ok [OF pre(1)] .
  have "wpo (flush_packets (s, ctx)) (\<lambda>(_, c'). conn_step (T + 1) L lo hi (s, ctx) c')"
  proof (rule wpo_mono [OF flush_tx_step [OF pre T1(1)]], clarify)
    fix s' ctx' assume tx: "tx_step (T + 1) L (s, ctx) (s', ctx')"
    have "send_step (T + 1) L lo hi (s, ctx) (s', ctx')" using tx by (intro tx_step_send_step [OF a tx] tx_frame_rtt) (simp add: tx_step_def)
    then show "conn_step (T + 1) L lo hi (s, ctx) (s', ctx')" by (intro ack_step_conn_step [OF inv]) (simp_all add: send_step_def)
  qed
  then have fl: "wpo (if state s \<noteq> CS_DESTROY then map_option snd (flush_packets (s, ctx)) else Some (s, ctx)) (conn_step (T + 1) L lo hi (s, ctx))"
    using conn_step_mono [OF conn_step_refl [OF inv], of "T + 1"] by (auto simp: wpo_ex)
  show ?thesis
    unfolding check_timeouts_def prod.case as bind.bind_lunit
  proof (rule wpo_bindI [OF fl])
    fix c assume c: "conn_step (T + 1) L lo hi (s, ctx) c"
    have "wpo (check_timers c) (conn_step (T + 2) L lo hi (s, ctx))"
      using wpo_mono [OF check_timers_spec [of "T + 1" L lo hi "fst c" "snd c"]] conn_stepD [OF c] T1(2) conn_step_trans [OF c] by simp
    then show "wpo (if state (fst c) \<in> {CS_SYN_SENT, CS_SYN_RECV, CS_CONNECTED_FULL, CS_CONNECTED} then check_timers c else Some c)
        (conn_step (T + 2) L lo hi (s, ctx))" using conn_step_mono [OF c, of "T + 2"] by simp
  qed
qed

subsection \<open>Properties\<close>

text \<open>C10: When the retransmission timer runs out on a connection that is not given up, every packet in flight counts as lost and
  exactly the oldest one is sent again: the bytes in flight are those of the oldest packet. The data in
  the window is unchanged, the timeout is doubled, unless only the MTU probe was lost, and the timer
  restarts.\<close>

theorem timeout_resends_oldest:
  assumes "sock_inv T L lo hi (s, ctx)" and "T + 1 < 2 ^ 31" and "\<not> gives_up s" and "cur_window_packets s \<noteq> 0"
  shows "\<exists>s' ctx' p. on_rto (s, ctx) = Some (False, s', ctx') \<and> sock_inv (T + 1) L lo hi (s', ctx') \<and>
     out_window s' = Some p # map (map_option lose) (tl (out_window s)) \<and> in_flight p \<and> cur_window s' = pkt_payload p \<and>
     window_data (out_window s') = window_data (out_window s) \<and>
     retransmit_timeout s' = next_timeout s \<and> rto_timeout s' = current_ms ctx + ucast (next_timeout s) \<and>
     retransmit_count s' = retransmit_count s + 1"
proof -
  obtain r s' ctx' where r: "on_rto (s, ctx) = Some (r, s', ctx')" and st: "conn_step (T + 1) L lo hi (s, ctx) (s', ctx')"
    and res: "rto_result (s, ctx) r (s', ctx')"
    using on_rto_spec [OF assms(1,2)] unfolding wpo_ex by auto
  have rt: "\<not> r" "retransmitted (next_timeout s) (s, ctx) s'" using res assms(3) by (simp_all add: rto_result_def)
  then obtain p where "out_window s' = Some p # map (map_option lose) (tl (out_window s))" "in_flight p" "cur_window s' = pkt_payload p"
    using assms(4) by (auto simp: retransmitted_def)
  then show ?thesis using r rt assms(4) conn_stepD [OF st] by (auto simp: retransmitted_def)
qed

text \<open>The timer runs out again and again, at the given times, and nothing arrives in between.\<close>

fun silence :: "uint64 list \<Rightarrow> conn \<Rightarrow> (bool \<times> conn) option" where
  "silence [] c = Some (False, c)"
| "silence (ms # mss) (s, ctx) = do {
     (returned, c) \<leftarrow> on_rto (s, ctx\<lparr>current_ms := ms\<rparr>);
     if returned then Some (True, c) else silence mss c
   }"

lemma sock_inv_current_ms: "sock_inv T L lo hi (s, ctx) \<Longrightarrow> sock_inv T L lo hi (s, ctx\<lparr>current_ms := ms\<rparr>)"
  by (auto simp: sock_inv_def ack_inv_def ctx_ok_def ack_ok_def app_ok_def mtu_callback_ok_def rcv_callback_ok_def
      clock_ok_def reading_def times_ok_def stamped_def)

lemma silence_spec:
  assumes "sock_inv T L lo hi (s, ctx)" and "T + 5 < 2 ^ 31 + unat (retransmit_count s)" and "cur_window_packets s \<noteq> 0"
    and "5 \<le> length mss + unat (retransmit_count s)" and "unat (retransmit_count s) \<le> 4"
  shows "wpo (silence mss (s, ctx)) (\<lambda>(returned, s', ctx'). returned \<and>
     state s' = (if state s = CS_SYN_RECV \<or> close_requested s then CS_DESTROY else CS_RESET) \<and>
     (\<exists>ctx1. ctx' = utp_call_on_error ctx1 (self s) UTP_ETIMEDOUT))"
  using assms
proof (induction mss arbitrary: s ctx T)
  case Nil
  then show ?case by simp
next
  case (Cons ms mss)
  have T: "T + 1 < 2 ^ 31" using Cons.prems(2,5) by simp
  have inv: "sock_inv T L lo hi (s, ctx\<lparr>current_ms := ms\<rparr>)" by (rule sock_inv_current_ms [OF Cons.prems(1)])
  show ?case
    unfolding silence.simps
  proof (rule wpo_bindI [OF on_rto_spec [OF inv T]], clarify, goal_cases)
    case (1 r s1 ctx1)
    show ?case
    proof (cases "gives_up s")
      case True
      then show ?thesis using 1(2) by (auto simp: rto_result_def)
    next
      case False
      then have rc: "unat (retransmit_count s) < 4" by (simp add: gives_up_def word_le_nat_alt)
      have rt: "\<not> r" "retransmitted (next_timeout s) (s, ctx\<lparr>current_ms := ms\<rparr>) s1" using 1(2) False by (simp_all add: rto_result_def)
      have c1: "retransmit_count s1 = retransmit_count s + 1" "state s1 = state s" "length (out_window s1) = length (out_window s)"
        using rt(2) Cons.prems(3) by (auto simp: retransmitted_def window_data_def dest!: arg_cong [of _ _ length])
      have n1: "unat (retransmit_count s1) = Suc (unat (retransmit_count s))" using rc by (simp add: c1(1) unat_word_ariths)
      have cw: "cur_window_packets s1 \<noteq> 0" using c1(3) Cons.prems(3) by (simp add: word_unat_eq_iff)
      have sc: "self s1 = self s" "close_requested s1 = close_requested s"
        using 1(1) by (simp_all add: conn_step_def conn_done_def same_conn_def)
      have "wpo (silence mss (s1, ctx1)) (\<lambda>(returned, s', ctx'). returned \<and>
          state s' = (if state s1 = CS_SYN_RECV \<or> close_requested s1 then CS_DESTROY else CS_RESET) \<and>
          (\<exists>ctx2. ctx' = utp_call_on_error ctx2 (self s1) UTP_ETIMEDOUT))"
        using Cons.prems(2,4,5) rc n1 by (intro Cons.IH [OF conn_stepD [OF 1(1)] _ cw]) simp_all
      then show ?thesis using rt(1) c1(2) sc by simp
    qed
  qed
qed


text \<open>The sender with three packets in flight.\<close>

theorem timeout_resends_oldest_witness:
  "\<exists>s' ctx'. on_rto (example_sender, example_stopped) = Some (False, s', ctx') \<and> unat (cur_window s') = 3 \<and> retransmit_count s' = 1"
proof -
  have f: "\<not> gives_up example_sender" "cur_window_packets example_sender \<noteq> 0" "retransmit_count example_sender = 0"
    by (simp_all add: gives_up_def example_sender_def example_socket_def zero_socket_def)
  then obtain s' ctx' p where r: "on_rto (example_sender, example_stopped) = Some (False, s', ctx')"
      "out_window s' = Some p # map (map_option lose) (tl (out_window example_sender))" "cur_window s' = pkt_payload p"
      "window_data (out_window s') = window_data (out_window example_sender)" "retransmit_count s' = 1"
    using timeout_resends_oldest [OF example_sender_inv _ f(1,2)] by auto
  have "pkt_data p = pkt_data example_sent" using r(4) unfolding r(2) example_sender_window by (simp add: window_data_def numeral_eq_Suc)
  then have "pkt_payload p = 3" by (simp add: pkt_data_def example_sent_def example_packet_def)
  then show ?thesis using r by simp
qed


end
