(* ===== verification/Utp_Wire.thy ===== *)
theory Utp_Wire
  imports Utp_Timeouts
begin

section \<open>What a socket puts on the wire\<close>

text \<open>
  The packets of a socket are numbered in the order in which they are queued, without wrapping. Packet \<open>n\<close>
  has a type and a body, which do not change once the packet has been sent; every datagram that the
  socket sends is a pure ack or carries the type, the number (modulo 65536) and the body of one of
  these packets. This holds for every step that returns, whatever the peer and the clock do, so it is
  proved with a partial correctness calculus (\<open>wlp\<close>) beside the total one.
\<close>

subsection \<open>Partial correctness\<close>

named_theorems wlp_simps \<open>weakest liberal preconditions of fault-prone computations\<close>

definition wlp :: "'a option \<Rightarrow> ('a \<Rightarrow> bool) \<Rightarrow> bool" where
  "wlp m Q \<longleftrightarrow> (\<forall>x. m = Some x \<longrightarrow> Q x)"

lemma wlp_Some [wlp_simps, simp]: "wlp (Some x) Q = Q x"
  by (simp add: wlp_def)

lemma wlp_None [wlp_simps, simp]: "wlp None Q"
  by (simp add: wlp_def)

lemma wlp_bind [wlp_simps]: "wlp (Option.bind m f) Q = wlp m (\<lambda>x. wlp (f x) Q)"
  by (cases m) simp_all

lemma wlp_cassert [wlp_simps]: "wlp (cassert b) Q = (b \<longrightarrow> Q ())"
  by (simp add: cassert_def)

lemma wlp_mono: "wlp m P \<Longrightarrow> (\<And>x. P x \<Longrightarrow> Q x) \<Longrightarrow> wlp m Q"
  by (simp add: wlp_def)

lemma wlp_bindI: "wlp m P \<Longrightarrow> (\<And>x. P x \<Longrightarrow> wlp (f x) Q) \<Longrightarrow> wlp (Option.bind m f) Q"
  by (cases m) simp_all

lemma wlp_ifI: "(b \<Longrightarrow> wlp m Q) \<Longrightarrow> (\<not> b \<Longrightarrow> wlp n Q) \<Longrightarrow> wlp (if b then m else n) Q"
  by simp

lemma wlp_True: "wlp m (\<lambda>_. True)"
  by (simp add: wlp_def)

lemma wlp_optionI: "(m = None \<Longrightarrow> wlp f Q) \<Longrightarrow> (\<And>x. m = Some x \<Longrightarrow> wlp (g x) Q) \<Longrightarrow> wlp (case m of None \<Rightarrow> f | Some x \<Rightarrow> g x) Q"
  by (cases m) simp_all

lemma wlpD: "wlp m Q \<Longrightarrow> m = Some x \<Longrightarrow> Q x"
  by (simp add: wlp_def)

lemma wlp_wpo: "wpo m P \<Longrightarrow> wlp m Q \<Longrightarrow> wpo m (\<lambda>x. P x \<and> Q x)"
  by (cases m) simp_all

lemma wpo_wlp: "wpo m P \<Longrightarrow> wlp m P"
  by (cases m) simp_all

subsection \<open>The callbacks of a step\<close>

text \<open>
  The calls a step on socket \<open>i\<close> may make: datagrams of \<open>i\<close> alone, and data or the end of the
  stream reported only when it may read (\<open>rd\<close>). A harmless call sends no datagram but acks.
\<close>

definition ack_datagram :: "byte list \<Rightarrow> bool" where
  "ack_datagram d \<longleftrightarrow> (\<exists>h rest. d = pf_bytes h @ rest \<and> pf_type h = ST_STATE)"

fun owned :: "bool \<Rightarrow> sid \<Rightarrow> utp_callback_arguments \<Rightarrow> bool" where
  "owned rd i (Sendto (Some j) d _ _ _) = (j = i)"
| "owned rd i (On_Read j b) = (rd \<and> j = i)"
| "owned rd i (On_State_Change j st) = (st = UTP_STATE_EOF \<longrightarrow> rd \<and> j = i)"
| "owned rd i _ = True"

fun harmless :: "bool \<Rightarrow> sid \<Rightarrow> utp_callback_arguments \<Rightarrow> bool" where
  "harmless rd i (Sendto (Some j) d a b c) = (j = i \<and> ack_datagram d)"
| "harmless rd i args = owned rd i args"

lemma harmless_owned: "harmless rd i a \<Longrightarrow> owned rd i a"
  by (cases "(rd, i, a)" rule: harmless.cases) simp_all

definition emits :: "(utp_callback_arguments \<Rightarrow> bool) \<Rightarrow> utp_context \<Rightarrow> utp_context \<Rightarrow> bool" where
  "emits P ctx ctx' \<longleftrightarrow> callbacks ctx' = callbacks ctx \<and> (\<exists>cs. calls ctx' = calls ctx @ cs \<and> list_all P cs)"

lemma emits_refl [simp, intro]: "emits P ctx ctx"
  by (simp add: emits_def)

lemma emits_trans [trans]: "emits P a b \<Longrightarrow> emits P b c \<Longrightarrow> emits P a c"
  by (auto simp: emits_def)

lemma emits_mono: "emits P a b \<Longrightarrow> (\<And>x. P x \<Longrightarrow> Q x) \<Longrightarrow> emits Q a b"
  unfolding emits_def by (metis list.pred_mono_strong)

lemma emits_call: "emits P ctx ctx1 \<Longrightarrow> P a \<Longrightarrow> emits P ctx (snd (utp_call name a ctx1))"
  by (rule emits_trans) (auto simp: emits_def utp_call_def split: option.splits)

lemma emits_update [simp]:
  "emits P ctx (ctx'\<lparr>current_ms := ms\<rparr>) = emits P ctx ctx'" "emits P ctx (ctx'\<lparr>nraw_send := x\<rparr>) = emits P ctx ctx'"
  "emits P ctx (ctx'\<lparr>nraw_recv := x\<rparr>) = emits P ctx ctx'" "emits P ctx (ctx'\<lparr>ack_sockets := y\<rparr>) = emits P ctx ctx'"
  "emits P ctx (ctx'\<lparr>ida := z\<rparr>) = emits P ctx ctx'" "emits P ctx (ctx'\<lparr>socks := so\<rparr>) = emits P ctx ctx'"
  "emits P ctx (ctx'\<lparr>utp_sockets := h\<rparr>) = emits P ctx ctx'" "emits P ctx (ctx'\<lparr>rst_info := rs\<rparr>) = emits P ctx ctx'"
  "emits P ctx (ctx'\<lparr>last_utp_socket := l\<rparr>) = emits P ctx ctx'" "emits P ctx (ctx'\<lparr>last_check := ms\<rparr>) = emits P ctx ctx'"
  by (simp_all add: emits_def)

lemma emits_log: "emits P ctx ctx1 \<Longrightarrow> P (Log_Line so) \<Longrightarrow> emits P ctx (utp_log level so ctx1)"
  by (simp add: utp_log_def utp_call_log_def emits_call)

lemma emits_remove: "removeSocketFromAckList j ctx1 = Some ctx2 \<Longrightarrow> emits P ctx ctx1 \<Longrightarrow> emits P ctx ctx2"
  by (auto simp: removeSocketFromAckList_def Let_def bind_eq_Some_conv split: if_splits)

lemma emits_schedule [simp]: "emits P ctx (schedule_ack i ctx1) = emits P ctx ctx1"
  by (simp add: schedule_ack_def)

lemma emits_overhead:
  assumes "emits P ctx ctx1" and "\<And>a b. P (Get_Udp_Overhead (self s) a b)" and "\<And>a b c. P (On_Overhead_Statistics (self s) a b c)"
  shows "emits P ctx (report_overhead len type (s, ctx1))" "emits P ctx (snd (get_udp_overhead (s, ctx1)))"
  using assms by (auto simp: report_overhead_def get_overhead_def get_udp_overhead_def utp_call_defs split_beta Let_def intro!: emits_call)

lemma emits_send_to_addr:
  assumes "emits P ctx ctx1" and "\<And>a n. P (Sendto so b a n flags)"
  shows "emits P ctx (send_to_addr ctx1 so b a flags)"
  using assms by (auto simp: send_to_addr_def utp_register_sent_packet_def utp_call_defs split_beta Let_def intro!: emits_call)

lemma datagrams_emits:
  assumes "emits P ctx ctx'"
  obtains ds where "datagrams i ctx' = datagrams i ctx @ ds" "\<And>d. d \<in> set ds \<Longrightarrow> \<exists>a b c. P (Sendto (Some i) d a b c)"
proof -
  obtain cs where cs: "calls ctx' = calls ctx @ cs" "list_all P cs" using assms by (auto simp: emits_def)
  have "\<exists>a b c. P (Sendto (Some i) d a b c)" if d: "d \<in> set (concat (map (datagram i) cs))" for d
  proof -
    obtain x where x: "x \<in> set cs" "d \<in> set (datagram i x)" using d by auto
    then have "P x" using cs(2) by (simp add: list_all_iff)
    moreover have "\<exists>a b c. x = Sendto (Some i) d a b c" using x(2) by (cases "(i, x)" rule: datagram.cases) (auto split: if_splits)
    ultimately show ?thesis by auto
  qed
  then show thesis using that [of "concat (map (datagram i) cs)"] cs(1) by (simp add: datagrams_def)
qed

lemma emits_calls_length: "emits P ctx ctx' \<Longrightarrow> length (datagrams i ctx) \<le> length (datagrams i ctx')"
  by (elim datagrams_emits [of P ctx ctx' i]) simp

subsection \<open>The packets and their datagrams\<close>

text \<open>\<open>G n\<close> is the type and the body of packet \<open>n\<close>.\<close>

type_synonym ghost = "nat \<Rightarrow> byte \<times> byte list"

definition packet_of :: "ghost \<Rightarrow> nat \<Rightarrow> OutgoingPacket \<Rightarrow> bool" where
  "packet_of G n p \<longleftrightarrow> pf_type (pkt_header p) = fst (G n) \<and> pf_version (pkt_header p) = 1 \<and> pf_ext (pkt_header p) = 0 \<and>
     pf_seq_nr (pkt_header p) = of_nat n \<and> pkt_body p = snd (G n) \<and> pkt_payload p = of_nat (length (snd (G n))) \<and>
     pkt_length p = get_header_size + pkt_payload p"

definition carries :: "ghost \<Rightarrow> nat \<Rightarrow> byte list \<Rightarrow> bool" where
  "carries G n d \<longleftrightarrow> (\<exists>h. d = pf_bytes h @ snd (G n) \<and> pf_type h = fst (G n) \<and> pf_version h = 1 \<and> pf_ext h = 0 \<and> pf_seq_nr h = of_nat n)"

definition sent :: "nat \<Rightarrow> sid \<Rightarrow> utp_context \<Rightarrow> byte list list" where
  "sent k i ctx = drop k (datagrams i ctx)"

text \<open>The data of the packets from \<open>M\<close> on; \<open>M\<close> is the first packet that carries data.\<close>

definition stream :: "ghost \<Rightarrow> nat \<Rightarrow> nat \<Rightarrow> byte list" where
  "stream G M N = concat (map (\<lambda>n. snd (G n)) [M..<N])"

text \<open>
  A slot of the ring holds the packet of the window with this slot's number. \<open>S\<close> are the
  packets that have been sent: an unsent packet is not among them.
\<close>

definition slot_ok :: "nat \<Rightarrow> nat \<Rightarrow> ghost \<Rightarrow> nat \<Rightarrow> nat set \<Rightarrow> UTPSocket \<Rightarrow> size_t \<Rightarrow> OutgoingPacket \<Rightarrow> bool" where
  "slot_ok D M G N S s i p \<longleftrightarrow> (\<exists>n. n < N \<and> N \<le> n + unat (cur_window_packets s) \<and> unat i mod 2 ^ cb_bits (outbuf s) = n mod 2 ^ cb_bits (outbuf s) \<and>
     packet_of G n p \<and> transmissions p \<le> D \<and> (transmissions p = 0 \<longrightarrow> n \<notin> S \<and> M \<le> n))"

definition wire_with :: "nat \<Rightarrow> nat \<Rightarrow> ghost \<Rightarrow> nat \<Rightarrow> nat set \<Rightarrow> conn \<Rightarrow> bool" where
  "wire_with k M G N S = (\<lambda>(s, ctx). cb_ok (outbuf s) \<and> unat (cur_window_packets s) \<le> 2 ^ cb_bits (outbuf s) \<and>
     unat (cur_window_packets s) \<le> N \<and> seq_nr s = of_nat N \<and> M \<le> N \<and> callbacks ctx UTP_SENDTO \<noteq> None \<and> k \<le> length (datagrams (self s) ctx) \<and>
     (\<forall>n < M. snd (G n) = []) \<and> length (stream G M N) < 2 ^ 32 \<and>
     (\<forall>i p. cb_get (outbuf s) i = Some p \<longrightarrow> slot_ok (length (sent k (self s) ctx)) M G N S s i p) \<and>
     (\<forall>d \<in> set (sent k (self s) ctx). ack_datagram d \<or> (\<exists>n \<in> S. n < N \<and> carries G n d)))"

definition wire :: "nat \<Rightarrow> nat \<Rightarrow> ghost \<Rightarrow> nat \<Rightarrow> conn \<Rightarrow> bool" where
  "wire k M G N c \<longleftrightarrow> (\<exists>S. wire_with k M G N S c)"

lemma stream_body:
  assumes "n < N" and "\<forall>n < M. snd (G n) = []" and "length (stream G M N) < B" and "0 < B"
  shows "length (snd (G n)) < B"
proof (cases "M \<le> n")
  case True
  then have "[M..<N] = [M..<n] @ n # [Suc n..<N]" using assms(1) upt_add_eq_append [of M n "N - n"] by (simp add: upt_conv_Cons)
  then have "length (snd (G n)) \<le> length (stream G M N)" by (simp add: stream_def)
  then show ?thesis using assms(3) by simp
qed (use assms in simp)

text \<open>A step that keeps what is on the wire in order, as long as less than \<open>2 ^ 31\<close> datagrams are sent.\<close>

definition wired :: "bool \<Rightarrow> conn \<Rightarrow> conn \<Rightarrow> bool" where
  "wired rd = (\<lambda>(s, ctx) (s', ctx'). self s' = self s \<and> seq_nr s' = seq_nr s \<and> fin_sent s' = fin_sent s \<and>
     (cb_ok (outbuf s) \<longrightarrow> cb_ok (outbuf s')) \<and> (\<not> rd \<longrightarrow> got_fin s' = got_fin s \<and> eof_pkt s' = eof_pkt s) \<and> emits (owned rd (self s)) ctx ctx' \<and>
     (\<forall>k M G N. wire k M G N (s, ctx) \<longrightarrow> length (sent k (self s) ctx') < 2 ^ 31 \<longrightarrow> wire k M G N (s', ctx')))"

lemma wiredD: "wired rd (s, ctx) (s', ctx') \<Longrightarrow> wire k M G N (s, ctx) \<Longrightarrow> length (sent k (self s) ctx') < 2 ^ 31 \<Longrightarrow> wire k M G N (s', ctx')"
  by (simp add: wired_def)

lemma wired_refl [simp, intro]: "wired rd c c"
  by (cases c) (simp add: wired_def)

lemma sent_mono: "emits P ctx ctx' \<Longrightarrow> length (sent k i ctx) \<le> length (sent k i ctx')"
  using emits_calls_length [of P ctx ctx' i] by (simp add: sent_def diff_le_mono)

lemma wired_trans [trans]:
  assumes "wired rd a b" and "wired rd b c"
  shows "wired rd a c"
proof -
  obtain s ctx s1 ctx1 s2 ctx2 where e: "a = (s, ctx)" "b = (s1, ctx1)" "c = (s2, ctx2)" by (cases a; cases b; cases c)
  have i: "self s1 = self s" and m: "emits (owned rd (self s)) ctx1 ctx2" using assms by (auto simp: wired_def e)
  have "length (sent k (self s) ctx1) < 2 ^ 31" if "length (sent k (self s) ctx2) < 2 ^ 31" for k
    using sent_mono [OF m, of k "self s"] that by simp
  then show ?thesis using assms by (auto simp: wired_def e i intro: emits_trans)
qed

text \<open>A step that touches neither the queue nor sends anything but acks.\<close>

definition tx_core :: "UTPSocket \<Rightarrow> _" where
  "tx_core s = (self s, outbuf s, seq_nr s, cur_window_packets s, fin_sent s)"

definition fin_core :: "UTPSocket \<Rightarrow> _" where
  "fin_core s = (got_fin s, eof_pkt s)"

lemma slot_okE:
  assumes "slot_ok D M G N S s i p"
  obtains n where "n < N" "N \<le> n + unat (cur_window_packets s)" "unat i mod 2 ^ cb_bits (outbuf s) = n mod 2 ^ cb_bits (outbuf s)"
    "packet_of G n p" "transmissions p \<le> D" "transmissions p = 0 \<longrightarrow> n \<notin> S \<and> M \<le> n"
  using assms unfolding slot_ok_def by (elim exE conjE) (rule that)

lemma slot_ok_mono: "slot_ok D M G N S s i p \<Longrightarrow> D \<le> D' \<Longrightarrow> slot_ok D' M G N S s i p"
  unfolding slot_ok_def by (meson le_trans)

lemma sent_append: "k \<le> length (datagrams i ctx) \<Longrightarrow> datagrams i ctx' = datagrams i ctx @ ds \<Longrightarrow> sent k i ctx' = sent k i ctx @ ds"
  by (simp add: sent_def)

lemma idle_wire:
  assumes core: "tx_core s' = tx_core s" and em: "emits (harmless rd (self s)) ctx ctx'" and w: "wire_with k M G N S (s, ctx)"
  shows "wire_with k M G N S (s', ctx')"
proof -
  have c: "self s' = self s" "outbuf s' = outbuf s" "seq_nr s' = seq_nr s" "cur_window_packets s' = cur_window_packets s"
    using core by (simp_all add: tx_core_def)
  obtain ds where ds: "datagrams (self s) ctx' = datagrams (self s) ctx @ ds"
    and ack: "\<And>d. d \<in> set ds \<Longrightarrow> \<exists>a b c. harmless rd (self s) (Sendto (Some (self s)) d a b c)" using datagrams_emits [OF em] by blast
  have k: "k \<le> length (datagrams (self s) ctx)" using w by (simp add: wire_with_def)
  note st = sent_append [OF k ds]
  have "slot_ok D M G N S s' i p" if "slot_ok D M G N S s i p" for D i p using that by (simp add: slot_ok_def c)
  then have "\<forall>i p. cb_get (outbuf s') i = Some p \<longrightarrow> slot_ok (length (sent k (self s') ctx')) M G N S s' i p"
    using w slot_ok_mono [of "length (sent k (self s) ctx)"] by (simp add: wire_with_def c st)
  moreover have "callbacks ctx' = callbacks ctx" using em by (simp add: emits_def)
  ultimately show ?thesis using w ack by (auto simp: wire_with_def c st ds)
qed

definition idle :: "bool \<Rightarrow> conn \<Rightarrow> conn \<Rightarrow> bool" where
  "idle rd = (\<lambda>(s, ctx) (s', ctx'). tx_core s' = tx_core s \<and> (rd \<or> fin_core s' = fin_core s) \<and> emits (harmless rd (self s)) ctx ctx')"

lemma idle_refl [simp, intro]: "idle rd c c"
  by (cases c) (simp add: idle_def)

lemma idle_trans [trans]: "idle rd a b \<Longrightarrow> idle rd b c \<Longrightarrow> idle rd a c"
  by (cases a; cases b; cases c) (auto simp: idle_def tx_core_def intro: emits_trans)

lemma harmless_read: "harmless rd i a \<Longrightarrow> harmless True i a"
  by (cases "(rd, i, a)" rule: harmless.cases) auto

lemma idle_read: "idle rd c c' \<Longrightarrow> idle True c c'"
  by (cases c; cases c') (auto simp: idle_def elim: emits_mono harmless_read)

lemma wired_idle:
  assumes "idle rd c c'"
  shows "wired rd c c'"
proof -
  obtain s ctx s' ctx' where e: "c = (s, ctx)" "c' = (s', ctx')" by (cases c; cases c')
  have i: "tx_core s' = tx_core s" "rd \<or> fin_core s' = fin_core s" "emits (harmless rd (self s)) ctx ctx'"
    using assms by (simp_all add: idle_def e)
  have "emits (owned rd (self s)) ctx ctx'" by (rule emits_mono [OF i(3) harmless_owned])
  moreover have "wire k M G N (s', ctx')" if "wire k M G N (s, ctx)" for k M G N
    using that idle_wire [OF i(1,3)] unfolding wire_def by blast
  ultimately show ?thesis using i(1,2) by (auto simp: wired_def e tx_core_def fin_core_def)
qed

subsection \<open>Steps that are idle\<close>

text \<open>
  \<open>calm\<close> collects the rules that show a result idle: changes of other fields of the socket, callbacks
  and log lines.
\<close>

named_theorems calm \<open>idle results\<close>

lemma idle_ctx [calm]:
  "idle rd c (s, ctx) \<Longrightarrow> harmless rd (self (fst c)) a \<Longrightarrow> idle rd c (s, snd (utp_call name a ctx))"
  by (cases c) (auto simp: idle_def intro: emits_call)

lemma idle_self: "idle rd c (s, ctx) \<Longrightarrow> self s = self (fst c)"
  by (cases c) (simp add: idle_def tx_core_def)

lemma idle_log [calm]: "idle rd c (s, ctx) \<Longrightarrow> idle rd c (s, utp_log level so ctx)"
  by (simp add: utp_log_def utp_call_log_def idle_ctx)

lemma idle_clock:
  "utp_call_get_microseconds ctx so = (t, ctx') \<Longrightarrow> idle rd c (s, ctx) \<Longrightarrow> idle rd c (s, ctx')"
  "utp_call_get_milliseconds ctx so = (t, ctx') \<Longrightarrow> idle rd c (s, ctx) \<Longrightarrow> idle rd c (s, ctx')"
  using idle_ctx [of rd c s ctx "Get_Microseconds so" UTP_GET_MICROSECONDS] idle_ctx [of rd c s ctx "Get_Milliseconds so" UTP_GET_MILLISECONDS]
  by (simp_all add: utp_call_defs)

lemma idle_ctx_update [simp]:
  "idle rd c (s, ctx\<lparr>current_ms := ms\<rparr>) = idle rd c (s, ctx)" "idle rd c (s, ctx\<lparr>nraw_recv := x\<rparr>) = idle rd c (s, ctx)"
  "idle rd c (s, schedule_ack j ctx) = idle rd c (s, ctx)"
  by (cases c; simp add: idle_def)+

lemma idle_update:
  assumes "idle rd c (s, ctx)" and "tx_core s' = tx_core s" and "rd \<or> fin_core s' = fin_core s"
  shows "idle rd c (s', ctx)"
  using assms by (cases c) (auto simp: idle_def)

lemma wlp_mtu_search_update [calm]:
  assumes "idle rd c (s, ctx)"
  shows "wlp (mtu_search_update (s, ctx)) (idle rd c)"
  using assms by (auto simp: mtu_search_update_def mtu_repair_def wlp_simps split_beta Let_def utp_call_defs tx_core_def fin_core_def
      intro!: calm elim!: idle_update)

lemma wlp_mtu_reset [calm]:
  assumes "idle rd c (s, ctx)"
  shows "wlp (mtu_reset (s, ctx)) (idle rd c)"
  using assms by (auto simp: mtu_reset_def get_udp_mtu_def wlp_simps split_beta Let_def utp_call_defs tx_core_def fin_core_def
      intro!: calm elim!: idle_update)

lemma wlp_mtu_probe [calm]:
  assumes "idle rd c (s, ctx)"
  shows "wlp (mtu_probe_acked (s, ctx)) (idle rd c)" "wlp (mtu_probe_lost (s, ctx)) (idle rd c)" "wlp (mtu_icmp hop (s, ctx)) (idle rd c)"
  unfolding mtu_probe_acked_def mtu_probe_lost_def mtu_icmp_def prod.case
  by ((intro wlp_ifI)?, (rule wlp_bindI [OF wlp_mtu_search_update], rule idle_update [OF assms], simp_all add: tx_core_def fin_core_def split_beta),
      (auto intro!: calm elim!: idle_update simp: tx_core_def fin_core_def)?)+

lemma wlp_get_rcv_window:
  assumes "idle rd c (s, ctx)"
  shows "wlp (get_rcv_window (s, ctx)) (\<lambda>(w, ctx'). idle rd c (s, ctx'))"
  using assms by (auto simp: get_rcv_window_def wlp_simps split_beta Let_def utp_call_defs intro!: calm)

lemma wlp_mark_mtu_probe [calm]:
  assumes "idle rd c (s, ctx)"
  shows "wlp (mark_mtu_probe p (s, ctx)) (idle rd c)"
  using assms by (auto simp: mark_mtu_probe_def wlp_simps Let_def tx_core_def fin_core_def intro!: calm elim!: idle_update)

text \<open>One datagram.\<close>

lemma wlp_send_data:
  "wlp (send_data h rest len type flags (s, ctx)) (\<lambda>(h', s', ctx'). (\<exists>t. h' = h\<lparr>pf_tv_usec := t, pf_reply_micro := reply_micro s\<rparr>) \<and>
     (\<exists>t. s' = s\<lparr>last_sent_packet := t\<rparr>) \<and>
     emits (\<lambda>a. harmless False (self s) a \<or> (\<exists>x y. a = Sendto (Some (self s)) (take (unat len) (pf_bytes h' @ rest)) x y flags)) ctx ctx' \<and>
     (callbacks ctx UTP_SENDTO \<noteq> None \<longrightarrow> datagrams (self s) ctx' = datagrams (self s) ctx @ [take (unat len) (pf_bytes h' @ rest)]))"
  unfolding wlp_def
proof (intro allI impI)
  fix x assume r: "send_data h rest len type flags (s, ctx) = Some x"
  obtain h' s' ctx' where x: "x = (h', s', ctx')" by (cases x)
  let ?d = "take (unat len) (pf_bytes h' @ rest)"
  let ?P = "\<lambda>a. harmless False (self s) a \<or> (\<exists>x y. a = Sendto (Some (self s)) ?d x y flags)"
  obtain time ctx1 where t: "utp_call_get_microseconds ctx (Some (self s)) = (time, ctx1)" by fastforce
  have c1: "ctx1 = snd (utp_call UTP_GET_MICROSECONDS (Get_Microseconds (Some (self s))) ctx)" using t by (simp add: utp_call_defs)
  let ?s = "s\<lparr>last_sent_packet := current_ms ctx1\<rparr>"
  have h': "h' = h\<lparr>pf_tv_usec := ucast time, pf_reply_micro := reply_micro s\<rparr>" and s': "s' = ?s"
    and rm: "removeSocketFromAckList (self s) (send_to_addr (report_overhead len type (?s, ctx1)) (Some (self s)) ?d (addr s) flags) = Some ctx'"
    using r by (auto simp: x send_data_def t Let_def bind_eq_Some_conv read_bytes_def split: if_splits)
  have "emits ?P ctx ctx1" unfolding c1 by (rule emits_call) simp_all
  then have "emits ?P ctx (report_overhead len type (?s, ctx1))" by (rule emits_overhead) simp_all
  then have "emits ?P ctx (send_to_addr (report_overhead len type (?s, ctx1)) (Some (self s)) ?d (addr s) flags)" by (rule emits_send_to_addr) blast
  then have "emits ?P ctx ctx'" by (rule emits_remove [OF rm])
  then show "case x of (h', s', ctx') \<Rightarrow> (\<exists>t. h' = h\<lparr>pf_tv_usec := t, pf_reply_micro := reply_micro s\<rparr>) \<and> (\<exists>t. s' = s\<lparr>last_sent_packet := t\<rparr>) \<and>
     emits (\<lambda>a. harmless False (self s) a \<or> (\<exists>x y. a = Sendto (Some (self s)) (take (unat len) (pf_bytes h' @ rest)) x y flags)) ctx ctx' \<and>
     (callbacks ctx UTP_SENDTO \<noteq> None \<longrightarrow> datagrams (self s) ctx' = datagrams (self s) ctx @ [take (unat len) (pf_bytes h' @ rest)])"
    using h' s' send_data_trace(2) [OF r [unfolded x]] unfolding x by auto
qed

lemma take_header: "20 \<le> n \<Longrightarrow> take n (pf_bytes h @ rest) = pf_bytes h @ take (n - 20) rest"
  by (simp add: sizeof_PacketFormatV1_def)

lemma wlp_send_data_ack:
  assumes "idle rd c (s, ctx)" and "pf_type h = ST_STATE" and "20 \<le> unat len"
  shows "wlp (send_data h rest len type flags (s, ctx)) (\<lambda>(h', c'). idle rd c c')"
proof (rule wlp_mono [OF wlp_send_data], clarify)
  fix h' s' ctx' t t'
  let ?h = "h\<lparr>pf_tv_usec := t, pf_reply_micro := reply_micro s\<rparr>"
  assume e: "emits (\<lambda>a. harmless False (self s) a \<or> (\<exists>x y. a = Sendto (Some (self s)) (take (unat len) (pf_bytes ?h @ rest)) x y flags)) ctx ctx'"
  have "pf_type ?h = ST_STATE" using assms(2) by (simp add: pf_type_def)
  then have d: "ack_datagram (take (unat len) (pf_bytes ?h @ rest))" unfolding take_header [OF assms(3)] ack_datagram_def by blast
  have i: "self s = self (fst c)" by (rule idle_self [OF assms(1)])
  have em: "emits (harmless rd (self (fst c))) ctx ctx'"
  proof (rule emits_mono [OF e])
    fix a assume "harmless False (self s) a \<or> (\<exists>x y. a = Sendto (Some (self s)) (take (unat len) (pf_bytes ?h @ rest)) x y flags)"
    then show "harmless rd (self (fst c)) a" using d i by (cases "(False, self s, a)" rule: harmless.cases) auto
  qed
  have "idle rd c (s\<lparr>last_sent_packet := t'\<rparr>, ctx)" by (rule idle_update [OF assms(1)]) (simp_all add: tx_core_def fin_core_def)
  then show "idle rd c (s\<lparr>last_sent_packet := t'\<rparr>, ctx')" using em by (cases c) (auto simp: idle_def intro: emits_trans)
qed

lemma idle_remove: "removeSocketFromAckList j ctx = Some ctx' \<Longrightarrow> idle rd c (s, ctx) \<Longrightarrow> idle rd c (s, ctx')"
  by (cases c) (auto simp: idle_def dest: emits_remove)

lemma wlp_send_ack [calm]:
  assumes "idle rd c (s, ctx)"
  shows "wlp (send_ack synack (s, ctx)) (idle rd c)"
  unfolding send_ack_def prod.case Let_def
proof (rule wlp_bindI [OF wlp_get_rcv_window [OF assms]], clarify, rule wlp_bindI [where P = "\<lambda>(pfa', len). pf_type (ack_pf pfa') = ST_STATE \<and> 20 \<le> unat len"])
  fix w ctx1 assume i: "idle rd c (s, ctx1)"
  let ?s = "s\<lparr>last_rcv_win := w\<rparr>"
  show "wlp (if reorder_count ?s \<noteq> 0 \<and> \<not> got_fin_reached ?s then do {
          cassert (\<not> synack);
          cassert (cb_get (inbuf ?s) (ucast (ack_nr ?s) + 1) = None);
          Some (pfa_zero\<lparr>ack_pf := ack_header ?s, ack_pf := (ack_pf (pfa_zero\<lparr>ack_pf := ack_header ?s\<rparr>))\<lparr>pf_ext := 1\<rparr>, ext_next := 0, ext_len := 4,
                    acks := [ucast (eack_mask ?s), ucast (drop_bit 8 (eack_mask ?s)), ucast (drop_bit 16 (eack_mask ?s)), ucast (drop_bit 24 (eack_mask ?s))]\<rparr>,
                get_header_size + 4 + 2)
        } else Some (pfa_zero\<lparr>ack_pf := ack_header ?s\<rparr>, get_header_size)) (\<lambda>(pfa', len). pf_type (ack_pf pfa') = ST_STATE \<and> 20 \<le> unat len)"
    by (simp add: wlp_simps ack_header_def get_header_size_def sizeof_PacketFormatV1_def pf_type_def pf_set_type_def ST_STATE_def)
  show "wlp (case x of (pfa', len) \<Rightarrow> do {
       (_, s2, ctx2) \<leftarrow> send_data (ack_pf pfa') ([ext_next pfa', ext_len pfa'] @ acks pfa') len ack_overhead 0 (?s, ctx1);
       ctx3 \<leftarrow> removeSocketFromAckList (self s2) ctx2;
       Some (s2, ctx3) }) (idle rd c)" if x: "case x of (pfa', len) \<Rightarrow> pf_type (ack_pf pfa') = ST_STATE \<and> 20 \<le> unat len" for x
  proof -
    obtain pfa' len where xe: "x = (pfa', len)" by (cases x)
    have "idle rd c (?s, ctx1)" by (rule idle_update [OF i]) (simp_all add: tx_core_def fin_core_def)
    from wlp_send_data_ack [OF this, of "ack_pf pfa'" len] x show ?thesis
      unfolding xe prod.case by (intro wlp_bindI) (auto simp: wlp_def bind_eq_Some_conv elim: idle_remove)
  qed
qed

lemma wlp_send_keep_alive [calm]:
  assumes "idle rd c (s, ctx)"
  shows "wlp (send_keep_alive (s, ctx)) (idle rd c)"
proof -
  have "idle rd c (s\<lparr>ack_nr := ack_nr s - 1\<rparr>, ctx)" by (rule idle_update [OF assms]) (simp_all add: tx_core_def fin_core_def)
  then show ?thesis unfolding send_keep_alive_def prod.case
    by (rule wlp_bindI [OF wlp_send_ack]) (auto elim!: idle_update simp: tx_core_def fin_core_def)
qed

subsection \<open>Sending a packet\<close>

lemma window_number:
  fixes n n' :: nat
  assumes "n < N" "N \<le> n + w" "n' < N" "N \<le> n' + w" "w \<le> 2 ^ b" and "n mod 2 ^ b = n' mod 2 ^ b"
  shows "n = n'"
proof -
  have eq: "a = c" if "c \<le> a" "a < c + 2 ^ b" "a mod 2 ^ b = c mod 2 ^ b" for a c :: nat
  proof -
    have "2 ^ b dvd a - c" using that(1,3) by (simp add: mod_eq_dvd_iff_nat)
    moreover have "a - c < 2 ^ b" using that(1,2) by linarith
    ultimately show ?thesis using that(1) by (auto dest: dvd_imp_le)
  qed
  have "n < n' + 2 ^ b" "n' < n + 2 ^ b" using assms(1-5) by linarith+
  then show ?thesis using eq [of n' n] eq [of n n'] assms(6) by (cases "n' \<le> n") simp_all
qed

text \<open>Slot \<open>i\<close>, which holds packet \<open>n\<close>, gets a packet of the same contents that has been sent.\<close>

lemma wire_resent:
  assumes w: "wire_with k M G N S (s, ctx)" and p: "cb_get (outbuf s) i = Some p"
    and n: "n < N" "N \<le> n + unat (cur_window_packets s)" "unat i mod 2 ^ cb_bits (outbuf s) = n mod 2 ^ cb_bits (outbuf s)"
    and q: "packet_of G n q" "0 < transmissions q" "transmissions q \<le> length (sent k (self s) ctx')"
    and s': "tx_core s' = tx_core (s\<lparr>outbuf := cb_put (outbuf s) i (Some q)\<rparr>)"
    and ds: "datagrams (self s) ctx' = datagrams (self s) ctx @ ds" "\<And>d. d \<in> set ds \<Longrightarrow> ack_datagram d \<or> carries G n d"
    and cb: "callbacks ctx' = callbacks ctx"
  shows "wire_with k M G N (insert n S) (s', ctx')"
proof -
  have c: "self s' = self s" "outbuf s' = cb_put (outbuf s) i (Some q)" "seq_nr s' = seq_nr s" "cur_window_packets s' = cur_window_packets s"
    using s' by (simp_all add: tx_core_def)
  have ok: "cb_ok (outbuf s)" and le: "unat (cur_window_packets s) \<le> 2 ^ cb_bits (outbuf s)" and k: "k \<le> length (datagrams (self s) ctx)"
    and slots: "\<And>i p. cb_get (outbuf s) i = Some p \<Longrightarrow> slot_ok (length (sent k (self s) ctx)) M G N S s i p"
    using w by (simp_all add: wire_with_def)
  note st = sent_append [OF k ds(1)]
  have "slot_ok (length (sent k (self s) ctx')) M G N (insert n S) s' j r" if r: "cb_get (outbuf s') j = Some r" for j r
  proof (cases "unat i mod 2 ^ cb_bits (outbuf s) = unat j mod 2 ^ cb_bits (outbuf s)")
    case True
    then have "r = q" using r by (simp add: c cb_get_put [OF ok])
    then show ?thesis using n q True unfolding slot_ok_def c cb_bits_put by (intro exI [of _ n]) auto
  next
    case False
    then have "cb_get (outbuf s) j = Some r" using r by (simp add: c cb_get_put [OF ok])
    then obtain m where m: "m < N" "N \<le> m + unat (cur_window_packets s)" "unat j mod 2 ^ cb_bits (outbuf s) = m mod 2 ^ cb_bits (outbuf s)"
      "packet_of G m r" "transmissions r \<le> length (sent k (self s) ctx)" "transmissions r = 0 \<longrightarrow> m \<notin> S \<and> M \<le> m"
      using slots unfolding slot_ok_def by blast
    have "m \<noteq> n" using False m(3) n(3) by auto
    then show ?thesis using m unfolding slot_ok_def c cb_bits_put st by (intro exI [of _ m]) auto
  qed
  then show ?thesis using w n(1) ds(2) by (auto simp: wire_with_def c cb_ok_put st cb ds(1))
qed

lemma owned_read: "owned rd i a \<Longrightarrow> owned True i a"
  by (cases "(rd, i, a)" rule: owned.cases) auto

lemma owned_mono: "owned False i a \<Longrightarrow> owned rd i a"
  by (cases "(rd, i, a)" rule: owned.cases) auto

text \<open>What \<^verbatim>\<open>send_packet\<close> changes of a packet leaves its contents.\<close>

definition same_packet :: "OutgoingPacket \<Rightarrow> OutgoingPacket \<Rightarrow> bool" where
  "same_packet p q \<longleftrightarrow> pkt_body q = pkt_body p \<and> pkt_payload q = pkt_payload p \<and> pkt_length q = pkt_length p \<and>
     pf_type (pkt_header q) = pf_type (pkt_header p) \<and> pf_version (pkt_header q) = pf_version (pkt_header p) \<and>
     pf_ext (pkt_header q) = pf_ext (pkt_header p) \<and> pf_seq_nr (pkt_header q) = pf_seq_nr (pkt_header p)"

lemma packet_of_same: "same_packet p q \<Longrightarrow> packet_of G n q = packet_of G n p"
  by (simp add: same_packet_def packet_of_def)

lemma packet_carried:
  assumes "packet_of G n p" and "length (snd (G n)) < 2 ^ 32" and "h = (pkt_header p)\<lparr>pf_tv_usec := t, pf_reply_micro := r\<rparr>"
  shows "carries G n (take (unat (pkt_length p)) (pf_bytes h @ pkt_body p))"
proof -
  have "unat (pkt_length p) = 20 + length (snd (G n))"
    using assms(1,2) by (simp add: packet_of_def get_header_size_def sizeof_PacketFormatV1_def unat_word_ariths unat_of_nat)
  then have "take (unat (pkt_length p)) (pf_bytes h @ pkt_body p) = pf_bytes h @ snd (G n)"
    using assms(1) by (simp add: packet_of_def sizeof_PacketFormatV1_def)
  then show ?thesis using assms(1,3) by (auto simp: carries_def packet_of_def pf_type_def pf_version_def intro!: exI [of _ h])
qed

lemma wlp_send_slot:
  assumes p: "cb_get (outbuf s) idx = Some p" and q: "same_packet p q" "transmissions q = (transmissions p + 1) mod 2 ^ 31"
  shows "wlp (do { (h, s', ctx') \<leftarrow> send_data (pkt_header q) (pkt_body q) (pkt_length q) type flags (s, ctx);
       Some (s'\<lparr>outbuf := cb_put (outbuf s') idx (Some (q\<lparr>pkt_header := h\<rparr>))\<rparr>, ctx') }) (wired rd (s, ctx))"
proof (rule wlp_bindI [OF wlp_send_data], clarify, simp only: wlp_Some)
  fix ctx' t t'
  let ?h = "(pkt_header q)\<lparr>pf_tv_usec := t, pf_reply_micro := reply_micro s\<rparr>"
  let ?d = "take (unat (pkt_length q)) (pf_bytes ?h @ pkt_body q)" and ?q = "q\<lparr>pkt_header := ?h\<rparr>"
  let ?s = "(s\<lparr>last_sent_packet := t'\<rparr>)\<lparr>outbuf := cb_put (outbuf (s\<lparr>last_sent_packet := t'\<rparr>)) idx (Some ?q)\<rparr>"
  assume em: "emits (\<lambda>a. harmless False (self s) a \<or> (\<exists>x y. a = Sendto (Some (self s)) ?d x y flags)) ctx ctx'"
    and dg: "callbacks ctx UTP_SENDTO \<noteq> None \<longrightarrow> datagrams (self s) ctx' = datagrams (self s) ctx @ [?d]"
  have own: "emits (owned rd (self s)) ctx ctx'"
    by (rule emits_mono [OF em]) (auto dest: harmless_owned intro: owned_mono)
  have "wire k M G N (?s, ctx')" if w: "wire k M G N (s, ctx)" and few: "length (sent k (self s) ctx') < 2 ^ 31" for k M G N
  proof -
    obtain S where S: "wire_with k M G N S (s, ctx)" using w by (auto simp: wire_def)
    then obtain n where n: "n < N" "N \<le> n + unat (cur_window_packets s)" "unat idx mod 2 ^ cb_bits (outbuf s) = n mod 2 ^ cb_bits (outbuf s)"
      and pn: "packet_of G n p" "transmissions p \<le> length (sent k (self s) ctx)"
      using p unfolding wire_with_def slot_ok_def prod.case by blast
    have k: "k \<le> length (datagrams (self s) ctx)" and b: "length (snd (G n)) < 2 ^ 32" and ds: "datagrams (self s) ctx' = datagrams (self s) ctx @ [?d]"
      using S dg stream_body [OF n(1), of M G "2 ^ 32"] by (auto simp: wire_with_def)
    have t: "transmissions ?q = Suc (transmissions p)" using q(2) pn(2) few by (simp add: sent_append [OF k ds])
    have "same_packet p ?q" using q(1) by (simp add: same_packet_def pf_type_def pf_version_def)
    then have "packet_of G n ?q" using pn(1) by (simp add: packet_of_same)
    moreover have "packet_of G n q" using pn(1) by (simp add: packet_of_same [OF q(1)])
    then have "carries G n ?d" using b by (rule packet_carried) (rule refl)
    moreover have "callbacks ctx' = callbacks ctx" using em by (simp add: emits_def)
    ultimately have "wire_with k M G N (insert n S) (?s, ctx')"
      using pn(2) t by (intro wire_resent [OF S p n, of ?q _ _ "[?d]"]) (simp_all add: sent_append [OF k ds] tx_core_def ds)
    then show ?thesis unfolding wire_def by blast
  qed
  then show "wired rd (s, ctx) (?s, ctx')" using own by (simp add: wired_def cb_ok_put)
qed

lemma wlp_wired_idle: "wlp m (idle rd c) \<Longrightarrow> wlp m (wired rd c)"
  by (auto simp: wlp_def intro: wired_idle)

lemma wlp_send_packet:
  "wlp (send_packet idx (s, ctx)) (wired rd (s, ctx))"
proof (cases "cb_get (outbuf s) idx")
  case (Some p)
  define s1 where "s1 = (if transmissions p = 0 \<or> need_resend p then s\<lparr>cur_window := cur_window s + pkt_payload p\<rparr> else s)"
  obtain cur ctx1 where c: "utp_call_get_milliseconds ctx (Some (self s)) = (cur, ctx1)" by fastforce
  obtain now ctx2 where u: "utp_call_get_microseconds ctx1 (Some (self s)) = (now, ctx2)" by fastforce
  define p1 where "p1 = p\<lparr>need_resend := False, pkt_header := (pkt_header p)\<lparr>pf_ack_nr := ack_nr s1\<rparr>, time_sent := now\<rparr>"
  have ctx2: "ctx2 = snd (utp_call UTP_GET_MICROSECONDS (Get_Microseconds (Some (self s))) (snd (utp_call UTP_GET_MILLISECONDS (Get_Milliseconds (Some (self s))) ctx)))"
    using c u by (simp add: utp_call_defs prod_eq_iff)
  have i1: "idle rd (s, ctx) (s1, ctx2)"
    unfolding ctx2 by (intro calm idle_update [OF idle_refl]) (simp_all add: s1_def tx_core_def fin_core_def)
  have i2: "wlp (if mtu_discover_time s1 < cur then mtu_reset (s1, ctx2) else Some (s1, ctx2)) (idle rd (s, ctx))"
    using i1 by (simp add: wlp_mtu_reset)
  show ?thesis
    unfolding send_packet_def prod.case Some Let_def c u bind.bind_lunit s1_def [symmetric] p1_def [symmetric]
  proof (rule wlp_bindI [OF i2], clarify, rule wlp_bindI [OF wlp_mark_mtu_probe], assumption, clarify)
    fix s2 ctx3 s3 ctx4
    assume i3: "idle rd (s, ctx) (s3, ctx4)"
    let ?q = "p1\<lparr>transmissions := (transmissions p1 + 1) mod 2 ^ 31\<rparr>"
    have "cb_get (outbuf s3) idx = Some p" using i3 Some by (simp add: idle_def tx_core_def)
    moreover have "same_packet p ?q" by (simp add: same_packet_def p1_def pf_type_def pf_version_def)
    ultimately show "wlp (send_data (pkt_header ?q) (pkt_body ?q) (pkt_length ?q)
        (if state s3 = CS_SYN_SENT then connect_overhead else if transmissions ?q = 1 then payload_bandwidth else retransmit_overhead)
        (if use_as_mtu_probe s2 p1 then UTP_UDP_DONTFRAG else 0) (s3, ctx4) \<bind>
        (\<lambda>(h, s4, ctx5). Some (s4\<lparr>outbuf := cb_put (outbuf s4) idx (Some (?q\<lparr>pkt_header := h\<rparr>))\<rparr>, ctx5))) (wired rd (s, ctx))"
      by (intro wlp_mono [OF wlp_send_slot [where rd = rd] wired_trans [OF wired_idle [OF i3]]]) (simp_all add: p1_def)
  qed
qed (simp add: send_packet_def)

subsection \<open>Emptying the window\<close>

text \<open>A step that only removes packets from the ring, marks them or moves the start of the window past empty slots.\<close>

lemma wire_shrink:
  assumes w: "wire_with k M G N S (s, ctx)" and em: "emits (harmless rd (self s)) ctx ctx'"
    and eq: "self s' = self s" "seq_nr s' = seq_nr s" "cb_ok (outbuf s')" "cb_bits (outbuf s') = cb_bits (outbuf s)"
      "unat (cur_window_packets s') \<le> unat (cur_window_packets s)"
    and p: "\<And>i p. cb_get (outbuf s') i = Some p \<Longrightarrow> \<exists>q. cb_get (outbuf s) i = Some q \<and> same_packet q p \<and> transmissions p = transmissions q"
    and n: "\<And>i p n. cb_get (outbuf s') i = Some p \<Longrightarrow> n < N \<Longrightarrow> N \<le> n + unat (cur_window_packets s) \<Longrightarrow>
        unat i mod 2 ^ cb_bits (outbuf s) = n mod 2 ^ cb_bits (outbuf s) \<Longrightarrow> N \<le> n + unat (cur_window_packets s')"
  shows "wire_with k M G N S (s', ctx')"
proof -
  have w1: "wire_with k M G N S (s, ctx')" by (rule idle_wire [OF refl em w])
  have slots: "\<And>i p. cb_get (outbuf s) i = Some p \<Longrightarrow> slot_ok (length (sent k (self s) ctx')) M G N S s i p"
    using w1 unfolding wire_with_def prod.case by blast
  have "slot_ok (length (sent k (self s) ctx')) M G N S s' i p" if i: "cb_get (outbuf s') i = Some p" for i p
  proof -
    obtain q where q: "cb_get (outbuf s) i = Some q" "same_packet q p" "transmissions p = transmissions q" using p [OF i] by blast
    have "slot_ok (length (sent k (self s) ctx')) M G N S s i q" by (rule slots [OF q(1)])
    then obtain m where m: "m < N" "N \<le> m + unat (cur_window_packets s)" "unat i mod 2 ^ cb_bits (outbuf s) = m mod 2 ^ cb_bits (outbuf s)"
      "packet_of G m q" "transmissions q \<le> length (sent k (self s) ctx')" "transmissions q = 0 \<longrightarrow> m \<notin> S \<and> M \<le> m"
      by (rule slot_okE)
    then show ?thesis unfolding slot_ok_def eq(4) q(3) packet_of_same [OF q(2)] using n [OF i m(1-3)] by (intro exI [of _ m]) simp
  qed
  moreover have "unat (cur_window_packets s') \<le> 2 ^ cb_bits (outbuf s)" "unat (cur_window_packets s') \<le> N"
    using w order_trans [OF eq(5)] by (simp_all add: wire_with_def)
  ultimately show ?thesis using w1 unfolding wire_with_def prod.case eq(1,2,4) by (intro conjI allI impI eq(3); blast)
qed

lemma same_packet_refl [simp]: "same_packet p p"
  by (simp add: same_packet_def)

lemma wired_shrink:
  assumes em: "emits (harmless rd (self s)) ctx ctx'"
    and eq: "self s' = self s" "seq_nr s' = seq_nr s" "fin_sent s' = fin_sent s" "rd \<or> fin_core s' = fin_core s"
      "cb_ok (outbuf s) \<Longrightarrow> cb_ok (outbuf s')" "cb_bits (outbuf s') = cb_bits (outbuf s)" "cur_window_packets s' = cur_window_packets s"
    and p: "\<And>i p. cb_ok (outbuf s) \<Longrightarrow> cb_get (outbuf s') i = Some p \<Longrightarrow>
        \<exists>q. cb_get (outbuf s) i = Some q \<and> same_packet q p \<and> transmissions p = transmissions q"
  shows "wired rd (s, ctx) (s', ctx')"
proof -
  have "wire k M G N (s', ctx')" if w: "wire k M G N (s, ctx)" for k M G N
  proof -
    obtain S where S: "wire_with k M G N S (s, ctx)" using w by (auto simp: wire_def)
    then have ok: "cb_ok (outbuf s)" by (simp add: wire_with_def)
    have "wire_with k M G N S (s', ctx')"
      by (rule wire_shrink [OF S em eq(1,2) eq(5) [OF ok] eq(6)]) (use eq(7) p [OF ok] in auto)
    then show ?thesis by (auto simp: wire_def)
  qed
  then show ?thesis using eq(1-5) emits_mono [OF em harmless_owned] by (auto simp: wired_def fin_core_def)
qed

lemma wired_put:
  assumes em: "emits (harmless rd (self s)) ctx ctx'" and x: "x = None \<or> (\<exists>p q. cb_get (outbuf s) i = Some q \<and> x = Some p \<and> same_packet q p \<and> transmissions p = transmissions q)"
    and s': "tx_core s' = tx_core (s\<lparr>outbuf := cb_put (outbuf s) i x\<rparr>)" "rd \<or> fin_core s' = fin_core s"
  shows "wired rd (s, ctx) (s', ctx')"
proof -
  have c: "self s' = self s" "outbuf s' = cb_put (outbuf s) i x" "seq_nr s' = seq_nr s" "cur_window_packets s' = cur_window_packets s" "fin_sent s' = fin_sent s"
    using s'(1) by (simp_all add: tx_core_def)
  have "\<exists>q. cb_get (outbuf s) j = Some q \<and> same_packet q p \<and> transmissions p = transmissions q"
    if ok: "cb_ok (outbuf s)" and j: "cb_get (outbuf s') j = Some p" for j p
  proof (cases "unat i mod 2 ^ cb_bits (outbuf s) = unat j mod 2 ^ cb_bits (outbuf s)")
    case True
    then have "x = Some p" using j by (simp add: c cb_get_put [OF ok])
    moreover have "cb_get (outbuf s) j = cb_get (outbuf s) i" using True by (simp add: cb_get_eq [OF ok])
    ultimately show ?thesis using x by auto
  qed (use j in \<open>simp add: c cb_get_put [OF ok]\<close>)
  then show ?thesis using c s'(2) by (intro wired_shrink [OF em]) (simp_all add: cb_ok_put)
qed

text \<open>The oldest slot of the window is empty: the window starts one packet later.\<close>

lemma oldest_number:
  assumes "cb_ok (outbuf s)" and "seq_nr s = of_nat N" and "unat (cur_window_packets s) \<le> N"
  shows "unat (ucast (seq_nr s - cur_window_packets s) :: size_t) mod 2 ^ cb_bits (outbuf s) = (N - unat (cur_window_packets s)) mod 2 ^ cb_bits (outbuf s)"
proof -
  have e: "seq_nr s - cur_window_packets s = of_nat (N - unat (cur_window_packets s))" using assms(2,3) by (simp add: of_nat_diff)
  have "unat (ucast (seq_nr s - cur_window_packets s) :: size_t) = (N - unat (cur_window_packets s)) mod 2 ^ 16"
    unfolding e by (simp add: unat_ucast_up unat_of_nat)
  moreover have "(2::nat) ^ cb_bits (outbuf s) dvd 2 ^ 16" using assms(1) by (intro le_imp_power_dvd) (rule cb.bits_le)
  ultimately show ?thesis by (simp only: mod_mod_cancel)
qed

lemma wired_advance:
  assumes none: "cb_get (outbuf s) (ucast (seq_nr s - cur_window_packets s)) = None" and pos: "0 < unat (cur_window_packets s)"
  shows "wired rd (s, ctx) (s\<lparr>cur_window_packets := cur_window_packets s - 1\<rparr>, ctx)"
proof -
  let ?s = "s\<lparr>cur_window_packets := cur_window_packets s - 1\<rparr>"
  have c: "unat (cur_window_packets ?s) = unat (cur_window_packets s) - 1" using pos by (simp add: unat_minus_one word_gt_0 unat_gt_0)
  have "wire k M G N (?s, ctx)" if w: "wire k M G N (s, ctx)" for k M G N
  proof -
    obtain S where S: "wire_with k M G N S (s, ctx)" using w by (auto simp: wire_def)
    then have ok: "cb_ok (outbuf s)" and sq: "seq_nr s = of_nat N" and le: "unat (cur_window_packets s) \<le> N" by (simp_all add: wire_with_def)
    have "N \<le> n + unat (cur_window_packets ?s)" if i: "cb_get (outbuf s) i = Some p" and n: "n < N" "N \<le> n + unat (cur_window_packets s)"
      "unat i mod 2 ^ cb_bits (outbuf s) = n mod 2 ^ cb_bits (outbuf s)" for i p n
    proof (rule ccontr)
      assume "\<not> N \<le> n + unat (cur_window_packets ?s)"
      then have "n = N - unat (cur_window_packets s)" using n(1,2) pos c by linarith
      then have "cb_get (outbuf s) i = None" using none n(3) oldest_number [OF ok sq le] by (simp add: cb_get_eq [OF ok])
      then show False using i by simp
    qed
    then have "wire_with k M G N S (?s, ctx)" using c by (intro wire_shrink [OF S, where rd = rd]) (auto simp: ok)
    then show ?thesis by (auto simp: wire_def)
  qed
  then show ?thesis by (simp add: wired_def)
qed

end
