(* ===== verification/Utp_Wire_In.thy ===== *)
theory Utp_Wire_In
  imports Utp_Wire
begin

section \<open>Acks, timers and arrivals keep the stream\<close>

text \<open>
  The operations that send, resend and drop packets but queue none: acknowledgments, flushing, timers and
  the handler of incoming packets. None of them changes what is on the wire, whatever arrives.
\<close>

subsection \<open>Acknowledgments\<close>

definition still :: "UTPSocket \<Rightarrow> UTPSocket \<Rightarrow> bool" where
  "still s s' \<longleftrightarrow> tx_core s' = tx_core s \<and> fin_core s' = fin_core s"

lemma still_refl [simp]: "still s s"
  by (simp add: still_def)

lemma still_trans: "still a b \<Longrightarrow> still b c \<Longrightarrow> still a c"
  by (simp add: still_def)

lemma wired_still: "still s s' \<Longrightarrow> wired rd (s, ctx) (s', ctx)"
  by (rule wired_idle) (simp add: idle_def still_def)

lemma idle_still: "idle rd c (s, ctx) \<Longrightarrow> still s s' \<Longrightarrow> idle rd c (s', ctx)"
  by (erule idle_update) (simp_all add: still_def)

lemmas cores = tx_core_def fin_core_def

lemma wlp_update_rtt: "wlp (update_rtt e ms s) (still s)"
  by (auto simp: update_rtt_def wlp_simps Let_def still_def cores)

lemma wlp_ack_packet:
  "wlp (ack_packet sq (s, ctx)) (\<lambda>(st, c'). wired rd (s, ctx) c' \<and> cur_window_packets (fst c') = cur_window_packets s \<and>
     (st \<noteq> 2 \<longrightarrow> cb_ok (outbuf s) \<longrightarrow> cb_get (outbuf (fst c')) (ucast sq) = None))"
proof (cases "cb_get (outbuf s) (ucast sq)")
  case (Some p)
  let ?s = "s\<lparr>outbuf := cb_put (outbuf s) (ucast sq) None\<rparr>"
  let ?Q = "\<lambda>(s2, ctx2). still ?s s2 \<and> emits (harmless rd (self s)) ctx ctx2"
  have goal: "wired rd (s, ctx) (s', ctx') \<and> cur_window_packets s' = cur_window_packets s \<and>
       (cb_ok (outbuf s) \<longrightarrow> cb_get (outbuf s') (ucast sq) = None)" if "still ?s s'" "emits (harmless rd (self s)) ctx ctx'" for s' ctx'
    using that wired_put [OF that(2), of None "ucast sq" s'] by (auto simp: still_def cores cb_get_put)
  have "wlp (if transmissions p = 1 then do {
      let (now, ctx1) = utp_call_get_microseconds ctx (Some (self s));
      s2 \<leftarrow> update_rtt (ucast ((now - time_sent p) div 1000)) (current_ms ctx1) ?s; Some (s2, ctx1) } else Some (?s, ctx)) ?Q"
    by (simp add: utp_call_defs split_beta Let_def)
      (auto intro!: wlp_bindI [OF wlp_update_rtt] emits_call)
  then have "wlp (do { (s2, ctx2) \<leftarrow> (if transmissions p = 1 then do {
        let (now, ctx1) = utp_call_get_microseconds ctx (Some (self s));
        s2 \<leftarrow> update_rtt (ucast ((now - time_sent p) div 1000)) (current_ms ctx1) ?s; Some (s2, ctx1) } else Some (?s, ctx));
      let s3 = s2\<lparr>retransmit_timeout := rto s2, rto_timeout := current_ms ctx2 + ucast (rto s2)\<rparr>;
      s4 \<leftarrow> (if \<not> need_resend p then do { cassert (pkt_payload p \<le> cur_window s3); Some (s3\<lparr>cur_window := cur_window s3 - pkt_payload p\<rparr>) }
             else Some s3);
      Some (0 :: nat, (s4\<lparr>retransmit_count := 0\<rparr>, ctx2)) }) (\<lambda>(_, s', ctx'). still ?s s' \<and> emits (harmless rd (self s)) ctx ctx')"
    by (rule wlp_bindI) (auto simp: wlp_simps Let_def still_def cores)
  then show ?thesis
    unfolding ack_packet_def prod.case Some option.case Let_def [of ?s]
    by (intro wlp_ifI) (simp, erule wlp_mono, use goal in auto)
qed (simp add: ack_packet_def)

text \<open>Steps compose.\<close>

lemma wlp_from: "wired rd c c1 \<Longrightarrow> wlp m (wired rd c1) \<Longrightarrow> wlp m (wired rd c)"
  by (auto simp: wlp_def intro: wired_trans)

lemma wlp_from_snd: "wired rd c c1 \<Longrightarrow> wlp m (\<lambda>(x, c'). wired rd c1 c') \<Longrightarrow> wlp m (\<lambda>(x, c'). wired rd c c')"
  by (auto simp: wlp_def intro: wired_trans)

lemma wlp_wired_seq:
  assumes "wlp m (wired rd c)" and "\<And>s ctx. wlp (f (s, ctx)) (wired rd (s, ctx))"
  shows "wlp (Option.bind m f) (wired rd c)"
  using assms(1)
proof (rule wlp_bindI)
  fix c' assume c': "wired rd c c'"
  show "wlp (f c') (wired rd c)" by (rule wlp_from [OF c']) (use assms(2) [of "fst c'" "snd c'"] in simp)
qed

lemma wired_set_idle: "wired rd c (s, ctx) \<Longrightarrow> still s s' \<Longrightarrow> wired rd c (s', ctx)"
  by (erule wired_trans) (rule wired_still)

lemma wired_log: "wired rd c (s, ctx) \<Longrightarrow> wired rd c (s, utp_log level so ctx)"
  by (erule wired_trans, rule wired_idle, rule idle_log) simp

lemma wlp_ack_loop:
  assumes "n \<le> unat (cur_window_packets s)" and "cb_ok (outbuf s)"
  shows "wlp (ack_loop n (s, ctx)) (wired rd (s, ctx))"
  using assms
proof (induction n arbitrary: s ctx)
  case (Suc n)
  show ?case
    unfolding ack_loop.simps fst_conv
  proof (rule wlp_bindI [OF wlp_ack_packet [where rd = rd]], clarify)
    fix st s1 ctx1
    assume w: "wired rd (s, ctx) (s1, ctx1)" and c: "cur_window_packets (fst (s1, ctx1)) = cur_window_packets s"
      and e: "st \<noteq> 2 \<longrightarrow> cb_ok (outbuf s) \<longrightarrow> cb_get (outbuf (fst (s1, ctx1))) (ucast (seq_nr s - cur_window_packets s)) = None"
    show "wlp (if st = 2 then Some (s1, ctx1) else ack_loop n (s1\<lparr>cur_window_packets := cur_window_packets s1 - 1\<rparr>, ctx1)) (wired rd (s, ctx))"
    proof (cases "st = 2")
      case False
      let ?s = "s1\<lparr>cur_window_packets := cur_window_packets s1 - 1\<rparr>"
      have sq: "seq_nr s1 = seq_nr s" using w by (simp add: wired_def)
      have pos: "0 < unat (cur_window_packets s1)" using Suc.prems(1) c by simp
      have a: "wired rd (s1, ctx1) (?s, ctx1)" using e False Suc.prems(2) c sq pos by (intro wired_advance) simp_all
      have n: "n \<le> unat (cur_window_packets ?s)" using Suc.prems(1) c pos by (simp add: unat_minus_one word_gt_0 unat_gt_0)
      have "cb_ok (outbuf ?s)" using w Suc.prems(2) by (simp add: wired_def)
      from wlp_from [OF wired_trans [OF w a] Suc.IH [OF n this]] show ?thesis using False by simp
    qed (use w in simp)
  qed
qed simp

lemma wired_trim: "wired rd (s, ctx) (trim_window s, ctx)" if "cb_ok (outbuf s)"
  using that
proof (induction s rule: trim_window.induct)
  case (1 s)
  let ?i = "ucast (seq_nr s) - ucast (cur_window_packets s) :: size_t"
  show ?case
  proof (cases "0 < cur_window_packets s \<and> cb_get (outbuf s) ?i = None")
    case True
    let ?s = "s\<lparr>cur_window_packets := cur_window_packets s - 1\<rparr>"
    have "cb_get (outbuf s) (ucast (seq_nr s - cur_window_packets s)) = cb_get (outbuf s) ?i"
      using "1.prems" by (rule cb_get_cong16) (simp add: ucast16)
    then have "wired rd (s, ctx) (?s, ctx)" using True by (intro wired_advance) (simp_all add: word_less_nat_alt)
    moreover have "wired rd (?s, ctx) (trim_window ?s, ctx)" using "1.IH" [OF True] "1.prems" by simp
    ultimately show ?thesis using True by (subst trim_window.simps) (auto intro: wired_trans)
  qed (subst trim_window.simps, auto)
qed

lemma wlp_flush_nagle: "wlp (flush_nagle (s, ctx)) (wired rd (s, ctx))"
  by (auto simp: flush_nagle_def wlp_simps intro: wlp_send_packet split: option.split) (auto simp: wlp_def dest: wlpD [OF wlp_send_packet])

lemma wlp_fast_timeout_retry: "wlp (fast_timeout_retry (s, ctx)) (wired rd (s, ctx))"
proof -
  have "wlp (send_packet i (s\<lparr>fast_resend_seq_nr := n\<rparr>, ctx)) (wired rd (s, ctx))" for i n
    by (rule wlp_from [OF wired_still wlp_send_packet]) (simp add: still_def cores)
  then show ?thesis by (auto simp: fast_timeout_retry_def still_def cores split: option.split intro!: wired_still)
qed

lemma wlp_selective_ack_bit:
  "wlp (selective_ack_bit base m bits (count, rs, s, ctx)) (\<lambda>(_, _, c'). wired rd (s, ctx) c')"
proof -
  have ack: "wlp (cassert b \<bind> (\<lambda>_. ack_packet sq (s, ctx) \<bind> (\<lambda>(_, c). Some (n, rs', c)))) (\<lambda>(_, _, c'). wired rd (s, ctx) c')" for b sq n rs'
    unfolding wlp_bind wlp_cassert by (auto intro!: wlp_mono [OF wlp_ack_packet [where rd = rd]])
  show ?thesis
    unfolding selective_ack_bit_def prod.case Let_def
    by (rule ack | rule wlp_ifI wlp_optionI wlp_bindI [OF wlp_True] | simp)+
qed

lemma wlp_selective_ack_loop:
  "wlp (selective_ack_loop n base m (count, rs, s, ctx)) (\<lambda>(_, _, c'). wired rd (s, ctx) c')"
proof (induction n arbitrary: count rs s ctx)
  case 0
  show ?case by (subst selective_ack_loop.simps) (rule wlp_bindI [OF wlp_selective_ack_bit], auto)
next
  case (Suc n)
  show ?case
    by (subst selective_ack_loop.simps, rule wlp_bindI [OF wlp_selective_ack_bit [where rd = rd]], clarify)
      (auto intro!: wlp_mono [OF Suc.IH] elim: wired_trans)
qed

lemma wlp_resend_loop: "wlp (resend_loop vs i b (s, ctx)) (\<lambda>(_, c'). wired rd (s, ctx) c')"
proof (induction vs arbitrary: i b s ctx)
  case (Cons v vs)
  show ?case
    unfolding resend_loop.simps
  proof (rule wlp_optionI [OF Cons.IH], rule wlp_bindI [OF wlp_send_packet [where rd = rd]], clarify)
    fix p and s1 :: UTPSocket and ctx1
    let ?s = "s1\<lparr>fast_resend_seq_nr := ucast ((v + 1) AND ACK_NR_MASK)\<rparr>"
    assume "wired rd (s, utp_log UTP_LOG_NORMAL (Some (self s)) ctx) (s1, ctx1)"
    from wired_trans [OF wired_log [OF wired_refl] this] have "wired rd (s, ctx) (s1, ctx1)" .
    then have w: "wired rd (s, ctx) (?s, ctx1)" by (rule wired_set_idle) (simp add: still_def cores)
    show "wlp (let c = (?s, ctx1) in if 4 \<le> i + 1 then Some (True, c) else resend_loop vs (i + 1) True c) (\<lambda>(_, c'). wired rd (s, ctx) c')"
      using w wlp_from_snd [OF w Cons.IH] by (simp add: Let_def)
  qed
qed simp

lemma wlp_maybe_decay_win: "wlp (maybe_decay_win ms s) (still s)"
  unfolding maybe_decay_win_def by (intro wlp_ifI wlp_bindI [OF wlp_True]) (simp_all add: Let_def still_def cores)

lemma wlp_selective_ack: "wlp (selective_ack base m len (s, ctx)) (wired rd (s, ctx))"
  unfolding selective_ack_def prod.case
proof (rule wlp_ifI, simp, rule wlp_bindI [OF wlp_selective_ack_loop [where rd = rd]], clarify, rule wlp_bindI [OF wlp_True],
    rule wlp_bindI [OF wlp_resend_loop [where rd = rd]], clarify, rule wlp_bindI [where P = "still _"])
  fix count :: nat and rs s1 ctx1 rs' b s2 ctx2
  assume w: "wired rd (s, ctx) (s1, ctx1)" "wired rd (s1, ctx1) (s2, ctx2)"
  show "wlp (if b then maybe_decay_win (current_ms ctx2) s2 else Some s2) (still s2)" by (simp add: wlp_maybe_decay_win)
  fix s3 assume "still s2 s3"
  then have "still s2 (s3\<lparr>duplicate_ack := of_nat count\<rparr>)" by (simp add: still_def cores)
  from wired_set_idle [OF wired_trans [OF w] this]
  show "wlp (Some (s3\<lparr>duplicate_ack := of_nat count\<rparr>, ctx2)) (wired rd (s, ctx))" by simp
qed

subsection \<open>Measurements\<close>

lemma wlp_count_duplicate [calm]: "idle rd c (s, ctx) \<Longrightarrow> wlp (count_duplicate a f (s, ctx)) (idle rd c)"
  unfolding count_duplicate_def prod.case Let_def
  by (intro wlp_ifI wlp_mtu_probe) (auto elim!: idle_update simp: cores)

lemma wlp_count_acked:
  "idle rd c (s, ctx) \<Longrightarrow> wlp (count_acked i n now (b, r, s, ctx)) (\<lambda>(_, _, c'). idle rd c c')"
proof (induction n arbitrary: i b r s ctx)
  case (Suc n)
  have probe: "wlp (if P then mtu_probe_acked (s, ctx) else Some (s, ctx)) (idle rd c)" for P
    using Suc.prems wlp_mtu_probe(1) by simp
  show ?case
    unfolding count_acked.simps Let_def
    by (rule wlp_optionI, rule Suc.IH [OF Suc.prems], rule wlp_ifI, rule Suc.IH [OF Suc.prems], rule wlp_bindI [OF wlp_True],
        rule wlp_bindI [OF probe]) (clarify, rule Suc.IH)
qed simp

lemma wlp_selective_ack_bytes:
  "idle rd c (s, ctx) \<Longrightarrow> wlp (selective_ack_bytes base m len r (s, ctx)) (\<lambda>(_, _, ctx'). idle rd c (s, ctx'))"
  unfolding selective_ack_bytes_def prod.case utp_call_defs Let_def split_beta
  by (intro wlp_ifI wlp_bindI [OF wlp_True]) (auto intro: calm)

lemma still_delay: "still s (record_their_delay tv time ms s)" "still s (limit_our_delay r s)"
  by (auto simp: record_their_delay_def limit_our_delay_def Let_def still_def cores)

lemma wlp_record_our_delay: "wlp (record_our_delay d ms s) (still s)"
  unfolding record_our_delay_def roll_average_def Let_def
  by (intro wlp_ifI wlp_bindI [OF wlp_True]) (simp_all add: still_def cores)

lemma wlp_apply_ccontrol: "idle rd c (s, ctx) \<Longrightarrow> wlp (apply_ccontrol b d r (s, ctx)) (idle rd c)"
proof -
  assume i: "idle rd c (s, ctx)"
  have ss: "wlp (cc_slow_start x y z w s) (still s)" for x y z w
    unfolding cc_slow_start_def by (intro wlp_bindI [OF wlp_True]) (simp add: still_def cores)
  have "wlp (if slow_start s then cc_slow_start x y z w s else Some (s\<lparr>max_window := w\<rparr>)) (still s)" for x y z w
    by (intro wlp_ifI ss) (simp add: still_def cores)
  note ss = this
  show ?thesis
    unfolding apply_ccontrol_def prod.case Let_def utp_call_defs split_beta fst_conv snd_conv
    by (rule wlp_bindI [OF ss] | rule wlp_bindI [OF wlp_True])+
      (simp only: wlp_Some, intro calm idle_still [OF i], auto simp: still_def cores)
qed

lemma wlp_measure_ack: "idle rd c (s, ctx) \<Longrightarrow> wlp (measure_ack pf time n selack (s, ctx)) (idle rd c)"
proof -
  assume i: "idle rd c (s, ctx)"
  have sel: "wlp (case selack of None \<Rightarrow> Some (a, r, ctx2)
        | Some (m, len) \<Rightarrow> do { (b, r, ctx3) \<leftarrow> selective_ack_bytes ((ucast (pf_ack_nr pf) + 2) AND ACK_NR_MASK) m len r (s1, ctx2); Some (a + b, r, ctx3) })
      (\<lambda>(_, _, ctx3). idle rd c (s1, ctx3))" if "idle rd c (s1, ctx2)" for a r s1 ctx2
  proof (rule wlp_optionI)
    fix x assume "selack = Some x"
    show "wlp (case x of (m, len) \<Rightarrow> do { (b, r, ctx3) \<leftarrow> selective_ack_bytes ((ucast (pf_ack_nr pf) + 2) AND ACK_NR_MASK) m len r (s1, ctx2); Some (a + b, r, ctx3) })
        (\<lambda>(_, _, ctx3). idle rd c (s1, ctx3))"
      unfolding split_beta by (rule wlp_bindI [OF wlp_selective_ack_bytes [OF that]]) (simp add: split_beta)
  qed (simp add: that)
  obtain now ctx1 where u: "utp_call_get_microseconds ctx (Some (self s)) = (now, ctx1)" by fastforce
  have i0: "idle rd c (s, ctx1)" by (rule idle_clock(1) [OF u i])
  show ?thesis
    unfolding measure_ack_def prod.case u Let_def
  proof (rule wlp_bindI [OF wlp_count_acked [OF i0]], clarify)
    fix a r s1 ctx2 assume i1: "idle rd c (s1, ctx2)"
    show "wlp (do {
         (acked_bytes, min_rtt', ctx3) \<leftarrow> (case selack of None \<Rightarrow> Some (a, r, ctx2)
           | Some (m, len) \<Rightarrow> do { (b, r, ctx3) \<leftarrow> selective_ack_bytes ((ucast (pf_ack_nr pf) + 2) AND ACK_NR_MASK) m len r (s1, ctx2); Some (a + b, r, ctx3) });
         s3 \<leftarrow> record_our_delay (if uint (pf_reply_micro pf) = INT_MAX then 0 else pf_reply_micro pf) (current_ms ctx3)
                 (record_their_delay (pf_tv_usec pf) time (current_ms ctx3) s1);
         _ \<leftarrow> cassert (0 \<le> min_rtt');
         if (if uint (pf_reply_micro pf) = INT_MAX then 0 else pf_reply_micro pf) \<noteq> 0 \<and> 1 \<le> acked_bytes
         then apply_ccontrol acked_bytes (if uint (pf_reply_micro pf) = INT_MAX then 0 else pf_reply_micro pf) min_rtt' (limit_our_delay min_rtt' s3, ctx3)
         else Some (limit_our_delay min_rtt' s3, ctx3) }) (idle rd c)"
    proof (rule wlp_bindI [OF sel [OF i1]], clarify, rule wlp_bindI [OF wlp_record_our_delay], rule wlp_bindI [OF wlp_True])
      fix b r' ctx3 s3 assume "idle rd c (s1, ctx3)" and "still (record_their_delay (pf_tv_usec pf) time (current_ms ctx3) s1) s3"
      from idle_still [OF idle_still [OF idle_still [OF this(1) still_delay(1)] this(2)] still_delay(2)] have "idle rd c (limit_our_delay r' s3, ctx3)" .
      then show "wlp (if (if uint (pf_reply_micro pf) = INT_MAX then 0 else pf_reply_micro pf) \<noteq> 0 \<and> 1 \<le> b
         then apply_ccontrol b (if uint (pf_reply_micro pf) = INT_MAX then 0 else pf_reply_micro pf) r' (limit_our_delay r' s3, ctx3)
         else Some (limit_our_delay r' s3, ctx3)) (idle rd c)"
        by (intro wlp_ifI wlp_apply_ccontrol) simp_all
    qed
  qed
qed

subsection \<open>Flushing\<close>

lemma is_full_still: "is_full b (s, ctx) = (f, s', ctx') \<Longrightarrow> still s s' \<and> ctx' = ctx"
  by (auto simp: is_full_def Let_def still_def cores split: if_splits)

lemma wlp_flush_from: "wlp (flush_from ps i c) (\<lambda>(_, c'). wired rd c c')"
  unfolding wlp_def
proof (intro allI impI)
  fix x assume r: "flush_from ps i c = Some x"
  show "case x of (_, c') \<Rightarrow> wired rd c c'"
  proof (rule flush_from.raw_induct [where P = "\<lambda>ps i c x. case x of (_, c') \<Rightarrow> wired rd c c'", OF _ r], goal_cases)
    case (1 flush ps i c x)
    obtain s ctx where c: "c = (s, ctx)" by (cases c)
    have step: "wlp (flush ps j c1) (\<lambda>(_, c'). wired rd (s, ctx) c')" if "wired rd (s, ctx) c1" for j c1
      by (rule wlp_from_snd [OF that]) (use 1(1) in \<open>auto simp: wlp_def simp del: split_paired_All\<close>)
    obtain f s1 ctx1 where f: "is_full (- 1) (s, ctx) = (f, s1, ctx1)" by (cases "is_full (- 1) (s, ctx)")
    then have w: "wired rd (s, ctx) (s1, ctx1)" using is_full_still [OF f] by (auto intro: wired_still)
    have sent: "wlp (send_packet k (s1, ctx1) \<bind> flush ps j) (\<lambda>(_, c'). wired rd (s, ctx) c')" for k j
      by (rule wlp_bindI [OF wlp_from [OF w wlp_send_packet]]) (rule step)
    show ?case
      unfolding c
    proof (rule wlpD [OF _ 1(2)], unfold c f Let_def prod.case fst_conv, intro wlp_ifI wlp_optionI)
    qed (use step [OF wired_refl] step [OF w] sent w in simp_all)
  qed
qed

lemma wlp_flush_packets: "wlp (flush_packets c) (\<lambda>(_, c'). wired rd c c')"
  unfolding flush_packets_def by (rule wlp_flush_from)

subsection \<open>Timers\<close>

lemma wlp_mark_lost: "wlp (mark_lost i s) (\<lambda>s'. wired rd (s, ctx) (s', ctx))"
  unfolding mark_lost_def
proof (rule wlp_optionI, simp, rule wlp_ifI, simp, rule wlp_bindI [OF wlp_True])
  fix p assume p: "cb_get (outbuf s) (ucast (seq_nr s) - of_nat i - 1) = Some p"
  show "wlp (Some (s\<lparr>outbuf := cb_put (outbuf s) (ucast (seq_nr s) - of_nat i - 1) (Some (p\<lparr>need_resend := True\<rparr>)),
                   cur_window := cur_window s - pkt_payload p\<rparr>)) (\<lambda>s'. wired rd (s, ctx) (s', ctx))"
    unfolding wlp_Some
    by (rule wired_put [where x = "Some (p\<lparr>need_resend := True\<rparr>)"]) (auto simp: p same_packet_def cores)
qed

lemma wlp_mark_all_lost: "wlp (mark_all_lost n i s) (\<lambda>s'. wired rd (s, ctx) (s', ctx))"
proof (induction n arbitrary: i s)
  case (Suc n)
  show ?case unfolding mark_all_lost.simps
    by (rule wlp_bindI [OF wlp_mark_lost [where rd = rd and ctx = ctx]], rule wlp_mono [OF Suc.IH]) (rule wired_trans)
qed simp

lemma wlp_resend_oldest: "wlp (resend_oldest (s, ctx)) (wired rd (s, ctx))"
  unfolding resend_oldest_def prod.case Let_def
proof (rule wlp_ifI, rule wlp_bindI [OF wlp_True])
  let ?s = "s\<lparr>retransmit_count := retransmit_count s + 1, fast_timeout := True, timeout_seq_nr := seq_nr s\<rparr>"
  have "wired rd (s, ctx) (?s, utp_log UTP_LOG_NORMAL (Some (self s)) ctx)" by (intro wired_log wired_still) (simp add: still_def cores)
  from wlp_from [OF this wlp_send_packet]
  show "wlp (send_packet (ucast (seq_nr s) - ucast (cur_window_packets s)) (?s, utp_log UTP_LOG_NORMAL (Some (self s)) ctx)) (wired rd (s, ctx))" .
qed simp

lemma wlp_retransmit: "wlp (retransmit ig t (s, ctx)) (wired rd (s, ctx))"
proof -
  let ?s = "s\<lparr>retransmit_timeout := t, rto_timeout := current_ms ctx + ucast t\<rparr>"
  let ?s2 = "if ig then ?s else timeout_window ?s"
  have w: "wired rd (s, ctx) (?s2, ctx)" by (rule wired_still) (auto simp: timeout_window_def Let_def still_def cores)
  show ?thesis
    unfolding retransmit_def prod.case Let_def
    by (rule wlp_bindI [OF wlp_mark_all_lost [where ctx = ctx]]) (rule wlp_from [OF wired_trans [OF w] wlp_resend_oldest])
qed

lemma wlp_timeout_probe: "wlp (timeout_probe (s, ctx)) (idle rd (s, ctx))"
proof -
  have "wlp (if probe_timed_out s then mtu_probe_lost (s, ctx) else Some (s, ctx)) (idle rd (s, ctx))" by (simp add: wlp_mtu_probe)
  then show ?thesis unfolding timeout_probe_def prod.case
    by (rule wlp_bindI) (clarify, simp only: wlp_Some, intro calm, erule idle_update, simp_all add: cores)
qed

lemma wlp_on_rto: "wlp (on_rto (s, ctx)) (\<lambda>(_, c'). wired rd (s, ctx) c')"
  unfolding on_rto_def prod.case Let_def
proof (rule wlp_bindI [OF wlp_timeout_probe [where rd = rd]], clarify)
  fix s1 ctx1 assume i: "idle rd (s, ctx) (s1, ctx1)"
  have err: "wired rd (s, ctx) (s1\<lparr>state := st\<rparr>, utp_call_on_error ctx1 (self s1) e)" for st e
    unfolding utp_call_on_error_def by (intro wired_idle idle_ctx idle_update [OF i]) (simp_all add: cores)
  have "wlp (retransmit (probe_timed_out s) t (s1, ctx1) \<bind> (\<lambda>c. Some (False, c))) (\<lambda>(_, c'). wired rd (s, ctx) c')" for t
    by (rule wlp_bindI [OF wlp_from [OF wired_idle [OF i] wlp_retransmit]]) simp
  then show "wlp (if state s1 = CS_SYN_RECV then Some (True, (s1\<lparr>state := CS_DESTROY\<rparr>, utp_call_on_error ctx1 (self s1) UTP_ETIMEDOUT))
     else if 4 \<le> retransmit_count s1 \<or> state s1 = CS_SYN_SENT \<and> 2 \<le> retransmit_count s1
     then Some (True, (s1\<lparr>state := (if close_requested s1 then CS_DESTROY else CS_RESET)\<rparr>, utp_call_on_error ctx1 (self s1) UTP_ETIMEDOUT))
     else do { c \<leftarrow> retransmit (probe_timed_out s) (if probe_timed_out s then retransmit_timeout s1 else retransmit_timeout s1 * 2) (s1, ctx1); Some (False, c) })
     (\<lambda>(_, c'). wired rd (s, ctx) c')"
    using err by (intro wlp_ifI) simp_all
qed

lemma mark_writable_idle: "idle rd c (s, ctx) \<Longrightarrow> idle rd c (mark_writable (s, ctx))"
proof -
  assume i: "idle rd c (s, ctx)"
  obtain f s1 ctx1 where f: "is_full (- 1) (s, ctx) = (f, s1, ctx1)" by (cases "is_full (- 1) (s, ctx)")
  have i1: "idle rd c (s1, ctx1)" using is_full_still [OF f] idle_still [OF i] by auto
  have "idle rd c (s1\<lparr>state := CS_CONNECTED\<rparr>, utp_call_on_state_change ctx1 (self s) UTP_STATE_WRITABLE)"
    unfolding utp_call_on_state_change_def by (intro idle_ctx idle_update [OF i1]) (simp_all add: cores)
  then show ?thesis using i i1 by (auto simp: mark_writable_def f)
qed

lemma wlp_check_timers: "wlp (check_timers (s, ctx)) (wired rd (s, ctx))"
  unfolding check_timers_def prod.case Let_def
proof -
  let ?s = "open_window ctx s"
  have w: "wired rd (s, ctx) (?s, ctx)" by (rule wired_still) (simp add: open_window_def still_def cores)
  have r: "wlp (if rto_expired ctx ?s then on_rto (?s, ctx) else Some (False, ?s, ctx)) (\<lambda>(_, c'). wired rd (s, ctx) c')"
    using w wlp_from_snd [OF w wlp_on_rto] by simp
  show "wlp ((if rto_expired ctx ?s then on_rto (?s, ctx) else Some (False, ?s, ctx)) \<bind> (\<lambda>(returned, c).
      if returned then Some c else case mark_writable c of (s2, ctx2) \<Rightarrow>
        if keep_alive_due ctx2 s2 then send_keep_alive (s2, ctx2) else Some (s2, ctx2))) (wired rd (s, ctx))"
  proof (rule wlp_bindI [OF r], clarify)
    fix ret s1 ctx1 assume w1: "wired rd (s, ctx) (s1, ctx1)"
    obtain s2 ctx2 where m: "mark_writable (s1, ctx1) = (s2, ctx2)" by fastforce
    have w2: "wired rd (s, ctx) (s2, ctx2)" using wired_trans [OF w1 wired_idle [OF mark_writable_idle [OF idle_refl]]] by (simp add: m)
    have "wlp (send_keep_alive (s2, ctx2)) (wired rd (s, ctx))" by (rule wlp_from [OF w2 wlp_wired_idle [OF wlp_send_keep_alive]]) simp
    then show "wlp (if ret then Some (s1, ctx1) else case mark_writable (s1, ctx1) of (s2, ctx2) \<Rightarrow>
        if keep_alive_due ctx2 s2 then send_keep_alive (s2, ctx2) else Some (s2, ctx2)) (wired rd (s, ctx))"
      using w1 w2 by (simp add: m)
  qed
qed

lemma wlp_map_snd: "wlp m (\<lambda>(_, c). Q c) \<Longrightarrow> wlp (map_option snd m) Q"
  by (cases m) auto

lemma wlp_check_timeouts: "wlp (check_timeouts (s, ctx)) (wired rd (s, ctx))"
  unfolding check_timeouts_def prod.case
proof (rule wlp_bindI [OF wlp_True])
  have f: "wlp (if state s \<noteq> CS_DESTROY then map_option snd (flush_packets (s, ctx)) else Some (s, ctx)) (wired rd (s, ctx))"
    by (intro wlp_ifI wlp_map_snd wlp_flush_packets) simp
  show "wlp ((if state s \<noteq> CS_DESTROY then map_option snd (flush_packets (s, ctx)) else Some (s, ctx)) \<bind> (\<lambda>c.
     if state (fst c) \<in> {CS_SYN_SENT, CS_SYN_RECV, CS_CONNECTED_FULL, CS_CONNECTED} then check_timers c else Some c)) (wired rd (s, ctx))"
    by (rule wlp_wired_seq [OF f]) (intro wlp_ifI wlp_check_timers, simp)
qed

subsection \<open>Incoming packets\<close>

lemma idle_complete:
  assumes "idle rd c c1"
  shows "idle rd c (update_user_window pf c1)" "idle rd c (incoming_complete f c1)" "idle rd c (outgoing_complete f n c1)"
  using assms by (cases c1; auto simp: update_user_window_def incoming_complete_def outgoing_complete_def Let_def utp_call_defs cores
      intro!: idle_ctx elim!: idle_update)+

lemma wired_cb_ok: "wired rd c c' \<Longrightarrow> cb_ok (outbuf (fst c)) \<Longrightarrow> cb_ok (outbuf (fst c'))"
  by (cases c; cases c') (simp add: wired_def)

lemma idle_cwp: "idle rd (s, ctx) (s', ctx') \<Longrightarrow> cur_window_packets s' = cur_window_packets s \<and> outbuf s' = outbuf s"
  by (simp add: idle_def tx_core_def)

lemma wlp_advance_window:
  assumes "n \<le> unat (cur_window_packets s)" and "cb_ok (outbuf s)"
  shows "wlp (advance_window a n (s, ctx)) (wired rd (s, ctx))"
  unfolding advance_window_def prod.case Let_def
proof (rule wlp_bindI)
  let ?s = "update_fast_resend a s"
  have st: "still s ?s" by (simp add: update_fast_resend_def still_def cores)
  show "wlp (ack_loop n (?s, ctx)) (\<lambda>c. wired rd (s, ctx) c \<and> cb_ok (outbuf (fst c)))"
  proof (rule wlp_mono [OF wlp_from [OF wired_still [OF st] wlp_ack_loop]])
    show "wired rd (s, ctx) c \<and> cb_ok (outbuf (fst c))" if "wired rd (s, ctx) c" for c using that wired_cb_ok [OF that] assms(2) by simp
  qed (use assms st in \<open>simp_all add: still_def cores\<close>)
  fix c assume c: "wired rd (s, ctx) c \<and> cb_ok (outbuf (fst c))"
  obtain s1 ctx1 where e: "c = (s1, ctx1)" by (cases c)
  have w: "wired rd (s, ctx) (trim_window s1, ctx1)" using c by (auto simp: e intro: wired_trans [OF _ wired_trim])
  show "wlp (case c of (s1, ctx1) \<Rightarrow> assert_oldest (trim_window s1) \<bind> (\<lambda>_. flush_nagle (trim_window s1, ctx1) \<bind> fast_timeout_retry)) (wired rd (s, ctx))"
    unfolding e prod.case
    by (rule wlp_bindI [OF wlp_True], rule wlp_wired_seq [OF wlp_from [OF w wlp_flush_nagle]]) (rule wlp_fast_timeout_retry)
qed

lemma wlp_process_ack:
  assumes "cb_ok (outbuf s)"
  shows "wlp (process_ack pf f n (s, ctx)) (wired rd (s, ctx))"
proof -
  let ?c = "outgoing_complete f n (incoming_complete f (update_user_window pf (s, ctx)))"
  have i: "idle rd (s, ctx) ?c"
    by (intro idle_complete idle_refl)
  obtain s1 ctx1 where c: "?c = (s1, ctx1)" by (cases ?c)
  have "wlp (advance_window (pf_ack_nr pf) n ?c) (wired rd (s, ctx))" if "n \<le> unat (cur_window_packets s)"
    unfolding c using that idle_cwp [OF i [unfolded c]] assms by (intro wlp_from [OF wired_idle [OF i [unfolded c]] wlp_advance_window]) simp_all
  then show ?thesis by (simp add: process_ack_def)
qed

lemma wlp_handle_ack:
  assumes "cb_ok (outbuf s)"
  shows "wlp (handle_ack pf time selack (s, ctx)) (wired rd (s, ctx))"
  unfolding handle_ack_def Let_def
proof (rule wlp_bindI [OF wlp_count_duplicate [OF idle_refl, where rd = rd]], clarify, rule wlp_bindI [OF wlp_measure_ack], assumption, clarify)
  fix s1 ctx1 s2 ctx2 assume "idle rd (s, ctx) (s2, ctx2)"
  note i = this
  have ok: "cb_ok (outbuf s2)" using idle_cwp [OF i] assms by simp
  note w = wlp_from [OF wired_idle [OF i] wlp_process_ack [OF ok]]
  show "wlp (do { c3 \<leftarrow> process_ack pf (pf_type pf) (ack_count (pf_ack_nr pf) (fst (s, ctx))) (s2, ctx2);
      c4 \<leftarrow> (case selack of None \<Rightarrow> Some c3 | Some (m, len) \<Rightarrow> selective_ack (ucast (pf_ack_nr pf) + 2) m len c3);
      _ \<leftarrow> assert_oldest (fst c4); Some (mark_writable c4) }) (wired rd (s, ctx))"
  proof (rule wlp_wired_seq [OF w], rule wlp_wired_seq)
    fix s3 ctx3
    show "wlp (case selack of None \<Rightarrow> Some (s3, ctx3) | Some (m, len) \<Rightarrow> selective_ack (ucast (pf_ack_nr pf) + 2) m len (s3, ctx3)) (wired rd (s3, ctx3))"
      by (rule wlp_optionI) (simp_all add: split_beta wlp_selective_ack)
    fix s4 ctx4
    show "wlp (assert_oldest (fst (s4, ctx4)) \<bind> (\<lambda>_. Some (mark_writable (s4, ctx4)))) (wired rd (s4, ctx4))"
      by (rule wlp_bindI [OF wlp_True]) (simp add: wired_idle mark_writable_idle)
  qed
qed

subsection \<open>Incoming data\<close>

lemma idle_post_data: "idle True c (s, ctx) \<Longrightarrow> idle True c (s, post_data b (s, ctx))"
  using idle_self [of True c s ctx] by (auto simp: post_data_def utp_call_defs intro!: idle_ctx)

lemma wlp_check_eof: "idle True c (s, ctx) \<Longrightarrow> wlp (check_eof (s, ctx)) (idle True c)"
proof -
  assume i: "idle True c (s, ctx)"
  let ?s = "s\<lparr>got_fin_reached := True, rto_timeout := current_ms ctx + ucast (min (rto s * 3) 60)\<rparr>"
  have "idle True c (?s, utp_call_on_state_change ctx (self s) UTP_STATE_EOF)"
    unfolding utp_call_on_state_change_def
    by (intro idle_ctx idle_update [OF i]) (use idle_self [OF i] in \<open>simp_all add: cores\<close>)
  note a = wlp_send_ack [OF this]
  show ?thesis unfolding check_eof_def prod.case Let_def
    by (rule wlp_ifI, rule wlp_bindI [OF a]) (auto elim!: idle_update simp: cores i)
qed

lemma wlp_take_reordered: "idle True c (s, ctx) \<Longrightarrow> wlp (take_reordered p (s, ctx)) (idle True c)"
proof -
  assume i: "idle True c (s, ctx)"
  have "idle True c (s\<lparr>inbuf := b\<rparr>, ctx)" for b by (rule idle_update [OF i]) (simp_all add: cores)
  note j = idle_post_data [OF this]
  show ?thesis unfolding take_reordered_def prod.case Let_def
    by (rule wlp_bindI [OF wlp_True], simp only: wlp_Some) (rule idle_update [OF j], simp_all add: cores)
qed

lemma wlp_reorder_loop: "idle True c c1 \<Longrightarrow> wlp (reorder_loop c1) (idle True c)"
  unfolding wlp_def
proof (intro allI impI)
  fix x assume i: "idle True c c1" and r: "reorder_loop c1 = Some x"
  have "idle True c c1 \<longrightarrow> idle True c x"
  proof (rule reorder_loop.raw_induct [where P = "\<lambda>c1 x. idle True c c1 \<longrightarrow> idle True c x", OF _ r], rule impI, goal_cases)
    case (1 loop c1 x)
    have step: "wlp (loop c2) (idle True c)" if "idle True c c2" for c2 using 1(1) that by (simp add: wlp_def)
    obtain s ctx where c1: "c1 = (s, ctx)" by (cases c1)
    show ?case
    proof (rule wlpD [OF _ 1(2)], unfold c1, rule wlp_bindI [OF wlp_check_eof])
      show "idle True c (s, ctx)" using 1(3) by (simp add: c1)
      fix c2 assume i: "idle True c c2"
      then have "wlp (take_reordered p c2 \<bind> loop) (idle True c)" for p
        by (cases c2) (auto intro!: wlp_bindI [OF wlp_take_reordered] step)
      then show "wlp (if reorder_count (fst c2) = 0 then Some c2
          else case cb_get (inbuf (fst c2)) (ucast (ack_nr (fst c2)) + 1) of None \<Rightarrow> Some c2 | Some p \<Rightarrow> take_reordered p c2 \<bind> loop) (idle True c)"
        using i by (intro wlp_ifI wlp_optionI) simp_all
    qed
  qed
  then show "idle True c x" using i by simp
qed

lemma wlp_recv_data: "idle True c (s, ctx) \<Longrightarrow> wlp (recv_data f sq n data (s, ctx)) (\<lambda>(_, c'). idle True c c')"
proof -
  assume i: "idle True c (s, ctx)"
  let ?s = "got_fin_packet f sq s"
  have j: "idle True c (?s, ctx)" by (rule idle_update [OF i]) (simp_all add: got_fin_packet_def cores)
  have "idle True c (?s\<lparr>ack_nr := ack_nr ?s + 1\<rparr>, post_data data (?s, ctx))"
    by (rule idle_update [OF idle_post_data [OF j]]) (simp_all add: cores)
  then have a: "wlp (recv_in_order data (?s, ctx)) (idle True c)"
    unfolding recv_in_order_def prod.case Let_def by (rule wlp_bindI [OF wlp_reorder_loop]) (auto simp: split_beta)
  have o: "wlp (recv_out_of_order sq n data (?s, ctx)) (\<lambda>(_, c'). idle True c c')"
    unfolding recv_out_of_order_def prod.case Let_def
    by (intro wlp_ifI wlp_bindI [OF wlp_True]) (auto intro: idle_update [OF j] simp: cores j)
  show ?thesis
    unfolding recv_data_def prod.case Let_def
    by (intro wlp_ifI) (auto intro!: wlp_bindI [OF a] wlp_bindI [OF o])
qed

lemma wlp_process_accepted:
  assumes "cb_ok (outbuf s)"
  shows "wlp (process_accepted pf time n selack data (s, ctx)) (\<lambda>(_, c'). wired True (s, ctx) c')"
  unfolding process_accepted_def Let_def
proof (rule wlp_bindI [OF wlp_handle_ack [OF assms, where rd = True]])
  fix c assume w: "wired True (s, ctx) c"
  obtain s1 ctx1 where c: "c = (s1, ctx1)" by (cases c)
  have "wlp (recv_data (pf_type pf) (pf_seq_nr pf) n data c) (\<lambda>(_, c'). wired True (s, ctx) c')"
    unfolding c by (rule wlp_mono [OF wlp_recv_data [OF idle_refl]]) (use w in \<open>auto simp: c intro: wired_trans wired_idle\<close>)
  then show "wlp (if pf_type pf = ST_STATE then Some (0, c)
     else if state (fst c) \<noteq> CS_CONNECTED \<and> state (fst c) \<noteq> CS_CONNECTED_FULL then Some (0, c)
     else recv_data (pf_type pf) (pf_seq_nr pf) n data c) (\<lambda>(_, c'). wired True (s, ctx) c')"
    using w by (intro wlp_ifI) simp_all
qed

lemma drop_stray_idle: "idle rd c (s, ctx) \<Longrightarrow> idle rd c (drop_stray n f (s, ctx))"
  by (simp add: drop_stray_def)

lemma wlp_process_parsed:
  assumes "cb_ok (outbuf s)"
  shows "wlp (process_parsed p slack syn pf time r (s, ctx)) (\<lambda>(_, c'). wired True (s, ctx) c')"
proof (cases r)
  case (Ext_Invalid e)
  then show ?thesis by (auto simp: process_parsed_def still_def cores intro!: wired_still)
next
  case (Ext_Ok e sel data)
  let ?s1 = "s\<lparr>extensions := ext_bits r\<rparr>"
  define s3 where "s3 = (if state ?s1 = CS_SYN_SENT then ?s1\<lparr>ack_nr := ucast ((ucast (pf_seq_nr pf) - 1 :: uint32) AND SEQ_NR_MASK)\<rparr> else ?s1)
      \<lparr>last_got_packet := current_ms ctx\<rparr>"
  have st: "still s s3" by (simp add: s3_def still_def cores)
  then have ok: "cb_ok (outbuf s3)" using assms by (simp add: still_def cores)
  have "wlp (process_accepted pf time n sa d (s3, ctx)) (\<lambda>(_, c'). wired True (s, ctx) c')" for n sa d
    by (rule wlp_from_snd [OF wired_still [OF st] wlp_process_accepted [OF ok]])
  moreover have "wired True (s, ctx) (drop_stray n f (s3, ctx))" for n f
    by (rule wired_trans [OF wired_still [OF st] wired_idle [OF drop_stray_idle [OF idle_refl]]])
  ultimately show ?thesis
    unfolding process_parsed_def prod.case Let_def Ext_Ok ext_result.case s3_def [symmetric, unfolded Ext_Ok]
    by (intro wlp_ifI wlp_bindI [OF wlp_True]) (simp_all add: wired_still [OF st])
qed

lemma wlp_process_incoming:
  assumes "cb_ok (outbuf s)"
  shows "wlp (utp_process_incoming p slack syn (s, ctx)) (\<lambda>(_, c'). wired True (s, ctx) c')"
proof -
  define ctx1 where "ctx1 = utp_register_recv_packet ctx (of_nat (length p))"
  obtain ms ctx2 where m: "utp_call_get_milliseconds ctx1 (Some (self s)) = (ms, ctx2)" by fastforce
  obtain time ctx4 where u: "utp_call_get_microseconds (ctx2\<lparr>current_ms := ms\<rparr>) (Some (self s)) = (time, ctx4)" by fastforce
  have "idle True (s, ctx) (s, ctx1)" unfolding ctx1_def utp_register_recv_packet_def Let_def by simp
  then have "idle True (s, ctx) (s, ctx2\<lparr>current_ms := ms\<rparr>)" using idle_clock(2) [OF m] by simp
  then have i: "idle True (s, ctx) (s, ctx2\<lparr>current_ms := ms\<rparr>)" "idle True (s, ctx) (s, ctx4)" using idle_clock(1) [OF u] by simp_all
  have "wlp (process_parsed p slack syn pf time r (s, ctx4)) (\<lambda>(_, c'). wired True (s, ctx) c')" for pf r
    by (rule wlp_from_snd [OF wired_idle [OF i(2)] wlp_process_parsed [OF assms]])
  then show ?thesis
    unfolding utp_process_incoming_def prod.case Let_def ctx1_def [symmetric] m u
    by (intro wlp_ifI wlp_bindI [OF wlp_True]) (simp_all add: wired_idle [OF i(1)] wired_idle [OF i(2)])
qed

end
