(* ===== verification/Utp_Socket.thy ===== *)
theory Utp_Socket
  imports Utp_Timeouts Utp_Write
begin

section \<open>The life of a socket\<close>

text \<open>
  Creation, initialization, connecting, writing, closing and destruction of a socket, and its
  options. A socket object lives in the heap \<open>socks\<close> of its context under its address; the
  operations on an existing socket work on the pair of the object and its context.
\<close>

subsection \<open>Creation\<close>

text \<open>
  \<^verbatim>\<open>new UTPSocket\<close> has no constructor: \<open>junk\<close> is what the memory at the new address \<open>i\<close> holds.
\<close>

definition new_socket :: "UTPSocket \<Rightarrow> sid \<Rightarrow> utp_context \<Rightarrow> UTPSocket" where
  "new_socket junk i ctx = junk\<lparr>self := i, state := CS_UNINITIALIZED, userdata := 0, reorder_count := 0,
     duplicate_ack := 0, timeout_seq_nr := 0, last_rcv_win := 0, got_fin := False, got_fin_reached := False,
     fin_sent := False, fin_sent_acked := False, read_shutdown := False, close_requested := False,
     fast_timeout := False, rtt := 0, retransmit_timeout := 0, rto_timeout := 0, zerowindow_time := 0,
     average_delay := 0, current_delay_samples := 0, cur_window := 0, eof_pkt := 0, last_maxed_out_window := 0,
     mtu_probe_seq := 0, mtu_probe_size := 0, current_delay_sum := 0, average_delay_base := 0,
     retransmit_count := 0, rto := 3000, rtt_var := 800, seq_nr := 1, ack_nr := 0,
     max_window_user := 255 * PACKET_SIZE, cur_window_packets := 0, fast_resend_seq_nr := 1,
     target_delay := ctx_target_delay ctx, reply_micro := 0, opt_sndbuf := ctx_opt_sndbuf ctx,
     opt_rcvbuf := ctx_opt_rcvbuf ctx, slow_start := True, ssthresh := ctx_opt_sndbuf ctx, clock_drift := 0,
     clock_drift_raw := 0, outbuf := cb_new 4, inbuf := cb_new 4, extensions := replicate 8 0\<rparr>"

definition utp_create_socket :: "UTPSocket \<Rightarrow> sid \<Rightarrow> utp_context \<Rightarrow> utp_context" where
  "utp_create_socket junk i ctx =
     ctx\<lparr>socks := (socks ctx)(i \<mapsto> new_socket junk i ctx), ida := (ida ctx)(i := - 1)\<rparr>"

subsection \<open>Initialization\<close>

text \<open>The search for a connection id that is not in use. A search that never ends has no result.\<close>

partial_function (option) gen_seed :: "PackedSockAddr \<Rightarrow> sid \<Rightarrow> utp_context \<Rightarrow> (uint32 \<times> utp_context) option" where
  "gen_seed psaddr i ctx = (
     let (r, ctx1) = utp_call_get_random ctx (Some i);
         seed = r AND 0xffff
     in Option.bind (utp_hash_find (utp_sockets ctx1) \<lparr>key_addr = psaddr, recv_id = seed\<rparr>) (\<lambda>found.
          if found = None then Some (seed, ctx1) else gen_seed psaddr i ctx1))"

declare gen_seed.simps [code]

definition sock_key :: "UTPSocket \<Rightarrow> UTPSocketKey" where
  "sock_key s = \<lparr>key_addr = addr s, recv_id = conn_id_recv s\<rparr>"

definition init_state :: "PackedSockAddr \<Rightarrow> uint32 \<Rightarrow> uint32 \<Rightarrow> uint32 \<Rightarrow> uint64 \<Rightarrow> UTPSocket \<Rightarrow> UTPSocket" where
  "init_state psaddr seed id_recv id_send ms s = s\<lparr>state := CS_IDLE, conn_seed := seed, conn_id_recv := id_recv,
     conn_id_send := id_send, addr := psaddr, last_got_packet := ms, last_sent_packet := ms,
     last_measured_delay := ms + 0x70000000, average_sample_time := ms + 5000,
     last_rwin_decay := sint (ms - word_of_int MAX_WINDOW_DECAY), our_hist := dh_clear ms, their_hist := dh_clear ms,
     rtt_hist := dh_clear ms\<rparr>"

definition utp_initialize_socket ::
    "SOCKADDR_STORAGE \<Rightarrow> nat \<Rightarrow> bool \<Rightarrow> uint32 \<Rightarrow> uint32 \<Rightarrow> uint32 \<Rightarrow> conn \<Rightarrow> conn option" where
  "utp_initialize_socket sa len need_seed_gen seed0 id_recv0 id_send0 = (\<lambda>(s, ctx). do {
     psaddr \<leftarrow> psa_set sa len;
     (seed, ctx1) \<leftarrow> (if need_seed_gen then gen_seed psaddr (self s) ctx else Some (seed0, ctx));
     let id_recv = (if need_seed_gen then id_recv0 + seed else id_recv0);
     let id_send = (if need_seed_gen then id_send0 + seed else id_send0);
     let (ms, ctx2) = utp_call_get_milliseconds ctx1 None;
     let ctx3 = ctx2\<lparr>current_ms := ms\<rparr>;
     (s3, ctx4) \<leftarrow> mtu_reset (init_state psaddr seed id_recv id_send ms s, ctx3);
     let s4 = s3\<lparr>mtu_last := mtu_ceiling s3\<rparr>;
     h \<leftarrow> utp_hash_insert (utp_sockets ctx4) (sock_key s4) (self s4);
     Some (s4\<lparr>max_window := get_packet_size s4\<rparr>, ctx4\<lparr>utp_sockets := h\<rparr>)
   })"

subsection \<open>Connecting\<close>

definition syn_header :: "UTPSocket \<Rightarrow> PacketFormatV1" where
  "syn_header s = (pf_set_type ST_SYN (pf_set_version 1 pf_zero))
     \<lparr>pf_ext := 0, pf_connid := ucast (conn_id_recv s), pf_windowsize := ucast (last_rcv_win s), pf_seq_nr := seq_nr s\<rparr>"

text \<open>
  The connect packet. \<^verbatim>\<open>malloc\<close> leaves \<^verbatim>\<open>need_resend\<close> and \<^verbatim>\<open>time_sent\<close> open; \<^verbatim>\<open>send_packet\<close> writes both before they are read.
\<close>

definition syn_packet :: "UTPSocket \<Rightarrow> OutgoingPacket" where
  "syn_packet s = new_packet\<lparr>pkt_header := syn_header s, pkt_length := of_nat sizeof_PacketFormatV1, pkt_payload := 0,
     transmissions := 0\<rparr>"

definition queue_syn :: "conn \<Rightarrow> conn option" where
  "queue_syn = (\<lambda>(s, ctx). do {
     let pkt = syn_packet s;
     let idx = (ucast (seq_nr s) :: size_t);
     b \<leftarrow> cb_ensure_size (outbuf s) idx (ucast (cur_window_packets s));
     send_packet idx (s\<lparr>outbuf := cb_put b idx (Some pkt), seq_nr := seq_nr s + 1,
       cur_window_packets := cur_window_packets s + 1\<rparr>, ctx)
   })"

definition utp_connect :: "SOCKADDR_STORAGE \<Rightarrow> nat \<Rightarrow> conn \<Rightarrow> (int \<times> conn) option" where
  "utp_connect sa len = (\<lambda>(s, ctx). do {
     cassert (state s = CS_UNINITIALIZED);
     (s1, ctx1) \<leftarrow> utp_initialize_socket sa len True 0 0 1 (s, ctx);
     cassert (cur_window_packets s1 = 0);
     cassert (cb_get (outbuf s1) (ucast (seq_nr s1)) = None);
     let (ms, ctx2) = utp_call_get_milliseconds ctx1 (Some (self s1));
     let ctx3 = utp_log UTP_LOG_NORMAL (Some (self s1)) (ctx2\<lparr>current_ms := ms\<rparr>);
     let s2 = s1\<lparr>state := CS_SYN_SENT, retransmit_timeout := 3000, rto_timeout := ms + 3000\<rparr>;
     (w, ctx4) \<leftarrow> get_rcv_window (s2, ctx3);
     let (r, ctx5) = utp_call_get_random ctx4 (Some (self s2));
     c \<leftarrow> queue_syn (s2\<lparr>last_rcv_win := w, seq_nr := ucast r\<rparr>, ctx5);
     Some (0, c)
   })"

subsection \<open>Options and user data\<close>

definition utp_setsockopt :: "utp_option \<Rightarrow> int \<Rightarrow> UTPSocket \<Rightarrow> (int \<times> UTPSocket) option" where
  "utp_setsockopt opt val s = (case opt of
      OPT_SNDBUF \<Rightarrow> do { cassert (1 \<le> val); Some (0, s\<lparr>opt_sndbuf := word_of_int val\<rparr>) }
    | OPT_RCVBUF \<Rightarrow> do { cassert (1 \<le> val); Some (0, s\<lparr>opt_rcvbuf := word_of_int val\<rparr>) }
    | OPT_TARGET_DELAY \<Rightarrow> Some (0, s\<lparr>target_delay := word_of_int val\<rparr>)
    | _ \<Rightarrow> Some (- 1, s))"

definition utp_getsockopt :: "utp_option \<Rightarrow> UTPSocket \<Rightarrow> int" where
  "utp_getsockopt opt s = (case opt of
      OPT_SNDBUF \<Rightarrow> as_int (opt_sndbuf s)
    | OPT_RCVBUF \<Rightarrow> as_int (opt_rcvbuf s)
    | OPT_TARGET_DELAY \<Rightarrow> as_int (target_delay s)
    | _ \<Rightarrow> - 1)"

definition utp_set_userdata :: "uint64 \<Rightarrow> UTPSocket \<Rightarrow> uint64 \<times> UTPSocket" where
  "utp_set_userdata u s = (let s' = s\<lparr>userdata := u\<rparr> in (userdata s', s'))"

definition utp_get_userdata :: "UTPSocket \<Rightarrow> uint64" where
  "utp_get_userdata s = userdata s"

text \<open>The address is copied up to the room that the caller has.\<close>

definition utp_getpeername :: "nat \<Rightarrow> UTPSocket \<Rightarrow> (SOCKADDR_STORAGE \<times> nat) option" where
  "utp_getpeername addrlen s = do {
     cassert (state s \<noteq> CS_UNINITIALIZED);
     let (sa, len) = psa_get_sockaddr_storage (addr s);
     Some (sa, min len addrlen)
   }"

definition utp_get_delays :: "conn \<Rightarrow> (uint32 \<times> uint32 \<times> uint32) option" where
  "utp_get_delays = (\<lambda>(s, ctx). do {
     cassert (state s \<noteq> CS_UNINITIALIZED);
     Some (dh_get_value (our_hist s), dh_get_value (their_hist s), ucast (current_ms ctx - last_measured_delay s))
   })"

subsection \<open>Writing\<close>

definition UTP_IOV_MAX :: nat where "UTP_IOV_MAX = 1024"

definition writev_finish :: "size_t \<Rightarrow> conn \<Rightarrow> size_t \<times> conn" where
  "writev_finish sent c = (let (full, s, ctx) = is_full (- 1) c
     in (sent, (if full then s\<lparr>state := CS_CONNECTED_FULL\<rparr> else s, ctx)))"

partial_function (option) writev_loop ::
    "size_t \<Rightarrow> size_t \<Rightarrow> size_t \<Rightarrow> size_t \<Rightarrow> byte list list \<Rightarrow> conn \<Rightarrow> (size_t \<times> conn) option" where
  "writev_loop packet_size bytes sent num_to_send iov c = (
     let (full, c1) = is_full (as_int num_to_send) c
     in if full then Some (writev_finish sent c1)
        else Option.bind (write_outgoing_packet num_to_send ST_DATA iov c1) (\<lambda>(iov', c2).
          let bytes' = bytes - num_to_send;
              sent' = sent + num_to_send;
              num' = min bytes' packet_size
          in if num' = 0 then Some (sent', c2) else writev_loop packet_size bytes' sent' num' iov' c2))"

declare writev_loop.simps [code]

definition utp_writev :: "byte list list \<Rightarrow> conn \<Rightarrow> (size_t \<times> conn) option" where
  "utp_writev iovec_input = (\<lambda>(s, ctx). do {
     cassert (iovec_input \<noteq> []);
     let iovec = take UTP_IOV_MAX iovec_input;
     let bytes = sum_list (map (\<lambda>v. of_nat (length v)) iovec);
     if state s \<noteq> CS_CONNECTED then Some (0, (s, ctx))
     else if fin_sent s then Some (0, (s, ctx))
     else do {
       let (ms, ctx1) = utp_call_get_milliseconds ctx (Some (self s));
       let packet_size = get_packet_size s;
       writev_loop packet_size bytes 0 (min bytes packet_size) iovec (s, ctx1\<lparr>current_ms := ms\<rparr>)
     }
   })"

definition utp_write :: "byte list \<Rightarrow> conn \<Rightarrow> (size_t \<times> conn) option" where
  "utp_write buf = utp_writev [buf]"

subsection \<open>Reading, closing, destruction\<close>

definition utp_read_drained :: "conn \<Rightarrow> conn option" where
  "utp_read_drained = (\<lambda>(s, ctx). do {
     cassert (state s \<noteq> CS_UNINITIALIZED);
     (rcvwin, ctx1) \<leftarrow> get_rcv_window (s, ctx);
     if last_rcv_win s < rcvwin then
       if last_rcv_win s = 0 then send_ack False (s, ctx1)
       else (let (ms, ctx2) = utp_call_get_milliseconds ctx1 (Some (self s))
             in Some (s, schedule_ack (self s) (ctx2\<lparr>current_ms := ms\<rparr>)))
     else Some (s, ctx1)
   })"

definition send_fin :: "conn \<Rightarrow> conn option" where
  "send_fin = (\<lambda>(s, ctx). do {
     (_, c) \<leftarrow> write_outgoing_packet 0 ST_FIN [] (s\<lparr>fin_sent := True\<rparr>, ctx);
     Some c
   })"

text \<open>The timeout of a half-open connection, in a field that counts milliseconds.\<close>

definition short_timeout :: "conn \<Rightarrow> conn" where
  "short_timeout = (\<lambda>(s, ctx). let (ms, ctx1) = utp_call_get_milliseconds ctx (Some (self s))
     in (s\<lparr>rto_timeout := ms + ucast (min (rto s * 2) 60)\<rparr>, ctx1))"

definition utp_close :: "conn \<Rightarrow> conn option" where
  "utp_close = (\<lambda>(s, ctx). do {
     cassert (state s \<noteq> CS_UNINITIALIZED \<and> state s \<noteq> CS_DESTROY);
     if state s = CS_CONNECTED \<or> state s = CS_CONNECTED_FULL then do {
       let s1 = s\<lparr>read_shutdown := True, close_requested := True\<rparr>;
       if \<not> fin_sent s1 then send_fin (s1, ctx)
       else if fin_sent_acked s1 then Some (s1\<lparr>state := CS_DESTROY\<rparr>, ctx)
       else Some (s1, ctx)
     } else do {
       let (s1, ctx1) = (if state s = CS_SYN_SENT then short_timeout (s, ctx) else (s, ctx));
       Some (s1\<lparr>state := CS_DESTROY\<rparr>, ctx1)
     }
   })"

datatype shut_how = SHUT_RD | SHUT_WR | SHUT_RDWR

definition utp_shutdown :: "shut_how \<Rightarrow> conn \<Rightarrow> conn option" where
  "utp_shutdown how = (\<lambda>(s, ctx). do {
     cassert (state s \<noteq> CS_UNINITIALIZED \<and> state s \<noteq> CS_DESTROY);
     let s1 = (if how \<noteq> SHUT_WR then s\<lparr>read_shutdown := True\<rparr> else s);
     if how \<noteq> SHUT_RD then
       if state s1 = CS_CONNECTED \<or> state s1 = CS_CONNECTED_FULL
       then if \<not> fin_sent s1 then send_fin (s1, ctx) else Some (s1, ctx)
       else if state s1 = CS_SYN_SENT then Some (short_timeout (s1, ctx))
       else Some (s1, ctx)
     else Some (s1, ctx)
   })"

definition destroy_socket :: "sid \<Rightarrow> utp_context \<Rightarrow> utp_context option" where
  "destroy_socket i ctx = do {
     s \<leftarrow> socks ctx i;
     let ctx1 = utp_call_on_state_change ctx i UTP_STATE_DESTROYING;
     let ctx2 = (if last_utp_socket ctx1 = Some i then ctx1\<lparr>last_utp_socket := None\<rparr> else ctx1);
     (h, kd) \<leftarrow> utp_hash_del (utp_sockets ctx2) (sock_key s);
     cassert (kd \<noteq> None);
     ctx3 \<leftarrow> removeSocketFromAckList i (ctx2\<lparr>utp_sockets := h\<rparr>);
     Some (ctx3\<lparr>socks := (socks ctx3)(i := None)\<rparr>)
   }"

subsection \<open>A new socket\<close>

text \<open>What creation guarantees, whatever was in the memory before.\<close>

definition fresh_sock :: "UTPSocket \<Rightarrow> bool" where
  "fresh_sock s \<longleftrightarrow> state s = CS_UNINITIALIZED \<and> cur_window_packets s = 0 \<and> cur_window s = 0 \<and> outbuf s = cb_new 4 \<and>
     inbuf s = cb_new 4 \<and> reorder_count s = 0 \<and> \<not> got_fin_reached s \<and> \<not> fin_sent s \<and> rtt s = 0 \<and>
     current_delay_samples s = 0 \<and> current_delay_sum s = 0 \<and> average_delay s = 0 \<and> clock_drift s = 0 \<and>
     mtu_probe_seq s = 0 \<and> length (extensions s) = 8 \<and> unat (opt_sndbuf s) < 2 ^ 40"

lemma new_socket_fresh: "unat (ctx_opt_sndbuf ctx) < 2 ^ 40 \<Longrightarrow> fresh_sock (new_socket junk i ctx)"
  by (simp add: fresh_sock_def new_socket_def)

lemma empty_out_ok:
  assumes "cur_window_packets s = 0" and "cur_window s = 0" and "outbuf s = cb_new 4"
  shows "out_ok T s" "out_window s = []" "times_ok lo ctx s"
proof -
  show w: "out_window s = []" using assms(1) by (simp add: out_window_def)
  have "cb_ok (outbuf s)" "cb_bits (outbuf s) = 4" by (simp_all add: assms(3) cb_ok_new cb_bits_new)
  moreover have "out_clean s" by (simp add: out_clean_def assms(3) cb_get_new)
  ultimately show "out_ok T s" using assms by (simp add: out_ok_def w flight_bytes_def)
  show "times_ok lo ctx s" by (simp add: times_ok_def w)
qed

lemma empty_in_ok:
  assumes "inbuf s = cb_new 4" and "reorder_count s = 0"
  shows "in_ok s"
proof -
  have b: "cb_bits (inbuf s) = 4" "cb_ok (inbuf s)" by (simp_all add: assms(1) cb_bits_new cb_ok_new)
  have "in_window s = replicate 16 None" by (rule nth_equalityI) (simp_all add: b in_window_nth assms(1) cb_get_new cb_bits_new)
  then show ?thesis using b assms(2) by (simp add: in_ok_def in_loop_def)
qed

lemma mtu_reset_fresh:
  assumes L: "20 < L" "L \<le> 576" and cb: "mtu_callback_ok L ctx" and p: "mtu_probe_seq s = 0"
  shows "wpo (mtu_reset (s, ctx)) (\<lambda>(s', ctx'). mtu_ok L (s'\<lparr>mtu_last := mtu_ceiling s'\<rparr>) \<and> mtu_only s s' \<and> trace_ext ctx ctx')"
proof -
  let ?s = "s\<lparr>mtu_floor := 576, mtu_ceiling := 576, mtu_last := 576\<rparr>"
  have ok: "mtu_ok L ?s" using L p by (simp add: mtu_ok_def)
  have eq: "mtu_reset (?s, ctx) = map_option (\<lambda>(s', ctx'). (s'\<lparr>mtu_last := 576\<rparr>, ctx')) (mtu_reset (s, ctx))"
    by (simp add: mtu_reset_def get_udp_mtu_def Let_def cassert_def split: prod.split)
  from mtu_reset_ok [OF ok cb] show ?thesis
    unfolding eq wpo_def
    by (auto split: option.splits simp: mtu_ok_def mtu_only_def mtu_erase_def word_le_nat_alt)
qed

subsection \<open>Connection ids\<close>

text \<open>What the application's generator answers to call number \<open>n\<close>, and the condition that a later answer is an unused id.\<close>

definition random_at :: "utp_context \<Rightarrow> sid \<Rightarrow> nat \<Rightarrow> uint32" where
  "random_at ctx i n = (case callbacks ctx UTP_GET_RANDOM of None \<Rightarrow> 0 | Some f \<Rightarrow> ucast (f n (Get_Random (Some i))))"

definition seed_free :: "utp_context \<Rightarrow> PackedSockAddr \<Rightarrow> sid \<Rightarrow> nat \<Rightarrow> bool" where
  "seed_free ctx a i n \<longleftrightarrow> hash_abs (utp_sockets ctx) \<lparr>key_addr = a, recv_id = random_at ctx i n AND 0xffff\<rparr> = None"

lemma random_call:
  assumes "utp_call_get_random ctx (Some i) = (r, ctx1)"
  shows "r = random_at ctx i (length (calls ctx))" "trace_ext ctx ctx1" "utp_sockets ctx1 = utp_sockets ctx"
    "callbacks ctx UTP_GET_RANDOM \<noteq> None \<Longrightarrow> length (calls ctx1) = Suc (length (calls ctx))"
    "callbacks ctx UTP_GET_RANDOM = None \<Longrightarrow> ctx1 = ctx" "random_at ctx1 = random_at ctx"
proof -
  have "ctx1 = snd (utp_call UTP_GET_RANDOM (Get_Random (Some i)) ctx)" using assms by (auto simp: utp_call_get_random_def split: prod.splits)
  then show "trace_ext ctx ctx1" by simp
  show "r = random_at ctx i (length (calls ctx))" "utp_sockets ctx1 = utp_sockets ctx"
    "callbacks ctx UTP_GET_RANDOM \<noteq> None \<Longrightarrow> length (calls ctx1) = Suc (length (calls ctx))"
    "callbacks ctx UTP_GET_RANDOM = None \<Longrightarrow> ctx1 = ctx" "random_at ctx1 = random_at ctx"
    using assms by (auto simp: utp_call_get_random_def utp_call_def random_at_def fun_eq_iff split: option.splits)
qed

lemma gen_seed_spec:
  assumes "hash_ok (utp_sockets ctx)" and "length (calls ctx) \<le> n" and "seed_free ctx a i n"
  shows "wpo (gen_seed a i ctx) (\<lambda>(seed, ctx'). trace_ext ctx ctx' \<and> hash_abs (utp_sockets ctx) \<lparr>key_addr = a, recv_id = seed\<rparr> = None)"
  using assms
proof (induction "n - length (calls ctx)" arbitrary: ctx)
  case (0 ctx)
  then have n: "n = length (calls ctx)" by simp
  obtain r ctx1 where r: "utp_call_get_random ctx (Some i) = (r, ctx1)" by fastforce
  note c = random_call [OF r]
  have "utp_hash_find (utp_sockets ctx1) \<lparr>key_addr = a, recv_id = r AND 0xffff\<rparr> = Some None"
    using utp_hash_find_spec [OF 0(2)] 0(4) by (simp add: c(1,3) seed_free_def n)
  then show ?case
    using c(2) 0(4) by (subst gen_seed.simps) (simp add: r seed_free_def n c(1))
next
  case (Suc k ctx)
  obtain r ctx1 where r: "utp_call_get_random ctx (Some i) = (r, ctx1)" by fastforce
  note c = random_call [OF r]
  let ?key = "\<lparr>key_addr = a, recv_id = r AND 0xffff\<rparr>"
  have find: "utp_hash_find (utp_sockets ctx1) ?key = Some (hash_abs (utp_sockets ctx) ?key)"
    using utp_hash_find_spec [OF Suc(3)] by (simp add: c(3))
  show ?case
  proof (cases "hash_abs (utp_sockets ctx) ?key = None")
    case True
    then show ?thesis using c(2) find by (subst gen_seed.simps) (simp add: r)
  next
    case False
    have "callbacks ctx UTP_GET_RANDOM \<noteq> None"
    proof
      assume "callbacks ctx UTP_GET_RANDOM = None"
      then have "random_at ctx i m = 0" for m by (simp add: random_at_def)
      then show False using False Suc(5) c(1) by (simp add: seed_free_def)
    qed
    then have len: "length (calls ctx1) = Suc (length (calls ctx))" by (rule c(4))
    have "seed_free ctx1 a i n" using Suc(5) by (simp add: seed_free_def c(3,6))
    then have "wpo (gen_seed a i ctx1) (\<lambda>(seed, ctx'). trace_ext ctx1 ctx' \<and> hash_abs (utp_sockets ctx1) \<lparr>key_addr = a, recv_id = seed\<rparr> = None)"
      using Suc(2-4) len c(3) by (intro Suc(1)) simp_all
    then have "wpo (gen_seed a i ctx1) (\<lambda>(seed, ctx'). trace_ext ctx ctx' \<and> hash_abs (utp_sockets ctx) \<lparr>key_addr = a, recv_id = seed\<rparr> = None)"
      by (rule wpo_mono) (auto simp: c(3) intro: trace_ext_trans [OF c(2)])
    then show ?thesis using find False by (subst gen_seed.simps) (auto simp: r Let_def)
  qed
qed

subsection \<open>An initialized socket\<close>

definition initialized :: "PackedSockAddr \<Rightarrow> uint32 \<Rightarrow> uint32 \<Rightarrow> uint32 \<Rightarrow> UTPSocket \<Rightarrow> UTPSocket \<Rightarrow> bool" where
  "initialized a seed id_recv id_send s s' \<longleftrightarrow> (\<exists>ms w. mtu_only ((init_state a seed id_recv id_send ms s)\<lparr>max_window := w\<rparr>) s')"

lemma initialized_fields:
  assumes "initialized a seed id_recv id_send s s'"
  shows "self s' = self s" "addr s' = a" "conn_seed s' = seed" "conn_id_recv s' = id_recv" "conn_id_send s' = id_send"
    "state s' = CS_IDLE" "sock_key s' = \<lparr>key_addr = a, recv_id = id_recv\<rparr>" "seq_nr s' = seq_nr s" "ack_nr s' = ack_nr s"
    "cur_window_packets s' = cur_window_packets s" "cur_window s' = cur_window s" "outbuf s' = outbuf s" "inbuf s' = inbuf s"
    "reorder_count s' = reorder_count s" "got_fin_reached s' = got_fin_reached s" "fin_sent s' = fin_sent s" "rtt s' = rtt s"
    "opt_sndbuf s' = opt_sndbuf s" "extensions s' = extensions s" "retransmit_count s' = retransmit_count s"
proof -
  obtain ms w where m: "mtu_only ((init_state a seed id_recv id_send ms s)\<lparr>max_window := w\<rparr>) s'" using assms unfolding initialized_def by blast
  show "self s' = self s" "addr s' = a" "conn_seed s' = seed" "conn_id_recv s' = id_recv" "conn_id_send s' = id_send"
    "state s' = CS_IDLE" "sock_key s' = \<lparr>key_addr = a, recv_id = id_recv\<rparr>" "seq_nr s' = seq_nr s" "ack_nr s' = ack_nr s"
    "cur_window_packets s' = cur_window_packets s" "cur_window s' = cur_window s" "outbuf s' = outbuf s" "inbuf s' = inbuf s"
    "reorder_count s' = reorder_count s" "got_fin_reached s' = got_fin_reached s" "fin_sent s' = fin_sent s" "rtt s' = rtt s"
    "opt_sndbuf s' = opt_sndbuf s" "extensions s' = extensions s" "retransmit_count s' = retransmit_count s"
    using m by (cases s; cases s'; simp add: mtu_only_def mtu_erase_def init_state_def sock_key_def)+
qed

lemma initialized_inv:
  assumes fresh: "fresh_sock s" and init: "initialized a seed id_recv id_send s s'" and mtu: "mtu_ok L s'"
    and mw: "unat (max_window s') < 2 ^ 40" and ctx: "ctx_ok ctx" "app_ok L ctx" "clock_ok lo hi ctx"
  shows "sock_inv T L lo hi (s', ctx)"
proof -
  note f = initialized_fields [OF init]
  have fs: "cur_window_packets s' = 0" "cur_window s' = 0" "outbuf s' = cb_new 4" "inbuf s' = cb_new 4" "reorder_count s' = 0"
    "rtt s' = 0" "unat (opt_sndbuf s') < 2 ^ 40" "length (extensions s') = 8"
    using fresh by (simp_all add: fresh_sock_def f)
  have "delay_ok s'"
  proof -
    obtain ms w where m: "mtu_only ((init_state a seed id_recv id_send ms s)\<lparr>max_window := w\<rparr>) s'" using init unfolding initialized_def by blast
    have "our_hist s' = dh_clear ms" "their_hist s' = dh_clear ms" "current_delay_samples s' = current_delay_samples s"
      "current_delay_sum s' = current_delay_sum s" "average_delay s' = average_delay s" "clock_drift s' = clock_drift s"
      using m by (cases s; cases s'; simp add: mtu_only_def mtu_erase_def init_state_def)+
    then show ?thesis using fresh by (simp add: delay_ok_def fresh_sock_def delay_cap_def)
  qed
  moreover note o = empty_out_ok [OF fs(1-3)]
  moreover have "syn_ok s'" by (simp add: syn_ok_def f(6))
  ultimately show ?thesis
    using mtu mw ctx fs empty_in_ok [OF fs(4,5)] o(1) [of T] by (simp add: sock_inv_def ack_inv_def out_ok_mid)
qed

text \<open>The changes of the context: beside those of \<^const>\<open>ctx_evolve\<close> the table.\<close>

definition ctx_table :: "sid \<Rightarrow> utp_context \<Rightarrow> utp_context \<Rightarrow> bool" where
  "ctx_table i ctx ctx' \<longleftrightarrow> (\<exists>ctx1 h. ctx_evolve i ctx ctx1 \<and> ctx' = ctx1\<lparr>utp_sockets := h\<rparr>)"

definition ctx_good :: "nat \<Rightarrow> nat \<Rightarrow> nat \<Rightarrow> utp_context \<Rightarrow> bool" where
  "ctx_good L lo hi ctx \<longleftrightarrow> ctx_ok ctx \<and> app_ok L ctx \<and> clock_ok lo hi ctx \<and> 20 < L \<and> L \<le> 576"

lemma ctx_good_trace: "ctx_good L lo hi ctx \<Longrightarrow> trace_ext ctx ctx' \<Longrightarrow> ctx_good L lo hi ctx'"
  using trace_ext_ctx_frame [of ctx ctx' 0] ctx_frame_ok [of 0 ctx ctx'] app_ok_frame [of 0 ctx ctx' L] ctx_frame_time(3) [of 0 ctx ctx' lo hi]
  by (simp add: ctx_good_def)

lemma ctx_good_update [simp]:
  "ctx_good L lo hi (ctx\<lparr>current_ms := ms\<rparr>) = ctx_good L lo hi ctx"
  "ctx_good L lo hi (ctx\<lparr>utp_sockets := h\<rparr>) = ctx_good L lo hi ctx"
  by (simp_all add: ctx_good_def ctx_ok_def ack_ok_def app_ok_cong [of "ctx\<lparr>current_ms := ms\<rparr>" ctx]
      app_ok_cong [of "ctx\<lparr>utp_sockets := h\<rparr>" ctx] clock_ok_def reading_def)

lemma ctx_evolve_trace: "trace_ext ctx ctx' \<Longrightarrow> ctx_evolve i ctx ctx'"
  by (rule ctx_step_evolve [OF ctx_frame_step [OF trace_ext_ctx_frame]])

lemma ctx_evolve_ms: "ctx_evolve i ctx (ctx\<lparr>current_ms := ms\<rparr>)"
  by (simp add: ctx_evolve_def)

definition init_done :: "PackedSockAddr \<Rightarrow> uint32 \<Rightarrow> uint32 \<Rightarrow> uint32 \<Rightarrow> nat \<Rightarrow> nat \<Rightarrow> nat \<Rightarrow> nat \<Rightarrow> conn \<Rightarrow> conn \<Rightarrow> bool" where
  "init_done a seed id_recv id_send T L lo hi = (\<lambda>(s, ctx) (s', ctx'). initialized a seed id_recv id_send s s' \<and> sock_inv T L lo hi (s', ctx') \<and>
     ctx_good L lo hi ctx' \<and> hash_ok (utp_sockets ctx') \<and> hash_abs (utp_sockets ctx) (sock_key s') = None \<and>
     hash_abs (utp_sockets ctx') = (hash_abs (utp_sockets ctx))(sock_key s' \<mapsto> self s) \<and> ctx_table (self s) ctx ctx')"

lemma initialize_tail:
  assumes fresh: "fresh_sock s" and good: "ctx_good L lo hi ctx" and ht: "hash_ok (utp_sockets ctx)" "hash_count (utp_sockets ctx) < 0xffffffff"
    and free: "hash_abs (utp_sockets ctx) \<lparr>key_addr = a, recv_id = id_recv\<rparr> = None"
    and ms: "utp_call_get_milliseconds ctx None = (ms, ctx2)"
  shows "wpo (do {
       (s3, ctx4) \<leftarrow> mtu_reset (init_state a seed id_recv id_send ms s, ctx2\<lparr>current_ms := ms\<rparr>);
       h \<leftarrow> utp_hash_insert (utp_sockets ctx4) (sock_key (s3\<lparr>mtu_last := mtu_ceiling s3\<rparr>)) (self (s3\<lparr>mtu_last := mtu_ceiling s3\<rparr>));
       Some (s3\<lparr>mtu_last := mtu_ceiling s3, max_window := get_packet_size (s3\<lparr>mtu_last := mtu_ceiling s3\<rparr>)\<rparr>, ctx4\<lparr>utp_sockets := h\<rparr>)
     }) (init_done a seed id_recv id_send T L lo hi (s, ctx))"
proof -
  let ?ctx3 = "ctx2\<lparr>current_ms := ms\<rparr>" and ?s2 = "init_state a seed id_recv id_send ms s"
  have good3: "ctx_good L lo hi ?ctx3" using ctx_good_trace [OF good trace_ext_milliseconds [OF ms]] by simp
  have ev3: "ctx_evolve (self s) ctx ?ctx3"
    by (rule ctx_evolve_trans [OF ctx_evolve_trace [OF trace_ext_milliseconds [OF ms]] ctx_evolve_ms])
  have t3: "utp_sockets ?ctx3 = utp_sockets ctx" using trace_ext_fields [OF trace_ext_milliseconds [OF ms]] by simp
  have L: "20 < L" "L \<le> 576" "mtu_callback_ok L ?ctx3" "mtu_probe_seq ?s2 = 0"
    using good3 fresh by (simp_all add: ctx_good_def app_ok_def fresh_sock_def init_state_def)
  show ?thesis
  proof (rule wpo_bindI [OF mtu_reset_fresh [OF L]], clarify)
    fix s3 ctx4 assume m: "mtu_ok L (s3\<lparr>mtu_last := mtu_ceiling s3\<rparr>)" "mtu_only ?s2 s3" and tr: "trace_ext ?ctx3 ctx4"
    define s4 where "s4 = s3\<lparr>mtu_last := mtu_ceiling s3\<rparr>"
    define s5 where "s5 = s4\<lparr>max_window := get_packet_size s4\<rparr>"
    have "mtu_only (?s2\<lparr>max_window := get_packet_size s4\<rparr>) s5"
      using m(2) unfolding s5_def s4_def by (cases s; cases s3; simp add: mtu_only_def mtu_erase_def init_state_def)
    then have init: "initialized a seed id_recv id_send s s5" unfolding initialized_def by blast
    note f = initialized_fields [OF init]
    have eq: "sock_key s4 = sock_key s5" "self s4 = self s" using f(1) by (simp_all add: s5_def sock_key_def)
    have t4: "utp_sockets ctx4 = utp_sockets ctx" using trace_ext_fields [OF tr] t3 by simp
    have m5: "mtu_ok L s5" using m(1) by (simp add: s5_def s4_def mtu_ok_def)
    have good4: "ctx_good L lo hi ctx4" by (rule ctx_good_trace [OF good3 tr])
    have ev4: "ctx_evolve (self s) ctx ctx4" by (rule ctx_evolve_trans [OF ev3 ctx_evolve_trace [OF tr]])
    have "unat (get_packet_size s4) < 2 ^ 16" using m(1) by (intro packet_size_int(2)) (simp add: s4_def)
    then have mw: "unat (max_window s5) < 2 ^ 40" by (simp add: s5_def)
    have k: "hash_abs (utp_sockets ctx) (sock_key s5) = None" using free by (simp add: f(7))
    have "wpo (utp_hash_insert (utp_sockets ctx4) (sock_key s4) (self s4) \<bind> (\<lambda>h. Some (s5, ctx4\<lparr>utp_sockets := h\<rparr>)))
        (init_done a seed id_recv id_send T L lo hi (s, ctx))"
      unfolding eq t4
    proof (rule wpo_bindI [OF utp_hash_insert_spec [OF ht(1) k ht(2)]], clarify)
      fix h assume h: "hash_ok h" "hash_abs h = (hash_abs (utp_sockets ctx))(sock_key s5 \<mapsto> self s)"
      have good5: "ctx_good L lo hi (ctx4\<lparr>utp_sockets := h\<rparr>)" using good4 by simp
      then have "ctx_ok (ctx4\<lparr>utp_sockets := h\<rparr>)" "app_ok L (ctx4\<lparr>utp_sockets := h\<rparr>)" "clock_ok lo hi (ctx4\<lparr>utp_sockets := h\<rparr>)"
        by (simp_all add: ctx_good_def)
      then have "sock_inv T L lo hi (s5, ctx4\<lparr>utp_sockets := h\<rparr>)" by (rule initialized_inv [OF fresh init m5 mw])
      moreover have "ctx_table (self s) ctx (ctx4\<lparr>utp_sockets := h\<rparr>)" using ev4 unfolding ctx_table_def by blast
      ultimately show "wpo (Some (s5, ctx4\<lparr>utp_sockets := h\<rparr>)) (init_done a seed id_recv id_send T L lo hi (s, ctx))"
        using init good5 h k by (simp add: init_done_def)
    qed
    then show "wpo (utp_hash_insert (utp_sockets ctx4) (sock_key (s3\<lparr>mtu_last := mtu_ceiling s3\<rparr>)) (self (s3\<lparr>mtu_last := mtu_ceiling s3\<rparr>)) \<bind>
       (\<lambda>h. Some (s3\<lparr>mtu_last := mtu_ceiling s3, max_window := get_packet_size (s3\<lparr>mtu_last := mtu_ceiling s3\<rparr>)\<rparr>, ctx4\<lparr>utp_sockets := h\<rparr>)))
       (init_done a seed id_recv id_send T L lo hi (s, ctx))"
      by (simp only: s5_def s4_def)
  qed
qed

lemma initialize_spec:
  assumes fresh: "fresh_sock s" and good: "ctx_good L lo hi ctx" and ht: "hash_ok (utp_sockets ctx)" "hash_count (utp_sockets ctx) < 0xffffffff"
    and a: "psa_set sa len = Some a" and free: "hash_abs (utp_sockets ctx) \<lparr>key_addr = a, recv_id = id_recv\<rparr> = None"
  shows "wpo (utp_initialize_socket sa len False seed id_recv id_send (s, ctx)) (init_done a seed id_recv id_send T L lo hi (s, ctx))"
proof -
  obtain ms ctx2 where ms: "utp_call_get_milliseconds ctx None = (ms, ctx2)" by fastforce
  from initialize_tail [OF fresh good ht free ms] show ?thesis
    by (simp add: utp_initialize_socket_def a ms Let_def)
qed

lemma initialize_seed_spec:
  assumes fresh: "fresh_sock s" and good: "ctx_good L lo hi ctx" and ht: "hash_ok (utp_sockets ctx)" "hash_count (utp_sockets ctx) < 0xffffffff"
    and a: "psa_set sa len = Some a" and n: "length (calls ctx) \<le> n" "seed_free ctx a (self s) n"
  shows "wpo (utp_initialize_socket sa len True 0 0 1 (s, ctx)) (\<lambda>c'. \<exists>seed. init_done a seed seed (1 + seed) T L lo hi (s, ctx) c')"
proof -
  have "utp_initialize_socket sa len True 0 0 1 (s, ctx) = gen_seed a (self s) ctx \<bind> (\<lambda>(seed, ctx1).
      utp_initialize_socket sa len False seed seed (1 + seed) (s, ctx1))"
    by (simp add: utp_initialize_socket_def a split_def Let_def)
  moreover have "wpo (gen_seed a (self s) ctx \<bind> (\<lambda>(seed, ctx1). utp_initialize_socket sa len False seed seed (1 + seed) (s, ctx1)))
      (\<lambda>c'. \<exists>seed. init_done a seed seed (1 + seed) T L lo hi (s, ctx) c')"
  proof (rule wpo_bindI [OF gen_seed_spec [OF ht(1) n]], clarify)
    fix seed ctx1 assume tr: "trace_ext ctx ctx1" and f: "hash_abs (utp_sockets ctx) \<lparr>key_addr = a, recv_id = seed\<rparr> = None"
    have t: "utp_sockets ctx1 = utp_sockets ctx" using trace_ext_fields [OF tr] by simp
    have up: "init_done a seed seed (1 + seed) T L lo hi (s, ctx) c'" if "init_done a seed seed (1 + seed) T L lo hi (s, ctx1) c'" for c'
      using that ctx_evolve_trans [OF ctx_evolve_trace [OF tr]] by (cases c') (auto simp: init_done_def t ctx_table_def)
    have "wpo (utp_initialize_socket sa len False seed seed (1 + seed) (s, ctx1)) (init_done a seed seed (1 + seed) T L lo hi (s, ctx1))"
      using ht f t by (intro initialize_spec [OF fresh ctx_good_trace [OF good tr] _ _ a]) simp_all
    then show "wpo (utp_initialize_socket sa len False seed seed (1 + seed) (s, ctx1)) (\<lambda>c'. \<exists>seed. init_done a seed seed (1 + seed) T L lo hi (s, ctx) c')"
      by (rule wpo_mono) (use up in blast)
  qed
  ultimately show ?thesis by simp
qed

subsection \<open>The handshake\<close>

lemma idle_inv:
  assumes inv: "sock_inv T L lo hi (s, ctx)" and e: "cur_window_packets s = 0" "cur_window s = 0" "outbuf s = cb_new 4" "inbuf s = cb_new 4" "reorder_count s = 0"
    "st \<noteq> CS_UNINITIALIZED"
  shows "sock_inv T L lo hi (s\<lparr>state := st, retransmit_timeout := a, rto_timeout := b, last_rcv_win := w, seq_nr := n\<rparr>, ctx)"
    "sock_inv T L lo hi (s\<lparr>state := st, ack_nr := k, seq_nr := n, fast_resend_seq_nr := m\<rparr>, ctx)"
proof -
  have "sock_inv T L lo hi (s', ctx)"
    if "cur_window_packets s' = 0" "cur_window s' = 0" "outbuf s' = cb_new 4" "inbuf s' = cb_new 4" "reorder_count s' = 0"
      "rtt s' = rtt s" "max_window s' = max_window s" "opt_sndbuf s' = opt_sndbuf s" "extensions s' = extensions s"
      "delay_core s' = delay_core s" "mtu_ok L s'" "state s' = st" for s'
  proof -
    note o = empty_out_ok [OF that(1-3)]
    have "syn_ok s'" using that(4,5,12) e(6) by (simp add: syn_ok_def cb_get_new)
    moreover have "delay_ok s'" using inv that(10) by (auto simp: sock_inv_def delay_ok_def delay_core_def)
    ultimately show ?thesis
      using inv that o(1) [of T] o(3) [of lo ctx] empty_in_ok [OF that(4,5)] by (simp add: sock_inv_def ack_inv_def out_ok_mid)
  qed
  note this [of "s\<lparr>state := st, retransmit_timeout := a, rto_timeout := b, last_rcv_win := w, seq_nr := n\<rparr>"]
    this [of "s\<lparr>state := st, ack_nr := k, seq_nr := n, fast_resend_seq_nr := m\<rparr>"]
  then show "sock_inv T L lo hi (s\<lparr>state := st, retransmit_timeout := a, rto_timeout := b, last_rcv_win := w, seq_nr := n\<rparr>, ctx)"
    "sock_inv T L lo hi (s\<lparr>state := st, ack_nr := k, seq_nr := n, fast_resend_seq_nr := m\<rparr>, ctx)"
    using inv e by (simp_all add: delay_core_def sock_inv_def ack_inv_def mtu_ok_def)
qed

lemma queue_syn_spec:
  assumes inv: "sock_inv T L lo hi (s, ctx)" and e: "cur_window_packets s = 0" and T: "T + 1 < 2 ^ 31"
  shows "wpo (queue_syn (s, ctx)) (\<lambda>(s', ctx'). sock_inv (T + 1) L lo hi (s', ctx') \<and> ctx_frame (self s) ctx ctx' \<and>
     cur_window_packets s' = 1 \<and> seq_nr s' = seq_nr s + 1 \<and> window_data (out_window s') = [Some (0, [])] \<and>
     same_conn (s\<lparr>seq_nr := seq_nr s + 1\<rparr>) s' \<and> state s' = state s)"
proof -
  let ?p = "syn_packet s"
  have o: "out_ok T s" and room: "unat (cur_window_packets s) < 1024" using inv e by (simp_all add: sock_inv_def)
  have p: "pkt_ok T ?p" "transmissions ?p = 0" by (simp_all add: syn_packet_def pkt_ok_def new_packet_def get_header_size_def)
  have "?p\<lparr>pkt_header := (pkt_header ?p)\<lparr>pf_seq_nr := seq_nr s\<rparr>\<rparr> = ?p" by (simp add: syn_packet_def syn_header_def new_packet_def)
  then have "queue_syn (s, ctx) = store_packet True ?p s \<bind> (\<lambda>s1. send_packet (ucast (seq_nr s)) (s1, ctx))"
    by (simp add: queue_syn_def store_packet_def Let_def)
  moreover have "wpo (store_packet True ?p s \<bind> (\<lambda>s1. send_packet (ucast (seq_nr s)) (s1, ctx))) (\<lambda>(s', ctx').
     sock_inv (T + 1) L lo hi (s', ctx') \<and> ctx_frame (self s) ctx ctx' \<and>
     cur_window_packets s' = 1 \<and> seq_nr s' = seq_nr s + 1 \<and> window_data (out_window s') = [Some (0, [])] \<and>
     same_conn (s\<lparr>seq_nr := seq_nr s + 1\<rparr>) s' \<and> state s' = state s)"
  proof (rule wpo_bindI [OF store_packet_append [OF o room p]], elim conjE exE)
    fix s1 h b assume o1: "out_ok T s1" and w1: "out_window s1 = out_window s @ [Some (?p\<lparr>pkt_header := h\<rparr>)]"
      and s1: "s1 = s\<lparr>outbuf := b, seq_nr := seq_nr s + 1, cur_window_packets := cur_window_packets s + 1\<rparr>"
    have "out_window s = []" using e by (simp add: out_window_def)
    then have w: "out_window s1 = [Some (?p\<lparr>pkt_header := h\<rparr>)]" using w1 by simp
    have "times_ok lo ctx s1" using p(2) by (simp add: times_ok_def w stamped_def)
    moreover have "in_ok s1 = in_ok s" by (rule in_ok_cong) (simp_all add: s1)
    ultimately have inv1: "sock_inv T L lo hi (s1, ctx)"
      using inv o1 by (simp add: sock_inv_def ack_inv_def out_ok_mid) (simp add: s1 mtu_ok_def delay_ok_def syn_ok_def)
    have c1: "cur_window_packets s1 = 1" by (simp add: s1 e)
    have "cb_get (outbuf s1) (ucast (seq_nr s)) = out_window s1 ! 0"
      by (rule out_slot(1) [OF out_okD(1) [OF o1]]) (simp_all add: c1, simp add: s1)
    then have get: "cb_get (outbuf s1) (ucast (seq_nr s)) = Some (?p\<lparr>pkt_header := h\<rparr>)" by (simp add: w)
    have a1: "ack_inv T L lo hi (s1, ctx)" using inv1 by (simp add: sock_inv_def)
    show "wpo (send_packet (ucast (seq_nr s)) (s1, ctx)) (\<lambda>(s', ctx'). sock_inv (T + 1) L lo hi (s', ctx') \<and> ctx_frame (self s) ctx ctx' \<and>
       cur_window_packets s' = 1 \<and> seq_nr s' = seq_nr s + 1 \<and> window_data (out_window s') = [Some (0, [])] \<and>
       same_conn (s\<lparr>seq_nr := seq_nr s + 1\<rparr>) s' \<and> state s' = state s)"
    proof (rule wpo_mono [OF send_packet_step [OF a1 o1 T get]], clarify)
      fix s' ctx' assume st: "send_step (T + 1) L lo hi (s1, ctx) (s', ctx')"
      then have cs: "conn_step (T + 1) L lo hi (s1, ctx) (s', ctx')" by (intro ack_step_conn_step [OF inv1]) (simp_all add: send_step_def)
      have ak: "ak_frame s1 s'" "ctx_frame (self s1) ctx ctx'" using st by (simp_all add: send_step_def ack_step_def)
      note fr = ak_frame_fields [OF ak(1)]
      have wd: "window_data (out_window s') = [Some (0, [])]"
        using st by (simp add: send_step_def w) (simp add: window_data_def pkt_data_def syn_packet_def new_packet_def)
      then have "length (window_data (out_window s')) = 1" by simp
      then have cw: "cur_window_packets s' = 1" by (simp add: window_data_def word_unat_eq_iff)
      have sc: "same_conn s1 s'" "self s1 = self s" using cs by (simp_all add: conn_step_def conn_done_def s1)
      show "sock_inv (T + 1) L lo hi (s', ctx') \<and> ctx_frame (self s) ctx ctx' \<and>
        cur_window_packets s' = 1 \<and> seq_nr s' = seq_nr s + 1 \<and> window_data (out_window s') = [Some (0, [])] \<and>
        same_conn (s\<lparr>seq_nr := seq_nr s + 1\<rparr>) s' \<and> state s' = state s"
        using conn_stepD [OF cs] ak(2) sc by (simp add: fr wd cw) (simp add: s1 same_conn_def)
    qed
  qed
  ultimately show ?thesis by simp
qed

lemma ctx_table_evolve: "ctx_table i ctx ctx1 \<Longrightarrow> ctx_evolve i ctx1 ctx2 \<Longrightarrow> ctx_table i ctx ctx2"
proof -
  assume t: "ctx_table i ctx ctx1" and e: "ctx_evolve i ctx1 ctx2"
  obtain ctx0 h where 0: "ctx_evolve i ctx ctx0" "ctx1 = ctx0\<lparr>utp_sockets := h\<rparr>" using t unfolding ctx_table_def by blast
  have k: "utp_sockets ctx2 = utp_sockets ctx1"
    using e unfolding ctx_evolve_def ctx_step_def ctx_erase_def by (cases ctx1; cases ctx2; simp)
  have "ctx_evolve i ctx0 (ctx2\<lparr>utp_sockets := utp_sockets ctx0\<rparr>)"
    using e unfolding 0(2) ctx_evolve_def ctx_step_def ctx_erase_def ctx_ok_def ack_ok_def by (cases ctx0; cases ctx2; simp)
  then have "ctx_evolve i ctx (ctx2\<lparr>utp_sockets := utp_sockets ctx0\<rparr>)" by (rule ctx_evolve_trans [OF 0(1)])
  moreover have "ctx2 = (ctx2\<lparr>utp_sockets := utp_sockets ctx0\<rparr>)\<lparr>utp_sockets := utp_sockets ctx2\<rparr>" by simp
  ultimately show ?thesis unfolding ctx_table_def by blast
qed

lemma ctx_evolve_fields:
  assumes "ctx_evolve i ctx ctx'"
  shows "utp_sockets ctx' = utp_sockets ctx" "socks ctx' = socks ctx" "callbacks ctx' = callbacks ctx" "last_utp_socket ctx' = last_utp_socket ctx"
    "rst_info ctx' = rst_info ctx" "set (ack_sockets ctx') - {i} = set (ack_sockets ctx) - {i}" "\<exists>cs. calls ctx' = calls ctx @ cs"
    "ctx_opt_sndbuf ctx' = ctx_opt_sndbuf ctx" "last_check ctx' = last_check ctx" "ctx_ok ctx \<Longrightarrow> ctx_ok ctx'"
proof -
  note e = assms [unfolded ctx_evolve_def ctx_step_def ctx_erase_def]
  show "utp_sockets ctx' = utp_sockets ctx" "socks ctx' = socks ctx" "callbacks ctx' = callbacks ctx" "last_utp_socket ctx' = last_utp_socket ctx"
    "rst_info ctx' = rst_info ctx" "ctx_opt_sndbuf ctx' = ctx_opt_sndbuf ctx" "last_check ctx' = last_check ctx"
    using e by (cases ctx; cases ctx'; simp)+
  show "set (ack_sockets ctx') - {i} = set (ack_sockets ctx) - {i}" "\<exists>cs. calls ctx' = calls ctx @ cs" "ctx_ok ctx \<Longrightarrow> ctx_ok ctx'"
    using e by (simp_all add: ctx_ok_def ack_ok_def)
qed

definition connect_done :: "PackedSockAddr \<Rightarrow> nat \<Rightarrow> nat \<Rightarrow> nat \<Rightarrow> nat \<Rightarrow> conn \<Rightarrow> conn \<Rightarrow> bool" where
  "connect_done a T L lo hi = (\<lambda>(s, ctx) (s', ctx'). state s' = CS_SYN_SENT \<and> self s' = self s \<and> addr s' = a \<and>
     conn_id_recv s' = conn_seed s' \<and> conn_id_send s' = conn_seed s' + 1 \<and> window_data (out_window s') = [Some (0, [])] \<and>
     cur_window_packets s' = 1 \<and> \<not> fin_sent s' \<and> sock_inv T L lo hi (s', ctx') \<and>
     hash_ok (utp_sockets ctx') \<and> hash_abs (utp_sockets ctx) (sock_key s') = None \<and>
     hash_abs (utp_sockets ctx') = (hash_abs (utp_sockets ctx))(sock_key s' \<mapsto> self s) \<and> ctx_table (self s) ctx ctx')"

lemma connect_spec:
  assumes fresh: "fresh_sock s" and good: "ctx_good L lo hi ctx" and ht: "hash_ok (utp_sockets ctx)" "hash_count (utp_sockets ctx) < 0xffffffff"
    and a: "psa_set sa len = Some a" and n: "length (calls ctx) \<le> n" "seed_free ctx a (self s) n"
  shows "wpo (utp_connect sa len (s, ctx)) (\<lambda>(r, c'). r = 0 \<and> connect_done a 1 L lo hi (s, ctx) c')"
proof -
  have st: "state s = CS_UNINITIALIZED" using fresh by (simp add: fresh_sock_def)
  show ?thesis
    unfolding utp_connect_def prod.case st cassert_simps bind.bind_lunit
  proof (simp, rule wpo_bindI [OF initialize_seed_spec [OF fresh good ht a n, of 0]], clarify, goal_cases)
    case (1 s1 ctx1 seed)
    then have id: "init_done a seed seed (1 + seed) 0 L lo hi (s, ctx) (s1, ctx1)" by simp
    then have init: "initialized a seed seed (1 + seed) s s1" and inv1: "sock_inv 0 L lo hi (s1, ctx1)" and tab: "ctx_table (self s) ctx ctx1"
      by (simp_all add: init_done_def)
    note f = initialized_fields [OF init]
    have e: "cur_window_packets s1 = 0" "cur_window s1 = 0" "outbuf s1 = cb_new 4" "inbuf s1 = cb_new 4" "reorder_count s1 = 0" "\<not> fin_sent s1"
      using fresh by (simp_all add: fresh_sock_def f)
    obtain ms ctx2 where ms: "utp_call_get_milliseconds ctx1 (Some (self s1)) = (ms, ctx2)" by fastforce
    define ctx3 where "ctx3 = utp_log UTP_LOG_NORMAL (Some (self s1)) (ctx2\<lparr>current_ms := ms\<rparr>)"
    have inv3: "sock_inv 0 L lo hi (s1, ctx3)" and ev3: "ctx_evolve (self s) ctx1 ctx3"
    proof -
      have "sock_inv 0 L lo hi (s1, ctx2\<lparr>current_ms := ms\<rparr>)" using conn_stepD [OF trace_conn_step [OF inv1 trace_ext_milliseconds [OF ms]]] by simp
      from conn_stepD [OF trace_conn_step [OF this trace_ext_log]] show "sock_inv 0 L lo hi (s1, ctx3)" by (simp add: ctx3_def)
      show "ctx_evolve (self s) ctx1 ctx3" unfolding ctx3_def
        by (rule ctx_evolve_trans [OF ctx_evolve_trans [OF ctx_evolve_trace [OF trace_ext_milliseconds [OF ms]] ctx_evolve_ms] ctx_evolve_trace [OF trace_ext_log]])
    qed
    have app: "app_ok L ctx3" using inv3 by (simp add: sock_inv_def ack_inv_def)
    let ?s2 = "s1\<lparr>state := CS_SYN_SENT, retransmit_timeout := 3000, rto_timeout := ms + 3000\<rparr>"
    have body: "wpo (get_rcv_window (?s2, ctx3) \<bind> (\<lambda>(w, ctx4). let (r, ctx5) = utp_call_get_random ctx4 (Some (self ?s2))
        in queue_syn (?s2\<lparr>last_rcv_win := w, seq_nr := ucast r\<rparr>, ctx5) \<bind> (\<lambda>c. Some (0, c)))) (\<lambda>(r, c'). r = 0 \<and> connect_done a 1 L lo hi (s, ctx) c')"
    proof (rule wpo_bindI [OF get_rcv_window_spec [OF app]], clarify)
      fix w ctx4 assume tr4: "trace_ext ctx3 ctx4"
      obtain r ctx5 where r: "utp_call_get_random ctx4 (Some (self ?s2)) = (r, ctx5)" by fastforce
      have tr5: "trace_ext ctx3 ctx5" by (rule trace_ext_trans [OF tr4 random_call(2) [OF r]])
      have inv5: "sock_inv 0 L lo hi (s1, ctx5)" by (rule conn_stepD [OF trace_conn_step [OF inv3 tr5]])
      have ev5: "ctx_evolve (self s) ctx1 ctx5" by (rule ctx_evolve_trans [OF ev3 ctx_evolve_trace [OF tr5]])
      let ?s3 = "?s2\<lparr>last_rcv_win := w, seq_nr := ucast r\<rparr>"
      have inv6: "sock_inv 0 L lo hi (?s3, ctx5)" using idle_inv(1) [OF inv5 e(1-5), of CS_SYN_SENT] by simp
      have "wpo (queue_syn (?s3, ctx5)) (connect_done a 1 L lo hi (s, ctx))"
      proof (rule wpo_mono [OF queue_syn_spec [OF inv6]], simp_all only: split_paired_all prod.case)
        show "cur_window_packets ?s3 = 0" "0 + 1 < (2::nat) ^ 31" by (simp_all add: e(1))
        fix s' ctx' assume "sock_inv (0 + 1) L lo hi (s', ctx') \<and> ctx_frame (self ?s3) ctx5 ctx' \<and>
          cur_window_packets s' = 1 \<and> seq_nr s' = seq_nr ?s3 + 1 \<and> window_data (out_window s') = [Some (0, [])] \<and>
          same_conn (?s3\<lparr>seq_nr := seq_nr ?s3 + 1\<rparr>) s' \<and> state s' = state ?s3"
        then have q: "sock_inv (Suc 0) L lo hi (s', ctx')" "ctx_frame (self s1) ctx5 ctx'" "cur_window_packets s' = 1"
          "window_data (out_window s') = [Some (0, [])]" "same_conn (?s3\<lparr>seq_nr := ucast r + 1\<rparr>) s'" "state s' = CS_SYN_SENT" by simp_all
        have sc: "self s' = self s" "addr s' = a" "conn_id_recv s' = seed" "conn_seed s' = seed" "conn_id_send s' = 1 + seed" "\<not> fin_sent s'"
          using q(5) f e(6) by (simp_all add: same_conn_def)
        have ev: "ctx_evolve (self s) ctx1 ctx'" using ctx_evolve_trans [OF ev5 ctx_step_evolve [OF ctx_frame_step [OF q(2) [unfolded f(1)]]]] .
        have "sock_key s' = sock_key s1" by (simp add: sock_key_def sc f)
        then show "connect_done a 1 L lo hi (s, ctx) (s', ctx')"
          using q(1,3,4,6) id ctx_table_evolve [OF tab ev] ctx_evolve_fields(1) [OF ev] by (simp add: connect_done_def init_done_def sc)
      qed
      then show "wpo (let (r, ctx5) = utp_call_get_random ctx4 (Some (self ?s2)) in queue_syn (?s2\<lparr>last_rcv_win := w, seq_nr := ucast r\<rparr>, ctx5) \<bind> (\<lambda>c. Some (0, c)))
          (\<lambda>(r, c'). r = 0 \<and> connect_done a 1 L lo hi (s, ctx) c')"
        by (simp add: r [simplified]) (auto elim!: wpo_bindI)
    qed
    show ?case using body by (simp add: e cb_get_new ms ctx3_def Let_def)
  qed
qed

end
