(* ===== verification/Utp_Socket_Ops.thy ===== *)
theory Utp_Socket_Ops
  imports Utp_Socket
begin

section \<open>Using a socket\<close>

text \<open>
  The calls of the application on a socket: writing, reading, closing and shutting down, and the destruction of
  the object. Each keeps the invariant of the connection.
\<close>

subsection \<open>Writing\<close>

text \<open>What a call that queues \<open>bytes\<close> leaves behind.\<close>

definition written :: "nat \<Rightarrow> nat \<Rightarrow> nat \<Rightarrow> nat \<Rightarrow> byte list \<Rightarrow> conn \<Rightarrow> conn \<Rightarrow> bool" where
  "written T L lo hi bytes = (\<lambda>(s, ctx) (s', ctx'). same_conn (s\<lparr>seq_nr := seq_nr s'\<rparr>) s' \<and> ctx_evolve (self s) ctx ctx' \<and>
     sock_inv T L lo hi (s', ctx') \<and> rx_core s' = rx_core s \<and> mtu_last s' = mtu_last s \<and>
     seq_nr s' - cur_window_packets s' = seq_nr s - cur_window_packets s \<and>
     window_bytes (out_window s') = window_bytes (out_window s) @ bytes)"

lemma written_refl: "sock_inv T L lo hi c \<Longrightarrow> written T L lo hi [] c c"
  by (cases c) (simp add: written_def)

lemma written_trans: "written T L lo hi b a c \<Longrightarrow> written T' L lo hi b' c d \<Longrightarrow> written T' L lo hi (b @ b') a d"
  by (cases a; cases c; cases d) (auto simp: written_def same_conn_def intro: ctx_evolve_trans)

lemma writtenD: "written T L lo hi b c c' \<Longrightarrow> sock_inv T L lo hi c'"
  by (cases c; cases c') (simp add: written_def)

lemma sock_inv_mono: "sock_inv T L lo hi c \<Longrightarrow> T \<le> T' \<Longrightarrow> sock_inv T' L lo hi c"
  using ack_inv_mono [of T L lo hi c T'] out_ok_mono [of T "fst c" T'] by (cases c) (simp add: sock_inv_def)

lemma written_mono: "written T L lo hi b c c' \<Longrightarrow> T \<le> T' \<Longrightarrow> written T' L lo hi b c c'"
  by (cases c; cases c') (auto simp: written_def intro: sock_inv_mono)

lemma wr_frame_fields:
  assumes "wr_frame s s'"
  shows "same_conn (s\<lparr>seq_nr := seq_nr s'\<rparr>) s'" "state s' = state s" "rx_core s' = rx_core s" "delay_core s' = delay_core s"
    "rtt s' = rtt s" "max_window s' = max_window s" "extensions s' = extensions s" "fin_sent s' = fin_sent s"
  using assms by (cases s; cases s'; simp add: wr_frame_def wr_erase_def tx_erase_def mtu_erase_def same_conn_def rx_core_def delay_core_def)+

lemma write_keeps:
  assumes inv: "sock_inv T L lo hi (s, ctx)" and T: "T + 1 < 2 ^ 31" and room: "unat (cur_window_packets s) < 1024"
    and fl: "flags = ST_DATA \<or> flags = ST_FIN \<and> payload = 0"
    and len: "unat payload \<le> length (concat iov)" "unat payload + 20 < 2 ^ 16"
  shows "wpo (write_outgoing_packet payload flags iov (s, ctx)) (\<lambda>(iov', s', ctx').
     concat iov' = drop (unat payload) (concat iov) \<and> written (T + 1) L lo hi (take (unat payload) (concat iov)) (s, ctx) (s', ctx') \<and>
     state s' = state s \<and> unat (cur_window_packets s') \<le> Suc (unat (cur_window_packets s)) \<and>
     (payload = 0 \<longrightarrow> unat (cur_window_packets s') = Suc (unat (cur_window_packets s))))"
proof -
  have pre: "out_ok T s" "mtu_ok L s" "ctx_ok ctx" "app_ok L ctx" and tm: "clock_ok lo hi ctx" "times_ok lo ctx s"
    using inv by (simp_all add: sock_inv_def ack_inv_def)
  show ?thesis
  proof (rule wpo_mono [OF write_outgoing_packet_spec [OF pre T room fl len]], clarify, goal_cases)
    case (1 iov' s' ctx')
    note f = wr_frame_fields [OF 1(7)]
    note k = f(3) [unfolded rx_core_def] f(4) [unfolded delay_core_def]
    have "in_ok s' = in_ok s" using k by (intro in_ok_cong) simp_all
    moreover have "delay_ok s' = delay_ok s" "syn_ok s' = syn_ok s" using k f(2) by (simp_all add: delay_ok_def syn_ok_def)
    moreover have "opt_sndbuf s' = opt_sndbuf s" using f(1) by (simp add: same_conn_def)
    moreover have "times_ok lo ctx' s'" using 1(12) tm by blast
    ultimately have "sock_inv (T + 1) L lo hi (s', ctx')"
      using inv 1(4-6) app_ok_frame [OF 1(8)] ctx_frame_time(3) [OF 1(8)] f by (simp add: sock_inv_def ack_inv_def out_ok_mid)
    then show ?case
      using 1 f ctx_step_evolve [OF ctx_frame_step [OF 1(8)]] by (simp add: written_def)
  qed
qed

lemma is_full_bytes:
  assumes out: "out_ok B s" and mtu: "mtu_ok L s" and n: "n \<le> get_packet_size s" and full: "is_full (as_int n) (s, ctx) = (full, c')"
  shows "full \<Longrightarrow> no_room s" "\<not> full \<Longrightarrow> unat (cur_window_packets s) < 1023"
    "c' = (if full then (s\<lparr>last_maxed_out_window := current_ms ctx\<rparr>, ctx) else (s, ctx))"
proof -
  have ps: "unat (get_packet_size s) < 2 ^ 16" "unat n \<le> unat (get_packet_size s)"
    using get_packet_size_bounds(1) [OF mtu] n by (simp_all add: word_le_nat_alt)
  have i: "as_int n = int (unat n)" "as_int (get_packet_size s) = int (unat (get_packet_size s))" using ps by (simp_all add: as_int_small)
  have "unat (cur_window s + n) = unat (cur_window s) + unat n" "unat (cur_window s + get_packet_size s) = unat (cur_window s) + unat (get_packet_size s)"
    using out_okD(5,6) [OF out] ps by (simp_all add: unat_word_ariths)
  then show "full \<Longrightarrow> no_room s" "\<not> full \<Longrightarrow> unat (cur_window_packets s) < 1023"
    "c' = (if full then (s\<lparr>last_maxed_out_window := current_ms ctx\<rparr>, ctx) else (s, ctx))"
    using full ps unfolding is_full_def prod.case Let_def i
    by (auto simp: no_room_def OUTGOING_BUFFER_MAX_SIZE_def word_less_nat_alt split: if_splits)
qed

text \<open>A field that only the congestion control reads.\<close>

lemma maxed_out_written:
  assumes inv: "sock_inv T L lo hi (s, ctx)"
  shows "written T L lo hi [] (s, ctx) (s\<lparr>last_maxed_out_window := t\<rparr>, ctx)"
    "written T L lo hi [] (s, ctx) (s\<lparr>last_maxed_out_window := t, state := CS_CONNECTED_FULL\<rparr>, ctx)"
proof -
  have "conn_step T L lo hi (s, ctx) (s\<lparr>last_maxed_out_window := t\<rparr>, ctx)"
    "conn_step T L lo hi (s, ctx) (s\<lparr>last_maxed_out_window := t, state := CS_CONNECTED_FULL\<rparr>, ctx)"
    using inv by (auto intro!: core_conn_step [OF inv] simp: core_def rx_core_def delay_core_def same_conn_def sock_inv_def ack_inv_def)
  then show "written T L lo hi [] (s, ctx) (s\<lparr>last_maxed_out_window := t\<rparr>, ctx)"
    "written T L lo hi [] (s, ctx) (s\<lparr>last_maxed_out_window := t, state := CS_CONNECTED_FULL\<rparr>, ctx)"
    by (simp_all add: written_def conn_step_def conn_done_def out_window_def out_base_def same_conn_def)
qed

lemma writev_finish_full:
  assumes inv: "sock_inv T L lo hi (s, ctx)" and full: "no_room s"
  shows "\<exists>c'. writev_finish sent (s\<lparr>last_maxed_out_window := t\<rparr>, ctx) = (sent, c') \<and> written T L lo hi [] (s, ctx) c' \<and>
     state (fst c') = CS_CONNECTED_FULL \<and> cur_window_packets (fst c') = cur_window_packets s"
proof -
  let ?s = "s\<lparr>last_maxed_out_window := t\<rparr>"
  obtain f c1 where f: "is_full (- 1) (?s, ctx) = (f, c1)" by (cases "is_full (- 1) (?s, ctx)")
  have "sock_inv T L lo hi (?s, ctx)" by (rule writtenD [OF maxed_out_written(1) [OF inv]])
  then have pre: "out_ok T ?s" "mtu_ok L ?s" by (simp_all add: sock_inv_def ack_inv_def)
  have "get_packet_size ?s = get_packet_size s" "max_send ?s = max_send s" by (simp_all add: max_send_def get_packet_size_def)
  then have "no_room ?s" using full by (simp add: no_room_def)
  then have "f" "c1 = (?s\<lparr>last_maxed_out_window := current_ms ctx\<rparr>, ctx)" using is_full_spec [OF pre f] by simp_all
  then show ?thesis using f maxed_out_written(2) [OF inv, of "current_ms ctx"] by (simp add: writev_finish_def)
qed

text \<open>
  Of \<open>n\<close> bytes the call has accepted the first \<open>k\<close>. The socket is full exactly when something was left
  (or when there was nothing to write and no room).
\<close>

definition writev_post :: "nat \<Rightarrow> nat \<Rightarrow> nat \<Rightarrow> nat \<Rightarrow> byte list \<Rightarrow> nat \<Rightarrow> conn \<Rightarrow> conn \<Rightarrow> bool" where
  "writev_post T L lo hi bytes k c c' \<longleftrightarrow> k \<le> length bytes \<and> written T L lo hi (take k bytes) c c' \<and>
     unat (cur_window_packets (fst c')) \<le> max (unat (cur_window_packets (fst c))) 1023 \<and>
     (k < length bytes \<longrightarrow> state (fst c') = CS_CONNECTED_FULL) \<and>
     (k = length bytes \<longrightarrow> bytes \<noteq> [] \<longrightarrow> state (fst c') = state (fst c)) \<and> state (fst c') \<in> {state (fst c), CS_CONNECTED_FULL}"

lemma written_packet_size:
  assumes w: "written T L lo hi b (s, ctx) (s', ctx')"
  shows "get_packet_size s' = get_packet_size s"
proof -
  have "mtu_ok L s'" using writtenD [OF w] by (simp add: sock_inv_def ack_inv_def)
  then have "mtu_last s' \<noteq> 0" by (auto simp: mtu_ok_def)
  moreover have "mtu_last s' = mtu_last s" using w by (simp add: written_def)
  ultimately show ?thesis by (simp add: get_packet_size_def)
qed

lemma writev_post_step:
  assumes w: "written T L lo hi (take m bytes) (s, ctx) (s1, ctx1)" and st: "state s1 = state s" and m: "m < length bytes"
    and room: "unat (cur_window_packets s) < 1023" "unat (cur_window_packets s1) \<le> Suc (unat (cur_window_packets s))"
    and p: "writev_post T1 L lo hi (drop m bytes) k (s1, ctx1) (s', ctx')" and le: "T1 \<le> T2"
  shows "writev_post T2 L lo hi bytes (m + k) (s, ctx) (s', ctx')"
proof -
  have q: "k \<le> length (drop m bytes)" "unat (cur_window_packets s') \<le> max (unat (cur_window_packets s1)) 1023"
    "k < length (drop m bytes) \<Longrightarrow> state s' = CS_CONNECTED_FULL" "k = length (drop m bytes) \<Longrightarrow> drop m bytes \<noteq> [] \<Longrightarrow> state s' = state s1"
    "state s' \<in> {state s1, CS_CONNECTED_FULL}" "written T1 L lo hi (take k (drop m bytes)) (s1, ctx1) (s', ctx')"
    using p unfolding writev_post_def fst_conv by blast+
  have tk: "take (m + k) bytes = take m bytes @ take k (drop m bytes)" by (rule take_add)
  have wr: "written T2 L lo hi (take (m + k) bytes) (s, ctx) (s', ctx')" unfolding tk by (rule written_mono [OF written_trans [OF w q(6)] le])
  have n: "m + k \<le> length bytes" "(m + k < length bytes) = (k < length (drop m bytes))" "(m + k = length bytes) = (k = length (drop m bytes))"
    using q(1) m by (simp_all, linarith+)
  have ne: "drop m bytes \<noteq> []" using m by simp
  have cw: "unat (cur_window_packets s') \<le> max (unat (cur_window_packets s)) 1023" using q(2) room by linarith
  show ?thesis unfolding writev_post_def fst_conv using wr n ne cw q(3-5) st by (auto simp del: length_drop)
qed

lemma writev_loop_spec:
  assumes "sock_inv T L lo hi (s, ctx)" and "ps = get_packet_size s"
    and "unat bytes = length (concat iov)" and "T + length (concat iov) + 1 < 2 ^ 31" and "unat sent + length (concat iov) < 2 ^ 31"
  shows "wpo (writev_loop ps bytes sent (min bytes ps) iov (s, ctx)) (\<lambda>(sent', c').
     \<exists>k. unat sent' = unat sent + k \<and> writev_post (T + length (concat iov) + 1) L lo hi (concat iov) k (s, ctx) c')"
  using assms
proof (induction "length (concat iov)" arbitrary: iov T s ctx bytes sent rule: less_induct)
  case less
  let ?n = "min bytes ps" and ?all = "concat iov"
  have pre: "out_ok T s" "mtu_ok L s" using less.prems(1) by (simp_all add: sock_inv_def ack_inv_def)
  have n: "?n \<le> get_packet_size s" using less.prems(2) by simp
  obtain full c1 where f: "is_full (as_int ?n) (s, ctx) = (full, c1)" by (cases "is_full (as_int ?n) (s, ctx)")
  note fb = is_full_bytes [OF pre n f]
  show ?case
  proof (cases full)
    case True
    obtain c' where c': "writev_finish sent c1 = (sent, c')" "written T L lo hi [] (s, ctx) c'" "state (fst c') = CS_CONNECTED_FULL"
        "cur_window_packets (fst c') = cur_window_packets s"
      using writev_finish_full [OF less.prems(1) fb(1) [OF True], of sent "current_ms ctx"] fb(3) True by (simp only: if_True) blast
    have "writev_post (T + length ?all + 1) L lo hi ?all 0 (s, ctx) c'"
      using c'(3,4) written_mono [OF c'(2)] by (auto simp: writev_post_def)
    then show ?thesis using f c'(1) True by (subst writev_loop.simps) (auto intro!: exI [of _ 0])
  next
    case False
    then have c1: "c1 = (s, ctx)" and room: "unat (cur_window_packets s) < 1023" using fb by simp_all
    have un: "unat ?n = min (length ?all) (unat ps)" using less.prems(3) by (simp add: min_def word_le_nat_alt)
    have ps: "unat ps + 20 < 2 ^ 16" "0 < unat ps" using get_packet_size_bounds [OF pre(2)] by (simp_all add: less.prems(2))
    have T1: "T + 1 < 2 ^ 31" using less.prems(4) by simp
    have nb: "?n \<le> bytes" by simp
    then have b1: "unat (bytes - ?n) = length ?all - unat ?n" using less.prems(3) by (simp add: unat_sub)
    have s1: "unat (sent + ?n) = unat sent + unat ?n" using less.prems(5) un by (simp add: unat_word_ariths)
    have "wpo (write_outgoing_packet ?n ST_DATA iov (s, ctx)) (\<lambda>(iov', s', ctx').
       concat iov' = drop (unat ?n) ?all \<and> written (T + 1) L lo hi (take (unat ?n) ?all) (s, ctx) (s', ctx') \<and>
       state s' = state s \<and> unat (cur_window_packets s') \<le> Suc (unat (cur_window_packets s)))"
      using room un ps by (intro wpo_mono [OF write_keeps [OF less.prems(1) T1]]) auto
    then have "wpo (Option.bind (write_outgoing_packet ?n ST_DATA iov (s, ctx)) (\<lambda>(iov', c2).
         let bytes' = bytes - ?n; sent' = sent + ?n; num' = min bytes' ps
         in if num' = 0 then Some (sent', c2) else writev_loop ps bytes' sent' num' iov' c2))
       (\<lambda>(sent', c'). \<exists>k. unat sent' = unat sent + k \<and> writev_post (T + length ?all + 1) L lo hi ?all k (s, ctx) c')"
    proof (rule wpo_bindI, clarify, goal_cases)
      case (1 iov1 s1 ctx1)
      note w = 1(3)
      have len: "length (concat iov1) = length ?all - unat ?n" using 1(2) by simp
      show ?case
      proof (cases "min (bytes - ?n) ps = 0")
        case True
        then have "unat (min (bytes - ?n) ps) = 0" by simp
        then have "length ?all - unat ?n = 0" using ps(2) b1 by (auto simp: min_def split: if_splits)
        then have k: "unat ?n = length ?all" using un by simp
        have "writev_post (T + length ?all + 1) L lo hi ?all (unat ?n) (s, ctx) (s1, ctx1)"
          using written_mono [OF w] 1(4,5) room k by (auto simp: writev_post_def)
        then show ?thesis using True s1 by (auto simp: Let_def)
      next
        case False
        then have nz: "bytes - ?n \<noteq> 0" by auto
        then have "0 < unat (bytes - ?n)" by (simp add: unat_gt_0)
        then have pos: "unat ?n < length ?all" "0 < unat ?n" using b1 un ps(2) by auto
        have sm: "length (concat iov1) < length ?all" using len pos by simp
        have ps1: "ps = get_packet_size s1" using written_packet_size [OF w] by (simp add: less.prems(2))
        have bd: "unat (bytes - ?n) = length (concat iov1)" "T + 1 + length (concat iov1) + 1 < 2 ^ 31" "unat (sent + ?n) + length (concat iov1) < 2 ^ 31"
          using less.prems(4,5) len b1 s1 pos by linarith+
        have "wpo (writev_loop ps (bytes - ?n) (sent + ?n) (min (bytes - ?n) ps) iov1 (s1, ctx1)) (\<lambda>(sent', c').
           \<exists>k. unat sent' = unat (sent + ?n) + k \<and> writev_post (T + 1 + length (concat iov1) + 1) L lo hi (concat iov1) k (s1, ctx1) c')"
          by (rule less.hyps [OF sm writtenD [OF w] ps1 bd])
        then have "wpo (writev_loop ps (bytes - ?n) (sent + ?n) (min (bytes - ?n) ps) iov1 (s1, ctx1)) (\<lambda>(sent', c').
           \<exists>k. unat sent' = unat sent + k \<and> writev_post (T + length ?all + 1) L lo hi ?all k (s, ctx) c')"
        proof (rule wpo_mono, clarify)
          fix sent' s' ctx' k assume k: "unat sent' = unat (sent + ?n) + k" "writev_post (T + 1 + length (concat iov1) + 1) L lo hi (concat iov1) k (s1, ctx1) (s', ctx')"
          have "T + 1 + length (concat iov1) + 1 \<le> T + length ?all + 1" using len pos by simp
          from writev_post_step [OF w 1(4) pos(1) room 1(5) k(2) [unfolded 1(2)] this [unfolded 1(2)]]
          show "\<exists>k. unat sent' = unat sent + k \<and> writev_post (T + length ?all + 1) L lo hi ?all k (s, ctx) (s', ctx')"
            using k(1) s1 by (intro exI [of _ "unat ?n + k"]) simp
        qed
        then show ?thesis using False by (simp add: Let_def)
      qed
    qed
    then show ?thesis using False f c1 by (subst writev_loop.simps) simp
  qed
qed

lemma iov_bytes:
  assumes "length (concat iov) < 2 ^ 64"
  shows "unat (sum_list (map (\<lambda>v. of_nat (length v)) iov) :: size_t) = length (concat iov)"
proof -
  have "sum_list (map (\<lambda>v. of_nat (length v)) iov) = (of_nat (length (concat iov)) :: size_t)" by (induction iov) simp_all
  then show ?thesis using unat_of_nat_small [where 'a = 64] assms by simp
qed

lemma clock_written:
  assumes inv: "sock_inv T L lo hi (s, ctx)" and ms: "utp_call_get_milliseconds ctx a = (ms, ctx1)"
  shows "written T L lo hi [] (s, ctx) (s, ctx1\<lparr>current_ms := t\<rparr>)"
proof -
  have st: "conn_step T L lo hi (s, ctx) (s, ctx1)" by (rule trace_conn_step [OF inv trace_ext_milliseconds [OF ms]])
  have "ctx_evolve (self s) ctx (ctx1\<lparr>current_ms := t\<rparr>)"
    by (rule ctx_evolve_trans [OF ctx_evolve_trace [OF trace_ext_milliseconds [OF ms]] ctx_evolve_ms])
  then show ?thesis using conn_stepD [OF st] by (simp add: written_def)
qed

lemma writev_spec:
  assumes inv: "sock_inv T L lo hi (s, ctx)" and st: "state s = CS_CONNECTED" "\<not> fin_sent s" and ne: "iov \<noteq> []"
    and T: "T + length (concat (take UTP_IOV_MAX iov)) + 1 < 2 ^ 31"
  shows "wpo (utp_writev iov (s, ctx)) (\<lambda>(n, c'). writev_post (T + length (concat (take UTP_IOV_MAX iov)) + 1) L lo hi
     (concat (take UTP_IOV_MAX iov)) (unat n) (s, ctx) c')"
proof -
  let ?iov = "take UTP_IOV_MAX iov" and ?b = "sum_list (map (\<lambda>v. of_nat (length v)) (take UTP_IOV_MAX iov)) :: size_t"
  obtain ms ctx1 where ms: "utp_call_get_milliseconds ctx (Some (self s)) = (ms, ctx1)" by fastforce
  note w = clock_written [OF inv ms, of ms]
  have len: "length (concat ?iov) < 2 ^ 31" using T by linarith
  then have b: "unat ?b = length (concat ?iov)" by (intro iov_bytes) (simp del: length_concat)
  have "wpo (writev_loop (get_packet_size s) ?b 0 (min ?b (get_packet_size s)) ?iov (s, ctx1\<lparr>current_ms := ms\<rparr>)) (\<lambda>(sent', c').
     \<exists>k. unat sent' = unat (0 :: size_t) + k \<and> writev_post (T + length (concat ?iov) + 1) L lo hi (concat ?iov) k (s, ctx1\<lparr>current_ms := ms\<rparr>) c')"
    using len by (intro writev_loop_spec [OF writtenD [OF w] refl b T]) (simp del: length_concat)
  then show ?thesis
    using st ne ms unfolding utp_writev_def prod.case
    by (simp add: Let_def del: length_concat)
      (elim wpo_mono, auto simp: writev_post_def simp del: length_concat dest: written_trans [OF w])
qed

subsection \<open>Closing\<close>

text \<open>The queue always has room for the FIN, which is its last packet.\<close>

definition fin_room :: "UTPSocket \<Rightarrow> bool" where
  "fin_room s \<longleftrightarrow> (\<not> fin_sent s \<longrightarrow> unat (cur_window_packets s) < 1024)"

lemma sock_inv_cong:
  assumes inv: "sock_inv T L lo hi (s, ctx)" and core: "core s' = core s" and rx: "rx_core s' = rx_core s" and dl: "delay_core s' = delay_core s"
    and eq: "max_window s' = max_window s" "opt_sndbuf s' = opt_sndbuf s" "extensions s' = extensions s"
    and st: "state s' = CS_SYN_SENT \<longrightarrow> state s = CS_SYN_SENT" "state s' = CS_UNINITIALIZED \<longrightarrow> state s = CS_UNINITIALIZED"
  shows "sock_inv T L lo hi (s', ctx)"
proof -
  have "in_ok s' = in_ok s" "delay_ok s' = delay_ok s" "syn_ok s \<longrightarrow> syn_ok s'"
    using rx dl st in_ok_cong [of s' s] by (auto simp: rx_core_def delay_core_def delay_ok_def syn_ok_def)
  then show ?thesis
    using inv core_ack_inv [OF core, of T L lo hi ctx] core_window(2) [OF core] eq by (simp add: sock_inv_def ack_inv_def)
qed

lemma sock_inv_flags [simp]:
  assumes "sock_inv T L lo hi (s, ctx)"
  shows "sock_inv T L lo hi (s\<lparr>fin_sent := b\<rparr>, ctx)" "sock_inv T L lo hi (s\<lparr>read_shutdown := b\<rparr>, ctx)"
    "sock_inv T L lo hi (s\<lparr>close_requested := b\<rparr>, ctx)" "sock_inv T L lo hi (s\<lparr>rto_timeout := t\<rparr>, ctx)"
    "st \<noteq> CS_SYN_SENT \<Longrightarrow> st \<noteq> CS_UNINITIALIZED \<Longrightarrow> sock_inv T L lo hi (s\<lparr>state := st\<rparr>, ctx)"
  using assms by (auto intro: sock_inv_cong [OF assms] simp: core_def rx_core_def delay_core_def)

lemma send_fin_spec:
  assumes inv: "sock_inv T L lo hi (s, ctx)" and T: "T + 1 < 2 ^ 31" and room: "unat (cur_window_packets s) < 1024"
  shows "wpo (send_fin (s, ctx)) (\<lambda>(s', ctx'). written (T + 1) L lo hi [] (s\<lparr>fin_sent := True\<rparr>, ctx) (s', ctx') \<and> state s' = state s \<and>
     unat (cur_window_packets s') = Suc (unat (cur_window_packets s)))"
proof -
  have "wpo (write_outgoing_packet 0 ST_FIN [] (s\<lparr>fin_sent := True\<rparr>, ctx)) (\<lambda>(iov', s', ctx').
     concat iov' = [] \<and> written (T + 1) L lo hi [] (s\<lparr>fin_sent := True\<rparr>, ctx) (s', ctx') \<and> state s' = state s \<and>
     unat (cur_window_packets s') = Suc (unat (cur_window_packets s)))"
    using room by (intro wpo_mono [OF write_keeps [OF sock_inv_flags(1) [OF inv] T, where flags = ST_FIN and payload = 0 and iov = "[]"]]) auto
  then show ?thesis unfolding send_fin_def prod.case by (rule wpo_bindI) auto
qed


text \<open>What a call of the application keeps of a connection.\<close>

definition same_peer :: "UTPSocket \<Rightarrow> UTPSocket \<Rightarrow> bool" where
  "same_peer s s' \<longleftrightarrow> self s' = self s \<and> addr s' = addr s \<and> conn_id_recv s' = conn_id_recv s \<and>
     conn_id_send s' = conn_id_send s \<and> conn_seed s' = conn_seed s \<and> rx_core s' = rx_core s"

definition called :: "nat \<Rightarrow> nat \<Rightarrow> nat \<Rightarrow> nat \<Rightarrow> conn \<Rightarrow> conn \<Rightarrow> bool" where
  "called T L lo hi = (\<lambda>(s, ctx) (s', ctx'). same_peer s s' \<and> ctx_evolve (self s) ctx ctx' \<and> sock_inv T L lo hi (s', ctx') \<and> fin_room s')"

lemma written_called:
  assumes "written T L lo hi b (s1, ctx) (s', ctx')" and "same_peer s s1" and "fin_sent s1 \<or> unat (cur_window_packets s') < 1024"
  shows "called T L lo hi (s, ctx) (s', ctx')"
  using assms by (auto simp: called_def written_def same_peer_def same_conn_def fin_room_def)

lemma short_timeout_called:
  assumes inv: "sock_inv T L lo hi (s, ctx)" and room: "fin_room s"
  shows "called T L lo hi (s, ctx) (short_timeout (s, ctx)) \<and> state (fst (short_timeout (s, ctx))) = state s \<and>
     window_data (out_window (fst (short_timeout (s, ctx)))) = window_data (out_window s) \<and> self (fst (short_timeout (s, ctx))) = self s"
proof -
  obtain ms ctx1 where ms: "utp_call_get_milliseconds ctx (Some (self s)) = (ms, ctx1)" by fastforce
  have st: "conn_step T L lo hi (s, ctx) (s, ctx1)" by (rule trace_conn_step [OF inv trace_ext_milliseconds [OF ms]])
  then have "ctx_evolve (self s) ctx ctx1" "sock_inv T L lo hi (s, ctx1)" by (simp_all add: conn_step_def conn_done_def)
  then show ?thesis
    using room by (simp add: short_timeout_def ms called_def same_peer_def rx_core_def fin_room_def out_window_def out_base_def)
qed

text \<open>
  Closing a connected socket queues a FIN behind the data that is still to be delivered; when
  the FIN was sent before, the socket is destroyed as soon as it is acked. Any other socket is
  destroyed at once.
\<close>

definition close_result :: "UTPSocket \<Rightarrow> UTPSocket \<Rightarrow> bool" where
  "close_result s s' \<longleftrightarrow> (if state s \<in> {CS_CONNECTED, CS_CONNECTED_FULL}
     then read_shutdown s' \<and> close_requested s' \<and> fin_sent s' \<and> window_bytes (out_window s') = window_bytes (out_window s) \<and>
       seq_nr s' - cur_window_packets s' = seq_nr s - cur_window_packets s \<and>
       (if \<not> fin_sent s then unat (cur_window_packets s') = Suc (unat (cur_window_packets s)) \<and> state s' = state s
        else cur_window_packets s' = cur_window_packets s \<and> state s' = (if fin_sent_acked s then CS_DESTROY else state s))
     else state s' = CS_DESTROY)"

lemma close_spec:
  assumes inv: "sock_inv T L lo hi (s, ctx)" and T: "T + 1 < 2 ^ 31" and room: "fin_room s"
    and st: "state s \<noteq> CS_UNINITIALIZED" "state s \<noteq> CS_DESTROY"
  shows "wpo (utp_close (s, ctx)) (\<lambda>(s', ctx'). called (T + 1) L lo hi (s, ctx) (s', ctx') \<and> close_result s s')"
proof -
  let ?s = "s\<lparr>read_shutdown := True, close_requested := True\<rparr>"
  have inv1: "sock_inv T L lo hi (?s, ctx)" using inv by simp
  have mono: "sock_inv (T + 1) L lo hi (s', ctx')" if "sock_inv T L lo hi (s', ctx')" for s' ctx' using sock_inv_mono [OF that] by simp
  have w: "out_window ?s = out_window s" by (simp add: out_window_def out_base_def)
  show ?thesis
  proof (cases "state s \<in> {CS_CONNECTED, CS_CONNECTED_FULL}")
    case True
    show ?thesis
    proof (cases "fin_sent s")
      case False
      then have r: "unat (cur_window_packets ?s) < 1024" using room by (simp add: fin_room_def)
      have eq: "utp_close (s, ctx) = send_fin (?s, ctx)" using True False st by (auto simp: utp_close_def Let_def)
      show ?thesis
        unfolding eq
      proof (rule wpo_mono [OF send_fin_spec [OF inv1 T r]], clarify)
        fix s' ctx' assume a: "written (T + 1) L lo hi [] (?s\<lparr>fin_sent := True\<rparr>, ctx) (s', ctx')" "state s' = state ?s"
          "unat (cur_window_packets s') = Suc (unat (cur_window_packets ?s))"
        have c: "called (T + 1) L lo hi (s, ctx) (s', ctx')" by (rule written_called [OF a(1)]) (simp_all add: same_peer_def rx_core_def)
        have "window_bytes (out_window s') = window_bytes (out_window s)" "seq_nr s' - cur_window_packets s' = seq_nr s - cur_window_packets s"
          "read_shutdown s'" "close_requested s'" "fin_sent s'"
          using a(1) by (simp_all add: written_def same_conn_def out_window_def out_base_def)
        then show "called (T + 1) L lo hi (s, ctx) (s', ctx') \<and> close_result s s'" using c True False a(2,3) by (simp add: close_result_def)
      qed
    next
      case f: True
      have "sock_inv (T + 1) L lo hi (?s\<lparr>state := st\<rparr>, ctx)" if "st \<noteq> CS_SYN_SENT" "st \<noteq> CS_UNINITIALIZED" for st using inv1 that by (intro mono) simp
      then show ?thesis using True f inv1 mono [OF inv1]
        by (auto simp: utp_close_def Let_def called_def close_result_def same_peer_def rx_core_def fin_room_def out_window_def out_base_def)
    qed
  next
    case False
    obtain s1 ctx1 where c1: "(if state s = CS_SYN_SENT then short_timeout (s, ctx) else (s, ctx)) = (s1, ctx1)" by fastforce
    have "called T L lo hi (s, ctx) (s1, ctx1)"
      using c1 short_timeout_called [OF inv room] inv room by (auto simp: called_def same_peer_def split: if_splits)
    then have "called (T + 1) L lo hi (s, ctx) (s1\<lparr>state := CS_DESTROY\<rparr>, ctx1)"
      using mono by (simp add: called_def same_peer_def rx_core_def fin_room_def)
    then show ?thesis using False st c1 by (simp add: utp_close_def Let_def close_result_def)
  qed
qed

lemma ack_sent_conn_step:
  assumes inv: "sock_inv T L lo hi (s, ctx)" and a: "ack_sent (s, ctx) (s', ctx')"
  shows "conn_step T L lo hi (s, ctx) (s', ctx')"
proof -
  obtain w t where s': "s' = s\<lparr>last_rcv_win := w, last_sent_packet := t\<rparr>" and fr: "ctx_frame (self s) ctx ctx'"
    using a by (auto simp: ack_sent_def)
  have "conn_step T L lo hi (s, ctx') (s', ctx')" unfolding s'
    using conn_stepD [OF ctx_frame_conn_step [OF inv fr]]
    by (intro core_conn_step) (auto simp: core_def rx_core_def delay_core_def same_conn_def sock_inv_def ack_inv_def)
  then show ?thesis by (rule conn_step_trans [OF ctx_frame_conn_step [OF inv fr]])
qed

lemma conn_step_called: "conn_step T L lo hi (s, ctx) c' \<Longrightarrow> fin_room s \<Longrightarrow> called T L lo hi (s, ctx) c'"
  by (cases c') (auto simp: called_def conn_step_def conn_done_def same_peer_def same_conn_def fin_room_def)

lemma called_trans: "called T L lo hi a b \<Longrightarrow> called T' L lo hi b c \<Longrightarrow> called T' L lo hi a c"
  by (cases a; cases b; cases c) (auto simp: called_def same_peer_def intro: ctx_evolve_trans)

lemma schedule_conn_step:
  assumes inv: "sock_inv T L lo hi (s, ctx)"
  shows "conn_step T L lo hi (s, ctx) (s, schedule_ack (self s) ctx)"
proof -
  have st: "ctx_step (self s) ctx (schedule_ack (self s) ctx)" by simp
  have "sock_inv T L lo hi (s, schedule_ack (self s) ctx)"
    using inv ctx_step_time [OF st] ctx_step_ok [OF st] ctx_step_app [OF st] by (simp add: sock_inv_def ack_inv_def)
  then show ?thesis using ctx_step_evolve [OF st] by (simp add: conn_step_def conn_done_def)
qed

text \<open>
  When the application has read, a window that was closed is announced at once, one that has grown with the next
  deferred ack.
\<close>

definition drained_result :: "conn \<Rightarrow> conn \<Rightarrow> bool" where
  "drained_result = (\<lambda>(s, ctx) (s', ctx'). \<forall>w ctx1. get_rcv_window (s, ctx) = Some (w, ctx1) \<longrightarrow>
     (if w \<le> last_rcv_win s then s' = s \<and> ctx' = ctx1
      else if last_rcv_win s = 0 then ack_sent (s, ctx1) (s', ctx')
      else s' = s \<and> self s \<in> set (ack_sockets ctx')))"

lemma read_drained_spec:
  assumes inv: "sock_inv T L lo hi (s, ctx)" and room: "fin_room s" and st: "state s \<noteq> CS_UNINITIALIZED"
  shows "wpo (utp_read_drained (s, ctx)) (\<lambda>c'. called T L lo hi (s, ctx) c' \<and> drained_result (s, ctx) c')"
proof -
  have app: "app_ok L ctx" using inv by (simp add: sock_inv_def ack_inv_def)
  obtain w ctx1 where w: "get_rcv_window (s, ctx) = Some (w, ctx1)" and tr: "trace_ext ctx ctx1"
    using get_rcv_window_spec [OF app, of s] by (auto simp: wpo_ex)
  have st1: "conn_step T L lo hi (s, ctx) (s, ctx1)" by (rule trace_conn_step [OF inv tr])
  have inv1: "sock_inv T L lo hi (s, ctx1)" using st1 by (rule conn_stepD)
  then have pre: "in_ok s" "ctx_ok ctx1" "app_ok L ctx1" by (simp_all add: sock_inv_def ack_inv_def)
  have ack: "wpo (send_ack False (s, ctx1)) (\<lambda>c'. called T L lo hi (s, ctx) c' \<and> ack_sent (s, ctx1) c')"
  proof (rule wpo_mono [OF send_ack_spec [OF pre(2,3)]])
    show "reorder_count s \<noteq> 0 \<and> \<not> got_fin_reached s \<longrightarrow> \<not> False \<and> cb_get (inbuf s) (ucast (ack_nr s) + 1) = None"
      using in_ok_slots(1) [OF pre(1)] by auto
    fix c' assume a: "ack_sent (s, ctx1) c'"
    obtain s' ctx' where c': "c' = (s', ctx')" by (cases c')
    show "called T L lo hi (s, ctx) c' \<and> ack_sent (s, ctx1) c'"
      using a conn_step_called [OF conn_step_trans [OF st1 ack_sent_conn_step [OF inv1]] room] by (simp add: c')
  qed
  obtain ms ctx2 where ms: "utp_call_get_milliseconds ctx1 (Some (self s)) = (ms, ctx2)" by fastforce
  let ?c = "ctx2\<lparr>current_ms := ms\<rparr>"
  have wr: "written T L lo hi [] (s, ctx1) (s, ?c)" by (rule clock_written [OF inv1 ms])
  have "called T L lo hi (s, ctx1) (s, ?c)"
    using writtenD [OF wr] wr room by (simp add: called_def written_def same_peer_def)
  from called_trans [OF conn_step_called [OF st1 room] called_trans [OF this conn_step_called [OF schedule_conn_step [OF writtenD [OF wr]] room]]]
  have sch: "called T L lo hi (s, ctx) (s, schedule_ack (self s) ?c)" .
  have "ack_ok ?c" using writtenD [OF wr] by (simp add: sock_inv_def ack_inv_def ctx_ok_def)
  then have mem: "self s \<in> set (ack_sockets (schedule_ack (self s) ?c))" using schedule_ack_spec by blast
  consider "w \<le> last_rcv_win s" | "last_rcv_win s < w" "last_rcv_win s = 0" | "last_rcv_win s < w" "last_rcv_win s \<noteq> 0"
    using not_less by blast
  then show ?thesis
  proof cases
    case 1
    then have "\<not> last_rcv_win s < w" by (simp add: not_less)
    then have "utp_read_drained (s, ctx) = Some (s, ctx1)" using w st by (simp add: utp_read_drained_def)
    then show ?thesis using 1 conn_step_called [OF st1 room] w by (simp add: drained_result_def)
  next
    case 2
    then show ?thesis using ack w st by (simp add: utp_read_drained_def) (elim wpo_mono, auto simp: drained_result_def)
  next
    case 3
    then show ?thesis using sch mem w st ms by (simp add: utp_read_drained_def drained_result_def)
  qed
qed

text \<open>Shutting down one direction or both.\<close>

definition shutdown_result :: "shut_how \<Rightarrow> UTPSocket \<Rightarrow> UTPSocket \<Rightarrow> bool" where
  "shutdown_result how s s' \<longleftrightarrow> read_shutdown s' = (read_shutdown s \<or> how \<noteq> SHUT_WR) \<and> state s' = state s \<and>
     window_bytes (out_window s') = window_bytes (out_window s) \<and>
     (if how \<noteq> SHUT_RD \<and> state s \<in> {CS_CONNECTED, CS_CONNECTED_FULL} \<and> \<not> fin_sent s
      then fin_sent s' \<and> unat (cur_window_packets s') = Suc (unat (cur_window_packets s))
      else fin_sent s' = fin_sent s \<and> cur_window_packets s' = cur_window_packets s)"

lemma shutdown_spec:
  assumes inv: "sock_inv T L lo hi (s, ctx)" and T: "T + 1 < 2 ^ 31" and room: "fin_room s"
    and st: "state s \<noteq> CS_UNINITIALIZED" "state s \<noteq> CS_DESTROY"
  shows "wpo (utp_shutdown how (s, ctx)) (\<lambda>(s', ctx'). called (T + 1) L lo hi (s, ctx) (s', ctx') \<and> shutdown_result how s s')"
proof -
  define s1 where "s1 = (if how \<noteq> SHUT_WR then s\<lparr>read_shutdown := True\<rparr> else s)"
  have inv1: "sock_inv T L lo hi (s1, ctx)" using inv by (simp add: s1_def)
  have eq1: "state s1 = state s" "fin_sent s1 = fin_sent s" "cur_window_packets s1 = cur_window_packets s" "out_window s1 = out_window s"
    "read_shutdown s1 = (read_shutdown s \<or> how \<noteq> SHUT_WR)" "same_peer s s1" "self s1 = self s" "fin_room s1 = fin_room s"
    by (simp_all add: s1_def same_peer_def rx_core_def fin_room_def out_window_def out_base_def)
  have stay: "called (T + 1) L lo hi (s, ctx) (s1, ctx)" using sock_inv_mono [OF inv1, of "T + 1"] room eq1 by (simp add: called_def)
  consider "how \<noteq> SHUT_RD" "state s \<in> {CS_CONNECTED, CS_CONNECTED_FULL}" "\<not> fin_sent s"
    | "how \<noteq> SHUT_RD" "state s = CS_SYN_SENT"
    | "how = SHUT_RD \<or> state s \<noteq> CS_SYN_SENT" "\<not> (how \<noteq> SHUT_RD \<and> state s \<in> {CS_CONNECTED, CS_CONNECTED_FULL} \<and> \<not> fin_sent s)" by blast
  then show ?thesis
  proof cases
    case 1
    then have r: "unat (cur_window_packets s1) < 1024" using room eq1 by (simp add: fin_room_def)
    have eq: "utp_shutdown how (s, ctx) = send_fin (s1, ctx)" using 1 st eq1(1,2) by (auto simp: utp_shutdown_def s1_def Let_def)
    show ?thesis
      unfolding eq
    proof (rule wpo_mono [OF send_fin_spec [OF inv1 T r]], clarify)
      fix s' ctx' assume a: "written (T + 1) L lo hi [] (s1\<lparr>fin_sent := True\<rparr>, ctx) (s', ctx')" "state s' = state s1"
        "unat (cur_window_packets s') = Suc (unat (cur_window_packets s1))"
      have c: "called (T + 1) L lo hi (s, ctx) (s', ctx')"
        using eq1(6) by (intro written_called [OF a(1)]) (simp_all add: same_peer_def rx_core_def)
      have "window_bytes (out_window s') = window_bytes (out_window s1)" "read_shutdown s' = read_shutdown s1" "fin_sent s'"
        using a(1) by (simp_all add: written_def same_conn_def out_window_def out_base_def)
      then show "called (T + 1) L lo hi (s, ctx) (s', ctx') \<and> shutdown_result how s s'"
        using c 1 a(2,3) eq1 by (simp add: shutdown_result_def)
    qed
  next
    case 2
    have eq: "utp_shutdown how (s, ctx) = Some (short_timeout (s1, ctx))" using 2 st eq1(1) by (simp add: utp_shutdown_def s1_def Let_def)
    have c: "called T L lo hi (s, ctx) (s1, ctx)" using inv1 room eq1 by (simp add: called_def)
    obtain s2 ctx2 where s2: "short_timeout (s1, ctx) = (s2, ctx2)" by fastforce
    have sh: "called T L lo hi (s1, ctx) (s2, ctx2)" using short_timeout_called [OF inv1] room eq1(8) s2 by simp
    have "called (T + 1) L lo hi (s, ctx) (s2, ctx2)"
      using called_trans [OF c sh] sock_inv_mono [of T L lo hi "(s2, ctx2)" "T + 1"] by (simp add: called_def)
    moreover have "out_window s2 = out_window s1" "state s2 = state s1" "fin_sent s2 = fin_sent s1" "read_shutdown s2 = read_shutdown s1"
      "cur_window_packets s2 = cur_window_packets s1"
      using s2 by (auto simp: short_timeout_def out_window_def out_base_def split: prod.splits)
    ultimately show ?thesis using 2 eq1 by (simp add: eq s2 shutdown_result_def)
  next
    case 3
    then have eq: "utp_shutdown how (s, ctx) = Some (s1, ctx)" using st eq1(1,2) by (auto simp: utp_shutdown_def s1_def Let_def)
    show ?thesis using stay 3(2) eq1 by (auto simp: eq shutdown_result_def)
  qed
qed


subsection \<open>Destruction\<close>

definition destroyed :: "sid \<Rightarrow> utp_context \<Rightarrow> utp_context \<Rightarrow> bool" where
  "destroyed i ctx ctx' \<longleftrightarrow> (\<exists>s. socks ctx i = Some s \<and> socks ctx' = (socks ctx)(i := None) \<and> hash_ok (utp_sockets ctx') \<and>
     hash_abs (utp_sockets ctx') = (hash_abs (utp_sockets ctx))(sock_key s := None)) \<and>
     last_utp_socket ctx' = (if last_utp_socket ctx = Some i then None else last_utp_socket ctx) \<and>
     set (ack_sockets ctx') = set (ack_sockets ctx) - {i} \<and> ctx_ok ctx' \<and>
     calls ctx' = calls (utp_call_on_state_change ctx i UTP_STATE_DESTROYING) \<and>
     callbacks ctx' = callbacks ctx \<and> rst_info ctx' = rst_info ctx \<and> current_ms ctx' = current_ms ctx \<and>
     last_check ctx' = last_check ctx \<and> ctx_opt_sndbuf ctx' = ctx_opt_sndbuf ctx"

lemma destroy_spec:
  assumes s: "socks ctx i = Some s" and ok: "ctx_ok ctx" "hash_ok (utp_sockets ctx)" and k: "hash_abs (utp_sockets ctx) (sock_key s) \<noteq> None"
  shows "wpo (destroy_socket i ctx) (destroyed i ctx)"
proof -
  define ctx1 where "ctx1 = utp_call_on_state_change ctx i UTP_STATE_DESTROYING"
  define ctx2 where "ctx2 = (if last_utp_socket ctx1 = Some i then ctx1\<lparr>last_utp_socket := None\<rparr> else ctx1)"
  have tr: "trace_ext ctx ctx1" by (simp add: ctx1_def utp_call_on_state_change_def)
  then obtain cs where c1: "ctx1 = ctx\<lparr>calls := calls ctx @ cs\<rparr>" unfolding trace_ext_def by blast
  have h2: "utp_sockets ctx2 = utp_sockets ctx" by (simp add: ctx2_def c1)
  have "wpo (utp_hash_del (utp_sockets ctx2) (sock_key s) \<bind> (\<lambda>(h, kd). cassert (kd \<noteq> None) \<bind> (\<lambda>_.
      removeSocketFromAckList i (ctx2\<lparr>utp_sockets := h\<rparr>) \<bind> (\<lambda>ctx3. Some (ctx3\<lparr>socks := (socks ctx3)(i := None)\<rparr>))))) (destroyed i ctx)"
    unfolding h2
  proof (rule wpo_bindI [OF utp_hash_del_spec [OF ok(2)]], clarify, goal_cases)
    case (1 h kd)
    have kd: "kd \<noteq> None" using 1 k by simp
    let ?c = "ctx2\<lparr>utp_sockets := h\<rparr>"
    have a: "ack_ok ?c" using ok(1) by (simp add: ctx_ok_def ack_ok_def ctx2_def c1)
    have "wpo (removeSocketFromAckList i ?c \<bind> (\<lambda>ctx3. Some (ctx3\<lparr>socks := (socks ctx3)(i := None)\<rparr>))) (destroyed i ctx)"
    proof (rule wpo_bindI [OF removeSocketFromAckList_spec [OF a]])
      fix ctx3 assume r: "ack_ok ctx3 \<and> set (ack_sockets ctx3) = set (ack_sockets ?c) - {i} \<and> ctx3 = ?c\<lparr>ida := ida ctx3, ack_sockets := ack_sockets ctx3\<rparr>"
      then obtain x y where c3: "ctx3 = ?c\<lparr>ida := x, ack_sockets := y\<rparr>" by blast
      have set: "set y = set (ack_sockets ctx) - {i}" using r by (simp add: c3 ctx2_def c1)
      have ok': "ctx_ok (ctx3\<lparr>socks := (socks ctx3)(i := None)\<rparr>)"
        using r ok(1) by (simp add: ctx_ok_def ack_ok_def) (simp add: c3 ctx2_def c1)
      have cl: "calls (utp_call_on_state_change ctx i UTP_STATE_DESTROYING) = calls ctx @ cs" unfolding ctx1_def [symmetric] c1 by simp
      show "wpo (Some (ctx3\<lparr>socks := (socks ctx3)(i := None)\<rparr>)) (destroyed i ctx)"
        using s 1 set ok' unfolding destroyed_def wpo_Some cl by (simp add: c3) (simp add: ctx2_def c1)
    qed
    then show ?case using kd by simp
  qed
  then show ?thesis using s by (simp add: destroy_socket_def ctx1_def [symmetric] ctx2_def [symmetric] Let_def)
qed

subsection \<open>Memory and options\<close>

text \<open>The fields of a new socket that nobody has written.\<close>

definition unset :: "UTPSocket \<Rightarrow> UTPSocket \<Rightarrow> UTPSocket" where
  "unset junk s = s\<lparr>mtu_ceiling := mtu_ceiling junk, mtu_floor := mtu_floor junk, mtu_last := mtu_last junk,
     mtu_discover_time := mtu_discover_time junk, max_window := max_window junk\<rparr>"

lemma init_state_unset: "init_state a sd r t ms (new_socket junk i ctx) = unset junk (init_state a sd r t ms (new_socket junk' i ctx))"
  by (cases junk; cases junk'; simp add: init_state_def new_socket_def unset_def)

lemma mtu_reset_unset:
  "mtu_reset (unset junk s, ctx) = map_option (\<lambda>(s', ctx'). (s'\<lparr>mtu_last := mtu_last junk, max_window := max_window junk\<rparr>, ctx')) (mtu_reset (s, ctx))"
  by (simp add: mtu_reset_def unset_def get_udp_mtu_def Let_def cassert_def split: prod.split)

lemma initialize_junk:
  "utp_initialize_socket sa len gen seed r t (new_socket junk i ctx, ctx) = utp_initialize_socket sa len gen seed r t (new_socket junk' i ctx, ctx)"
proof -
  have s: "self (new_socket j i ctx) = i" for j by (simp add: new_socket_def)
  have "utp_initialize_socket sa len gen seed r t (new_socket j i ctx, ctx) = utp_initialize_socket sa len gen seed r t (new_socket zero_socket i ctx, ctx)" for j
    unfolding utp_initialize_socket_def prod.case s Let_def init_state_unset [of _ _ _ _ _ j i ctx zero_socket] mtu_reset_unset
    by (auto simp: Option.bind_map_option split_beta sock_key_def get_packet_size_def comp_def intro!: Option.bind_cong)
  then show ?thesis by metis
qed

lemma sockopt_round_trip:
  assumes "opt \<in> {OPT_SNDBUF, OPT_RCVBUF, OPT_TARGET_DELAY}" and "1 \<le> val" and "val < 2 ^ 31"
  shows "\<exists>s'. utp_setsockopt opt val s = Some (0, s') \<and> utp_getsockopt opt s' = val"
proof -
  have "as_int (word_of_int val) = val"
  proof -
    have u: "unat (word_of_nat (nat val) :: size_t) = nat val" using assms(2,3) by (intro unat_of_nat_small) simp
    have "as_int (word_of_nat (nat val)) = int (nat val)" using as_int_small [of "word_of_nat (nat val)"] assms(3) unfolding u by simp
    then show ?thesis using assms(2) by simp
  qed
  then show ?thesis using assms(1,2) by (auto simp: utp_setsockopt_def utp_getsockopt_def)
qed

subsection \<open>Properties\<close>




text \<open>C19: Writing accepts a prefix. On a connected socket whose FIN has not been sent, \<^verbatim>\<open>utp_writev\<close> returns the
  number of bytes it has accepted, and exactly these first bytes of the caller's buffers (of which it looks at 1024) are appended
  to the send queue, behind everything that was queued before. When it has not accepted everything,
  the socket is in \<^verbatim>\<open>CS_CONNECTED_FULL\<close>, so that the application is told when it can write again. The
  invariant of the connection is kept.\<close>

theorem writev_accepts_prefix:
  assumes "sock_inv T L lo hi (s, ctx)" and "state s = CS_CONNECTED" and "\<not> fin_sent s" and "iov \<noteq> []"
    and "data = concat (take UTP_IOV_MAX iov)" and "T + length data + 1 < 2 ^ 31"
  shows "\<exists>n s' ctx'. utp_writev iov (s, ctx) = Some (n, s', ctx') \<and> unat n \<le> length data \<and>
     window_bytes (out_window s') = window_bytes (out_window s) @ take (unat n) data \<and>
     seq_nr s' - cur_window_packets s' = seq_nr s - cur_window_packets s \<and>
     (unat n < length data \<longrightarrow> state s' = CS_CONNECTED_FULL) \<and> sock_inv (T + length data + 1) L lo hi (s', ctx')"
proof -
  obtain n s' ctx' where r: "utp_writev iov (s, ctx) = Some (n, s', ctx')"
    and p: "writev_post (T + length data + 1) L lo hi data (unat n) (s, ctx) (s', ctx')"
    using writev_spec [OF assms(1-4)] assms(6) unfolding assms(5) [symmetric] wpo_ex by fastforce
  show ?thesis using p by (intro exI [of _ n] exI [of _ s'] exI [of _ ctx']) (simp add: r writev_post_def written_def)
qed

theorem writev_accepts_prefix_witness:
  "\<exists>n s' ctx'. utp_writev [[4, 5], [], [6, 7]] (example_sender, example_stopped) = Some (n, s', ctx') \<and>
     window_bytes (out_window s') = window_bytes (out_window example_sender) @ take (unat n) [4, 5, 6, 7] \<and>
     sock_inv 6 100 500 1000 (s', ctx')"
proof -
  have st: "state example_sender = CS_CONNECTED" "\<not> fin_sent example_sender"
    by (simp_all add: example_sender_def example_socket_def zero_socket_def)
  have six: "Suc (Suc (Suc (Suc (Suc (Suc 0))))) = 6" by simp
  show ?thesis using writev_accepts_prefix [OF example_sender_inv st, of "[[4, 5], [], [6, 7]]" "[4, 5, 6, 7]"]
    by (auto simp: UTP_IOV_MAX_def six)
qed



text \<open>A receive window that opens is announced. When the application has read its data, \<^verbatim>\<open>utp_read_drained\<close> sends an ack at once if the
  peer was told a window of zero (it could never send again otherwise), schedules a deferred ack if the window has only
  grown, and does nothing else; the invariant of the connection is kept.\<close>

lemma read_drained_announces_window:
  assumes "sock_inv T L lo hi (s, ctx)" and "fin_room s" and "state s \<noteq> CS_UNINITIALIZED"
  shows "wpo (utp_read_drained (s, ctx)) (\<lambda>c'. drained_result (s, ctx) c' \<and> called T L lo hi (s, ctx) c')"
  by (rule wpo_mono [OF read_drained_spec [OF assms]]) blast

end
