(* ===== verification/Utp_Wire_Write.thy ===== *)
theory Utp_Wire_Write
  imports Utp_Wire_In Utp_Socket_Ops
begin

section \<open>Writing extends the stream\<close>

text \<open>
  The operations that queue packets: the SYN, the data of \<^verbatim>\<open>utp_writev\<close> and the FIN. Each leaves the packets
  that have been sent as they are and adds its bytes to the end of the stream.
\<close>

subsection \<open>Queueing a packet\<close>

lemma number_slot:
  assumes "cb_ok b" and "(ucast (i :: size_t) :: uint16) = of_nat n"
  shows "unat i mod 2 ^ cb_bits b = n mod 2 ^ cb_bits b"
proof -
  have eq: "unat i mod 2 ^ 16 = n mod 2 ^ 16" using arg_cong [OF assms(2), of unat] by (simp add: unat_ucast16 unat_of_nat)
  have dvd: "(2::nat) ^ cb_bits b dvd 2 ^ 16" using assms(1) by (intro le_imp_power_dvd) (rule cb.bits_le)
  show ?thesis using arg_cong [OF eq, of "\<lambda>m. m mod 2 ^ cb_bits b"] by (simp only: mod_mod_cancel [OF dvd])
qed

lemma packet_of_upd: "n \<noteq> m \<Longrightarrow> packet_of (G(m := x)) n p = packet_of G n p"
  by (simp add: packet_of_def)

lemma carries_upd: "n \<noteq> m \<Longrightarrow> carries (G(m := x)) n d = carries G n d"
  by (simp add: carries_def)

lemma stream_upd: "N \<le> m \<Longrightarrow> stream (G(m := x)) M N = stream G M N"
  unfolding stream_def by (intro arg_cong [of _ _ concat] map_cong) auto

lemma stream_Suc: "M \<le> N \<Longrightarrow> stream G M (Suc N) = stream G M N @ snd (G N)"
  by (simp add: stream_def)

text \<open>Growing the ring keeps every packet in the slot of its number.\<close>

lemma ensured_slot:
  assumes ok: "cb_ok (outbuf s)" "unat (cur_window_packets s) \<le> 2 ^ cb_bits (outbuf s)" "unat (cur_window_packets s) \<le> N" "seq_nr s = of_nat N"
    and b: "cb_ensure_size (outbuf s) (ucast (seq_nr s)) (ucast (cur_window_packets s)) = Some b" and p: "cb_get b i = Some p"
  obtains j where "cb_get (outbuf s) j = Some p"
    "\<And>n. n < N \<Longrightarrow> N \<le> n + unat (cur_window_packets s) \<Longrightarrow> unat j mod 2 ^ cb_bits (outbuf s) = n mod 2 ^ cb_bits (outbuf s) \<Longrightarrow>
       unat i mod 2 ^ cb_bits b = n mod 2 ^ cb_bits b"
proof -
  let ?base = "ucast (seq_nr s) - ucast (cur_window_packets s) :: size_t" and ?B = "N - unat (cur_window_packets s)"
  have idx: "unat (ucast (cur_window_packets s) :: size_t) < 2 ^ 16" using unat_less_pow [of "cur_window_packets s"] by (simp add: unat_ucast_up)
  have b': "cb_ok b" and get: "\<And>j. j < 2 ^ cb_bits b \<Longrightarrow> cb_get b (?base + of_nat j) =
      (if j < 2 ^ cb_bits (outbuf s) then cb_get (outbuf s) (?base + of_nat j) else None)"
    using cb_ensure_size_spec [OF ok(1) idx, of "ucast (seq_nr s)"] by (simp_all add: b)
  define j where "j = unat (i - ?base) mod 2 ^ cb_bits b"
  have j: "j < 2 ^ cb_bits b" by (simp add: j_def)
  have kb: "cb_bits b \<le> LENGTH(64)" "cb_bits (outbuf s) \<le> LENGTH(64)" using cb.bits_le_64 b' ok(1) by blast+
  have "unat (?base + of_nat j) mod 2 ^ cb_bits b = unat (?base + of_nat (unat (i - ?base))) mod 2 ^ cb_bits b"
    unfolding unat_add_of_nat_mod [OF kb(1)] by (simp add: j_def mod_add_right_eq)
  then have ij: "unat (?base + of_nat j) mod 2 ^ cb_bits b = unat i mod 2 ^ cb_bits b" by simp
  then have "cb_get b (?base + of_nat j) = Some p" using p by (simp add: cb_get_eq [OF b'])
  then have jj: "j < 2 ^ cb_bits (outbuf s)" "cb_get (outbuf s) (?base + of_nat j) = Some p" using get [OF j] by (auto split: if_splits)
  have base: "(ucast ?base :: uint16) = of_nat ?B" using ok(3,4) by (simp add: ucast16 of_nat_diff)
  show thesis
  proof (rule that [OF jj(2)])
    fix n assume n: "n < N" "N \<le> n + unat (cur_window_packets s)" "unat (?base + of_nat j) mod 2 ^ cb_bits (outbuf s) = n mod 2 ^ cb_bits (outbuf s)"
    define l where "l = n - ?B"
    have nl: "n = ?B + l" "l < 2 ^ cb_bits (outbuf s)" using n(1,2) ok(2,3) unfolding l_def by linarith+
    have "(ucast (?base + of_nat l) :: uint16) = of_nat n" using base nl(1) by (simp add: ucast16)
    note ns = number_slot [OF ok(1) this] number_slot [OF b' this]
    have "j = l" using n(3) ns(1) mod_pow2_add_inj [OF kb(2) jj(1) nl(2), of ?base] by simp
    then show "unat i mod 2 ^ cb_bits b = n mod 2 ^ cb_bits b" using ij ns(2) by simp
  qed
qed

lemma wire_append:
  assumes w: "wire_with k M G N S (s, ctx)" and c: "unat (cur_window_packets s) < 1024"
    and b: "cb_ensure_size (outbuf s) (ucast (seq_nr s)) (ucast (cur_window_packets s)) = Some b"
    and p: "packet_of (G(N := x)) N p" "transmissions p = 0"
    and len: "length (stream G M N) + length (snd x) < 2 ^ 32"
    and s': "tx_core s' = tx_core (s\<lparr>outbuf := cb_put b (ucast (seq_nr s)) (Some p), seq_nr := seq_nr s + 1, cur_window_packets := cur_window_packets s + 1\<rparr>)"
  shows "wire_with k M (G(N := x)) (Suc N) (S \<inter> {..<N}) (s', ctx)"
proof -
  let ?G = "G(N := x)" and ?S = "S \<inter> {..<N}" and ?D = "length (sent k (self s) ctx)"
  have e: "self s' = self s" "outbuf s' = cb_put b (ucast (seq_nr s)) (Some p)" "seq_nr s' = seq_nr s + 1" "cur_window_packets s' = cur_window_packets s + 1"
    using s' by (simp_all add: tx_core_def)
  have ok: "cb_ok (outbuf s)" "unat (cur_window_packets s) \<le> 2 ^ cb_bits (outbuf s)" "unat (cur_window_packets s) \<le> N" "seq_nr s = of_nat N" and MN: "M \<le> N"
    using w by (simp_all add: wire_with_def)
  have slots: "\<And>i p. cb_get (outbuf s) i = Some p \<Longrightarrow> slot_ok ?D M G N S s i p" using w unfolding wire_with_def prod.case by blast
  have idx: "unat (ucast (cur_window_packets s) :: size_t) < 2 ^ 16" using c by (simp add: unat_ucast_up)
  have b': "cb_ok b" "unat (cur_window_packets s) < 2 ^ cb_bits b"
    using cb_ensure_size_spec [OF ok(1) idx, of "ucast (seq_nr s)"] by (simp_all add: b unat_ucast_up)
  have cw: "unat (cur_window_packets s') = Suc (unat (cur_window_packets s))" using c by (simp add: e unat_word_ariths)
  have top: "unat (ucast (seq_nr s) :: size_t) mod 2 ^ cb_bits b = N mod 2 ^ cb_bits b" by (rule number_slot [OF b'(1)]) (simp add: ok(4))
  have "slot_ok ?D M ?G (Suc N) ?S s' i q" if i: "cb_get (outbuf s') i = Some q" for i q
  proof (cases "unat (ucast (seq_nr s) :: size_t) mod 2 ^ cb_bits b = unat i mod 2 ^ cb_bits b")
    case True
    then have "q = p" using i by (simp add: e cb_get_put [OF b'(1)])
    then show ?thesis unfolding slot_ok_def cw e(2) cb_bits_put using p True top MN by (intro exI [of _ N]) simp
  next
    case False
    then have "cb_get b i = Some q" using i by (simp add: e cb_get_put [OF b'(1)])
    from ensured_slot [OF ok b this] obtain j where j: "cb_get (outbuf s) j = Some q"
      "\<And>n. n < N \<Longrightarrow> N \<le> n + unat (cur_window_packets s) \<Longrightarrow> unat j mod 2 ^ cb_bits (outbuf s) = n mod 2 ^ cb_bits (outbuf s) \<Longrightarrow>
       unat i mod 2 ^ cb_bits b = n mod 2 ^ cb_bits b" by blast
    obtain n where n: "n < N" "N \<le> n + unat (cur_window_packets s)" "unat j mod 2 ^ cb_bits (outbuf s) = n mod 2 ^ cb_bits (outbuf s)"
      "packet_of G n q" "transmissions q \<le> ?D" "transmissions q = 0 \<longrightarrow> n \<notin> S \<and> M \<le> n" using slots [OF j(1)] by (rule slot_okE)
    have "packet_of ?G n q" using n(1,4) by (simp add: packet_of_upd)
    then show ?thesis unfolding slot_ok_def cw e(2) cb_bits_put using n j(2) [OF n(1-3)] by (intro exI [of _ n]) simp
  qed
  moreover have "ack_datagram d \<or> (\<exists>n \<in> ?S. n < Suc N \<and> carries ?G n d)" if "d \<in> set (sent k (self s) ctx)" for d
  proof -
    have "ack_datagram d \<or> (\<exists>n \<in> S. n < N \<and> carries G n d)" using w that unfolding wire_with_def prod.case by blast
    then show ?thesis
    proof
      assume "\<exists>n \<in> S. n < N \<and> carries G n d"
      then obtain n where "n \<in> S" "n < N" "carries G n d" by blast
      then show ?thesis by (intro disjI2 bexI [of _ n]) (simp_all add: carries_upd)
    qed simp
  qed
  ultimately show ?thesis
    using w b' cw ok(3,4) MN len unfolding wire_with_def prod.case e(1,2,3)
    by (auto simp: cb_ok_put stream_upd stream_Suc)
qed

lemma last_packet:
  assumes w: "wire_with k M G N S (s, ctx)" and c: "0 < unat (cur_window_packets s)" and q: "cb_get (outbuf s) (ucast (seq_nr s) - 1) = Some q"
  shows "0 < N" "packet_of G (N - 1) q" "transmissions q = 0 \<Longrightarrow> N - 1 \<notin> S \<and> M \<le> N - 1"
    "unat (ucast (seq_nr s) - 1 :: size_t) mod 2 ^ cb_bits (outbuf s) = (N - 1) mod 2 ^ cb_bits (outbuf s)"
proof -
  let ?i = "ucast (seq_nr s) - 1 :: size_t"
  have ok: "cb_ok (outbuf s)" "unat (cur_window_packets s) \<le> 2 ^ cb_bits (outbuf s)" "unat (cur_window_packets s) \<le> N" "seq_nr s = of_nat N"
    and sl: "slot_ok (length (sent k (self s) ctx)) M G N S s ?i q" using w q by (auto simp: wire_with_def)
  show N: "0 < N" using c ok(3) by simp
  have "(ucast ?i :: uint16) = of_nat (N - 1)" using N by (simp add: ucast16_diff ok(4) of_nat_diff)
  then show top: "unat ?i mod 2 ^ cb_bits (outbuf s) = (N - 1) mod 2 ^ cb_bits (outbuf s)" by (rule number_slot [OF ok(1)])
  obtain m where m: "m < N" "N \<le> m + unat (cur_window_packets s)" "unat ?i mod 2 ^ cb_bits (outbuf s) = m mod 2 ^ cb_bits (outbuf s)"
    "packet_of G m q" "transmissions q = 0 \<longrightarrow> m \<notin> S \<and> M \<le> m" using sl by (rule slot_okE)
  have "m = N - 1" by (rule window_number [OF m(1,2) _ _ ok(2)]) (use N c m(3) top in auto)
  then show "packet_of G (N - 1) q" "transmissions q = 0 \<Longrightarrow> N - 1 \<notin> S \<and> M \<le> N - 1" using m(4,5) by simp_all
qed

lemma wire_fill:
  assumes w: "wire_with k M G N S (s, ctx)" and c: "0 < unat (cur_window_packets s)"
    and q: "cb_get (outbuf s) (ucast (seq_nr s) - 1) = Some q" "transmissions q = 0"
    and p: "packet_of (G(N - 1 := x)) (N - 1) p" "transmissions p = 0"
    and len: "length (stream G M (N - 1)) + length (snd x) < 2 ^ 32"
    and s': "tx_core s' = tx_core (s\<lparr>outbuf := cb_put (outbuf s) (ucast (seq_nr s) - 1) (Some p)\<rparr>)"
  shows "wire_with k M (G(N - 1 := x)) N S (s', ctx)"
proof -
  let ?G = "G(N - 1 := x)" and ?D = "length (sent k (self s) ctx)" and ?i = "ucast (seq_nr s) - 1 :: size_t"
  have e: "self s' = self s" "outbuf s' = cb_put (outbuf s) ?i (Some p)" "seq_nr s' = seq_nr s" "cur_window_packets s' = cur_window_packets s"
    using s' by (simp_all add: tx_core_def)
  have ok: "cb_ok (outbuf s)" "unat (cur_window_packets s) \<le> 2 ^ cb_bits (outbuf s)" "unat (cur_window_packets s) \<le> N" "seq_nr s = of_nat N"
    using w by (simp_all add: wire_with_def)
  have slots: "\<And>i p. cb_get (outbuf s) i = Some p \<Longrightarrow> slot_ok ?D M G N S s i p" using w unfolding wire_with_def prod.case by blast
  note lp = last_packet [OF w c q(1)]
  have N: "0 < N" and top: "unat ?i mod 2 ^ cb_bits (outbuf s) = (N - 1) mod 2 ^ cb_bits (outbuf s)" and last: "N - 1 \<notin> S" "M \<le> N - 1"
    using lp q(2) by simp_all
  have "slot_ok ?D M ?G N S s' i r" if i: "cb_get (outbuf s') i = Some r" for i r
  proof (cases "unat ?i mod 2 ^ cb_bits (outbuf s) = unat i mod 2 ^ cb_bits (outbuf s)")
    case True
    then have "r = p" using i by (simp add: e cb_get_put [OF ok(1)])
    then show ?thesis unfolding slot_ok_def e(2,4) cb_bits_put using p True top last N c by (intro exI [of _ "N - 1"]) simp
  next
    case False
    then have "cb_get (outbuf s) i = Some r" using i by (simp add: e cb_get_put [OF ok(1)])
    then obtain n where n: "n < N" "N \<le> n + unat (cur_window_packets s)" "unat i mod 2 ^ cb_bits (outbuf s) = n mod 2 ^ cb_bits (outbuf s)"
      "packet_of G n r" "transmissions r \<le> ?D" "transmissions r = 0 \<longrightarrow> n \<notin> S \<and> M \<le> n" using slots by (blast elim: slot_okE)
    have "n \<noteq> N - 1" using False n(3) top by auto
    then have "packet_of ?G n r" using n(4) by (simp add: packet_of_upd)
    then show ?thesis unfolding slot_ok_def e(2,4) cb_bits_put using n by (intro exI [of _ n]) simp
  qed
  moreover have "ack_datagram d \<or> (\<exists>n \<in> S. n < N \<and> carries ?G n d)" if "d \<in> set (sent k (self s) ctx)" for d
  proof -
    have "ack_datagram d \<or> (\<exists>n \<in> S. n < N \<and> carries G n d)" using w that unfolding wire_with_def prod.case by blast
    then show ?thesis using last(1) by (metis carries_upd)
  qed
  moreover have "stream ?G M N = stream G M (N - 1) @ snd x"
    using stream_Suc [OF last(2), of ?G] N by (simp add: stream_upd)
  ultimately show ?thesis
    using w last(2) len unfolding wire_with_def prod.case e by (auto simp: cb_ok_put)
qed

subsection \<open>Filling and storing\<close>

text \<open>\<open>b\<close> has been added to the end of the stream, in packets of type \<open>f\<close>, of which at most \<open>e\<close> are empty.\<close>

definition grown :: "nat \<Rightarrow> byte \<Rightarrow> byte list \<Rightarrow> nat \<Rightarrow> ghost \<Rightarrow> nat \<Rightarrow> ghost \<Rightarrow> nat \<Rightarrow> bool" where
  "grown e f b M G N G' N' \<longleftrightarrow> N \<le> N' \<and> N' \<le> N + length b + e \<and> stream G' M N' = stream G M N @ b \<and> (\<forall>n < N'. n < N \<and> G' n = G n \<or> M \<le> n \<and> fst (G' n) = f)"

lemma grown_refl [simp]: "grown e f [] M G N G N"
  by (simp add: grown_def)

lemma grown_trans:
  assumes "grown e f a M G N G1 N1" and "grown e' f b M G1 N1 G2 N2"
  shows "grown (e + e') f (a @ b) M G N G2 N2"
proof -
  have "\<forall>n < N2. n < N \<and> G2 n = G n \<or> M \<le> n \<and> fst (G2 n) = f" using assms unfolding grown_def by metis
  then show ?thesis using assms by (simp add: grown_def)
qed

lemma grown_mono: "grown e f b M G N G' N' \<Longrightarrow> e \<le> e' \<Longrightarrow> grown e' f b M G N G' N'"
  by (simp add: grown_def)

lemma grown_append: "M \<le> N \<Longrightarrow> b \<noteq> [] \<or> 0 < e \<Longrightarrow> grown e f b M G N (G(N := (f, b))) (Suc N)"
  by (cases b) (auto simp: grown_def stream_Suc stream_upd less_Suc_eq)

lemma grown_fill:
  assumes "M \<le> N - 1" "0 < N"
  shows "grown e f b M G N (G(N - 1 := (f, snd (G (N - 1)) @ b))) N"
  using assms stream_Suc [of M "N - 1"] by (auto simp: grown_def stream_upd)

lemma wlp_fill_packet:
  "wlp (fill_packet flags added p iov) (\<lambda>(p', iov'). (added \<noteq> 0 \<longrightarrow> flags = ST_DATA) \<and> unat added \<le> length (concat iov) \<and>
     concat iov' = drop (unat added) (concat iov) \<and> pkt_body p' = pkt_body p @ take (unat added) (concat iov) \<and>
     pkt_payload p' = pkt_payload p + added \<and> pkt_length p' = get_header_size + pkt_payload p' \<and>
     transmissions p' = transmissions p \<and> pkt_header p' = pkt_header p)"
proof (cases "added = 0")
  case False
  obtain b iov' r where t: "iov_take (unat added) iov = (b, iov', r)" by (cases "iov_take (unat added) iov")
  then show ?thesis using iov_take_spec [OF t] False by (auto simp: fill_packet_def wlp_simps Let_def)
qed (simp add: fill_packet_def Let_def)

lemma data_header_fields:
  assumes "f = ST_DATA \<or> f = ST_FIN"
  shows "pf_type (data_header f s h) = f" "pf_version (data_header f s h) = 1" "pf_ext (data_header f s h) = 0" "pf_seq_nr (data_header f s h) = pf_seq_nr h"
proof -
  have v: "ver_type (data_header f s h) = ver_type (pf_set_type f (pf_set_version 1 h))" by (simp add: data_header_def)
  then have "pf_type (data_header f s h) = pf_type (pf_set_type f (pf_set_version 1 h))" by (simp only: pf_type_def)
  then show "pf_type (data_header f s h) = f" using assms by (auto simp: ST_DATA_def ST_FIN_def)
  have "pf_version (data_header f s h) = pf_version (pf_set_type f (pf_set_version 1 h))" using v by (simp only: pf_version_def)
  then show "pf_version (data_header f s h) = 1" by simp
  show "pf_ext (data_header f s h) = 0" "pf_seq_nr (data_header f s h) = pf_seq_nr h"
    by (simp_all add: data_header_def pf_set_type_def pf_set_version_def)
qed

text \<open>The socket after packets have been queued: nothing has been sent yet.\<close>

definition queued :: "conn \<Rightarrow> conn \<Rightarrow> bool" where
  "queued = (\<lambda>(s, ctx) (s', ctx'). self s' = self s \<and> fin_sent s' = fin_sent s \<and> fin_core s' = fin_core s \<and> (cb_ok (outbuf s) \<longrightarrow> cb_ok (outbuf s')) \<and> emits (harmless False (self s)) ctx ctx')"

lemma queued_trans [trans]: "queued a b \<Longrightarrow> queued b c \<Longrightarrow> queued a c"
  by (cases a; cases b; cases c) (auto simp: queued_def intro: emits_trans)

lemma idle_queued: "idle False c c' \<Longrightarrow> queued c c'"
  by (cases c; cases c') (simp add: idle_def queued_def tx_core_def)

lemma store_packet_ok:
  assumes "store_packet a p s = Some s'" and "cb_ok (outbuf s)"
  shows "cb_ok (outbuf s')"
proof -
  have "unat (ucast (cur_window_packets s) :: size_t) < 2 ^ 16" using unat_less_pow [of "cur_window_packets s"] by (simp add: unat_ucast_up)
  then have "cb_ok b" if "cb_ensure_size (outbuf s) (ucast (seq_nr s)) (ucast (cur_window_packets s)) = Some b" for b
    using cb_ensure_size_spec [OF assms(2), of "ucast (cur_window_packets s)" "ucast (seq_nr s)"] that by simp
  then show ?thesis using assms by (auto simp: store_packet_def Let_def bind_eq_Some_conv cb_ok_put split: if_splits)
qed

lemma store_packet_fields:
  assumes "store_packet a p s = Some s'"
  shows "self s' = self s" "fin_sent s' = fin_sent s" "fin_core s' = fin_core s"
  using assms by (auto simp: store_packet_def Let_def bind_eq_Some_conv cores split: if_splits)

lemma wlp_put_packet: "wlp (put_packet a f p (s, ctx)) (queued (s, ctx))"
  unfolding put_packet_def prod.case Let_def
proof (rule wlp_bindI [OF wlp_get_rcv_window [OF idle_refl, where rd = False]], clarify)
  fix r ctx1 assume "idle False (s, ctx) (s, ctx1)"
  then have e: "emits (harmless False (self s)) ctx ctx1" by (simp add: idle_def)
  let ?s = "s\<lparr>last_rcv_win := r\<rparr>" and ?p = "p\<lparr>pkt_header := data_header f (s\<lparr>last_rcv_win := r\<rparr>) (pkt_header p)\<rparr>"
  have "queued (s, ctx) (s2, ctx1)" if "store_packet a ?p ?s = Some s2" for s2
    using store_packet_fields [OF that] store_packet_ok [OF that] e by (simp add: queued_def cores)
  then show "wlp (store_packet a ?p ?s \<bind> (\<lambda>s2. Some (s2, ctx1))) (queued (s, ctx))" by (auto simp: wlp_def bind_eq_Some_conv)
qed

lemma wlp_put_append:
  assumes w: "wire k M G N (s, ctx)" and c: "unat (cur_window_packets s) < 1024" and f: "f = ST_DATA \<or> f = ST_FIN"
    and p: "pkt_payload p = of_nat (length (pkt_body p))" "pkt_length p = get_header_size + pkt_payload p" "transmissions p = 0"
    and len: "length (stream G M N) + length (pkt_body p) < 2 ^ 32"
  shows "wlp (put_packet True f p (s, ctx)) (\<lambda>c'. queued (s, ctx) c' \<and> wire k M (G(N := (f, pkt_body p))) (Suc N) c')"
  unfolding put_packet_def prod.case Let_def
proof (rule wlp_bindI [OF wlp_get_rcv_window [OF idle_refl, where rd = False]], clarify)
  fix r ctx1 assume i: "idle False (s, ctx) (s, ctx1)"
  let ?s = "s\<lparr>last_rcv_win := r\<rparr>"
  let ?p = "p\<lparr>pkt_header := data_header f ?s (pkt_header p)\<rparr>"
  let ?q = "?p\<lparr>pkt_header := (pkt_header ?p)\<lparr>pf_seq_nr := seq_nr ?s\<rparr>\<rparr>"
  have i': "idle False (s, ctx) (?s, ctx1)" by (rule idle_update [OF i]) (simp_all add: cores)
  obtain S where S: "wire_with k M G N S (?s, ctx1)"
    using w idle_wire [of ?s s False ctx ctx1] i' unfolding wire_def idle_def prod.case by blast
  have sq: "seq_nr s = of_nat N" using S by (simp add: wire_with_def)
  have "pf_type (h\<lparr>pf_seq_nr := y\<rparr>) = pf_type h" "pf_version (h\<lparr>pf_seq_nr := y\<rparr>) = pf_version h" for h y by (simp_all add: pf_type_def pf_version_def)
  then have pk: "packet_of (G(N := (f, pkt_body p))) N ?q" using p data_header_fields [OF f, of ?s "pkt_header p"] by (simp add: packet_of_def sq)
  have "queued (s, ctx) (s2, ctx1) \<and> wire k M (G(N := (f, pkt_body p))) (Suc N) (s2, ctx1)"
    if b: "cb_ensure_size (outbuf ?s) (ucast (seq_nr ?s)) (ucast (cur_window_packets ?s)) = Some b"
      and s2: "s2 = ?s\<lparr>outbuf := cb_put b (ucast (seq_nr ?s)) (Some ?q), seq_nr := seq_nr ?s + 1, cur_window_packets := cur_window_packets ?s + 1\<rparr>" for b s2
  proof
    have W: "wire_with k M (G(N := (f, pkt_body p))) (Suc N) (S \<inter> {..<N}) (s2, ctx1)"
      by (rule wire_append [OF S _ b pk]) (use c p(3) len s2 in simp_all)
    then show "wire k M (G(N := (f, pkt_body p))) (Suc N) (s2, ctx1)" unfolding wire_def by blast
    have "cb_ok (outbuf s2)" using W by (simp add: wire_with_def)
    then show "queued (s, ctx) (s2, ctx1)" using i by (simp add: queued_def idle_def s2 cores)
  qed
  then show "wlp (store_packet True ?p ?s \<bind> (\<lambda>s2. Some (s2, ctx1))) (\<lambda>c'. queued (s, ctx) c' \<and> wire k M (G(N := (f, pkt_body p))) (Suc N) c')"
    unfolding store_packet_def if_True Let_def wlp_bind wlp_Some unfolding wlp_def by blast
qed

lemma wlp_put_fill:
  assumes w: "wire k M G N (s, ctx)" and c: "0 < unat (cur_window_packets s)" and f: "f = ST_DATA \<or> f = ST_FIN"
    and q: "cb_get (outbuf s) (ucast (seq_nr s) - 1) = Some q" "transmissions q = 0" "pkt_header p = pkt_header q"
    and p: "pkt_payload p = of_nat (length (pkt_body p))" "pkt_length p = get_header_size + pkt_payload p" "transmissions p = 0"
    and len: "length (stream G M (N - 1)) + length (pkt_body p) < 2 ^ 32"
  shows "wlp (put_packet False f p (s, ctx)) (\<lambda>c'. queued (s, ctx) c' \<and> wire k M (G(N - 1 := (f, pkt_body p))) N c')"
  unfolding put_packet_def prod.case Let_def
proof (rule wlp_bindI [OF wlp_get_rcv_window [OF idle_refl, where rd = False]], clarify)
  fix r ctx1 assume i: "idle False (s, ctx) (s, ctx1)"
  let ?s = "s\<lparr>last_rcv_win := r\<rparr>"
  let ?p = "p\<lparr>pkt_header := data_header f ?s (pkt_header p)\<rparr>"
  let ?s2 = "?s\<lparr>outbuf := cb_put (outbuf ?s) (ucast (seq_nr ?s) - 1) (Some ?p)\<rparr>"
  have i': "idle False (s, ctx) (?s, ctx1)" by (rule idle_update [OF i]) (simp_all add: cores)
  obtain S where S: "wire_with k M G N S (?s, ctx1)"
    using w idle_wire [of ?s s False ctx ctx1] i' unfolding wire_def idle_def prod.case by blast
  have "packet_of G (N - 1) q" using last_packet(2) [OF S] c q(1) by simp
  then have "pf_seq_nr (pkt_header p) = of_nat (N - 1)" using q(3) by (simp add: packet_of_def)
  then have pk: "packet_of (G(N - 1 := (f, pkt_body p))) (N - 1) ?p" using p data_header_fields [OF f, of ?s "pkt_header p"] by (simp add: packet_of_def)
  have "wire_with k M (G(N - 1 := (f, pkt_body p))) N S (?s2, ctx1)"
    by (rule wire_fill [OF S _ _ q(2) pk]) (use c q(1) p(3) len in simp_all)
  moreover have "queued (s, ctx) (?s2, ctx1)" using i by (simp add: queued_def idle_def cores cb_ok_put)
  ultimately show "wlp (store_packet False ?p ?s \<bind> (\<lambda>s2. Some (s2, ctx1))) (\<lambda>c'. queued (s, ctx) c' \<and> wire k M (G(N - 1 := (f, pkt_body p))) N c')"
    unfolding store_packet_def by (auto simp: wire_def)
qed

subsection \<open>Writing\<close>

text \<open>One pass of the loop of \<^verbatim>\<open>write_outgoing_packet\<close> takes \<open>m\<close> bytes.\<close>

definition step_grown :: "byte \<Rightarrow> nat \<Rightarrow> nat \<Rightarrow> ghost \<Rightarrow> nat \<Rightarrow> size_t \<Rightarrow> byte list \<Rightarrow> conn \<Rightarrow> nat \<Rightarrow> conn \<Rightarrow> bool" where
  "step_grown f k M G N payload b c m c' \<longleftrightarrow> m \<le> unat payload \<and> m \<le> length b \<and> (payload = 0 \<or> f = ST_DATA) \<and> queued c c' \<and>
     (\<exists>G' N'. wire k M G' N' c' \<and> grown (if payload = 0 then 1 else 0) f (take m b) M G N G' N' \<and> (payload = 0 \<longrightarrow> G' = G(N := (f, [])) \<and> N' = Suc N))"

lemma write_step_append_wire:
  assumes w: "wire k M G N (s, ctx)" and len: "length (stream G M N) + unat payload < 2 ^ 32" and pick: "pick_packet ps payload s = Some (True, payload, new_packet)"
  shows "wlp (write_step ps f payload iov (s, ctx)) (\<lambda>(rest, iov', c'). rest = 0 \<and> concat iov' = drop (unat payload) (concat iov) \<and>
     step_grown f k M G N payload (concat iov) (s, ctx) (unat payload) c')"
  unfolding write_step_def fst_conv pick bind.bind_lunit prod.case
proof (unfold wlp_bind wlp_cassert, intro impI, rule wlp_mono [OF wlp_fill_packet], clarify)
  fix p :: OutgoingPacket and iov'
  assume c: "unat (cur_window_packets s) < OUTGOING_BUFFER_MAX_SIZE" and f: "f = ST_DATA \<or> f = ST_FIN" and fd: "payload \<noteq> 0 \<longrightarrow> f = ST_DATA"
    and le: "unat payload \<le> length (concat iov)" and io: "concat iov' = drop (unat payload) (concat iov)"
    and body: "pkt_body p = pkt_body new_packet @ take (unat payload) (concat iov)" and pl: "pkt_payload p = pkt_payload new_packet + payload"
    and rest: "pkt_length p = get_header_size + pkt_payload p" "transmissions p = transmissions new_packet"
  have bd: "pkt_body p = take (unat payload) (concat iov)" "length (pkt_body p) = unat payload" using body le by (simp_all add: new_packet_def)
  then have pp: "pkt_payload p = of_nat (length (pkt_body p))" using pl by (simp add: new_packet_def)
  have MN: "M \<le> N" using w by (auto simp: wire_def wire_with_def)
  have ne: "payload = 0 \<longrightarrow> pkt_body p = []" using bd by simp
  have ne': "pkt_body p \<noteq> [] \<or> 0 < (if payload = 0 then 1 else 0 :: nat)" using bd(2) by (auto simp: unat_eq_0)
  have g: "step_grown f k M G N payload (concat iov) (s, ctx) (unat payload) c'"
    if "queued (s, ctx) c'" "wire k M (G(N := (f, pkt_body p))) (Suc N) c'" for c'
    unfolding step_grown_def using that ne fd le bd grown_append [OF MN ne', of f G]
    by (intro conjI exI [of _ "G(N := (f, pkt_body p))"] exI [of _ "Suc N"]) auto
  have "wlp (put_packet True f p (s, ctx)) (\<lambda>c'. queued (s, ctx) c' \<and> wire k M (G(N := (f, pkt_body p))) (Suc N) c')"
    using c len bd rest by (intro wlp_put_append [OF w _ f pp]) (simp_all add: OUTGOING_BUFFER_MAX_SIZE_def new_packet_def)
  then show "wlp (put_packet True f p (s, ctx) \<bind> (\<lambda>c'. Some (payload - payload, iov', c'))) (\<lambda>(rest, iov', c'). rest = 0 \<and>
     concat iov' = drop (unat payload) (concat iov) \<and> step_grown f k M G N payload (concat iov) (s, ctx) (unat payload) c')"
    using io g by (auto elim!: wlp_bindI)
qed

lemma fill_added:
  fixes payload q ps :: size_t
  assumes "unat payload < 2 ^ 32" and "unat q < 2 ^ 32" and "q < ps"
  shows "unat (min (payload + q) (max ps q) - q) = min (unat payload) (unat ps - unat q)"
proof -
  have q: "unat q < unat ps" using assms(3) by (simp add: word_less_nat_alt)
  have s: "unat (payload + q) = unat payload + unat q" using assms(1,2) by (simp add: unat_word_ariths)
  have "q \<le> min (payload + q) (max ps q)" using s q by (simp add: word_le_nat_alt)
  then have "unat (min (payload + q) (max ps q) - q) = unat (min (payload + q) (max ps q)) - unat q" by (rule unat_sub)
  then show ?thesis using s q assms(3) by (auto simp: min_def max_def word_le_nat_alt word_less_nat_alt)
qed

lemma write_step_fill_wire:
  assumes w: "wire k M G N (s, ctx)" and len: "length (stream G M N) + unat payload < 2 ^ 32"
    and q: "0 < unat (cur_window_packets s)" "cb_get (outbuf s) (ucast (seq_nr s) - 1) = Some q" "payload \<noteq> 0" "transmissions q = 0" "pkt_payload q < ps"
  shows "wlp (write_step ps f payload iov (s, ctx)) (\<lambda>(rest, iov', c'). \<exists>m. unat rest = unat payload - m \<and> concat iov' = drop m (concat iov) \<and>
     step_grown f k M G N payload (concat iov) (s, ctx) m c')"
proof -
  define added where "added = min (payload + pkt_payload q) (max ps (pkt_payload q)) - pkt_payload q"
  obtain S where S: "wire_with k M G N S (s, ctx)" using w by (auto simp: wire_def)
  note lp = last_packet [OF S q(1,2)]
  have MN: "M \<le> N - 1" using lp(3) q(4) by simp
  have bq: "pkt_body q = snd (G (N - 1))" "pkt_payload q = of_nat (length (pkt_body q))" using lp(2) by (simp_all add: packet_of_def)
  have st: "stream G M N = stream G M (N - 1) @ pkt_body q" using stream_Suc [OF MN, of G] lp(1) bq(1) by simp
  have "unat (pkt_payload q) = length (pkt_body q)" using len st unfolding bq(2) by (intro unat_of_nat_small) simp
  then have ad: "unat added = min (unat payload) (unat ps - unat (pkt_payload q))" unfolding added_def using len st by (intro fill_added q(5)) simp_all
  then have le: "unat added \<le> unat payload" by simp
  have "0 < unat added" using ad q(3,5) by (simp add: word_less_nat_alt unat_gt_0)
  then have f0: "added \<noteq> 0" by (simp add: unat_gt_0)
  have sub: "unat (payload - added) = unat payload - unat added" using le by (intro unat_sub) (simp add: word_le_nat_alt)
  have pick: "pick_packet ps payload s = cassert (\<not> need_resend q) \<bind> (\<lambda>_. Some (False, added, q))"
    using q by (simp add: pick_packet_def added_def word_less_nat_alt)
  show ?thesis
    unfolding write_step_def fst_conv pick prod.case
  proof (unfold wlp_bind wlp_cassert wlp_Some prod.case, intro impI, rule wlp_mono [OF wlp_fill_packet], clarify)
    fix p :: OutgoingPacket and iov'
    assume f: "f = ST_DATA \<or> f = ST_FIN" and fd: "added \<noteq> 0 \<longrightarrow> f = ST_DATA" and al: "unat added \<le> length (concat iov)"
      and io: "concat iov' = drop (unat added) (concat iov)" and body: "pkt_body p = pkt_body q @ take (unat added) (concat iov)"
      and pl: "pkt_payload p = pkt_payload q + added" and rest: "pkt_length p = get_header_size + pkt_payload p" "transmissions p = transmissions q"
      and h: "pkt_header p = pkt_header q"
    have lb: "length (pkt_body p) = length (pkt_body q) + unat added" using body al by simp
    have pp: "pkt_payload p = of_nat (length (pkt_body p))" unfolding lb pl bq(2) by simp
    have "wlp (put_packet False f p (s, ctx)) (\<lambda>c'. queued (s, ctx) c' \<and> wire k M (G(N - 1 := (f, pkt_body p))) N c')"
      using rest q(4) h len st lb le by (intro wlp_put_fill [OF w q(1) f q(2,4) _ pp]) simp_all
    moreover have "step_grown f k M G N payload (concat iov) (s, ctx) (unat added) c'"
      if "queued (s, ctx) c'" "wire k M (G(N - 1 := (f, pkt_body p))) N c'" for c'
      unfolding step_grown_def using that fd f0 le al q(3) grown_fill [OF MN lp(1), of _ f "take (unat added) (concat iov)" G] body bq(1)
      by (intro conjI exI [of _ "G(N - 1 := (f, pkt_body p))"] exI [of _ N]) auto
    ultimately show "wlp (put_packet False f p (s, ctx) \<bind> (\<lambda>c'. Some (payload - added, iov', c'))) (\<lambda>(rest, iov', c').
       \<exists>m. unat rest = unat payload - m \<and> concat iov' = drop m (concat iov) \<and> step_grown f k M G N payload (concat iov) (s, ctx) m c')"
      using io sub by (auto elim!: wlp_bindI intro!: exI [of _ "unat added"])
  qed
qed

lemma wlp_write_step:
  assumes w: "wire k M G N (s, ctx)" and len: "length (stream G M N) + unat payload < 2 ^ 32"
  shows "wlp (write_step ps f payload iov (s, ctx)) (\<lambda>(rest, iov', c'). \<exists>m. unat rest = unat payload - m \<and> concat iov' = drop m (concat iov) \<and>
     step_grown f k M G N payload (concat iov) (s, ctx) m c')"
proof (cases "\<exists>q. 0 < unat (cur_window_packets s) \<and> cb_get (outbuf s) (ucast (seq_nr s) - 1) = Some q \<and> payload \<noteq> 0 \<and> transmissions q = 0 \<and> pkt_payload q < ps")
  case True
  then show ?thesis using write_step_fill_wire [OF w len] by blast
next
  case False
  then have "pick_packet ps payload s = Some (True, payload, new_packet)"
    by (auto simp: pick_packet_def Let_def word_less_nat_alt split: option.split)
  from write_step_append_wire [OF w len this, of f iov] show ?thesis by (rule wlp_mono) auto
qed

text \<open>The loop takes all the bytes.\<close>

lemma step_grown_trans:
  assumes a: "step_grown f k M G N payload b c m c1" and w: "wire k M G1 N1 c1" "grown 0 f (take m b) M G N G1 N1" and nz: "rest \<noteq> 0"
    and r: "step_grown f k M G1 N1 rest (drop m b) c1 (unat rest) c2" and m: "unat rest = unat payload - m" and ne: "payload \<noteq> 0"
  shows "step_grown f k M G N payload b c (unat payload) c2"
proof -
  have le: "m \<le> unat payload" "m \<le> length b" "unat rest \<le> length b - m" using a r by (simp_all add: step_grown_def)
  have "take (unat payload) b = take m b @ take (unat rest) (drop m b)" using m le(1) by (metis le_add_diff_inverse take_add)
  moreover obtain G2 N2 where "wire k M G2 N2 c2" "grown 0 f (take (unat rest) (drop m b)) M G1 N1 G2 N2" using r nz by (auto simp: step_grown_def)
  ultimately have "wire k M G2 N2 c2" "grown 0 f (take (unat payload) b) M G N G2 N2" using grown_trans [OF w(2)] by fastforce+
  moreover have "queued c c1" "queued c1 c2" using a r by (simp_all add: step_grown_def)
  moreover from this have "queued c c2" by (rule queued_trans)
  moreover have "unat payload \<le> length b" using le m by linarith
  moreover have "f = ST_DATA" using a ne by (simp add: step_grown_def)
  ultimately show ?thesis unfolding step_grown_def using ne by auto
qed

lemma wlp_write_loop:
  assumes "wire k M G N c" and "length (stream G M N) + unat payload < 2 ^ 32"
  shows "wlp (write_loop ps f payload iov c) (\<lambda>(iov', c'). concat iov' = drop (unat payload) (concat iov) \<and>
     step_grown f k M G N payload (concat iov) c (unat payload) c')"
proof -
  let ?Q = "\<lambda>ps f payload iov c x. \<forall>G N. wire k M G N c \<longrightarrow> length (stream G M N) + unat payload < 2 ^ 32 \<longrightarrow>
    (case x of (iov', c') \<Rightarrow> concat iov' = drop (unat payload) (concat iov) \<and> step_grown f k M G N payload (concat iov) c (unat payload) c')"
  have "?Q ps f payload iov c x" if r: "write_loop ps f payload iov c = Some x" for x
  proof (rule write_loop.raw_induct [where P = ?Q, OF _ r], intro allI impI, goal_cases)
    case (1 loop ps f payload iov c x G N)
    have IH: "wlp (loop ps f rest iov' c') (\<lambda>(iov'', c''). concat iov'' = drop (unat rest) (concat iov') \<and> step_grown f k M G N rest (concat iov') c' (unat rest) c'')"
      if "wire k M G N c'" "length (stream G M N) + unat rest < 2 ^ 32" for rest :: size_t and iov' c' G N
      unfolding wlp_def using 1(1) that by blast
    obtain s ctx where c: "c = (s, ctx)" by (cases c)
    show ?case
    proof (rule wlpD [OF _ 1(2)], unfold c, rule wlp_bindI [OF wlp_write_step [OF 1(3) [unfolded c] 1(4)]], clarify)
      fix rest :: size_t and iov' s' ctx' m
      assume m: "unat rest = unat payload - m" and io: "concat iov' = drop m (concat iov)" and g: "step_grown f k M G N payload (concat iov) (s, ctx) m (s', ctx')"
      have le: "m \<le> unat payload" "m \<le> length (concat iov)" using g by (simp_all add: step_grown_def)
      obtain G1 N1 where w1: "wire k M G1 N1 (s', ctx')" "grown (if payload = 0 then 1 else 0) f (take m (concat iov)) M G N G1 N1" using g by (auto simp: step_grown_def)
      have ln: "length (stream G1 M N1) + unat rest < 2 ^ 32" using w1(2) 1(4) m le by (simp add: grown_def)
      show "wlp (if rest \<noteq> 0 then loop ps f rest iov' (s', ctx') else Some (iov', s', ctx')) (\<lambda>(iov', c').
          concat iov' = drop (unat payload) (concat iov) \<and> step_grown f k M G N payload (concat iov) (s, ctx) (unat payload) c')"
      proof (rule wlp_ifI)
        assume "rest \<noteq> 0"
        then have nz: "payload \<noteq> 0" "rest \<noteq> 0" using m by (auto simp: unat_eq_0 [symmetric])
        then have g1: "grown 0 f (take m (concat iov)) M G N G1 N1" using w1(2) by simp
        show "wlp (loop ps f rest iov' (s', ctx')) (\<lambda>(iov', c'). concat iov' = drop (unat payload) (concat iov) \<and>
            step_grown f k M G N payload (concat iov) (s, ctx) (unat payload) c')"
          using IH [OF w1(1) ln, of iov'] m le step_grown_trans [OF g w1(1) g1 nz(2), folded io, OF _ m nz(1)] by (auto simp: io elim!: wlp_mono)
      next
        assume "\<not> rest \<noteq> 0"
        then have "m = unat payload" using m le(1) by simp
        then show "wlp (Some (iov', s', ctx')) (\<lambda>(iov', c'). concat iov' = drop (unat payload) (concat iov) \<and>
            step_grown f k M G N payload (concat iov) (s, ctx) (unat payload) c')" using io g by simp
      qed
    qed
  qed
  then show ?thesis using assms by (auto simp: wlp_def)
qed

text \<open>What holds of a write in any state: it touches neither the identity nor the receiving side, and it sends only for itself.\<close>

definition kept :: "conn \<Rightarrow> conn \<Rightarrow> bool" where
  "kept = (\<lambda>(s, ctx) (s', ctx'). self s' = self s \<and> fin_sent s' = fin_sent s \<and> fin_core s' = fin_core s \<and> (cb_ok (outbuf s) \<longrightarrow> cb_ok (outbuf s')) \<and> emits (owned False (self s)) ctx ctx')"

lemma kept_refl [simp]: "kept c c"
  by (cases c) (simp add: kept_def)

lemma kept_trans [trans]: "kept a b \<Longrightarrow> kept b c \<Longrightarrow> kept a c"
  by (cases a; cases b; cases c) (auto simp: kept_def intro: emits_trans)

lemma queued_kept: "queued c c' \<Longrightarrow> kept c c'"
  by (cases c; cases c') (auto simp: queued_def kept_def elim: emits_mono harmless_owned)

lemma wired_kept: "wired False c c' \<Longrightarrow> kept c c'"
  by (cases c; cases c') (simp add: wired_def kept_def fin_core_def)

lemma kept_sent: "kept (s, ctx) (s', ctx') \<Longrightarrow> length (sent k (self s) ctx) \<le> length (sent k (self s) ctx')"
  by (auto simp: kept_def intro: sent_mono)

lemma wlp_write_step_queued: "wlp (write_step ps f payload iov c) (\<lambda>(_, _, c'). queued c c')"
proof -
  obtain s ctx where c: "c = (s, ctx)" by (cases c)
  show ?thesis
    unfolding write_step_def c
    by (auto simp: wlp_def bind_eq_Some_conv dest: wlpD [OF wlp_put_packet])
qed

lemma wlp_write_loop_queued: "wlp (write_loop ps f payload iov c) (\<lambda>(_, c'). queued c c')"
proof -
  have "case x of (_, c') \<Rightarrow> queued c c'" if r: "write_loop ps f payload iov c = Some x" for x
  proof (rule write_loop.raw_induct [where P = "\<lambda>ps f payload iov c x. case x of (_, c') \<Rightarrow> queued c c'", OF _ r], goal_cases)
    case (1 loop ps f payload iov c x)
    show ?case
    proof (rule wlpD [OF _ 1(2)], rule wlp_bindI [OF wlp_write_step_queued], clarify)
      fix rest :: size_t and iov' s' ctx' assume q: "queued c (s', ctx')"
      have "wlp (loop ps f rest iov' (s', ctx')) (\<lambda>(_, c'). queued (s', ctx') c')" unfolding wlp_def using 1(1) by blast
      then have "wlp (loop ps f rest iov' (s', ctx')) (\<lambda>(_, c'). queued c c')" by (rule wlp_mono) (auto intro: queued_trans [OF q])
      then show "wlp (if rest \<noteq> 0 then loop ps f rest iov' (s', ctx') else Some (iov', s', ctx')) (\<lambda>(_, c'). queued c c')" using q by simp
    qed
  qed
  then show ?thesis by (simp add: wlp_def)
qed

subsection \<open>\<^verbatim>\<open>write_outgoing_packet\<close>\<close>

lemma write_outgoing_packet_def':
  "write_outgoing_packet payload f iov (s, ctx) = cassert (cur_window_packets s = 0 \<longrightarrow> cur_window s = 0) \<bind> (\<lambda>_.
     write_loop (get_packet_size s) f payload iov (arm_timer (current_ms ctx) s, ctx) \<bind> (\<lambda>(iov', c). flush_packets c \<bind> (\<lambda>(_, c'). Some (iov', c'))))"
  unfolding arm_timer_keeps(8) [of "current_ms ctx" s, symmetric]
  by (auto simp: write_outgoing_packet_def arm_timer_def Let_def cassert_def)

lemma arm_timer_still: "still s (arm_timer now s)"
  by (simp add: arm_timer_def still_def cores)

lemma wlp_write_outgoing_kept: "wlp (write_outgoing_packet payload f iov c) (\<lambda>(_, c'). kept c c')"
proof -
  obtain s ctx where c: "c = (s, ctx)" by (cases c)
  let ?c = "(arm_timer (current_ms ctx) s, ctx)"
  have k: "kept (s, ctx) ?c" by (rule wired_kept [OF wired_still [OF arm_timer_still]])
  show ?thesis
    unfolding c write_outgoing_packet_def'
  proof (rule wlp_bindI [OF wlp_True], rule wlp_bindI [OF wlp_write_loop_queued], clarify, rule wlp_bindI [OF wlp_flush_packets [where rd = False]], clarify)
    fix s1 ctx1 s2 ctx2 and iov' :: "byte list list"
    assume "queued ?c (s1, ctx1)" "wired False (s1, ctx1) (s2, ctx2)"
    then have "kept (s, ctx) (s2, ctx2)" by (intro kept_trans [OF k] kept_trans [OF queued_kept wired_kept])
    then show "wlp (Some (iov', s2, ctx2)) (\<lambda>(_, c'). kept (s, ctx) c')" by simp
  qed
qed

lemma wlp_write_outgoing_packet:
  assumes w: "wire k M G N (s, ctx)" and len: "length (stream G M N) + unat payload < 2 ^ 32"
  shows "wlp (write_outgoing_packet payload f iov (s, ctx)) (\<lambda>(iov', s', ctx'). concat iov' = drop (unat payload) (concat iov) \<and> unat payload \<le> length (concat iov) \<and>
     (length (sent k (self s) ctx') < 2 ^ 31 \<longrightarrow> (\<exists>G' N'. wire k M G' N' (s', ctx') \<and> grown (if payload = 0 then 1 else 0) f (take (unat payload) (concat iov)) M G N G' N' \<and>
        (payload = 0 \<longrightarrow> G' = G(N := (f, [])) \<and> N' = Suc N))))"
proof -
  let ?s = "arm_timer (current_ms ctx) s"
  have w1: "wire k M G N (?s, ctx)" using w idle_wire [of ?s s False ctx ctx] arm_timer_still [of s] unfolding wire_def still_def by blast
  show ?thesis
    unfolding write_outgoing_packet_def'
  proof (rule wlp_bindI [OF wlp_True], rule wlp_bindI [OF wlp_write_loop [OF w1 len]], clarify, rule wlp_bindI [OF wlp_flush_packets [where rd = False]], clarify)
    fix iov' :: "byte list list" and s1 ctx1 s2 ctx2
    assume io: "concat iov' = drop (unat payload) (concat iov)" and g: "step_grown f k M G N payload (concat iov) (?s, ctx) (unat payload) (s1, ctx1)"
      and fl: "wired False (s1, ctx1) (s2, ctx2)"
    obtain G' N' where G': "wire k M G' N' (s1, ctx1)" "grown (if payload = 0 then 1 else 0) f (take (unat payload) (concat iov)) M G N G' N'"
      "payload = 0 \<longrightarrow> G' = G(N := (f, [])) \<and> N' = Suc N" and le: "unat payload \<le> length (concat iov)" and i: "self s1 = self s"
      using g arm_timer_still [of s "current_ms ctx"] by (auto simp: step_grown_def queued_def still_def cores)
    have "wire k M G' N' (s2, ctx2)" if "length (sent k (self s) ctx2) < 2 ^ 31" using that i by (intro wiredD [OF fl G'(1)]) simp
    then show "wlp (Some (iov', s2, ctx2)) (\<lambda>(iov', s', ctx'). concat iov' = drop (unat payload) (concat iov) \<and> unat payload \<le> length (concat iov) \<and>
     (length (sent k (self s) ctx') < 2 ^ 31 \<longrightarrow> (\<exists>G' N'. wire k M G' N' (s', ctx') \<and> grown (if payload = 0 then 1 else 0) f (take (unat payload) (concat iov)) M G N G' N' \<and>
        (payload = 0 \<longrightarrow> G' = G(N := (f, [])) \<and> N' = Suc N))))"
      using io le G'(2,3) unfolding wlp_Some prod.case by blast
  qed
qed

subsection \<open>\<^verbatim>\<open>utp_writev\<close>\<close>

lemma writev_finish_still:
  obtains s' where "writev_finish n (s, ctx) = (n, s', ctx)" "still s s'"
proof -
  obtain f s1 ctx1 where f: "is_full (- 1) (s, ctx) = (f, s1, ctx1)" by (cases "is_full (- 1) (s, ctx)")
  then show thesis using is_full_still [OF f] that [of "if f then s1\<lparr>state := CS_CONNECTED_FULL\<rparr> else s1"]
    by (auto simp: writev_finish_def still_def cores)
qed

text \<open>The loop returns the count of the bytes that it has queued.\<close>

lemma writev_loop_count:
  assumes "unat acc + unat bytes < 2 ^ 64" and "num \<le> bytes"
  shows "wlp (writev_loop ps bytes acc num iov c) (\<lambda>(n, c'). unat acc \<le> unat n \<and> unat n \<le> unat acc + unat bytes \<and> kept c c')"
proof -
  let ?Q = "\<lambda>ps bytes acc num iov c x. unat acc + unat bytes < 2 ^ 64 \<longrightarrow> num \<le> bytes \<longrightarrow>
    (case x of (n, c') \<Rightarrow> unat acc \<le> unat n \<and> unat n \<le> unat acc + unat bytes \<and> kept c c')"
  have "?Q ps bytes acc num iov c x" if r: "writev_loop ps bytes acc num iov c = Some x" for x
  proof (rule writev_loop.raw_induct [where P = ?Q, OF _ r], intro impI, goal_cases)
    case (1 loop ps bytes acc num iov c x)
    obtain s ctx f s1 ctx1 where c: "c = (s, ctx)" and f: "is_full (as_int num) c = (f, s1, ctx1)" by (cases c; cases "is_full (as_int num) c")
    have st: "still s s1" "ctx1 = ctx" using is_full_still [OF f [unfolded c]] by simp_all
    then have k1: "kept c (s1, ctx1)" unfolding c st(2) by (intro wired_kept wired_still)
    obtain s2 where fin: "writev_finish acc (s1, ctx1) = (acc, s2, ctx1)" "still s1 s2" by (rule writev_finish_still)
    have k2: "kept c (s2, ctx1)" by (rule kept_trans [OF k1 wired_kept [OF wired_still [OF fin(2)]]])
    have sum: "unat (bytes - num) = unat bytes - unat num" "unat (acc + num) = unat acc + unat num" "unat num \<le> unat bytes"
      using 1(3,4) by (simp_all add: unat_sub unat_word_ariths word_le_nat_alt)
    then have side: "unat (acc + num) + unat (bytes - num) < 2 ^ 64" "min (bytes - num) ps \<le> bytes - num" using 1(3) by simp_all
    show ?case
    proof (rule wlpD [OF _ 1(2)], unfold f Let_def prod.case fin, rule wlp_ifI)
      show "wlp (write_outgoing_packet num ST_DATA iov (s1, ctx1) \<bind> (\<lambda>(iov', c2).
          if min (bytes - num) ps = 0 then Some (acc + num, c2) else loop ps (bytes - num) (acc + num) (min (bytes - num) ps) iov' c2))
          (\<lambda>(n, c'). unat acc \<le> unat n \<and> unat n \<le> unat acc + unat bytes \<and> kept c c')"
      proof (rule wlp_bindI [OF wlp_write_outgoing_kept], clarify)
        fix iov' s3 ctx3 assume "kept (s1, ctx1) (s3, ctx3)"
        then have k3: "kept c (s3, ctx3)" by (rule kept_trans [OF k1])
        have "wlp (loop ps (bytes - num) (acc + num) (min (bytes - num) ps) iov' (s3, ctx3)) (\<lambda>(n, c'). unat (acc + num) \<le> unat n \<and>
            unat n \<le> unat (acc + num) + unat (bytes - num) \<and> kept (s3, ctx3) c')"
          unfolding wlp_def using 1(1) side by blast
        then have "wlp (loop ps (bytes - num) (acc + num) (min (bytes - num) ps) iov' (s3, ctx3)) (\<lambda>(n, c'). unat acc \<le> unat n \<and>
            unat n \<le> unat acc + unat bytes \<and> kept c c')" by (rule wlp_mono) (use sum in \<open>auto intro: kept_trans [OF k3]\<close>)
        then show "wlp (if min (bytes - num) ps = 0 then Some (acc + num, s3, ctx3) else loop ps (bytes - num) (acc + num) (min (bytes - num) ps) iov' (s3, ctx3))
          (\<lambda>(n, c'). unat acc \<le> unat n \<and> unat n \<le> unat acc + unat bytes \<and> kept c c')" using k3 sum by simp
      qed
    qed (use k2 in simp)
  qed
  then show ?thesis using assms by (auto simp: wlp_def)
qed

lemma wlp_writev_loop:
  assumes "wire k M G N (s, ctx)" and "unat acc + unat bytes < 2 ^ 64" and "num = min bytes ps" and "unat bytes \<le> length (concat iov)"
    and "writev_loop ps bytes acc num iov (s, ctx) = Some (n, s', ctx')"
    and "length (stream G M N) + (unat n - unat acc) < 2 ^ 32" and "length (sent k (self s) ctx') < 2 ^ 31"
  shows "\<exists>G' N'. wire k M G' N' (s', ctx') \<and> grown 1 ST_DATA (take (unat n - unat acc) (concat iov)) M G N G' N'"
  using assms
proof (induction "unat bytes" arbitrary: bytes acc num iov s ctx G N rule: less_induct)
  case less
  note w = less.prems(1) and few = less.prems(7)
  let ?bytes = "bytes - num" and ?acc = "acc + num"
  obtain f s1 ctx1 where f: "is_full (as_int num) (s, ctx) = (f, s1, ctx1)" by (cases "is_full (as_int num) (s, ctx)")
  have st: "still s s1" "ctx1 = ctx" using is_full_still [OF f] by simp_all
  have w1: "wire k M G N (s1, ctx)" using w idle_wire [of s1 s False ctx ctx] st unfolding wire_def still_def by blast
  have i1: "self s1 = self s" using st by (simp add: still_def cores)
  note r = less.prems(5) [unfolded writev_loop.simps [of ps bytes] f Let_def prod.case st(2)]
  show ?case
  proof (cases f)
    case True
    obtain s2 where fin: "writev_finish acc (s1, ctx) = (acc, s2, ctx)" "still s1 s2" by (rule writev_finish_still)
    then have "n = acc" "s' = s2" "ctx' = ctx" using r True by simp_all
    moreover have "wire k M G N (s2, ctx)" using w1 idle_wire [of s2 s1 False ctx ctx] fin(2) unfolding wire_def still_def by blast
    ultimately show ?thesis by (auto intro!: exI [of _ G] exI [of _ N])
  next
    case False
    then obtain iov' s3 ctx3 where wo: "write_outgoing_packet num ST_DATA iov (s1, ctx) = Some (iov', s3, ctx3)"
      and x: "(if min ?bytes ps = 0 then Some (?acc, s3, ctx3) else writev_loop ps ?bytes ?acc (min ?bytes ps) iov' (s3, ctx3)) = Some (n, s', ctx')"
      using r by (auto simp: bind_eq_Some_conv)
    have nb: "num \<le> bytes" using less.prems(3) by simp
    have sum: "unat ?bytes = unat bytes - unat num" "unat ?acc = unat acc + unat num" "unat num \<le> unat bytes"
      using less.prems(2) nb by (simp_all add: unat_sub unat_word_ariths word_le_nat_alt)
    then have side: "unat ?acc + unat ?bytes < 2 ^ 64" "min ?bytes ps \<le> ?bytes" using less.prems(2) by simp_all
    have k3: "kept (s1, ctx) (s3, ctx3)" using wlpD [OF wlp_write_outgoing_kept wo] by simp
    have i3: "self s3 = self s" using k3 i1 by (simp add: kept_def)
    have rest: "unat ?acc \<le> unat n \<and> kept (s3, ctx3) (s', ctx')"
    proof (cases "min ?bytes ps = 0")
      case False
      then have l: "writev_loop ps ?bytes ?acc (min ?bytes ps) iov' (s3, ctx3) = Some (n, s', ctx')" using x by simp
      show ?thesis using wlpD [OF writev_loop_count [OF side] l] by simp
    qed (use x in auto)
    then have len1: "length (stream G M N) + unat num < 2 ^ 32" using less.prems(6) sum(2) by linarith
    have few3: "length (sent k (self s1) ctx3) < 2 ^ 31" using kept_sent [of s3 ctx3 s' ctx' k] rest few i1 i3 by simp
    obtain G1 N1 where w3: "wire k M G1 N1 (s3, ctx3)" and g1: "grown (if num = 0 then 1 else 0) ST_DATA (take (unat num) (concat iov)) M G N G1 N1"
      and io: "concat iov' = drop (unat num) (concat iov)" using wlpD [OF wlp_write_outgoing_packet [OF w1 len1] wo] few3 by auto
    show ?thesis
    proof (cases "min ?bytes ps = 0")
      case True
      then have "n = ?acc" "s' = s3" "ctx' = ctx3" using x by simp_all
      moreover have "grown 1 ST_DATA (take (unat num) (concat iov)) M G N G1 N1" by (rule grown_mono [OF g1]) simp
      ultimately show ?thesis using w3 sum by auto
    next
      case False
      then have x': "writev_loop ps ?bytes ?acc (min ?bytes ps) iov' (s3, ctx3) = Some (n, s', ctx')" using x by simp
      have nz: "num \<noteq> 0" using False less.prems(3) by (auto simp: min_def split: if_splits)
      then have "0 < unat num" by (simp only: unat_gt_0 not_False_eq_True)
      then have dec: "unat ?bytes < unat bytes" using sum(1,3) by linarith
      have ls: "length (stream G1 M N1) = length (stream G M N) + unat num" using g1 less.prems(4) sum by (simp add: grown_def)
      have "\<exists>G2 N2. wire k M G2 N2 (s', ctx') \<and> grown 1 ST_DATA (take (unat n - unat ?acc) (concat iov')) M G1 N1 G2 N2"
        using less.prems(2,4,6) sum rest ls few i3 by (intro less.hyps [OF dec w3 _ refl _ x']) (simp_all add: io)
      then obtain G2 N2 where w2: "wire k M G2 N2 (s', ctx')" and g2: "grown 1 ST_DATA (take (unat n - unat ?acc) (concat iov')) M G1 N1 G2 N2" by blast
      have tk: "take (unat n - unat acc) (concat iov) = take (unat num) (concat iov) @ take (unat n - unat ?acc) (concat iov')"
        using rest sum by (simp add: io take_add [symmetric])
      have "grown 1 ST_DATA (take (unat n - unat acc) (concat iov)) M G N G2 N2" unfolding tk using grown_trans [OF g1 g2] nz by simp
      then show ?thesis using w2 by blast
    qed
  qed
qed

lemma iov_bytes_of_nat: "sum_list (map (\<lambda>v. of_nat (length v)) iov) = (of_nat (length (concat iov)) :: size_t)"
  by (induction iov) simp_all

text \<open>The bytes that a write accepts are added to the stream, as data.\<close>

lemma wlp_utp_writev:
  assumes r: "utp_writev iov (s, ctx) = Some (n, s', ctx')" and b: "length (concat (take UTP_IOV_MAX iov)) < 2 ^ 64"
  shows "kept (s, ctx) (s', ctx')" "unat n \<le> length (concat (take UTP_IOV_MAX iov))" "fin_sent s \<Longrightarrow> n = 0 \<and> (s', ctx') = (s, ctx)"
    "wire k M G N (s, ctx) \<Longrightarrow> length (stream G M N) + unat n < 2 ^ 32 \<Longrightarrow> length (sent k (self s) ctx') < 2 ^ 31 \<Longrightarrow>
       \<exists>G' N'. wire k M G' N' (s', ctx') \<and> grown 1 ST_DATA (take (unat n) (concat (take UTP_IOV_MAX iov))) M G N G' N'"
proof -
  let ?iov = "take UTP_IOV_MAX iov" and ?ps = "get_packet_size s"
  let ?bytes = "of_nat (length (concat ?iov)) :: size_t"
  obtain ms ctx1 where ms: "utp_call_get_milliseconds ctx (Some (self s)) = (ms, ctx1)" by fastforce
  consider (none) "n = 0" "(s', ctx') = (s, ctx)"
    | (loop) "\<not> fin_sent s" "writev_loop ?ps ?bytes 0 (min ?bytes ?ps) ?iov (s, ctx1\<lparr>current_ms := ms\<rparr>) = Some (n, s', ctx')"
    using r by (auto simp: utp_writev_def iov_bytes_of_nat ms Let_def bind_eq_Some_conv split: if_splits)
  note cases = this
  have ub: "unat ?bytes = length (concat ?iov)" using b by (simp add: unat_of_nat)
  have i: "idle False (s, ctx) (s, ctx1\<lparr>current_ms := ms\<rparr>)" using idle_clock(2) [OF ms idle_refl] by simp
  have side: "unat (0 :: size_t) + unat ?bytes < 2 ^ 64" "min ?bytes ?ps \<le> ?bytes" using b ub by simp_all
  have count: "unat n \<le> unat ?bytes" "kept (s, ctx) (s', ctx')"
    if l: "writev_loop ?ps ?bytes 0 (min ?bytes ?ps) ?iov (s, ctx1\<lparr>current_ms := ms\<rparr>) = Some (n, s', ctx')"
    using wlpD [OF writev_loop_count [OF side] l] kept_trans [OF wired_kept [OF wired_idle [OF i]]] by simp_all
  show "kept (s, ctx) (s', ctx')"
    using cases by cases (use count in auto)
  show "unat n \<le> length (concat ?iov)" using cases by cases (use count ub in auto)
  show "fin_sent s \<Longrightarrow> n = 0 \<and> (s', ctx') = (s, ctx)" using cases by cases auto
  show "\<exists>G' N'. wire k M G' N' (s', ctx') \<and> grown 1 ST_DATA (take (unat n) (concat ?iov)) M G N G' N'"
    if w: "wire k M G N (s, ctx)" and len: "length (stream G M N) + unat n < 2 ^ 32" and few: "length (sent k (self s) ctx') < 2 ^ 31"
    using cases
  proof cases
    case none
    then show ?thesis using w by (auto intro!: exI [of _ G] exI [of _ N])
  next
    case loop
    have w1: "wire k M G N (s, ctx1\<lparr>current_ms := ms\<rparr>)" using w idle_wire [of s s False ctx] i unfolding wire_def idle_def prod.case by blast
    show ?thesis using wlp_writev_loop [OF w1 side(1) refl _ loop(2)] ub len few by simp
  qed
qed

end
