(* ===== verification/Utp_Session.thy ===== *)
theory Utp_Session
  imports Utp_Wire_Write
begin

section \<open>A session of the sender\<close>

text \<open>
  Whatever happens to a socket from the moment it is opened, the bytes that its writes have accepted are cut
  into numbered packets, the last one a FIN once the stream has been shut down, and every
  datagram that it has sent is an ack, a SYN or one of these packets.
\<close>

subsection \<open>Closing the stream\<close>

lemma wlp_send_fin_kept: "wlp (send_fin (s, ctx)) (\<lambda>(s', ctx'). self s' = self s \<and> fin_sent s' \<and> (cb_ok (outbuf s) \<longrightarrow> cb_ok (outbuf s')) \<and>
     emits (owned False (self s)) ctx ctx')"
  unfolding send_fin_def prod.case
  by (rule wlp_bindI [OF wlp_write_outgoing_kept]) (auto simp: kept_def)

lemma wlp_send_fin:
  assumes w: "wire k M G N (s, ctx)"
  shows "wlp (send_fin (s, ctx)) (\<lambda>(s', ctx'). length (sent k (self s) ctx') < 2 ^ 31 \<longrightarrow> wire k M (G(N := (ST_FIN, []))) (Suc N) (s', ctx'))"
proof -
  let ?s = "s\<lparr>fin_sent := True\<rparr>"
  have w1: "wire k M G N (?s, ctx)" using w by (simp add: wire_def wire_with_def slot_ok_def)
  have len: "length (stream G M N) + unat (0 :: size_t) < 2 ^ 32" using w by (auto simp: wire_def wire_with_def)
  show ?thesis
    unfolding send_fin_def prod.case
    by (rule wlp_bindI [OF wlp_write_outgoing_packet [OF w1 len]]) auto
qed

subsection \<open>What the socket has sent\<close>

text \<open>
  The packets below \<open>M\<close> are the SYN, those from \<open>M\<close> on data, in which the bytes \<open>w\<close> are cut up, and the
  FIN if it has been sent. At most \<open>e\<close> of them are empty.
\<close>

definition typed :: "bool \<Rightarrow> nat \<Rightarrow> nat \<Rightarrow> ghost \<Rightarrow> bool" where
  "typed fin M N G \<longleftrightarrow> (\<forall>n < N. fst (G n) = (if n < M then ST_SYN else if fin \<and> Suc n = N then ST_FIN else ST_DATA)) \<and>
     (fin \<longrightarrow> M < N \<and> snd (G (N - 1)) = [])"

definition tx_inv :: "nat \<Rightarrow> nat \<Rightarrow> nat \<Rightarrow> byte list \<Rightarrow> conn \<Rightarrow> bool" where
  "tx_inv k M e w c \<longleftrightarrow> (\<exists>G N. wire k M G N c \<and> N \<le> M + length w + e \<and> stream G M N = w \<and> typed (fin_sent (fst c)) M N G)"

text \<open>A step that adds the bytes \<open>b\<close> and at most \<open>e\<close> empty packets. The context keeps its callbacks and forgets no call.\<close>

definition advances :: "nat \<Rightarrow> byte list \<Rightarrow> conn \<Rightarrow> conn \<Rightarrow> bool" where
  "advances e b = (\<lambda>(s, ctx) (s', ctx'). self s' = self s \<and> (cb_ok (outbuf s) \<longrightarrow> cb_ok (outbuf s')) \<and> emits (\<lambda>_. True) ctx ctx' \<and>
     (\<forall>k M d w. tx_inv k M d w (s, ctx) \<longrightarrow> length (w @ b) < 2 ^ 32 \<longrightarrow> length (sent k (self s) ctx') < 2 ^ 31 \<longrightarrow> tx_inv k M (d + e) (w @ b) (s', ctx')))"

lemma advances_wired:
  assumes "wired rd c c'"
  shows "advances 0 [] c c'"
proof -
  obtain s ctx s' ctx' where e: "c = (s, ctx)" "c' = (s', ctx')" by (cases c; cases c')
  have w: "self s' = self s" "fin_sent s' = fin_sent s" "cb_ok (outbuf s) \<longrightarrow> cb_ok (outbuf s')" "emits (owned rd (self s)) ctx ctx'"
    using assms by (simp_all add: e wired_def)
  have "tx_inv k M d b (s', ctx')" if t: "tx_inv k M d b (s, ctx)" and few: "length (sent k (self s) ctx') < 2 ^ 31" for k M d b
  proof -
    obtain G N where G: "wire k M G N (s, ctx)" "N \<le> M + length b + d" "stream G M N = b" "typed (fin_sent s) M N G" using t by (auto simp: tx_inv_def)
    show ?thesis unfolding tx_inv_def fst_conv w(2) using wiredD [OF assms [unfolded e] G(1) few] G(2-4) by blast
  qed
  then show ?thesis using w(1,3) emits_mono [OF w(4)] by (simp add: e advances_def)
qed

lemma advances_tx_core:
  assumes "tx_core s' = tx_core s"
  shows "advances 0 [] (s, ctx) (s', ctx)"
proof -
  have "wired True (s, ctx) (s', ctx)" using assms by (intro wired_idle) (simp add: idle_def)
  then show ?thesis by (rule advances_wired)
qed

lemma advances_trans: "advances 0 [] a b \<Longrightarrow> advances e x b c \<Longrightarrow> advances e x a c"
proof -
  assume ab: "advances 0 [] a b" and bc: "advances e x b c"
  obtain s ctx s1 ctx1 s2 ctx2 where eq: "a = (s, ctx)" "b = (s1, ctx1)" "c = (s2, ctx2)" by (cases a; cases b; cases c)
  have i: "self s1 = self s" and m: "emits (\<lambda>_. True) ctx1 ctx2" using ab bc by (auto simp: advances_def eq)
  have "length (sent k (self s) ctx1) < 2 ^ 31" if "length (sent k (self s) ctx2) < 2 ^ 31" for k
    using sent_mono [OF m, of k "self s"] that by simp
  then show ?thesis using ab bc by (fastforce simp: advances_def eq i intro: emits_trans)
qed

lemma typed_grown:
  assumes "typed False M N G" and "grown e ST_DATA b M G N G' N'"
  shows "typed False M N' G'"
  unfolding typed_def
proof (intro conjI allI impI)
  fix n assume "n < N'"
  then have "n < N \<and> G' n = G n \<or> M \<le> n \<and> fst (G' n) = ST_DATA" using assms(2) by (simp add: grown_def)
  then show "fst (G' n) = (if n < M then ST_SYN else if False \<and> Suc n = N' then ST_FIN else ST_DATA)" using assms(1) by (auto simp: typed_def)
qed simp_all

lemma tx_inv_mono:
  assumes "tx_inv k M d w c" and "d \<le> d'"
  shows "tx_inv k M d' w c"
proof -
  obtain G N where G: "wire k M G N c" "N \<le> M + length w + d" "stream G M N = w" "typed (fin_sent (fst c)) M N G" using assms(1) by (auto simp: tx_inv_def)
  have "N \<le> M + length w + d'" using G(2) assms(2) by simp
  then show ?thesis unfolding tx_inv_def using G(1,3,4) by blast
qed

lemma advances_mono: "advances 0 b c c' \<Longrightarrow> advances (Suc 0) b c c'"
proof -
  have m: "tx_inv k M d w x \<Longrightarrow> tx_inv k M (d + Suc 0) w x" for k M d w x by (erule tx_inv_mono) simp
  show "advances 0 b c c' \<Longrightarrow> advances (Suc 0) b c c'" unfolding advances_def split_beta add_0_right using m by blast
qed

lemma advances_writev:
  assumes r: "utp_writev iov c = Some (n, c')" and b: "length (concat (take UTP_IOV_MAX iov)) < 2 ^ 64"
  shows "advances (Suc 0) (take (unat n) (concat (take UTP_IOV_MAX iov))) c c'"
proof -
  obtain s ctx s' ctx' where e: "c = (s, ctx)" "c' = (s', ctx')" by (cases c; cases c')
  note wr = wlp_utp_writev [OF r [unfolded e] b]
  have "tx_inv k M (d + Suc 0) (w @ take (unat n) (concat (take UTP_IOV_MAX iov))) (s', ctx')"
    if t: "tx_inv k M d w (s, ctx)" and len: "length (w @ take (unat n) (concat (take UTP_IOV_MAX iov))) < 2 ^ 32" and few: "length (sent k (self s) ctx') < 2 ^ 31" for k M d w
  proof (cases "fin_sent s")
    case True
    then show ?thesis using wr(3) tx_inv_mono [OF t, of "d + Suc 0"] by simp
  next
    case False
    obtain G N where G: "wire k M G N (s, ctx)" "stream G M N = w" "typed False M N G" "N \<le> M + length w + d" using t False by (auto simp: tx_inv_def)
    have "length (stream G M N) + unat n < 2 ^ 32" using len wr(2) G(2) by simp
    from wr(4) [OF G(1) this few] obtain G' N' where G': "wire k M G' N' (s', ctx')" "grown 1 ST_DATA (take (unat n) (concat (take UTP_IOV_MAX iov))) M G N G' N'" by blast
    have "typed (fin_sent s') M N' G'" using typed_grown [OF G(3) G'(2)] wr(1) False by (simp add: kept_def)
    moreover have "N' \<le> M + length (w @ take (unat n) (concat (take UTP_IOV_MAX iov))) + (d + Suc 0)" "stream G' M N' = w @ take (unat n) (concat (take UTP_IOV_MAX iov))"
      using G'(2) G(2,4) by (simp_all add: grown_def)
    ultimately show ?thesis using G'(1) unfolding tx_inv_def fst_conv by blast
  qed
  then show ?thesis using wr(1) by (auto simp: advances_def e kept_def elim!: emits_mono)
qed

lemma advances_fin:
  assumes r: "send_fin (s, ctx) = Some (s', ctx')" and f: "\<not> fin_sent s"
  shows "advances (Suc 0) [] (s, ctx) (s', ctx')"
proof -
  have kept: "self s' = self s" "fin_sent s'" "cb_ok (outbuf s) \<longrightarrow> cb_ok (outbuf s')" "emits (owned False (self s)) ctx ctx'"
    using wlpD [OF wlp_send_fin_kept r] by simp_all
  have "tx_inv k M (d + Suc 0) w (s', ctx')" if t: "tx_inv k M d w (s, ctx)" and few: "length (sent k (self s) ctx') < 2 ^ 31" for k M d w
  proof -
    obtain G N where G: "wire k M G N (s, ctx)" "stream G M N = w" "typed False M N G" "N \<le> M + length w + d" using t f by (auto simp: tx_inv_def)
    let ?G = "G(N := (ST_FIN, []))"
    have MN: "M \<le> N" using G(1) by (auto simp: wire_def wire_with_def)
    have "wire k M ?G (Suc N) (s', ctx')" using wlpD [OF wlp_send_fin [OF G(1)] r] few by simp
    moreover have "stream ?G M (Suc N) = w" using G(2) MN by (simp add: stream_Suc stream_upd)
    moreover have "typed True M (Suc N) ?G" using G(3) MN by (auto simp: typed_def)
    moreover have "Suc N \<le> M + length w + (d + Suc 0)" using G(4) by simp
    ultimately show ?thesis using kept(2) by (auto simp: tx_inv_def)
  qed
  then show ?thesis using kept by (auto simp: advances_def elim!: emits_mono)
qed

lemma advances_short_timeout: "advances 0 [] (s, ctx) (short_timeout (s, ctx))"
proof -
  obtain ms ctx1 where ms: "utp_call_get_milliseconds ctx (Some (self s)) = (ms, ctx1)" by fastforce
  have "idle False (s, ctx) (s\<lparr>rto_timeout := ms + ucast (min (rto s * 2) 60)\<rparr>, ctx1)"
    by (rule idle_update [OF idle_clock(2) [OF ms idle_refl]]) (simp_all add: cores)
  then show ?thesis by (simp add: short_timeout_def ms Let_def advances_wired [OF wired_idle])
qed

lemma advances_close:
  assumes "utp_close c = Some c'"
  shows "advances (Suc 0) [] c c'"
proof -
  obtain s ctx where c: "c = (s, ctx)" by (cases c)
  let ?s = "s\<lparr>read_shutdown := True, close_requested := True\<rparr>"
  have s: "advances 0 [] (s, ctx) (?s, ctx)" "advances 0 [] (s, ctx) (?s\<lparr>state := CS_DESTROY\<rparr>, ctx)"
    by (rule advances_tx_core, simp add: cores)+
  have d: "advances 0 [] (s1, ctx1) (s1\<lparr>state := CS_DESTROY\<rparr>, ctx1)" for s1 ctx1 by (rule advances_tx_core) (simp add: cores)
  have f: "advances (Suc 0) [] (s, ctx) c'" if "send_fin (?s, ctx) = Some c'" "\<not> fin_sent s"
    by (cases c', simp only:) (rule advances_trans [OF s(1) advances_fin]; use that in simp)
  obtain s1 ctx1 where st: "short_timeout (s, ctx) = (s1, ctx1)" by fastforce
  have t: "advances 0 [] (s, ctx) (s1\<lparr>state := CS_DESTROY\<rparr>, ctx1)" by (rule advances_trans [OF _ d]) (use advances_short_timeout [of s ctx] st in simp)
  show ?thesis
    using assms f s [THEN advances_mono] t [THEN advances_mono] d [of s ctx, THEN advances_mono] st by (auto simp: c utp_close_def bind_eq_Some_conv Let_def split: if_splits)
qed

lemma advances_shutdown:
  assumes "utp_shutdown how c = Some c'"
  shows "advances (Suc 0) [] c c'"
proof -
  obtain s ctx where c: "c = (s, ctx)" by (cases c)
  define s1 where "s1 = (if how \<noteq> SHUT_WR then s\<lparr>read_shutdown := True\<rparr> else s)"
  have s: "advances 0 [] (s, ctx) (s1, ctx)" by (rule advances_tx_core) (simp add: cores s1_def)
  have f: "advances (Suc 0) [] (s, ctx) c'" if "send_fin (s1, ctx) = Some c'" "\<not> fin_sent s1"
    by (cases c', simp only:) (rule advances_trans [OF s advances_fin]; use that in simp)
  have t: "advances 0 [] (s, ctx) (short_timeout (s1, ctx))" by (rule advances_trans [OF s advances_short_timeout])
  show ?thesis
    using assms f s [THEN advances_mono] t [THEN advances_mono] unfolding c utp_shutdown_def prod.case s1_def [symmetric] Let_def
    by (auto simp only: bind_eq_Some_conv option.inject split: if_splits)
qed

lemma wlp_read_drained: "wlp (utp_read_drained (s, ctx)) (idle rd (s, ctx))"
  unfolding utp_read_drained_def prod.case
proof (rule wlp_bindI [OF wlp_True], rule wlp_bindI [OF wlp_get_rcv_window [OF idle_refl, where rd = rd]], clarify)
  fix w ctx1 assume i: "idle rd (s, ctx) (s, ctx1)"
  obtain ms ctx2 where ms: "utp_call_get_milliseconds ctx1 (Some (self s)) = (ms, ctx2)" by fastforce
  have "idle rd (s, ctx) (s, schedule_ack (self s) (ctx2\<lparr>current_ms := ms\<rparr>))" using idle_clock(2) [OF ms i] by simp
  then show "wlp (if last_rcv_win s < w then if last_rcv_win s = 0 then send_ack False (s, ctx1)
      else (let (ms, ctx2) = utp_call_get_milliseconds ctx1 (Some (self s)) in Some (s, schedule_ack (self s) (ctx2\<lparr>current_ms := ms\<rparr>)))
      else Some (s, ctx1)) (idle rd (s, ctx))"
    using i wlp_send_ack [OF i] by (simp add: ms Let_def)
qed

subsection \<open>Sessions\<close>

text \<open>
  What can happen to the socket: the calls of the application, whatever datagram arrives for it, its timers and
  pending acks, and an ICMP message about its path. A write yields the bytes it has accepted.
\<close>

datatype sock_event =
  Sock_Write "byte list list"
| Sock_Datagram "byte list" "byte list" bool
| Sock_Timers
| Sock_Drained
| Sock_Ack bool
| Sock_Path uint16
| Sock_Shutdown shut_how
| Sock_Close

fun happens :: "sock_event \<Rightarrow> conn \<Rightarrow> (byte list \<times> conn) option" where
  "happens (Sock_Write iov) c = map_option (\<lambda>(n, c'). (take (unat n) (concat (take UTP_IOV_MAX iov)), c')) (utp_writev iov c)"
| "happens (Sock_Datagram p slack syn) c = map_option (\<lambda>(_, c'). ([], c')) (utp_process_incoming p slack syn c)"
| "happens Sock_Timers c = map_option (Pair []) (check_timeouts c)"
| "happens Sock_Drained c = map_option (Pair []) (utp_read_drained c)"
| "happens (Sock_Ack synack) c = map_option (Pair []) (send_ack synack c)"
| "happens (Sock_Path hop) c = map_option (Pair []) (mtu_icmp hop c)"
| "happens (Sock_Shutdown how) c = map_option (Pair []) (utp_shutdown how c)"
| "happens Sock_Close c = map_option (Pair []) (utp_close c)"

text \<open>A write passes less than \<open>2 ^ 64\<close> bytes.\<close>

fun possible :: "sock_event \<Rightarrow> bool" where
  "possible (Sock_Write iov) = (length (concat (take UTP_IOV_MAX iov)) < 2 ^ 64)"
| "possible _ = True"

text \<open>Between these, other sockets of the context run, and options, timestamps or the state of the socket change.\<close>

definition elsewhere :: "conn \<Rightarrow> conn \<Rightarrow> bool" where
  "elsewhere = (\<lambda>(s, ctx) (s', ctx'). tx_core s' = tx_core s \<and> emits (\<lambda>a. datagram (self s) a = []) ctx ctx')"

inductive session :: "conn \<Rightarrow> nat \<Rightarrow> byte list \<Rightarrow> conn \<Rightarrow> bool" for c0 where
  session_start: "session c0 0 [] c0"
| session_event: "session c0 n w c \<Longrightarrow> possible e \<Longrightarrow> happens e c = Some (b, c') \<Longrightarrow> session c0 (Suc n) (w @ b) c'"
| session_elsewhere: "session c0 n w c \<Longrightarrow> elsewhere c c' \<Longrightarrow> session c0 n w c'"

lemma advances_happens:
  assumes e: "happens e c = Some (b, c')" and p: "possible e" and ok: "cb_ok (outbuf (fst c))"
  shows "advances (Suc 0) b c c'"
proof -
  obtain s ctx where c: "c = (s, ctx)" by (cases c)
  have w: "advances (Suc 0) [] (s, ctx) c1" if "wired True (s, ctx) c1" for c1 using advances_mono [OF advances_wired [OF that]] .
  show ?thesis
  proof (cases e)
    case (Sock_Write iov)
    then show ?thesis using e p by (auto intro: advances_writev)
  next
    case (Sock_Datagram q slack syn)
    then show ?thesis using e ok wlp_process_incoming [of s q slack syn ctx] by (auto simp: c wlp_def intro!: w)
  next
    case Sock_Timers
    then show ?thesis using e wlp_check_timeouts [of s ctx True] by (auto simp: c wlp_def intro!: w)
  next
    case Sock_Drained
    then show ?thesis using e wlp_read_drained [of s ctx True] by (auto simp: c wlp_def intro!: w wired_idle)
  next
    case (Sock_Ack synack)
    then show ?thesis using e wlp_send_ack [OF idle_refl, where rd = True and s = s and ctx = ctx] by (auto simp: c wlp_def intro!: w wired_idle)
  next
    case (Sock_Path hop)
    then show ?thesis using e wlp_mtu_probe(3) [OF idle_refl, where rd = True and s = s and ctx = ctx] by (auto simp: c wlp_def intro!: w wired_idle)
  next
    case (Sock_Shutdown how)
    then show ?thesis using e by (auto intro: advances_shutdown)
  next
    case Sock_Close
    then show ?thesis using e by (auto intro: advances_close)
  qed
qed

lemma advances_elsewhere:
  assumes "elsewhere c c'"
  shows "advances 0 [] c c'"
proof -
  obtain s ctx s' ctx' where e: "c = (s, ctx)" "c' = (s', ctx')" by (cases c; cases c')
  have t: "tx_core s' = tx_core s" and m: "emits (\<lambda>a. datagram (self s) a = []) ctx ctx'" using assms by (simp_all add: elsewhere_def e)
  have dg: "datagrams (self s) ctx' = datagrams (self s) ctx"
  proof -
    obtain cs where cs: "calls ctx' = calls ctx @ cs" "list_all (\<lambda>a. datagram (self s) a = []) cs" using m by (auto simp: emits_def)
    have "concat (map (datagram (self s)) cs) = []" using cs(2) by (simp add: list_all_iff)
    then show ?thesis unfolding datagrams_def cs(1) by (simp only: map_append concat_append append_Nil2)
  qed
  have cb: "callbacks ctx' = callbacks ctx" using m by (simp add: emits_def)
  have "tx_inv k M d w (s', ctx) = tx_inv k M d w (s, ctx)" for k M d w
    using t by (simp add: tx_inv_def wire_def wire_with_def slot_ok_def cores)
  moreover have "tx_inv k M d w (s', ctx') = tx_inv k M d w (s', ctx)" for k M d w
    using t by (simp add: tx_inv_def wire_def wire_with_def sent_def dg cb cores)
  ultimately show ?thesis using t emits_mono [OF m] by (simp add: e advances_def cores)
qed

lemma session_tx_inv:
  assumes "session c0 n w c" and "cb_ok (outbuf (fst c0))"
    and "length (sent k (self (fst c0)) (snd c0)) < 2 ^ 31 \<longrightarrow> tx_inv k M 0 [] c0"
  shows "self (fst c) = self (fst c0) \<and> cb_ok (outbuf (fst c)) \<and>
    (length w < 2 ^ 32 \<longrightarrow> length (sent k (self (fst c0)) (snd c)) < 2 ^ 31 \<longrightarrow> tx_inv k M n w c)"
  using assms
proof induction
  case (session_event n w c e b c')
  then have "advances (Suc 0) b c c'" by (intro advances_happens) simp_all
  then show ?case using session_event.IH [OF session_event.prems] sent_mono [of "\<lambda>_. True" "snd c" "snd c'" k "self (fst c0)"]
    by (auto simp: advances_def split_beta)
next
  case (session_elsewhere n w c c')
  have "advances 0 [] c c'" by (rule advances_elsewhere [OF session_elsewhere.hyps(2)])
  then show ?case using session_elsewhere.IH [OF session_elsewhere.prems] sent_mono [of "\<lambda>_. True" "snd c" "snd c'" k "self (fst c0)"]
    by (auto simp: advances_def split_beta)
qed simp

subsection \<open>The start of a session\<close>

text \<open>A socket that has queued nothing.\<close>

definition unused :: "conn \<Rightarrow> bool" where
  "unused = (\<lambda>(s, ctx). cb_ok (outbuf s) \<and> (\<forall>i. cb_get (outbuf s) i = None) \<and> cur_window_packets s = 0 \<and> \<not> fin_sent s \<and> callbacks ctx UTP_SENDTO \<noteq> None)"

lemma unused_wire:
  assumes "unused (s, ctx)" and "seq_nr s = of_nat M"
  shows "wire (length (datagrams (self s) ctx)) M (\<lambda>_. (ST_SYN, [])) M (s, ctx)"
  using assms by (auto simp: unused_def wire_def wire_with_def stream_def sent_def)

lemma unused_tx_inv:
  assumes "unused (s, ctx)" and "seq_nr s = of_nat M"
  shows "tx_inv (length (datagrams (self s) ctx)) M 0 [] (s, ctx)"
  unfolding tx_inv_def using assms unused_wire [OF assms]
  by (intro exI [of _ "\<lambda>_. (ST_SYN, [])"] exI [of _ M]) (auto simp: typed_def stream_def unused_def)

lemma idle_sockets [simp]: "idle rd c (s, ctx\<lparr>utp_sockets := h\<rparr>) = idle rd c (s, ctx)"
  by (cases c) (simp add: idle_def)

lemma idle_random: "utp_call_get_random ctx so = (r, ctx') \<Longrightarrow> idle rd c (s, ctx) \<Longrightarrow> idle rd c (s, ctx')"
  using idle_ctx [of rd c s ctx "Get_Random so" UTP_GET_RANDOM] by (auto simp: utp_call_defs split_beta)

lemma wlp_gen_seed: "idle rd c (s, ctx) \<Longrightarrow> wlp (gen_seed a i ctx) (\<lambda>(_, ctx'). idle rd c (s, ctx'))"
  unfolding wlp_def
proof (intro allI impI)
  fix x assume i: "idle rd c (s, ctx)" and r: "gen_seed a i ctx = Some x"
  have "idle rd c (s, ctx) \<longrightarrow> (case x of (_, ctx') \<Rightarrow> idle rd c (s, ctx'))"
  proof (rule gen_seed.raw_induct [where P = "\<lambda>a i ctx x. idle rd c (s, ctx) \<longrightarrow> (case x of (_, ctx') \<Rightarrow> idle rd c (s, ctx'))", OF _ r], rule impI, goal_cases)
    case (1 gen a i ctx x)
    obtain rn ctx1 where rn: "utp_call_get_random ctx (Some i) = (rn, ctx1)" by fastforce
    have i1: "idle rd c (s, ctx1)" by (rule idle_random [OF rn 1(3)])
    have "wlp (gen a i ctx1) (\<lambda>(_, ctx'). idle rd c (s, ctx'))" unfolding wlp_def using 1(1) i1 by blast
    then show ?case using 1(2) i1 by (auto simp: rn Let_def wlp_def bind_eq_Some_conv split: if_splits)
  qed
  then show "case x of (_, ctx') \<Rightarrow> idle rd c (s, ctx')" using i by simp
qed

lemma wlp_initialize: "wlp (utp_initialize_socket sa len gen sd rid sid (s, ctx)) (idle rd (s, ctx))"
  unfolding utp_initialize_socket_def prod.case Let_def
proof (rule wlp_bindI [OF wlp_True], rule wlp_bindI [where P = "\<lambda>(_, ctx'). idle rd (s, ctx) (s, ctx')"])
  fix a
  show "wlp (if gen then gen_seed a (self s) ctx else Some (sd, ctx)) (\<lambda>(_, ctx'). idle rd (s, ctx) (s, ctx'))"
    by (simp add: wlp_gen_seed)
  fix x :: "uint32 \<times> utp_context" assume x: "case x of (_, ctx') \<Rightarrow> idle rd (s, ctx) (s, ctx')"
  obtain seed ctx1 where xe: "x = (seed, ctx1)" by (cases x)
  obtain ms ctx2 where ms: "utp_call_get_milliseconds ctx1 None = (ms, ctx2)" by fastforce
  have "idle rd (s, ctx) (s, ctx2)" using x by (intro idle_clock(2) [OF ms]) (simp add: xe)
  then have i: "idle rd (s, ctx) (init_state a seed r1 r2 ms s, ctx2\<lparr>current_ms := ms\<rparr>)" for r1 r2
    by (simp, rule idle_update) (simp_all add: cores init_state_def)
  have "wlp (mtu_reset (init_state a seed r1 r2 ms s, ctx2\<lparr>current_ms := ms\<rparr>) \<bind> (\<lambda>(s3, ctx4).
      utp_hash_insert (utp_sockets ctx4) (sock_key (s3\<lparr>mtu_last := mtu_ceiling s3\<rparr>)) (self (s3\<lparr>mtu_last := mtu_ceiling s3\<rparr>)) \<bind>
      (\<lambda>h. Some (s3\<lparr>mtu_last := mtu_ceiling s3, max_window := get_packet_size (s3\<lparr>mtu_last := mtu_ceiling s3\<rparr>)\<rparr>, ctx4\<lparr>utp_sockets := h\<rparr>)))) (idle rd (s, ctx))" for r1 r2
  proof (rule wlp_bindI [OF wlp_mtu_reset [OF i]], clarify, rule wlp_bindI [OF wlp_True])
    fix s3 ctx4 h assume "idle rd (s, ctx) (s3, ctx4)"
    then show "wlp (Some (s3\<lparr>mtu_last := mtu_ceiling s3, max_window := get_packet_size (s3\<lparr>mtu_last := mtu_ceiling s3\<rparr>)\<rparr>, ctx4\<lparr>utp_sockets := h\<rparr>)) (idle rd (s, ctx))"
      by (simp, rule idle_update) (simp_all add: cores)
  qed
  then show "wlp (case x of (seed, ctx1) \<Rightarrow> case utp_call_get_milliseconds ctx1 None of (ms, ctx2) \<Rightarrow>
      mtu_reset (init_state a seed (if gen then rid + seed else rid) (if gen then sid + seed else sid) ms s, ctx2\<lparr>current_ms := ms\<rparr>) \<bind> (\<lambda>(s3, ctx4).
      utp_hash_insert (utp_sockets ctx4) (sock_key (s3\<lparr>mtu_last := mtu_ceiling s3\<rparr>)) (self (s3\<lparr>mtu_last := mtu_ceiling s3\<rparr>)) \<bind>
      (\<lambda>h. Some (s3\<lparr>mtu_last := mtu_ceiling s3, max_window := get_packet_size (s3\<lparr>mtu_last := mtu_ceiling s3\<rparr>)\<rparr>, ctx4\<lparr>utp_sockets := h\<rparr>)))) (idle rd (s, ctx))"
    by (simp only: xe ms prod.case)
qed

text \<open>Connecting sends the SYN at once, so no write can add to it.\<close>

lemma wlp_send_packet_count:
  assumes p: "cb_get (outbuf s) idx = Some p"
  shows "wlp (send_packet idx (s, ctx)) (\<lambda>(s', _). \<exists>q. outbuf s' = cb_put (outbuf s) idx (Some q) \<and> transmissions q = (transmissions p + 1) mod 2 ^ 31)"
proof -
  define s1 where "s1 = (if transmissions p = 0 \<or> need_resend p then s\<lparr>cur_window := cur_window s + pkt_payload p\<rparr> else s)"
  obtain cur ctx1 where c: "utp_call_get_milliseconds ctx (Some (self s)) = (cur, ctx1)" by fastforce
  obtain now ctx2 where u: "utp_call_get_microseconds ctx1 (Some (self s)) = (now, ctx2)" by fastforce
  define p1 where "p1 = p\<lparr>need_resend := False, pkt_header := (pkt_header p)\<lparr>pf_ack_nr := ack_nr s1\<rparr>, time_sent := now\<rparr>"
  have i0: "idle False (s, ctx2) (s1, ctx2)" by (rule idle_update [OF idle_refl]) (simp_all add: s1_def cores)
  then have i2: "wlp (if mtu_discover_time s1 < cur then mtu_reset (s1, ctx2) else Some (s1, ctx2)) (idle False (s, ctx2))" by (simp add: wlp_mtu_reset)
  show ?thesis
    unfolding send_packet_def prod.case p Let_def c u bind.bind_lunit s1_def [symmetric] p1_def [symmetric]
  proof (rule wlp_bindI [OF i2], clarify, rule wlp_bindI [OF wlp_mark_mtu_probe], assumption, clarify, rule wlp_bindI [OF wlp_send_data], clarify)
  qed (auto simp: idle_def cores p1_def)
qed

lemma wire_shift:
  assumes w: "wire k m G (Suc m) (s, ctx)" and e: "snd (G m) = []" and t: "\<And>i p. cb_get (outbuf s) i = Some p \<Longrightarrow> transmissions p \<noteq> 0"
  shows "wire k (Suc m) G (Suc m) (s, ctx)"
proof -
  obtain S where S: "wire_with k m G (Suc m) S (s, ctx)" using w by (auto simp: wire_def)
  have "slot_ok D (Suc m) G (Suc m) S s i p" if i: "cb_get (outbuf s) i = Some p" and "slot_ok D m G (Suc m) S s i p" for D i p
    using that(2) t [OF i] by (auto simp: slot_ok_def)
  then have "wire_with k (Suc m) G (Suc m) S (s, ctx)" using S e by (auto simp: wire_with_def less_Suc_eq stream_def)
  then show ?thesis by (auto simp: wire_def)
qed

lemma syn_packet_of: "seq_nr s = of_nat m \<Longrightarrow> packet_of (\<lambda>_. (ST_SYN, [])) m (syn_packet s)"
  by (simp add: packet_of_def syn_packet_def syn_header_def new_packet_def get_header_size_def pf_type_def pf_version_def
      pf_set_type_def pf_set_version_def ST_SYN_def pf_zero_def)

lemma wlp_queue_syn:
  assumes u: "unused (s, ctx)" and m: "seq_nr s = of_nat m" and w0: "wire k m (\<lambda>_. (ST_SYN, [])) m (s, ctx)"
  shows "wlp (queue_syn (s, ctx)) (\<lambda>(s', ctx'). self s' = self s \<and> \<not> fin_sent s' \<and> seq_nr s' = of_nat (Suc m) \<and> cb_ok (outbuf s') \<and> emits (\<lambda>_. True) ctx ctx' \<and>
     (length (sent k (self s) ctx') < 2 ^ 31 \<longrightarrow> wire k (Suc m) (\<lambda>_. (ST_SYN, [])) (Suc m) (s', ctx')))"
proof -
  let ?G = "\<lambda>_ :: nat. (ST_SYN, [] :: byte list)"
  have un: "cb_ok (outbuf s)" "\<forall>i. cb_get (outbuf s) i = None" "cur_window_packets s = 0" "\<not> fin_sent s" using u by (simp_all add: unused_def)
  obtain S where S: "wire_with k m ?G m S (s, ctx)" using w0 by (auto simp: wire_def)
  show ?thesis
    unfolding queue_syn_def prod.case Let_def
  proof (unfold wlp_bind, subst wlp_def, intro allI impI)
    fix b assume b: "cb_ensure_size (outbuf s) (ucast (seq_nr s)) (ucast (cur_window_packets s)) = Some b"
    let ?idx = "ucast (seq_nr s) :: size_t"
    let ?s = "s\<lparr>outbuf := cb_put b ?idx (Some (syn_packet s)), seq_nr := seq_nr s + 1, cur_window_packets := cur_window_packets s + 1\<rparr>"
    have "unat (ucast (cur_window_packets s) :: size_t) < 2 ^ 16" by (simp add: un(3))
    from cb_ensure_size_spec [OF un(1) this, of ?idx] have bok: "cb_ok b" by (simp add: b)
    have empty: "cb_get b i = None" for i
    proof (rule ccontr)
      assume "cb_get b i \<noteq> None"
      then obtain p where p: "cb_get b i = Some p" by blast
      have "unat (cur_window_packets s) \<le> 2 ^ cb_bits (outbuf s)" "unat (cur_window_packets s) \<le> m" by (simp_all add: un(3))
      from ensured_slot [OF un(1) this m b p] show False using un(2) by auto
    qed
    have G: "?G(m := (ST_SYN, [])) = ?G" by auto
    have "wire_with k m (?G(m := (ST_SYN, []))) (Suc m) (S \<inter> {..<m}) (?s, ctx)"
      by (rule wire_append [OF S _ b]) (use un(3) syn_packet_of [OF m] in \<open>simp_all add: G syn_packet_def stream_def\<close>)
    then have w: "wire k m ?G (Suc m) (?s, ctx)" unfolding G wire_def by blast
    have get: "cb_get (outbuf ?s) ?idx = Some (syn_packet s)" by (simp add: cb_get_put [OF bok])
    show "wlp (send_packet ?idx (?s, ctx)) (\<lambda>(s', ctx'). self s' = self s \<and> \<not> fin_sent s' \<and> seq_nr s' = of_nat (Suc m) \<and> cb_ok (outbuf s') \<and> emits (\<lambda>_. True) ctx ctx' \<and>
        (length (sent k (self s) ctx') < 2 ^ 31 \<longrightarrow> wire k (Suc m) ?G (Suc m) (s', ctx')))"
      unfolding wlp_def
    proof (intro allI impI, clarify)
      fix s' ctx' assume r: "send_packet ?idx (?s, ctx) = Some (s', ctx')"
      have wd: "wired True (?s, ctx) (s', ctx')" using wlpD [OF wlp_send_packet r] .
      obtain q where q: "outbuf s' = cb_put (outbuf ?s) ?idx (Some q)" "transmissions q = 1"
        using wlpD [OF wlp_send_packet_count [OF get] r] by (auto simp: syn_packet_def)
      have t: "transmissions p \<noteq> 0" if "cb_get (outbuf s') i = Some p" for i p
        using that q(2) empty by (auto simp: q(1) cb_get_put bok cb_ok_put cb_bits_put split: if_splits)
      have "wire k (Suc m) ?G (Suc m) (s', ctx')" if "length (sent k (self s) ctx') < 2 ^ 31"
        using that by (intro wire_shift wiredD [OF wd w] t) simp_all
      moreover have "emits (owned True (self s)) ctx ctx'" using wd by (simp add: wired_def)
      ultimately show "self s' = self s \<and> \<not> fin_sent s' \<and> seq_nr s' = of_nat (Suc m) \<and> cb_ok (outbuf s') \<and> emits (\<lambda>_. True) ctx ctx' \<and>
        (length (sent k (self s) ctx') < 2 ^ 31 \<longrightarrow> wire k (Suc m) ?G (Suc m) (s', ctx'))"
        using wd un(4) m bok by (auto simp: wired_def cb_ok_put elim!: emits_mono)
    qed
  qed
qed

lemma connect_tx_inv:
  assumes u: "unused (s0, ctx0)" and r: "utp_connect sa len (s0, ctx0) = Some (x, s, ctx)" and M: "seq_nr s = of_nat M" "0 < M"
  shows "self s = self s0 \<and> cb_ok (outbuf s) \<and>
    (length (sent (length (datagrams (self s0) ctx0)) (self s0) ctx) < 2 ^ 31 \<longrightarrow> tx_inv (length (datagrams (self s0) ctx0)) M 0 [] (s, ctx))"
proof -
  let ?k = "length (datagrams (self s0) ctx0)" and ?G = "\<lambda>_ :: nat. (ST_SYN, [] :: byte list)"
  obtain s1 ctx1 where i1: "utp_initialize_socket sa len True 0 0 1 (s0, ctx0) = Some (s1, ctx1)"
    using r by (auto simp: utp_connect_def bind_eq_Some_conv)
  obtain ms ctx2 where ms: "utp_call_get_milliseconds ctx1 (Some (self s1)) = (ms, ctx2)" by fastforce
  define ctx3 where "ctx3 = utp_log UTP_LOG_NORMAL (Some (self s1)) (ctx2\<lparr>current_ms := ms\<rparr>)"
  define s2 where "s2 = s1\<lparr>state := CS_SYN_SENT, retransmit_timeout := 3000, rto_timeout := ms + 3000\<rparr>"
  obtain w ctx4 where w: "get_rcv_window (s2, ctx3) = Some (w, ctx4)"
    using r by (auto simp: utp_connect_def bind_eq_Some_conv i1 ms Let_def ctx3_def [symmetric] s2_def [symmetric])
  have si: "self s2 = self s1" by (simp add: s2_def)
  obtain rn ctx5 where rn: "utp_call_get_random ctx4 (Some (self s1)) = (rn, ctx5)" by fastforce
  let ?s = "s2\<lparr>last_rcv_win := w, seq_nr := ucast rn\<rparr>"
  have q: "queue_syn (?s, ctx5) = Some (s, ctx)"
    using r rn by (auto simp: utp_connect_def bind_eq_Some_conv i1 ms Let_def ctx3_def [symmetric] s2_def [symmetric] w si)
  have "idle False (s0, ctx0) (s1, ctx1)" by (rule wlpD [OF wlp_initialize i1])
  then have "idle False (s0, ctx0) (s1, ctx3)" unfolding ctx3_def using idle_clock(2) [OF ms] by (intro idle_log) simp
  then have "idle False (s0, ctx0) (s2, ctx3)" by (rule idle_update) (simp_all add: s2_def cores)
  then have "idle False (s0, ctx0) (s2, ctx4)" using wlpD [OF wlp_get_rcv_window w] by simp
  then have i: "idle False (s0, ctx0) (s2, ctx5)" by (rule idle_random [OF rn])
  have core: "self s2 = self s0" "outbuf s2 = outbuf s0" "cur_window_packets s2 = cur_window_packets s0" "fin_sent s2 = fin_sent s0"
    and em: "emits (harmless False (self s0)) ctx0 ctx5" using i by (simp_all add: idle_def cores)
  have u5: "unused (?s, ctx5)" using u em by (simp add: unused_def core emits_def)
  have w5: "wire ?k m ?G m (?s, ctx5)" if m: "ucast rn = (of_nat m :: uint16)" for m
  proof -
    have "wire ?k m ?G m (s0\<lparr>seq_nr := ucast rn\<rparr>, ctx0)" using unused_wire [of "s0\<lparr>seq_nr := ucast rn\<rparr>" ctx0 m] u m by (simp add: unused_def)
    moreover have "wire_with k M G N S (s0\<lparr>seq_nr := ucast rn\<rparr>, ctx0) \<Longrightarrow> wire_with k M G N S (?s, ctx5)" for k M G N S
      by (rule idle_wire [where rd = False]) (use em core in \<open>simp_all add: cores\<close>)
    ultimately show ?thesis unfolding wire_def by blast
  qed
  have "of_nat (unat (ucast rn :: uint16)) = (ucast rn :: uint16)" by simp
  from wlpD [OF wlp_queue_syn [OF u5 _ w5] q, OF _ this [symmetric]] this have "seq_nr s = ucast rn + 1" by simp
  then have m: "ucast rn = (of_nat (M - 1) :: uint16)" using M by (simp add: of_nat_diff)
  have "seq_nr ?s = of_nat (M - 1)" using m by simp
  from wlpD [OF wlp_queue_syn [OF u5 this w5 [OF m]] q] M(2)
  show ?thesis by (auto simp: core tx_inv_def typed_def stream_def intro!: exI [of _ ?G] exI [of _ M])
qed

text \<open>
  A socket opens its stream with sequence number \<open>M\<close>, after \<open>k\<close> datagrams: it has queued nothing, or it
  has just sent its SYN.
\<close>

definition opened :: "nat \<Rightarrow> nat \<Rightarrow> conn \<Rightarrow> bool" where
  "opened k M = (\<lambda>(s, ctx). seq_nr s = of_nat M \<and> 0 < M \<and>
     (unused (s, ctx) \<and> k = length (datagrams (self s) ctx) \<or>
      (\<exists>s0 ctx0 sa len x. unused (s0, ctx0) \<and> utp_connect sa len (s0, ctx0) = Some (x, s, ctx) \<and> k = length (datagrams (self s0) ctx0))))"

lemma opened_session:
  assumes "opened k M (s0, ctx0)" and "session (s0, ctx0) n w (s, ctx)" and "length w < 2 ^ 32" and "length (sent k (self s) ctx) < 2 ^ 31"
  shows "tx_inv k M n w (s, ctx) \<and> self s = self s0"
proof -
  have "cb_ok (outbuf s0) \<and> (length (sent k (self s0) ctx0) < 2 ^ 31 \<longrightarrow> tx_inv k M 0 [] (s0, ctx0))"
    using assms(1) unfolding opened_def prod.case
  proof (elim conjE disjE exE)
    assume "seq_nr s0 = of_nat M" and u: "unused (s0, ctx0)" and "k = length (datagrams (self s0) ctx0)"
    then show ?thesis using unused_tx_inv [of s0 ctx0 M] by (simp add: unused_def)
  next
    fix s1 ctx1 sa len x
    assume M: "seq_nr s0 = of_nat M" "0 < M" and c: "unused (s1, ctx1)" "utp_connect sa len (s1, ctx1) = Some (x, s0, ctx0)"
      and k: "k = length (datagrams (self s1) ctx1)"
    show ?thesis using connect_tx_inv [OF c M] by (simp add: k)
  qed
  then show ?thesis using session_tx_inv [OF assms(2), of k M] assms(3,4) by simp
qed

end
