(* ===== verification/Utp_Stream.thy ===== *)
theory Utp_Stream
  imports Utp_Reorder
begin

section \<open>The stream the application reads\<close>

text \<open>
  The peer sends packets \<open>1, 2, \<dots>, E\<close> of its stream, packet \<open>n\<close> with the data \<open>pay n\<close> under the
  sequence number \<open>n mod 65536\<close>; the last one is its FIN. The network may drop, repeat, delay and
  reorder them. The receiver reports the data to the application in order, each packet once, and
  the end of the stream after all of it.
\<close>

subsection \<open>Arrivals\<close>

text \<open>The receiving side of one packet: the checks of \<^verbatim>\<open>utp_process_incoming\<close> around \<open>recv_data\<close>.\<close>

definition recv_packet :: "byte \<Rightarrow> uint16 \<Rightarrow> byte list \<Rightarrow> conn \<Rightarrow> (size_t \<times> conn) option" where
  "recv_packet pk_flags pk_seq_nr data c = (
     let seqnr = relative_seqnr pk_seq_nr (fst c) in
     if REORDER_BUFFER_MAX_SIZE \<le> seqnr then Some (0, drop_stray seqnr pk_flags c)
     else if pk_flags = ST_STATE then Some (0, c)
     else if state (fst c) \<noteq> CS_CONNECTED \<and> state (fst c) \<noteq> CS_CONNECTED_FULL then Some (0, c)
     else recv_data pk_flags pk_seq_nr seqnr data c)"

text \<open>
  A packet that arrives when \<open>A\<close> packets have been delivered is timely when its sequence number
  has not been reused for an expected packet: it is at most 64512 packets old, and the sender is
  at most 65536 packets ahead.
\<close>

definition timely :: "nat \<Rightarrow> nat \<Rightarrow> bool" where
  "timely A n \<longleftrightarrow> n \<le> A + 2 ^ 16 \<and> A + 1 \<le> n + 64512"

text \<open>The packets \<open>ns\<close> of the stream arrive in this order; \<open>A\<close> counts the delivered ones.\<close>

fun recv_stream :: "(nat \<Rightarrow> byte list) \<Rightarrow> nat \<Rightarrow> nat list \<Rightarrow> nat \<times> conn \<Rightarrow> (nat \<times> conn) option" where
  "recv_stream pay E [] (A, c) = Some (A, c)"
| "recv_stream pay E (n # ns) (A, c) =
     (if timely A n \<and> n \<le> E then do {
        (_, c') \<leftarrow> recv_packet (if n = E then ST_FIN else ST_DATA) (of_nat n) (pay n) c;
        recv_stream pay E ns (A + unat (ack_nr (fst c') - ack_nr (fst c)), c')
      } else recv_stream pay E ns (A, c))"

subsection \<open>The invariant\<close>

definition reads :: "sid \<Rightarrow> (nat \<Rightarrow> byte list) \<Rightarrow> nat \<Rightarrow> nat \<Rightarrow> utp_callback_arguments list" where
  "reads i pay A B = map (On_Read i) (filter (\<lambda>b. b \<noteq> []) (map pay [Suc A..<Suc B]))"

lemma reads_Suc: "A \<le> B \<Longrightarrow> reads i pay A (Suc B) = reads i pay A B @ (if pay (Suc B) = [] then [] else [On_Read i (pay (Suc B))])"
  by (simp add: reads_def)

definition holds :: "(nat \<Rightarrow> byte list) \<Rightarrow> nat \<Rightarrow> nat \<Rightarrow> bool \<Rightarrow> byte list option list \<Rightarrow> bool" where
  "holds pay E A fin w \<longleftrightarrow> (\<forall>j < length w. \<forall>b. w ! j = Some b \<longrightarrow> b = pay (Suc A + j) \<and> Suc A + j \<le> E \<and>
     (Suc A + j = E \<longrightarrow> fin))"

definition stream_inv :: "(nat \<Rightarrow> byte list) \<Rightarrow> nat \<Rightarrow> sid \<Rightarrow> utp_callback_arguments list \<Rightarrow> nat \<Rightarrow> nat \<Rightarrow> conn \<Rightarrow> bool" where
  "stream_inv pay E i U A0 A = (\<lambda>(s, ctx). self s = i \<and> ack_nr s = of_nat A \<and> A0 \<le> A \<and> A \<le> E \<and>
     holds pay E A (got_fin s) (in_window s) \<and> (A0 < A \<and> A = E \<longrightarrow> got_fin s) \<and> (got_fin s \<longrightarrow> eof_pkt s = of_nat E \<and> E \<le> A + 1024) \<and>
     (got_fin_reached s \<longrightarrow> got_fin s \<and> A = E) \<and> \<not> read_shutdown s \<and>
     callbacks ctx UTP_ON_READ \<noteq> None \<and> callbacks ctx UTP_ON_STATE_CHANGE \<noteq> None \<and>
     upcalls i ctx = U @ reads i pay A0 A @ (if got_fin_reached s then [On_State_Change i UTP_STATE_EOF] else []))"

lemma holds_tl:
  assumes "holds pay E A g w" and "w \<noteq> []"
  shows "holds pay E (Suc A) g (tl w @ [None])"
  unfolding holds_def
proof (intro allI impI)
  fix j b assume "j < length (tl w @ [None])" and b: "(tl w @ [None]) ! j = Some b"
  then have "Suc j < length w \<and> w ! Suc j = Some b"
    using assms(2) by (auto simp: nth_append nth_tl less_Suc_eq split: if_splits)
  then show "b = pay (Suc (Suc A) + j) \<and> Suc (Suc A) + j \<le> E \<and> (Suc (Suc A) + j = E \<longrightarrow> g)" using assms(1) unfolding holds_def by force
qed

lemma of_nat_eq16:
  assumes "(of_nat x :: uint16) = of_nat y" and "y \<le> x" and "x \<le> y + 1024"
  shows "x = y"
proof -
  have "x mod 2 ^ 16 = y mod 2 ^ 16" using arg_cong [OF assms(1), of unat] by (simp add: unat_of_nat)
  then have "2 ^ 16 dvd x - y" using assms(2) by (simp add: mod_eq_dvd_iff_nat)
  then show ?thesis using assms(2,3) by (auto dest: dvd_imp_le)
qed

lemma stream_check_eof:
  assumes "in_loop s" "ctx_ok ctx" "app_ok L ctx" and inv: "stream_inv pay E i U A0 A (s, ctx)"
  shows "wpo (check_eof (s, ctx)) (\<lambda>(s', ctx'). stream_inv pay E i U A0 A (s', ctx') \<and> in_window s' = in_window s)"
proof (rule wpo_mono [OF check_eof_spec [OF assms(1-3)]], clarify, goal_cases)
  case (1 s' ctx')
  note f = rx_frame_fields(1,2) [OF 1(2)] ctx_step_fields(1) [OF 1(3)]
  show ?case
  proof (cases "\<not> got_fin_reached s \<and> got_fin s \<and> eof_pkt s = ack_nr s")
    case True
    then have "A = E" using inv of_nat_eq16 [of E A] by (auto simp: stream_inv_def)
    then show ?thesis using 1 True inv f by (simp add: stream_inv_def)
  next
    case False
    then show ?thesis using 1 inv by (simp split: if_splits)
  qed
qed

lemma stream_deliver:
  assumes inv: "stream_inv pay E i U A0 A (s, ctx)" and gf: "\<not> got_fin_reached s"
    and E: "Suc A \<le> E" "Suc A = E \<longrightarrow> got_fin s"
    and s': "self s' = i" "ack_nr s' = ack_nr s + 1" "in_window s' = tl (in_window s) @ [None]"
      "got_fin s' = got_fin s" "eof_pkt s' = eof_pkt s" "\<not> got_fin_reached s'" "\<not> read_shutdown s'"
  shows "stream_inv pay E i U A0 (Suc A) (s', post_data (pay (Suc A)) (s, ctx))"
proof -
  have cb: "callbacks (post_data p (s, ctx)) = callbacks ctx" for p
    using ctx_step_fields(1) [OF ctx_step_post_data] .
  have "holds pay E (Suc A) (got_fin s) (in_window s')"
    unfolding s'(3) using inv by (intro holds_tl) (simp_all add: stream_inv_def)
  moreover have "upcalls i (post_data (pay (Suc A)) (s, ctx)) = U @ reads i pay A0 (Suc A)"
    using inv gf upcalls_post_data [of ctx s "pay (Suc A)"] by (auto simp: stream_inv_def reads_Suc)
  ultimately show ?thesis using inv gf E s' by (auto simp: stream_inv_def cb)
qed

subsection \<open>One packet\<close>

lemma stream_inv_schedule [simp]: "stream_inv pay E i U A0 A (s, schedule_ack j ctx) = stream_inv pay E i U A0 A (s, ctx)"
  by (simp add: stream_inv_def schedule_ack_def upcalls_def)

lemma stream_in_order:
  assumes ok: "in_ok s" and ctx: "ctx_ok ctx" and app: "app_ok L ctx"
    and inv: "stream_inv pay E i U A0 A (s, ctx)" and E: "Suc A \<le> E" "Suc A = E \<longrightarrow> got_fin s"
  shows "wpo (recv_in_order (pay (Suc A)) (s, ctx)) (\<lambda>(s', ctx'). in_ok s' \<and> eof_checked s' \<and> ctx_step (self s) ctx ctx' \<and>
           (\<exists>B. stream_inv pay E i U A0 B (s', ctx') \<and> Suc A \<le> B \<and> B \<le> Suc A + stored (in_window s)))"
proof -
  define C where "C = Suc A + stored (in_window s)"
  define P where "P = (\<lambda>(s', ctx'). \<exists>B. stream_inv pay E i U A0 B (s', ctx') \<and> Suc A \<le> B \<and>
      B + stored (in_window s') = C)"
  have gf: "\<not> got_fin_reached s" using inv E by (auto simp: stream_inv_def)
  then have hd: "hd (in_window s) = None" and cb: "cb_ok (inbuf s)" using ok by (simp_all add: in_ok_def in_loop_def)
  have st: "stored (tl (in_window s)) = stored (in_window s)" using hd by (cases "in_window s") simp_all
  note adv = in_window_advance [OF cb hd]
  have "stream_inv pay E i U A0 (Suc A) (s\<lparr>ack_nr := ack_nr s + 1\<rparr>, post_data (pay (Suc A)) (s, ctx))"
    using inv gf E adv by (intro stream_deliver) (simp_all add: stream_inv_def)
  then have P0: "P (s\<lparr>ack_nr := ack_nr s + 1\<rparr>, post_data (pay (Suc A)) (s, ctx))"
    unfolding P_def by (auto simp: adv st C_def)
  have "wpo (recv_in_order (pay (Suc A)) (s, ctx)) (\<lambda>(s', ctx'). in_ok s' \<and> rx_frame s s' \<and> ctx_step (self s) ctx ctx' \<and>
           eof_checked s' \<and> (\<exists>ctx2. P (s', ctx2) \<and> ctx' = schedule_ack (self s) ctx2))"
  proof (rule recv_in_order_rule [where P = P, OF ok ctx app P0])
    fix s1 ctx1
    assume a: "in_loop s1" "ctx_ok ctx1" "app_ok L ctx1" and "P (s1, ctx1)"
    then obtain B where B: "stream_inv pay E i U A0 B (s1, ctx1)" "Suc A \<le> B" "B + stored (in_window s1) = C"
      by (auto simp: P_def)
    show "wpo (check_eof (s1, ctx1)) P"
      by (rule wpo_mono [OF stream_check_eof [OF a B(1)]]) (use B in \<open>auto simp: P_def\<close>)
  next
    fix s1 ctx1 p
    assume a: "in_loop s1" and p: "hd (in_window s1) = Some p" and "P (s1, ctx1)"
    then obtain B where B: "stream_inv pay E i U A0 B (s1, ctx1)" "Suc A \<le> B" "B + stored (in_window s1) = C"
      by (auto simp: P_def)
    have w: "in_window (taken s1) = tl (in_window s1) @ [None]" using a by (intro in_window_taken) (simp add: in_loop_def)
    have "p = pay (Suc B) \<and> Suc B \<le> E \<and> (Suc B = E \<longrightarrow> got_fin s1)"
      using B(1) p by (auto simp: stream_inv_def holds_def hd_conv_nth dest: spec [of _ 0])
    moreover from this have "\<not> got_fin_reached s1" using B(1) by (auto simp: stream_inv_def)
    ultimately have "stream_inv pay E i U A0 (Suc B) (taken s1, post_data p (s1, ctx1))"
      using B(1) w stream_deliver [of pay E i U A0 B s1 ctx1 "taken s1"] by (simp add: taken_def stream_inv_def)
    then show "P (taken s1, post_data p (s1, ctx1))"
      using B(2,3) w stored_tl [OF in_window_ne p] unfolding P_def by (auto intro!: exI [of _ "Suc B"])
  qed
  then show ?thesis by (rule wpo_mono) (auto simp: P_def C_def)
qed

lemma relative_ahead:
  assumes "ack_nr s = of_nat A" and "A < n" and "n \<le> A + 2 ^ 16"
  shows "unat (relative_seqnr (of_nat n) s) = n - Suc A"
proof -
  have e: "(of_nat n :: uint16) - of_nat A - 1 = of_nat (n - Suc A)" using assms(2) by (simp add: of_nat_diff)
  have "unat ((of_nat n :: uint16) - of_nat A - 1) = n - Suc A"
    unfolding e by (subst unat_of_nat) (use assms(2,3) in simp)
  then show ?thesis by (simp add: relative_seqnr_eq unat_ucast_up assms(1))
qed

lemma relative_behind:
  assumes "ack_nr s = of_nat A" and "n \<le> A" and "A + 1 \<le> n + 64512"
  shows "1024 \<le> unat (relative_seqnr (of_nat n) s)"
proof -
  let ?d = "Suc A - n"
  have "of_nat n - of_nat A - 1 = (0 :: uint16) - of_nat ?d" using assms(2) by (simp add: of_nat_diff)
  also have "(0 :: uint16) = of_nat (2 ^ 16)" by simp
  also have "of_nat (2 ^ 16) - of_nat ?d = (of_nat (2 ^ 16 - ?d) :: uint16)"
    using assms(3) by (intro of_nat_diff [symmetric]) simp
  finally have e: "of_nat n - of_nat A - 1 = (of_nat (2 ^ 16 - ?d) :: uint16)" .
  have "unat (of_nat n - of_nat A - 1 :: uint16) = 2 ^ 16 - ?d"
    unfolding e using assms(2) by (simp add: unat_of_nat)
  then show ?thesis using assms(2,3) by (simp add: relative_seqnr_eq unat_ucast_up assms(1))
qed

lemma holds_extend: "holds pay E A g w \<Longrightarrow> holds pay E A g (w @ replicate m None)"
  by (auto simp: holds_def nth_append split: if_splits)

lemma holds_update: "holds pay E A g w \<Longrightarrow> Suc (A + j) \<le> E \<Longrightarrow> Suc (A + j) = E \<longrightarrow> g \<Longrightarrow> holds pay E A g (w[j := Some (pay (Suc (A + j)))])"
  by (cases "j < length w") (auto simp: holds_def nth_list_update split: if_splits)

lemma holds_put_in:
  assumes "holds pay E A g (in_window s)" and "put_in s s' j x"
    and "x = None \<or> x = Some (pay (Suc A + j)) \<and> Suc A + j \<le> E \<and> (Suc A + j = E \<longrightarrow> g)"
  shows "holds pay E A g (in_window s')"
  using assms by (auto simp: put_in_def Let_def intro: holds_extend holds_update [OF holds_extend])

lemma stream_got_fin:
  assumes "stream_inv pay E i U A0 A (s, ctx)" and "n \<le> E" and "E \<le> A + 1024 \<or> n \<noteq> E"
  shows "stream_inv pay E i U A0 A (got_fin_packet (if n = E then ST_FIN else ST_DATA) (of_nat n) s, ctx)"
  using assms by (auto simp: stream_inv_def got_fin_packet_def in_window_def ST_FIN_def ST_DATA_def holds_def)

lemma stream_out_of_order:
  assumes ok: "in_ok s" and inv: "stream_inv pay E i U A0 A (s, ctx)" and n: "Suc A < n" "n \<le> E" "n = E \<longrightarrow> got_fin s"
    and len: "length (pay n) < 2 ^ 32" and r: "unat (relative_seqnr (of_nat n) s) = n - Suc A"
  shows "wpo (recv_out_of_order (of_nat n) (relative_seqnr (of_nat n) s) (pay n) (s, ctx)) (\<lambda>(st, s', ctx').
           in_ok s' \<and> eof_checked s' \<and> ctx_step (self s) ctx ctx' \<and> stream_inv pay E i U A0 A (s', ctx'))"
proof -
  have r0: "relative_seqnr (of_nat n) s \<noteq> 0" using r n by (auto simp: unat_eq_0)
  have mem: "take (unat (of_nat (length (pay n)) :: uint32)) (pay n) = pay n" using len by (simp add: unat_of_nat)
  have nA: "n = Suc A + (n - Suc A)" using n by simp
  show ?thesis
  proof (rule wpo_mono [OF recv_out_of_order_spec [OF ok refl r0]], clarify, goal_cases)
    case (1 st s' ctx')
    have "holds pay E A (got_fin s) (in_window s)" using inv by (simp add: stream_inv_def)
    then have "holds pay E A (got_fin s) (in_window s')"
      using 1(9) n holds_put_in [of pay E A "got_fin s" s s' "n - Suc A"] by (auto simp: r mem split: if_splits)
    moreover have "eof_checked s'"
      using 1 inv n of_nat_eq16 [of E A] by (auto simp: eof_checked_def stream_inv_def)
    ultimately show ?case
      using 1 inv rx_frame_fields(1,2) [of s s'] ctx_step_fields(1) [of _ ctx ctx'] by (auto simp: stream_inv_def)
  qed
qed

lemma stored_bound:
  assumes "in_ok s" and "\<not> got_fin_reached s"
  shows "Suc (stored (in_window s)) < 2 ^ 16"
proof -
  have h: "hd (in_window s) = None" and l: "last (in_window s) = None" and ok: "cb_ok (inbuf s)" and b: "4 \<le> cb_bits (inbuf s)"
    using assms by (simp_all add: in_ok_def in_loop_def)
  have "2 ^ 4 \<le> (2 :: nat) ^ cb_bits (inbuf s)" using b by (rule power_increasing) simp
  then have t: "tl (in_window s) \<noteq> []" using length_in_window [of s] by (cases "in_window s") auto
  then have "None \<in> set (tl (in_window s))" using l last_tl [of "in_window s"] last_in_set [OF t] by simp
  then have "stored (tl (in_window s)) < length (tl (in_window s))" by (rule stored_less)
  moreover have "stored (in_window s) = stored (tl (in_window s))" using h by (cases "in_window s") simp_all
  moreover have "(2 :: nat) ^ cb_bits (inbuf s) \<le> 2 ^ 16" using cb.bits_le [OF ok] by (rule power_increasing) simp
  ultimately show ?thesis by simp
qed

lemma ack_advance:
  assumes "A \<le> B" and "B < A + 2 ^ 16" and "ack_nr s = of_nat A" and "ack_nr s' = of_nat B"
  shows "A + unat (ack_nr s' - ack_nr s) = B"
proof -
  have e: "(of_nat B :: uint16) - of_nat A = of_nat (B - A)" using assms(1) by (simp add: of_nat_diff)
  show ?thesis unfolding assms(3,4) e by (subst unat_of_nat) (use assms(1,2) in simp)
qed

definition stream_post :: "nat \<Rightarrow> (nat \<Rightarrow> byte list) \<Rightarrow> nat \<Rightarrow> sid \<Rightarrow> utp_callback_arguments list \<Rightarrow> nat \<Rightarrow> nat \<Rightarrow>
    UTPSocket \<Rightarrow> conn \<Rightarrow> bool" where
  "stream_post L pay E i U A0 A s = (\<lambda>(s', ctx'). in_ok s' \<and> eof_checked s' \<and> ctx_ok ctx' \<and> app_ok L ctx' \<and>
     stream_inv pay E i U A0 (A + unat (ack_nr s' - ack_nr s)) (s', ctx'))"

lemma stream_recv_data:
  assumes ok: "in_ok s" and ctx: "ctx_ok ctx" and app: "app_ok L ctx" and inv: "stream_inv pay E i U A0 A (s, ctx)"
    and n: "A < n" "n \<le> E" and len: "length (pay n) < 2 ^ 32"
    and r: "unat (relative_seqnr (of_nat n) s) = n - Suc A" "n - Suc A < 1024"
  shows "wpo (recv_data (if n = E then ST_FIN else ST_DATA) (of_nat n) (relative_seqnr (of_nat n) s) (pay n) (s, ctx))
           (\<lambda>(_, s', ctx'). stream_post L pay E i U A0 A s (s', ctx') \<and> (n = Suc A \<longrightarrow> ack_nr s' \<noteq> ack_nr s))"
proof -
  let ?s = "got_fin_packet (if n = E then ST_FIN else ST_DATA) (of_nat n) s"
  have ok': "in_ok ?s" using ok by simp
  have inv': "stream_inv pay E i U A0 A (?s, ctx)" using inv n r(2) by (intro stream_got_fin) auto
  have a: "ack_nr s = of_nat A" and gf: "\<not> got_fin_reached s" using inv n by (auto simp: stream_inv_def)
  have post: "stream_post L pay E i U A0 A s (s', ctx')"
    if "in_ok s'" "eof_checked s'" "ctx_step (self ?s) ctx ctx'" "stream_inv pay E i U A0 B (s', ctx')" "A \<le> B" "B < A + 2 ^ 16" for s' ctx' B
    using that ctx app ack_advance [of A B s s'] a ctx_step_ok ctx_step_app by (auto simp: stream_post_def stream_inv_def)
  show ?thesis
  proof (cases "relative_seqnr (of_nat n) s = 0")
    case True
    then have nA: "n = Suc A" using r n by simp
    have E: "Suc A \<le> E" "Suc A = E \<longrightarrow> got_fin ?s" using n(2) nA by (simp_all add: got_fin_packet_def)
    show ?thesis
      unfolding recv_data_def prod.case Let_def if_P [OF True]
    proof (rule wpo_bindI [OF stream_in_order [OF ok' ctx app inv' E, folded nA]], clarify, goal_cases)
      case (1 s' ctx' B)
      have "B < A + 2 ^ 16" using 1(6) stored_bound [OF ok gf] nA by simp
      then show ?case using post [OF 1(1-4)] ack_advance [of A B s s'] 1(4,5) nA a by (auto simp: stream_inv_def)
    qed
  next
    case False
    then have n': "Suc A < n" using r n(1) by (metis Suc_lessI diff_self_eq_0 unat_eq_0)
    have g: "n = E \<longrightarrow> got_fin ?s" by (simp add: got_fin_packet_def)
    have r': "unat (relative_seqnr (of_nat n) ?s) = n - Suc A" using r by simp
    show ?thesis
      unfolding recv_data_def prod.case Let_def if_not_P [OF False]
      by (rule wpo_bindI [OF stream_out_of_order [OF ok' inv' n' n(2) g len r', simplified]])
        (use n' in \<open>auto intro!: post [where B = A]\<close>)
  qed
qed

lemma stream_packet:
  assumes ok: "in_ok s" and eof: "eof_checked s" and ctx: "ctx_ok ctx" and app: "app_ok L ctx" and inv: "stream_inv pay E i U A0 A (s, ctx)"
    and n: "timely A n" "n \<le> E" and len: "length (pay n) < 2 ^ 32"
  shows "wpo (recv_packet (if n = E then ST_FIN else ST_DATA) (of_nat n) (pay n) (s, ctx))
           (\<lambda>(_, s', ctx'). stream_post L pay E i U A0 A s (s', ctx') \<and> state s' = state s \<and>
              (n = Suc A \<and> (state s = CS_CONNECTED \<or> state s = CS_CONNECTED_FULL) \<longrightarrow> ack_nr s' \<noteq> ack_nr s))"
proof (cases "A < n \<and> n - Suc A < 1024")
  case True
  have r: "unat (relative_seqnr (of_nat n) s) = n - Suc A"
    using inv n True by (intro relative_ahead) (auto simp: stream_inv_def timely_def)
  then have "\<not> REORDER_BUFFER_MAX_SIZE \<le> relative_seqnr (of_nat n) s"
    using True by (simp add: REORDER_BUFFER_MAX_SIZE_def word_le_nat_alt)
  moreover have "wpo (recv_data (if n = E then ST_FIN else ST_DATA) (of_nat n) (relative_seqnr (of_nat n) s) (pay n) (s, ctx))
     (\<lambda>(_, s', ctx'). stream_post L pay E i U A0 A s (s', ctx') \<and> state s' = state s \<and>
        (n = Suc A \<and> (state s = CS_CONNECTED \<or> state s = CS_CONNECTED_FULL) \<longrightarrow> ack_nr s' \<noteq> ack_nr s))"
    using True by (intro wpo_mono [OF wpo_conj [OF stream_recv_data [OF ok ctx app inv _ n(2) len r]
          recv_data_keeps [OF ok ctx app]]]) (auto dest: rx_frame_fields(3))
  ultimately show ?thesis
    using ok eof ctx app inv by (auto simp: recv_packet_def stream_post_def ST_STATE_def ST_FIN_def ST_DATA_def)
next
  case False
  then have n': "n \<noteq> Suc A" by auto
  have a: "ack_nr s = of_nat A" using inv by (simp add: stream_inv_def)
  have "1024 \<le> unat (relative_seqnr (of_nat n) s)"
    using n False relative_ahead [OF a, of n] relative_behind [OF a, of n] by (cases "A < n") (auto simp: timely_def)
  then have "REORDER_BUFFER_MAX_SIZE \<le> relative_seqnr (of_nat n) s"
    by (simp add: REORDER_BUFFER_MAX_SIZE_def word_le_nat_alt)
  then show ?thesis
    using ok eof ctx app inv n' ctx_step_ok [OF ctx_step_schedule ctx, of "self s"] ctx_step_app [OF ctx_step_schedule app, of "self s"]
    by (simp add: recv_packet_def stream_post_def drop_stray_def)
qed

subsection \<open>The stream\<close>

lemma recv_stream_inv:
  assumes "in_ok s" and "eof_checked s" and "ctx_ok ctx" and "app_ok L ctx" and "stream_inv pay E i U A0 A (s, ctx)"
    and len: "\<And>n. length (pay n) < 2 ^ 32"
  shows "wpo (recv_stream pay E ns (A, s, ctx)) (\<lambda>(B, s', ctx'). in_ok s' \<and> eof_checked s' \<and> ctx_ok ctx' \<and> app_ok L ctx' \<and>
           stream_inv pay E i U A0 B (s', ctx') \<and> state s' = state s)"
  using assms(1-5)
proof (induction ns arbitrary: A s ctx)
  case (Cons n ns)
  show ?case
  proof (cases "timely A n \<and> n \<le> E")
    case True
    note p = stream_packet [OF Cons.prems _ _ len, of n]
    show ?thesis
      unfolding recv_stream.simps if_P [OF True]
    proof (rule wpo_bindI [OF p], goal_cases)
      case (3 x)
      obtain k s1 ctx1 where x: "x = (k, s1, ctx1)" by (cases x)
      show ?case using 3 Cons.IH [of s1 ctx1] by (auto simp: x stream_post_def elim!: wpo_mono)
    qed (use True in auto)
  next
    case False
    then show ?thesis using Cons by auto
  qed
qed simp

lemma recv_stream_append:
  "recv_stream pay E (ns @ ms) c = recv_stream pay E ns c \<bind> recv_stream pay E ms"
  by (induction pay E ns c rule: recv_stream.induct) (auto split: prod.split intro!: Option.bind_cong)

text \<open>One pass of the packets from \<open>k\<close> to \<open>E\<close> in order.\<close>

lemma recv_stream_pass:
  assumes "in_ok s" and "eof_checked s" and "ctx_ok ctx" and "app_ok L ctx" and "stream_inv pay E i U A0 A (s, ctx)"
    and len: "\<And>n. length (pay n) < 2 ^ 32" and "state s = CS_CONNECTED \<or> state s = CS_CONNECTED_FULL"
    and k: "k \<le> Suc A" "E < k + 64512" "k + d = Suc E"
  shows "wpo (recv_stream pay E [k..<k + d] (A, s, ctx)) (\<lambda>(B, s', ctx'). in_ok s' \<and> eof_checked s' \<and>
           stream_inv pay E i U A0 E (s', ctx') \<and> B = E)"
  using assms(1-5,7) k
proof (induction d arbitrary: A s ctx k)
  case 0
  then have "A = E" by (simp add: stream_inv_def)
  with 0 show ?case by simp
next
  case (Suc d)
  have t: "timely A k" "k \<le> E" using Suc.prems by (auto simp: timely_def stream_inv_def)
  have l: "[k..<k + Suc d] = k # [Suc k..<Suc k + d]" by (simp add: upt_conv_Cons)
  show ?case
    unfolding l recv_stream.simps if_P [OF conjI [OF t]]
  proof (rule wpo_bindI [OF stream_packet [OF Suc.prems(1-5) t len]], goal_cases)
    case (1 x)
    obtain n s1 ctx1 where x: "x = (n, s1, ctx1)" by (cases x)
    let ?B = "A + unat (ack_nr s1 - ack_nr s)"
    have "Suc k \<le> Suc ?B"
    proof (cases "k = Suc A")
      case True
      then have "ack_nr s1 - ack_nr s \<noteq> 0" using 1 Suc.prems(6) by (simp add: x)
      then have "0 < unat (ack_nr s1 - ack_nr s)" by (simp only: unat_gt_0 not_False_eq_True)
      then show ?thesis using True by simp
    qed (use Suc.prems in simp)
    then show ?case using 1 Suc.prems Suc.IH [of s1 ctx1 ?B "Suc k"] by (simp add: x stream_post_def)
  qed
qed

lemma stream_start:
  assumes "in_ok s" and "ack_nr s = of_nat A" and "A \<le> E" and "\<not> got_fin s" and "\<not> got_fin_reached s" and "reorder_count s = 0"
    and "\<not> read_shutdown s" and "callbacks ctx UTP_ON_READ \<noteq> None" and "callbacks ctx UTP_ON_STATE_CHANGE \<noteq> None"
  shows "eof_checked s" and "stream_inv pay E (self s) (upcalls (self s) ctx) A A (s, ctx)"
proof -
  have "stored (in_window s) = 0" using assms(1,5,6) by (simp add: in_ok_def in_loop_def)
  then have "in_window s ! j \<noteq> Some b" if "j < length (in_window s)" for j b
  proof -
    have "in_window s ! j \<in> set (in_window s)" using that by (rule nth_mem)
    then show ?thesis using \<open>stored (in_window s) = 0\<close> by (auto simp: stored_0_iff)
  qed
  then have "holds pay E A False (in_window s)" by (auto simp: holds_def)
  then show "stream_inv pay E (self s) (upcalls (self s) ctx) A A (s, ctx)"
    using assms by (simp add: stream_inv_def reads_def)
  show "eof_checked s" using assms(4) by (simp add: eof_checked_def)
qed

text \<open>C5: the application reads the peer's stream. Whatever packets of the stream arrive, in any
  order and any number of times, as long as sequence numbers are not reused too early: the receiver
  trips no assertion, and the data it reports are those of packets \<open>A + 1, \<dots>, B\<close> in this order,
  each once, where \<open>B\<close> is the packet it acks. The end of the stream is reported at most once,
  after all data.\<close>

theorem stream_delivered_in_order:
  assumes "in_ok s" and "ctx_ok ctx" and "app_ok L ctx" and "\<forall>n. length (pay n) < 2 ^ 32"
    and "ack_nr s = of_nat A" and "A \<le> E" and "\<not> got_fin s" and "\<not> got_fin_reached s" and "reorder_count s = 0"
    and "\<not> read_shutdown s" and "callbacks ctx UTP_ON_READ \<noteq> None" and "callbacks ctx UTP_ON_STATE_CHANGE \<noteq> None"
  shows "wpo (recv_stream pay E ns (A, s, ctx)) (\<lambda>(B, s', ctx').
           A \<le> B \<and> B \<le> E \<and> ack_nr s' = of_nat B \<and> in_ok s' \<and> (got_fin_reached s' \<longrightarrow> B = E) \<and>
           upcalls (self s) ctx' = upcalls (self s) ctx @
             map (On_Read (self s)) (filter (\<lambda>b. b \<noteq> []) (map pay [Suc A..<Suc B])) @
             (if got_fin_reached s' then [On_State_Change (self s) UTP_STATE_EOF] else []))"
proof -
  note start = stream_start [OF assms(1,5-12)]
  have len: "\<And>n. length (pay n) < 2 ^ 32" using assms(4) by simp
  show ?thesis
    by (rule wpo_mono [OF recv_stream_inv [OF assms(1) start(1) assms(2,3) start(2) len, where ns = ns]])
      (auto simp: stream_inv_def reads_def simp del: upt_Suc)
qed

text \<open>A reader that watches data and state changes, before the first packet.\<close>

definition example_reader :: utp_context where
  "example_reader = example_context\<lparr>callbacks := (callbacks example_context)
     (UTP_ON_READ \<mapsto> \<lambda>_ _. 0, UTP_ON_STATE_CHANGE \<mapsto> \<lambda>_ _. 0)\<rparr>"

lemma example_reader_ok: "ctx_ok example_reader" "app_ok 100 example_reader"
  using example_ctx_ok example_app_ok
  by (simp_all add: example_reader_def ctx_ok_def ack_ok_def app_ok_def mtu_callback_ok_def rcv_callback_ok_def)

lemmas example_fields = example_socket_def zero_socket_def example_reader_def

theorem stream_delivered_in_order_witness:
  "wpo (recv_stream (\<lambda>n. [of_nat n]) 4 [3, 1, 1, 4, 3] (0, example_socket, example_reader)) (\<lambda>(B, s', ctx').
     B \<le> 4 \<and> ack_nr s' = of_nat B \<and>
     upcalls 0 ctx' = upcalls 0 example_reader @
       map (On_Read 0) (filter (\<lambda>b. b \<noteq> []) (map (\<lambda>n. [of_nat n]) [Suc 0..<Suc B])) @
       (if got_fin_reached s' then [On_State_Change 0 UTP_STATE_EOF] else []))"
proof -
  have s: "self example_socket = 0" by (simp add: example_fields)
  have "wpo (recv_stream (\<lambda>n. [of_nat n]) 4 [3, 1, 1, 4, 3] (0, example_socket, example_reader)) (\<lambda>(B, s', ctx').
     0 \<le> B \<and> B \<le> 4 \<and> ack_nr s' = of_nat B \<and> in_ok s' \<and> (got_fin_reached s' \<longrightarrow> B = 4) \<and>
     upcalls (self example_socket) ctx' = upcalls (self example_socket) example_reader @
       map (On_Read (self example_socket)) (filter (\<lambda>b. b \<noteq> []) (map (\<lambda>n. [of_nat n]) [Suc 0..<Suc B])) @
       (if got_fin_reached s' then [On_State_Change (self example_socket) UTP_STATE_EOF] else []))"
    by (rule stream_delivered_in_order [OF example_socket_in_ok example_reader_ok]) (simp_all add: example_fields)
  then show ?thesis unfolding s by (rule wpo_mono) auto
qed

text \<open>C17: retransmission completes the stream. After any arrivals, once the packets of the stream
  arrive in order (what the sender's retransmission brings about), all data has been reported,
  followed by the end of the stream, whatever had been received, dropped or buffered before.\<close>

theorem stream_completes:
  assumes "in_ok s" and "ctx_ok ctx" and "app_ok L ctx" and "\<forall>n. length (pay n) < 2 ^ 32"
    and "ack_nr s = of_nat A" and "A < E" and "\<not> got_fin s" and "\<not> got_fin_reached s" and "reorder_count s = 0"
    and "\<not> read_shutdown s" and "callbacks ctx UTP_ON_READ \<noteq> None" and "callbacks ctx UTP_ON_STATE_CHANGE \<noteq> None"
    and "state s = CS_CONNECTED \<or> state s = CS_CONNECTED_FULL" and "E < A + 64512"
  shows "wpo (recv_stream pay E (ns @ [Suc A..<Suc E]) (A, s, ctx)) (\<lambda>(B, s', ctx').
           B = E \<and> ack_nr s' = of_nat E \<and> got_fin_reached s' \<and>
           upcalls (self s) ctx' = upcalls (self s) ctx @
             map (On_Read (self s)) (filter (\<lambda>b. b \<noteq> []) (map pay [Suc A..<Suc E])) @
             [On_State_Change (self s) UTP_STATE_EOF])"
proof -
  note start = stream_start [OF assms(1,5) less_imp_le [OF assms(6)] assms(7-12)]
  have len: "\<And>n. length (pay n) < 2 ^ 32" using assms(4) by simp
  show ?thesis
    unfolding recv_stream_append
  proof (rule wpo_bindI [OF recv_stream_inv [OF assms(1) start(1) assms(2,3) start(2) len, where ns = ns]], goal_cases)
    case (1 x)
    obtain B s1 ctx1 where x: "x = (B, s1, ctx1)" by (cases x)
    have "wpo (recv_stream pay E [Suc A..<Suc A + (E - A)] (B, s1, ctx1)) (\<lambda>(B, s', ctx'). in_ok s' \<and> eof_checked s' \<and>
           stream_inv pay E (self s) (upcalls (self s) ctx) A E (s', ctx') \<and> B = E)"
      using 1 assms(6,13,14) len by (intro recv_stream_pass) (auto simp: x stream_inv_def)
    then show ?case
      using assms(6) by (auto simp: x stream_inv_def reads_def eof_checked_def simp del: upt_Suc elim!: wpo_mono)
  qed
qed

theorem stream_completes_witness:
  "wpo (recv_stream (\<lambda>n. [of_nat n]) 3 ([3, 3, 2] @ [1, 2, 3]) (0, example_socket, example_reader)) (\<lambda>(B, s', ctx').
     B = 3 \<and> got_fin_reached s' \<and>
     upcalls 0 ctx' = upcalls 0 example_reader @ [On_Read 0 [1], On_Read 0 [2], On_Read 0 [3], On_State_Change 0 UTP_STATE_EOF])"
proof -
  have s: "self example_socket = 0" by (simp add: example_fields)
  have l: "[Suc 0..<Suc 3] = [1, 2, 3]" by (simp add: upt_rec)
  have "wpo (recv_stream (\<lambda>n. [of_nat n]) 3 ([3, 3, 2] @ [Suc 0..<Suc 3]) (0, example_socket, example_reader)) (\<lambda>(B, s', ctx').
     B = 3 \<and> ack_nr s' = of_nat 3 \<and> got_fin_reached s' \<and>
     upcalls (self example_socket) ctx' = upcalls (self example_socket) example_reader @
       map (On_Read (self example_socket)) (filter (\<lambda>b. b \<noteq> []) (map (\<lambda>n. [of_nat n]) [Suc 0..<Suc 3])) @
       [On_State_Change (self example_socket) UTP_STATE_EOF])"
    by (rule stream_completes [OF example_socket_in_ok example_reader_ok]) (simp_all add: example_fields)
  then show ?thesis unfolding l s by (rule wpo_mono) auto
qed

subsection \<open>Packets dropped near the end of the stream\<close>


end
