(* ===== verification/Utp_Delivery.thy ===== *)
theory Utp_Delivery
  imports Utp_Session Utp_Stream
begin

section \<open>From the sender to the receiver\<close>

text \<open>
  The handler of incoming packets delivers the stream of the peer: \<open>stream_inv\<close>, which \<open>recv_packet\<close> keeps,
  is kept by the whole handler and by the timers and acks of the receiving socket. Put together with the
  session of the sender, what the application reads at one end is what was written at the other.
\<close>

subsection \<open>Steps that deliver nothing\<close>

definition delivering :: "nat \<Rightarrow> (nat \<Rightarrow> byte list) \<Rightarrow> nat \<Rightarrow> sid \<Rightarrow> utp_callback_arguments list \<Rightarrow> nat \<Rightarrow> nat \<Rightarrow> conn \<Rightarrow> bool" where
  "delivering L pay E i U A0 A = (\<lambda>(s, ctx). in_ok s \<and> eof_checked s \<and> ctx_ok ctx \<and> app_ok L ctx \<and> stream_inv pay E i U A0 A (s, ctx))"

lemma upcalls_emits:
  assumes "emits (owned False j) ctx ctx'"
  shows "upcalls i ctx' = upcalls i ctx"
proof -
  obtain cs where cs: "calls ctx' = calls ctx @ cs" "list_all (owned False j) cs" using assms by (auto simp: emits_def)
  have "\<not> upcall i a" if "owned False j a" for a using that by (cases "(False, j, a)" rule: owned.cases) simp_all
  then have "filter (upcall i) cs = []" using cs(2) by (auto simp: list_all_iff filter_empty_conv)
  then show ?thesis by (simp add: upcalls_def cs(1))
qed

lemma stream_inv_quiet:
  assumes inv: "stream_inv pay E i U A0 A (s, ctx)" and eq: "rx_core s' = rx_core s" "fin_core s' = fin_core s" "self s' = self s" "read_shutdown s' = read_shutdown s"
    and em: "emits (owned False j) ctx ctx'"
  shows "stream_inv pay E i U A0 A (s', ctx')"
proof -
  have f: "inbuf s' = inbuf s" "ack_nr s' = ack_nr s" "got_fin_reached s' = got_fin_reached s" "got_fin s' = got_fin s" "eof_pkt s' = eof_pkt s"
    using eq(1,2) by (simp_all add: rx_core_def fin_core_def)
  have "in_window s' = in_window s" by (simp add: in_window_def f)
  moreover have "callbacks ctx' = callbacks ctx" using em by (simp add: emits_def)
  ultimately show ?thesis using inv upcalls_emits [OF em, of i] by (simp add: stream_inv_def f eq(3,4))
qed

lemma delivering_quiet:
  assumes "delivering L pay E i U A0 A (s, ctx)" and st: "conn_step T L lo hi (s, ctx) (s', ctx')" and w: "wired False (s, ctx) (s', ctx')"
  shows "delivering L pay E i U A0 A (s', ctx')"
proof -
  have inv: "sock_inv T L lo hi (s', ctx')" by (rule conn_stepD [OF st])
  have eq: "rx_core s' = rx_core s" "fin_core s' = fin_core s" "self s' = self s" "read_shutdown s' = read_shutdown s"
    using st w by (simp_all add: conn_step_def conn_done_def same_conn_def wired_def fin_core_def)
  have em: "emits (owned False (self s)) ctx ctx'" using w by (simp add: wired_def)
  have "stream_inv pay E i U A0 A (s, ctx)" using assms(1) by (simp add: delivering_def)
  then have "stream_inv pay E i U A0 A (s', ctx')" by (rule stream_inv_quiet [OF _ eq em])
  moreover have "eof_checked s'" using assms(1) eq by (simp add: delivering_def eof_checked_def rx_core_def fin_core_def)
  ultimately show ?thesis using inv by (simp add: delivering_def sock_inv_def ack_inv_def)
qed

lemma delivering_ctx:
  assumes "delivering L pay E i U A0 A (s, ctx)" and "sock_inv T L lo hi (s', ctx')" and "emits (owned False j) ctx ctx'"
    and "rx_core s' = rx_core s" "fin_core s' = fin_core s" "self s' = self s" "read_shutdown s' = read_shutdown s"
  shows "delivering L pay E i U A0 A (s', ctx')"
  using assms stream_inv_quiet [of pay E i U A0 A s ctx s' j ctx']
  by (simp add: delivering_def sock_inv_def ack_inv_def eof_checked_def rx_core_def fin_core_def)

subsection \<open>One datagram\<close>

text \<open>What a datagram of the peer is to the receiver: an ack, or packet \<open>n\<close> of the stream.\<close>

definition fits :: "(nat \<Rightarrow> byte list) \<Rightarrow> nat \<Rightarrow> nat \<Rightarrow> PacketFormatV1 \<Rightarrow> byte list \<Rightarrow> bool" where
  "fits pay E A pf b \<longleftrightarrow> pf_type pf = ST_STATE \<or>
     (\<exists>n. timely A n \<and> n \<le> E \<and> length (pay n) < 2 ^ 32 \<and> pf_type pf = (if n = E then ST_FIN else ST_DATA) \<and> pf_seq_nr pf = of_nat n \<and> pf_ext pf = 0 \<and> b = pay n)"

lemma fits_recv:
  assumes d: "delivering L pay E i U A0 A (s, ctx)" and f: "fits pay E A pf b"
  shows "wpo (recv_packet (pf_type pf) (pf_seq_nr pf) b (s, ctx)) (\<lambda>(_, c'). \<exists>B. delivering L pay E i U A0 B c')"
  using f unfolding fits_def
proof (elim disjE exE conjE)
  assume t: "pf_type pf = ST_STATE"
  have "delivering L pay E i U A0 A (s, schedule_ack (self s) ctx)"
    using d ctx_step_ok [OF ctx_step_schedule, of ctx "self s"] ctx_step_app [OF ctx_step_schedule, of L ctx "self s"] by (simp add: delivering_def)
  then show ?thesis using d t by (auto simp: recv_packet_def drop_stray_def Let_def)
next
  fix n assume n: "timely A n" "n \<le> E" "length (pay n) < 2 ^ 32" "pf_type pf = (if n = E then ST_FIN else ST_DATA)" "pf_seq_nr pf = of_nat n" "b = pay n"
  have d': "in_ok s" "eof_checked s" "ctx_ok ctx" "app_ok L ctx" "stream_inv pay E i U A0 A (s, ctx)" using d by (simp_all add: delivering_def)
  show ?thesis
    unfolding n(4-6) by (rule wpo_mono [OF stream_packet [OF d' n(1-3)]]) (auto simp: stream_post_def delivering_def)
qed

text \<open>The handler after the header is \<open>handle_ack\<close> followed by \<open>recv_packet\<close>.\<close>

lemma deliver_accepted:
  assumes inv: "sock_inv T L lo hi (s, ctx)" and sp: "span lo hi" and T: "T + 6 < 2 ^ 31" and sel: "selack_ok selack"
    and d: "delivering L pay E i U A0 A (s, ctx)" and f: "fits pay E A pf b" and near: "\<not> REORDER_BUFFER_MAX_SIZE \<le> relative_seqnr (pf_seq_nr pf) s"
  shows "wpo (process_accepted pf time (relative_seqnr (pf_seq_nr pf) s) selack b (s, ctx)) (\<lambda>(_, c'). \<exists>B. delivering L pay E i U A0 B c')"
proof -
  have "cb_ok (outbuf s)" using inv by (simp add: sock_inv_def out_ok_def)
  note h = wlp_wpo [OF handle_ack_spec [OF inv sp T sel] wlp_handle_ack [OF this, where rd = False]]
  show ?thesis
    unfolding process_accepted_def Let_def
  proof (rule wpo_bindI [OF h], clarify)
    fix s5 ctx5 assume st: "conn_step (T + 6) L lo hi (s, ctx) (s5, ctx5)" and w: "wired False (s, ctx) (s5, ctx5)"
    have "delivering L pay E i U A0 A (s5, ctx5)" by (rule delivering_quiet [OF d st w])
    note r = fits_recv [OF this f]
    have "relative_seqnr (pf_seq_nr pf) s5 = relative_seqnr (pf_seq_nr pf) s" using st by (simp add: conn_step_def rx_core_def relative_seqnr_def)
    then show "wpo (if pf_type pf = ST_STATE then Some (0, s5, ctx5)
       else if state (fst (s5, ctx5)) \<noteq> CS_CONNECTED \<and> state (fst (s5, ctx5)) \<noteq> CS_CONNECTED_FULL then Some (0, s5, ctx5)
       else recv_data (pf_type pf) (pf_seq_nr pf) (relative_seqnr (pf_seq_nr pf) s) b (s5, ctx5)) (\<lambda>(_, c'). \<exists>B. delivering L pay E i U A0 B c')"
      using r near by (simp add: recv_packet_def Let_def)
  qed
qed

lemma deliver_parsed:
  assumes inv: "sock_inv T L lo hi (s, ctx)" and sp: "span lo hi" and T: "T + 6 < 2 ^ 31" and slack: "slack \<noteq> []" and r: "ext_safe p r"
    and st: "state s \<noteq> CS_SYN_SENT" and d: "delivering L pay E i U A0 A (s, ctx)" and f: "\<And>e sel off. r = Ext_Ok e sel off \<Longrightarrow> fits pay E A pf (drop off p)"
  shows "wpo (process_parsed p slack False pf time r (s, ctx)) (\<lambda>(_, c'). \<exists>B. delivering L pay E i U A0 B c')"
proof -
  let ?s1 = "s\<lparr>extensions := ext_bits r\<rparr>" and ?s3 = "s\<lparr>extensions := ext_bits r, last_got_packet := current_ms ctx\<rparr>"
  have e: "length (ext_bits r) = 8" using r by (simp add: ext_safe_def)
  have "sock_inv T L lo hi (?s1, ctx)" using conn_doneD [OF conn_done_header(1) [OF inv e]] .
  then have d1: "delivering L pay E i U A0 A (?s1, ctx)" by (rule delivering_ctx [OF d _ emits_refl]) (simp_all add: rx_core_def fin_core_def)
  have inv3: "sock_inv T L lo hi (?s3, ctx)" using conn_doneD [OF conn_done_header(2) [OF inv e]] st by simp
  then have d3: "delivering L pay E i U A0 A (?s3, ctx)" by (rule delivering_ctx [OF d _ emits_refl]) (simp_all add: rx_core_def fin_core_def)
  show ?thesis
  proof (cases r)
    case (Ext_Invalid e)
    then show ?thesis using d1 by (auto simp: process_parsed_def)
  next
    case (Ext_Ok e sel off)
    note fit = f [OF Ext_Ok]
    obtain selack where sel: "selack_at (p @ slack) sel = Some selack" "selack_ok selack" using selack_at_ok r slack unfolding Ext_Ok by blast
    show ?thesis
    proof (cases "REORDER_BUFFER_MAX_SIZE \<le> relative_seqnr (pf_seq_nr pf) ?s3")
      case True
      then show ?thesis using fits_recv [OF d3 fit] st by (simp add: process_parsed_def Ext_Ok recv_packet_def Let_def)
    next
      case False
      show ?thesis using deliver_accepted [OF inv3 sp T sel(2) d3 fit False, of time] False st sel(1) by (simp add: process_parsed_def Ext_Ok Let_def)
    qed
  qed
qed

text \<open>A datagram of the peer that reaches the socket.\<close>

lemma deliver_incoming:
  assumes inv: "sock_inv T L lo hi (s, ctx)" and sp: "span lo hi" and T: "T + 6 < 2 ^ 31" and slack: "slack \<noteq> []"
    and len: "length (pf_bytes h @ b) < 2 ^ 31" and st: "state s \<noteq> CS_SYN_SENT"
    and d: "delivering L pay E i U A0 A (s, ctx)" and f: "fits pay E A h b"
  shows "wpo (utp_process_incoming (pf_bytes h @ b) slack False (s, ctx)) (\<lambda>(_, s', ctx'). sock_inv (T + 6) L lo hi (s', ctx') \<and> state s' \<noteq> CS_SYN_SENT \<and>
     (\<exists>B. delivering L pay E i U A0 B (s', ctx')))"
proof -
  let ?p = "pf_bytes h @ b"
  have ty: "pf_type h = drop_bit 4 (?p ! 0)" by (simp add: pf_type_def pf_bytes_def)
  have nr: "pf_type h \<noteq> ST_RESET" using f by (auto simp: fits_def ST_STATE_def ST_FIN_def ST_DATA_def ST_RESET_def split: if_splits)
  have keep: "wpo (utp_process_incoming ?p slack False (s, ctx)) (\<lambda>(n, c'). conn_done (T + 6) L lo hi (s, ctx) c' \<and> unat n \<le> length ?p)"
    using len nr ty by (intro utp_process_incoming_keeps [OF inv sp T _ _ slack]) (simp_all add: sizeof_PacketFormatV1_def)
  obtain ms ctx2 where ms: "utp_call_get_milliseconds (utp_register_recv_packet ctx (of_nat (length ?p))) (Some (self s)) = (ms, ctx2)" by fastforce
  define ctx3 where "ctx3 = ctx2\<lparr>current_ms := ms\<rparr>"
  have d3: "conn_done T L lo hi (s, ctx) (s, ctx3)" unfolding ctx3_def by (rule conn_done_clock [OF inv ms])
  obtain time ctx4 where time: "utp_call_get_microseconds ctx3 (Some (self s)) = (time, ctx4)" by fastforce
  have "conn_step T L lo hi (s, ctx3) (s, ctx4)" by (rule trace_conn_step [OF conn_doneD [OF d3] trace_ext_microseconds [OF time]])
  then have inv4: "sock_inv T L lo hi (s, ctx4)" by (rule conn_stepD)
  have "idle False (s, ctx) (s, utp_register_recv_packet ctx (of_nat (length ?p)))" by (simp add: utp_register_recv_packet_def Let_def)
  then have i3: "idle False (s, ctx) (s, ctx3)" unfolding ctx3_def using idle_clock(2) [OF ms] by simp
  have i4: "idle False (s, ctx) (s, ctx4)" by (rule idle_clock(1) [OF time i3])
  have em: "emits (owned False (self s)) ctx ctx3" "emits (owned False (self s)) ctx ctx4"
    using wired_idle [OF i3] wired_idle [OF i4] by (simp_all add: wired_def)
  have del: "delivering L pay E i U A0 A (s, ctx3)" "delivering L pay E i U A0 A (s, ctx4)"
    by (rule delivering_ctx [OF d conn_doneD [OF d3] em(1)] delivering_ctx [OF d inv4 em(2)], simp_all)+
  have ext: "wpo (parse_extensions ?p (extensions s)) (ext_safe ?p)"
    using inv len by (intro parse_extensions_safe) (simp_all add: sock_inv_def sizeof_PacketFormatV1_def)
  have body: "wpo (process_parsed ?p slack False h time r (s, ctx4)) (\<lambda>(_, c'). \<exists>B. delivering L pay E i U A0 B c')"
    if r: "parse_extensions ?p (extensions s) = Some r" for r
  proof (rule deliver_parsed [OF inv4 sp T slack _ st del(2)])
    show "ext_safe ?p r" using ext r by simp
    fix e sel off assume "r = Ext_Ok e sel off"
    moreover have "byte_at ?p 1 = Some (pf_ext h)" by (simp add: byte_at_def pf_bytes_def)
    ultimately have "pf_ext h = 0 \<Longrightarrow> drop off ?p = b" using r by (auto simp: parse_extensions_def sizeof_PacketFormatV1_def)
    then show "fits pay E A h (drop off ?p)" using f unfolding fits_def by auto
  qed
  have "wpo (utp_process_incoming ?p slack False (s, ctx)) (\<lambda>(_, c'). \<exists>B. delivering L pay E i U A0 B c')"
    unfolding utp_process_incoming_def prod.case ms Let_def ctx3_def [symmetric] append_assoc pf_of_bytes_pf_bytes bind.bind_lunit time
    using del nr ext body by (auto simp: sizeof_PacketFormatV1_def wpo_ex)
  from wpo_conj [OF keep this] show ?thesis by (rule wpo_mono) (use st in \<open>auto simp: conn_done_def\<close>)
qed

end
