(* ===== verification/Utp_Transfer.thy ===== *)
theory Utp_Transfer
  imports Utp_Delivery
begin

section \<open>End to end\<close>

text \<open>
  The packets of a session, as the network sees them, and a receiver that gets any of them in any order
  and any number of times.
\<close>

subsection \<open>The packets of a session\<close>

definition syn_datagram :: "byte list \<Rightarrow> bool" where
  "syn_datagram d \<longleftrightarrow> (\<exists>h b. d = pf_bytes h @ b \<and> pf_type h = ST_SYN)"

text \<open>The datagram \<open>d\<close> carries packet \<open>j\<close> of the stream that starts with number \<open>M\<close>.\<close>

definition is_packet :: "bool \<Rightarrow> nat \<Rightarrow> byte list list \<Rightarrow> nat \<Rightarrow> byte list \<Rightarrow> bool" where
  "is_packet fin M pkts j d \<longleftrightarrow> j < length pkts \<and> (\<exists>h. d = pf_bytes h @ pkts ! j \<and> pf_version h = 1 \<and> pf_ext h = 0 \<and>
     pf_type h = (if fin \<and> Suc j = length pkts then ST_FIN else ST_DATA) \<and> pf_seq_nr h = of_nat (M + j))"

definition packets :: "bool \<Rightarrow> nat \<Rightarrow> byte list list \<Rightarrow> byte list set \<Rightarrow> bool" where
  "packets fin M pkts D \<longleftrightarrow> (fin \<longrightarrow> pkts \<noteq> [] \<and> last pkts = []) \<and>
     (\<forall>d \<in> D. ack_datagram d \<or> syn_datagram d \<or> (\<exists>j. is_packet fin M pkts j d))"

lemma tx_inv_packets:
  assumes "tx_inv k M n w (s, ctx)"
  obtains pkts where "concat pkts = w" "length pkts \<le> length w + n" "packets (fin_sent s) M pkts (set (sent k (self s) ctx))"
proof -
  obtain G N S where w: "wire_with k M G N S (s, ctx)" and st: "stream G M N = w" and ty: "typed (fin_sent s) M N G" and len: "N \<le> M + length w + n"
    using assms by (auto simp: tx_inv_def wire_def)
  let ?pkts = "map (\<lambda>n. snd (G n)) [M..<N]"
  have MN: "M \<le> N" using w by (simp add: wire_with_def)
  have "ack_datagram d \<or> syn_datagram d \<or> (\<exists>j. is_packet (fin_sent s) M ?pkts j d)" if d: "d \<in> set (sent k (self s) ctx)" for d
  proof -
    have "ack_datagram d \<or> (\<exists>n < N. carries G n d)" using w d unfolding wire_with_def prod.case by blast
    then show ?thesis
    proof (elim disjE exE conjE)
      fix n assume n: "n < N" and "carries G n d"
      then obtain h where h: "d = pf_bytes h @ snd (G n)" "pf_type h = fst (G n)" "pf_version h = 1" "pf_ext h = 0" "pf_seq_nr h = of_nat n"
        by (auto simp: carries_def)
      have t: "fst (G n) = (if n < M then ST_SYN else if fin_sent s \<and> Suc n = N then ST_FIN else ST_DATA)" using ty n by (simp add: typed_def)
      show ?thesis
      proof (cases "n < M")
        case True
        then show ?thesis using h t unfolding syn_datagram_def by auto
      next
        case False
        have j: "n - M < length ?pkts" "?pkts ! (n - M) = snd (G n)" "(Suc (n - M) = length ?pkts) = (Suc n = N)" "M + (n - M) = n"
          using False n by auto
        have "is_packet (fin_sent s) M ?pkts (n - M) d" unfolding is_packet_def j(2-4) using h t False j(1) by auto
        then show ?thesis by blast
      qed
    qed simp
  qed
  moreover have "?pkts \<noteq> [] \<and> last ?pkts = []" if "fin_sent s" using ty that by (auto simp: typed_def last_map)
  ultimately have "packets (fin_sent s) M ?pkts (set (sent k (self s) ctx))" unfolding packets_def by blast
  moreover have "concat ?pkts = w" "length ?pkts \<le> length w + n" using st len by (simp_all add: stream_def)
  ultimately show thesis using that by blast
qed

subsection \<open>The receiver\<close>

text \<open>What happens to the receiving socket: a datagram arrives, its timers run, a pending ack is sent.\<close>

datatype peer_event =
  Peer_Datagram "byte list" "byte list"
| Peer_Timers
| Peer_Ack

fun peer_step :: "peer_event \<Rightarrow> conn \<Rightarrow> conn option" where
  "peer_step (Peer_Datagram d slack) c = map_option snd (utp_process_incoming d slack False c)"
| "peer_step Peer_Timers c = check_timeouts c"
| "peer_step Peer_Ack c = send_ack False c"

fun receive :: "peer_event list \<Rightarrow> conn \<Rightarrow> conn option" where
  "receive [] c = Some c"
| "receive (e # es) c = peer_step e c \<bind> receive es"

text \<open>A datagram that is an ack or a packet, wherever the receiver stands.\<close>

definition genuine :: "(nat \<Rightarrow> byte list) \<Rightarrow> nat \<Rightarrow> nat \<Rightarrow> byte list \<Rightarrow> bool" where
  "genuine pay E A0 d \<longleftrightarrow> length d < 2 ^ 31 \<and> (\<exists>h b. d = pf_bytes h @ b \<and> (\<forall>A. A0 \<le> A \<longrightarrow> A \<le> E \<longrightarrow> fits pay E A h b))"

fun peer_ok :: "(byte list \<Rightarrow> bool) \<Rightarrow> peer_event \<Rightarrow> bool" where
  "peer_ok P (Peer_Datagram d slack) = (P d \<and> slack \<noteq> [])"
| "peer_ok P _ = True"

definition listening :: "nat \<Rightarrow> nat \<Rightarrow> nat \<Rightarrow> nat \<Rightarrow> (nat \<Rightarrow> byte list) \<Rightarrow> nat \<Rightarrow> sid \<Rightarrow> utp_callback_arguments list \<Rightarrow> nat \<Rightarrow> conn \<Rightarrow> bool" where
  "listening T L lo hi pay E i U A0 = (\<lambda>(s, ctx). sock_inv T L lo hi (s, ctx) \<and> state s \<noteq> CS_SYN_SENT \<and> (\<exists>A. delivering L pay E i U A0 A (s, ctx)))"

lemma peer_step_listening:
  assumes l: "listening T L lo hi pay E i U A0 c" and sp: "span lo hi" and T: "T + 6 < 2 ^ 31" and e: "peer_ok (genuine pay E A0) e"
  shows "wpo (peer_step e c) (listening (T + 6) L lo hi pay E i U A0)"
proof -
  obtain s ctx where c: "c = (s, ctx)" by (cases c)
  have inv: "sock_inv T L lo hi (s, ctx)" and st: "state s \<noteq> CS_SYN_SENT" using l by (simp_all add: listening_def c)
  obtain A where d: "delivering L pay E i U A0 A (s, ctx)" using l by (auto simp: listening_def c)
  have quiet: "listening (T + 6) L lo hi pay E i U A0 (s', ctx')" if "conn_step T' L lo hi (s, ctx) (s', ctx')" "wired False (s, ctx) (s', ctx')" "T' \<le> T + 6" for s' ctx' T'
  proof -
    have "state s' \<noteq> CS_SYN_SENT" using that(1) st by (auto simp: conn_step_def conn_done_def)
    then show ?thesis using sock_inv_mono [OF conn_stepD [OF that(1)] that(3)] delivering_quiet [OF d that(1,2)] by (auto simp: listening_def)
  qed
  show ?thesis
  proof (cases e)
    case (Peer_Datagram p slack)
    then have g: "genuine pay E A0 p" "slack \<noteq> []" using e by simp_all
    have "A0 \<le> A" "A \<le> E" using d by (simp_all add: delivering_def stream_inv_def)
    then obtain h b where p: "p = pf_bytes h @ b" "fits pay E A h b" and len: "length p < 2 ^ 31" using g(1) unfolding genuine_def by blast
    have "wpo (utp_process_incoming p slack False (s, ctx)) (\<lambda>(_, s', ctx'). sock_inv (T + 6) L lo hi (s', ctx') \<and> state s' \<noteq> CS_SYN_SENT \<and>
       (\<exists>B. delivering L pay E i U A0 B (s', ctx')))"
      using deliver_incoming [OF inv sp T g(2) _ st d p(2)] len p(1) by simp
    then show ?thesis by (auto simp: Peer_Datagram c listening_def wpo_ex)
  next
    case Peer_Timers
    have "T + 2 < 2 ^ 31" using T by simp
    from wlp_wpo [OF check_timeouts_spec [OF inv this] wlp_check_timeouts] have "wpo (check_timeouts (s, ctx)) (listening (T + 6) L lo hi pay E i U A0)"
      by (rule wpo_mono) (auto intro: quiet)
    then show ?thesis by (simp add: Peer_Timers c)
  next
    case Peer_Ack
    have ok: "in_ok s" "ctx_ok ctx" "app_ok L ctx" using inv by (simp_all add: sock_inv_def ack_inv_def)
    then have "reorder_count s \<noteq> 0 \<and> \<not> got_fin_reached s \<longrightarrow> \<not> False \<and> cb_get (inbuf s) (ucast (ack_nr s) + 1) = None"
      by (auto simp: in_ok_def in_loop_def in_window_hd [symmetric])
    from wlp_wpo [OF send_ack_spec [OF ok(2,3) this] wlp_send_ack [OF idle_refl, where rd = False]]
    have "wpo (send_ack False (s, ctx)) (listening (T + 6) L lo hi pay E i U A0)"
      by (rule wpo_mono) (auto intro: quiet ack_sent_conn_step [OF inv] wired_idle)
    then show ?thesis by (simp add: Peer_Ack c)
  qed
qed

lemma receive_listening:
  assumes "listening T L lo hi pay E i U A0 c" and sp: "span lo hi" and "T + 6 * length es < 2 ^ 31" and "list_all (peer_ok (genuine pay E A0)) es"
  shows "wpo (receive es c) (listening (T + 6 * length es) L lo hi pay E i U A0)"
  using assms(1,3,4)
proof (induction es arbitrary: T c)
  case (Cons e es)
  have e: "T + 6 * length (e # es) = (T + 6) + 6 * length es" by simp
  have "T + 6 < 2 ^ 31" "peer_ok (genuine pay E A0) e" using Cons.prems by simp_all
  then show ?case unfolding e receive.simps
    by (intro wpo_bindI [OF peer_step_listening [OF Cons.prems(1) sp]] Cons.IH) (use Cons.prems in simp_all)
qed simp

text \<open>The receiver at the start of the stream: it expects number \<open>M\<close>.\<close>

definition expects :: "nat \<Rightarrow> conn \<Rightarrow> bool" where
  "expects M = (\<lambda>(s, ctx). 0 < M \<and> ack_nr s = of_nat (M - 1) \<and> state s \<noteq> CS_SYN_SENT \<and> \<not> got_fin s \<and> \<not> got_fin_reached s \<and> reorder_count s = 0 \<and>
     \<not> read_shutdown s \<and> callbacks ctx UTP_ON_READ \<noteq> None \<and> callbacks ctx UTP_ON_STATE_CHANGE \<noteq> None)"

text \<open>What the application of socket \<open>i\<close> has been told in the meantime: the bytes \<open>b\<close>, and perhaps the end of the stream after them.\<close>

definition delivered :: "sid \<Rightarrow> utp_context \<Rightarrow> utp_context \<Rightarrow> byte list \<Rightarrow> bool \<Rightarrow> bool" where
  "delivered i ctx ctx' b eof \<longleftrightarrow> (\<exists>bs. concat bs = b \<and>
     upcalls i ctx' = upcalls i ctx @ map (On_Read i) bs @ (if eof then [On_State_Change i UTP_STATE_EOF] else []))"

lemma expects_listening:
  assumes "sock_inv T L lo hi (s, ctx)" and "expects M (s, ctx)" and "M - 1 \<le> E"
  shows "listening T L lo hi pay E (self s) (upcalls (self s) ctx) (M - 1) (s, ctx)"
proof -
  have ok: "in_ok s" "ctx_ok ctx" "app_ok L ctx" using assms(1) by (simp_all add: sock_inv_def ack_inv_def)
  have e: "ack_nr s = of_nat (M - 1)" "\<not> got_fin s" "\<not> got_fin_reached s" "reorder_count s = 0" "\<not> read_shutdown s"
    "callbacks ctx UTP_ON_READ \<noteq> None" "callbacks ctx UTP_ON_STATE_CHANGE \<noteq> None" "state s \<noteq> CS_SYN_SENT"
    using assms(2) by (simp_all add: expects_def)
  show ?thesis
    using stream_start(1) [OF ok(1) e(1) assms(3) e(2-7)] stream_start(2) [OF ok(1) e(1) assms(3) e(2-7), of pay] ok e(8) assms(1) by (auto simp: listening_def delivering_def)
qed

definition payload_at :: "nat \<Rightarrow> byte list list \<Rightarrow> nat \<Rightarrow> byte list" where
  "payload_at M pkts n = (if M \<le> n \<and> n < M + length pkts then pkts ! (n - M) else [])"

lemma payload_at_upt: "map (payload_at M pkts) [M..<M + length pkts] = pkts"
  by (rule nth_equalityI) (simp_all add: payload_at_def)

lemma payload_prefix:
  shows "\<exists>rest. concat pkts = concat (map (payload_at M pkts) [M..<B]) @ rest \<and> (M + length pkts \<le> B \<longrightarrow> rest = [])"
proof (cases "M + length pkts \<le> B")
  case True
  have "[M..<B] = [M..<M + length pkts] @ [M + length pkts..<B]" using True upt_add_eq_append [of M "M + length pkts" "B - (M + length pkts)"] by simp
  moreover have "concat (map (payload_at M pkts) [M + length pkts..<B]) = []" by (simp add: payload_at_def)
  ultimately show ?thesis using payload_at_upt [of M pkts] by simp
next
  case False
  show ?thesis
  proof (cases "M \<le> B")
    case True
    then have "[M..<M + length pkts] = [M..<B] @ [B..<M + length pkts]" using False upt_add_eq_append [of M B "M + length pkts - B"] by simp
    then show ?thesis using payload_at_upt [of M pkts] False by (metis concat_append map_append)
  qed (use False in simp)
qed

text \<open>The packets of a session are genuine, for the number of the FIN, or for any later one when no FIN has been sent.\<close>

lemma packets_genuine:
  assumes "packets fin M pkts D" and "d \<in> D" and "\<not> syn_datagram d" and len: "length d < 2 ^ 31" and M: "0 < M"
    and n: "length pkts < 64000" and E: "if fin then Suc E = M + length pkts else E \<in> {M + length pkts, Suc (M + length pkts)}"
    and small: "length (concat pkts) < 2 ^ 32"
  shows "genuine (payload_at M pkts) E (M - 1) d"
proof -
  consider (ack) "ack_datagram d" | (packet) j where "is_packet fin M pkts j d" using assms(1-3) unfolding packets_def by blast
  then show ?thesis
  proof cases
    case ack
    then show ?thesis using len unfolding ack_datagram_def genuine_def fits_def by auto
  next
    case packet
    then obtain h where j: "j < length pkts" and h: "d = pf_bytes h @ pkts ! j" "pf_ext h = 0"
      "pf_type h = (if fin \<and> Suc j = length pkts then ST_FIN else ST_DATA)" "pf_seq_nr h = of_nat (M + j)" by (auto simp: is_packet_def)
    have pay: "payload_at M pkts (M + j) = pkts ! j" using j by (simp add: payload_at_def)
    have "length (pkts ! j) \<le> length (concat pkts)" using j by (simp add: length_concat elem_le_sum_list [of j "map length pkts", simplified])
    then have l: "length (pkts ! j) < 2 ^ 32" using small by simp
    have ty: "pf_type h = (if M + j = E then ST_FIN else ST_DATA)" and jE: "M + j \<le> E" using h(3) E j by (auto split: if_splits)
    have "timely A (M + j)" if "M - 1 \<le> A" "A \<le> E" for A using that E j n M by (auto simp: timely_def split: if_splits)
    then have "fits (payload_at M pkts) E A h (pkts ! j)" if "M - 1 \<le> A" "A \<le> E" for A
      unfolding fits_def using that ty jE l h(2,4) pay by (intro disjI2 exI [of _ "M + j"]) simp
    then show ?thesis unfolding genuine_def using len h(1) by blast
  qed
qed

lemma concat_nonempty: "concat (filter (\<lambda>b. b \<noteq> []) bs) = concat bs"
  by (induction bs) simp_all

text \<open>What the receiver has told its application, whatever it got.\<close>

lemma listening_delivered:
  assumes "listening T L lo hi (payload_at M pkts) E (self s) (upcalls (self s) ctx) (M - 1) (s', ctx')" and "0 < M" and "fin \<longrightarrow> Suc E = M + length pkts"
  shows "\<exists>b rest. delivered (self s) ctx ctx' b (got_fin_reached s') \<and> concat pkts = b @ rest \<and> (got_fin_reached s' \<and> fin \<longrightarrow> rest = [])"
    and "got_fin s' \<Longrightarrow> eof_pkt s' = of_nat E" and "got_fin_reached s' \<Longrightarrow> got_fin s'"
proof -
  obtain B where inv: "stream_inv (payload_at M pkts) E (self s) (upcalls (self s) ctx) (M - 1) B (s', ctx')"
    using assms(1) by (auto simp: listening_def delivering_def)
  let ?bs = "map (payload_at M pkts) [M..<Suc B]"
  have S: "Suc (M - 1) = M" using assms(2) by simp
  have up: "upcalls (self s) ctx' = upcalls (self s) ctx @ map (On_Read (self s)) (filter (\<lambda>b. b \<noteq> []) ?bs) @
     (if got_fin_reached s' then [On_State_Change (self s) UTP_STATE_EOF] else [])"
    using inv unfolding stream_inv_def prod.case reads_def S by blast
  have c: "concat (filter (\<lambda>b. b \<noteq> []) ?bs) = concat ?bs" by (rule concat_nonempty)
  have d: "delivered (self s) ctx ctx' (concat ?bs) (got_fin_reached s')" unfolding delivered_def using up c by blast
  obtain rest where r: "concat pkts = concat ?bs @ rest" "M + length pkts \<le> Suc B \<longrightarrow> rest = []" using payload_prefix [of pkts M "Suc B"] by blast
  have "got_fin_reached s' \<Longrightarrow> B = E" using inv by (simp add: stream_inv_def)
  then have "got_fin_reached s' \<and> fin \<longrightarrow> rest = []" using r(2) assms(3) by auto
  then show "\<exists>b rest. delivered (self s) ctx ctx' b (got_fin_reached s') \<and> concat pkts = b @ rest \<and> (got_fin_reached s' \<and> fin \<longrightarrow> rest = [])"
    using d r(1) by blast
  show "got_fin s' \<Longrightarrow> eof_pkt s' = of_nat E" "got_fin_reached s' \<Longrightarrow> got_fin s'" using inv by (simp_all add: stream_inv_def)
qed

lemma receive_packets:
  assumes pk: "packets fin M pkts D" and n: "length pkts < 64000" and small: "length (concat pkts) < 2 ^ 32"
    and inv: "sock_inv T L lo hi (s, ctx)" and ex: "expects M (s, ctx)" and sp: "span lo hi" and T: "T + 6 * length es < 2 ^ 31"
    and es: "list_all (peer_ok (\<lambda>d. d \<in> D \<and> \<not> syn_datagram d \<and> length d < 2 ^ 31)) es"
  shows "wpo (receive es (s, ctx)) (\<lambda>(s', ctx'). sock_inv (T + 6 * length es) L lo hi (s', ctx') \<and>
     (\<exists>b eof rest. delivered (self s) ctx ctx' b eof \<and> concat pkts = b @ rest \<and> (eof \<longrightarrow> fin \<and> rest = [])))"
proof -
  have M: "0 < M" using ex by (simp add: expects_def)
  have run: "wpo (receive es (s, ctx)) (listening (T + 6 * length es) L lo hi (payload_at M pkts) E (self s) (upcalls (self s) ctx) (M - 1))"
    if E: "if fin then Suc E = M + length pkts else E \<in> {M + length pkts, Suc (M + length pkts)}" for E
  proof (rule receive_listening [OF expects_listening [OF inv ex] sp T])
    show "M - 1 \<le> E" using E M pk by (auto simp: packets_def split: if_splits)
    have "peer_ok (genuine (payload_at M pkts) E (M - 1)) e" if "peer_ok (\<lambda>d. d \<in> D \<and> \<not> syn_datagram d \<and> length d < 2 ^ 31) e" for e
      using that packets_genuine [OF pk _ _ _ M n E small] by (cases e) simp_all
    then show "list_all (peer_ok (genuine (payload_at M pkts) E (M - 1))) es" using es by (simp add: list_all_iff)
  qed
  show ?thesis
  proof (cases fin)
    case True
    have E: "Suc (M + length pkts - 1) = M + length pkts" using M by simp
    show ?thesis
    proof (rule wpo_mono [OF run [of "M + length pkts - 1"]], use True E in simp, clarify)
      fix s' ctx' assume l: "listening (T + 6 * length es) L lo hi (payload_at M pkts) (M + length pkts - 1) (self s) (upcalls (self s) ctx) (M - 1) (s', ctx')"
      have "sock_inv (T + 6 * length es) L lo hi (s', ctx')" using l by (simp add: listening_def)
      then show "sock_inv (T + 6 * length es) L lo hi (s', ctx') \<and>
         (\<exists>b eof rest. delivered (self s) ctx ctx' b eof \<and> concat pkts = b @ rest \<and> (eof \<longrightarrow> fin \<and> rest = []))"
        using listening_delivered(1) [OF l M, of True] True E by blast
    qed
  next
    case False
    show ?thesis
    proof (rule wpo_mono [OF wpo_conj [OF run [of "M + length pkts"] run [of "Suc (M + length pkts)"]]])
      fix c assume l: "listening (T + 6 * length es) L lo hi (payload_at M pkts) (M + length pkts) (self s) (upcalls (self s) ctx) (M - 1) c \<and>
         listening (T + 6 * length es) L lo hi (payload_at M pkts) (Suc (M + length pkts)) (self s) (upcalls (self s) ctx) (M - 1) c"
      obtain s' ctx' where c: "c = (s', ctx')" by (cases c)
      note l1 = listening_delivered [OF conjunct1 [OF l [unfolded c]] M, of fin] and l2 = listening_delivered [OF conjunct2 [OF l [unfolded c]] M, of fin]
      have "\<not> got_fin s'"
      proof
        assume "got_fin s'"
        then have "(of_nat (M + length pkts) :: uint16) = of_nat (Suc (M + length pkts))" using l1(2) l2(2) False by simp
        then show False by simp
      qed
      then have "\<not> got_fin_reached s'" using l1(3) False by blast
      moreover have "sock_inv (T + 6 * length es) L lo hi (s', ctx')" using l by (simp add: listening_def c)
      ultimately show "case c of (s', ctx') \<Rightarrow> sock_inv (T + 6 * length es) L lo hi (s', ctx') \<and>
         (\<exists>b eof rest. delivered (self s) ctx ctx' b eof \<and> concat pkts = b @ rest \<and> (eof \<longrightarrow> fin \<and> rest = []))"
        using l1(1) False unfolding c prod.case by blast
    qed (use False in simp_all)
  qed
qed

subsection \<open>An example\<close>

text \<open>The count of transmissions, evaluated without unfolding the number \<open>2 ^ 31\<close>.\<close>

definition next_count :: "nat \<Rightarrow> nat" where
  "next_count n = (n + 1) mod 2 ^ 31"

lemma next_count_code [code]: "next_count n = (if n = 0 then 1 else nat (int (n + 1) mod 2 ^ 31))"
  by (simp add: next_count_def nat_mod_distrib nat_add_distrib)

lemma next_count_unfold [code_unfold]:
  "(n + 1) mod nat_of_num (num.Bit0 num.One) ^ nat_of_num (num.Bit1 (num.Bit1 (num.Bit1 (num.Bit1 num.One)))) = next_count n"
  by (simp add: next_count_def nat_of_num_numeral)

text \<open>Three bytes are written and the stream is shut down. The data is sent at once, the FIN has to wait for its ack.\<close>

definition example_writer :: UTPSocket where
  "example_writer = example_socket\<lparr>cur_window_packets := 0, seq_nr := 1, outbuf := cb_new 4\<rparr>"

definition example_net :: utp_context where
  "example_net = example_stopped\<lparr>callbacks := (callbacks example_stopped)
     (UTP_SENDTO \<mapsto> \<lambda>_ _. 0, UTP_ON_READ \<mapsto> \<lambda>_ _. 0, UTP_ON_STATE_CHANGE \<mapsto> \<lambda>_ _. 0)\<rparr>"

definition hello :: "byte list" where
  "hello = [1, 0, 0, 0, 0, 0, 3, 232, 0, 0, 0, 0, 0, 0, 0, 0, 0, 1, 0, 0, 104, 101, 121]"

lemma example_opened: "opened 0 1 (example_writer, example_net)"
  by (simp add: opened_def unused_def example_writer_def example_net_def example_fields cb_ok_new cb_get_new example_stopped_def
      example_context_def datagrams_def)

lemma example_run:
  "(case happens (Sock_Write [[104, 101], [121]]) (example_writer, example_net) of
      None \<Rightarrow> False
    | Some (b, c1) \<Rightarrow> b = [104, 101, 121] \<and> (case happens (Sock_Shutdown SHUT_WR) c1 of
        None \<Rightarrow> False
      | Some (b', s, ctx) \<Rightarrow> b' = [] \<and> fin_sent s \<and> self s = 0 \<and> sent 0 0 ctx = [hello]))"
  by code_simp

lemma example_session:
  obtains s ctx where "session (example_writer, example_net) 2 [104, 101, 121] (s, ctx)" "fin_sent s" "self s = 0" "sent 0 0 ctx = [hello]"
proof -
  obtain c1 s ctx where 1: "happens (Sock_Write [[104, 101], [121]]) (example_writer, example_net) = Some ([104, 101, 121], c1)"
    and 2: "happens (Sock_Shutdown SHUT_WR) c1 = Some ([], s, ctx)" and r: "fin_sent s" "self s = 0" "sent 0 0 ctx = [hello]"
    using example_run by (auto split: option.splits)
  have "session (example_writer, example_net) (Suc 0) ([] @ [104, 101, 121]) c1"
    by (rule session_event [OF session_start _ 1]) (simp add: UTP_IOV_MAX_def)
  then have "session (example_writer, example_net) (Suc (Suc 0)) (([] @ [104, 101, 121]) @ []) (s, ctx)"
    by (rule session_event [OF _ _ 2]) simp
  then show thesis using r that by (simp add: numeral_2_eq_2)
qed

lemma example_net_inv: "sock_inv 1 100 500 1000 (example_sender, example_net)"
proof -
  have "ctx_ok example_net" "app_ok 100 example_net" "clock_ok 500 1000 example_net" "times_ok 500 example_net example_sender"
    using example_sender_inv
    by (simp_all add: example_net_def sock_inv_def ack_inv_def ctx_ok_def ack_ok_def app_ok_def mtu_callback_ok_def rcv_callback_ok_def
        clock_ok_def times_ok_def stamped_def reading_def)
  then show ?thesis using example_sender_inv by (simp add: sock_inv_def ack_inv_def)
qed

lemma hello_not_syn: "\<not> syn_datagram hello"
proof
  assume "syn_datagram hello"
  then obtain h b where h: "hello = pf_bytes h @ b" "pf_type h = ST_SYN" by (auto simp: syn_datagram_def)
  have "hd hello = ver_type h" unfolding h(1) by (simp add: pf_bytes_def)
  then show False using h(2) by (simp add: hello_def pf_type_def ST_SYN_def flip: \<open>hd hello = ver_type h\<close>)
qed

subsection \<open>Properties\<close>

text \<open>C3: A socket sends what was written, and nothing else. From the moment it is opened (it has queued nothing yet, or has just sent
  its SYN), whatever the application calls, whatever datagrams and ICMP messages arrive and however often its timers run:
  the bytes \<open>w\<close> that its writes have accepted are cut into packets, numbered from \<open>M\<close> on, and every datagram that the
  socket has sent is an ack, the SYN, or one of these packets, whole, with its number and its type; the FIN is the last packet,
  without data, and is there exactly if the stream has been shut down. A retransmission thus repeats the packet, and data written later never gets
  into a packet that is already on its way. At most one packet per event of the session is empty. The socket may have
  sent \<open>2 ^ 31\<close> datagrams and accepted 4 GB.\<close>

theorem session_sends_stream:
  assumes "opened k M (s0, ctx0)" and "session (s0, ctx0) n w (s, ctx)" and "length w < 2 ^ 32" and "length (sent k (self s) ctx) < 2 ^ 31"
  shows "\<exists>pkts. concat pkts = w \<and> length pkts \<le> length w + n \<and> packets (fin_sent s) M pkts (set (sent k (self s) ctx))"
proof -
  have "tx_inv k M n w (s, ctx)" using opened_session [OF assms] by simp
  then show ?thesis by (rule tx_inv_packets) blast
qed

theorem session_sends_stream_witness:
  "\<exists>s ctx pkts. session (example_writer, example_net) 2 [104, 101, 121] (s, ctx) \<and> sent 0 0 ctx = [hello] \<and>
     concat pkts = [104, 101, 121] \<and> length pkts \<le> 5 \<and> packets True 1 pkts {hello}"
proof -
  obtain s ctx where s: "session (example_writer, example_net) 2 [104, 101, 121] (s, ctx)" "fin_sent s" "self s = 0" "sent 0 0 ctx = [hello]"
    by (rule example_session)
  have "\<exists>pkts. concat pkts = [104, 101, 121] \<and> length pkts \<le> length [104 :: byte, 101, 121] + 2 \<and>
     packets (fin_sent s) 1 pkts (set (sent 0 (self s) ctx))"
    by (rule session_sends_stream [OF example_opened s(1)]) (simp_all add: s)
  then obtain pkts where "concat pkts = [104, 101, 121]" "length pkts \<le> 5" "packets True 1 pkts {hello}" by (auto simp: s)
  then show ?thesis using s(1,4) by blast
qed

text \<open>C2: What is read at one end is what was written at the other. The bytes \<open>w\<close> that a session has accepted are cut into packets;
  when these are less than 64000, so that no number is reused, let any of the datagrams that the session has sent arrive at a
  receiver that expects its first packet: in any order, some never, some many times, while the receiver's timers run
  and its acks are sent. The receiver trips no assertion, keeps its invariant, and reports to its application a prefix of \<open>w\<close>; it reports the
  end of the stream only after all of \<open>w\<close>, and only if the sender has shut the stream down. (A repeated SYN does not get
  to the handler: the context answers it.)\<close>

theorem end_to_end:
  assumes "opened k M (s0, ctx0)" and "session (s0, ctx0) n w (s, ctx)" and "length w < 2 ^ 32" and "length (sent k (self s) ctx) < 2 ^ 31"
    and "sock_inv T L lo hi (r, rctx)" and "expects M (r, rctx)" and "span lo hi" and "T + 6 * length es < 2 ^ 31"
    and "list_all (peer_ok (\<lambda>d. d \<in> set (sent k (self s) ctx) \<and> \<not> syn_datagram d \<and> length d < 2 ^ 31)) es"
  shows "(\<exists>pkts. concat pkts = w \<and> packets (fin_sent s) M pkts (set (sent k (self s) ctx)) \<and> length pkts \<le> length w + n) \<and>
     (\<forall>pkts. concat pkts = w \<longrightarrow> packets (fin_sent s) M pkts (set (sent k (self s) ctx)) \<longrightarrow> length pkts < 64000 \<longrightarrow>
       wpo (receive es (r, rctx)) (\<lambda>(r', rctx'). sock_inv (T + 6 * length es) L lo hi (r', rctx') \<and>
         (\<exists>b eof rest. delivered (self r) rctx rctx' b eof \<and> w = b @ rest \<and> (eof \<longrightarrow> fin_sent s \<and> rest = []))))"
proof -
  have "tx_inv k M n w (s, ctx)" using opened_session [OF assms(1-4)] by simp
  moreover have "wpo (receive es (r, rctx)) (\<lambda>(r', rctx'). sock_inv (T + 6 * length es) L lo hi (r', rctx') \<and>
      (\<exists>b eof rest. delivered (self r) rctx rctx' b eof \<and> w = b @ rest \<and> (eof \<longrightarrow> fin_sent s \<and> rest = [])))"
    if c: "concat pkts = w" and p: "packets (fin_sent s) M pkts (set (sent k (self s) ctx))" and n: "length pkts < 64000" for pkts
  proof -
    have "length (concat pkts) < 2 ^ 32" unfolding c by (rule assms(3))
    from receive_packets [OF p n this assms(5-9)] show ?thesis unfolding c .
  qed
  ultimately show ?thesis by (elim tx_inv_packets) blast
qed

theorem end_to_end_witness:
  "wpo (receive [Peer_Datagram hello [0], Peer_Timers, Peer_Datagram hello [0], Peer_Ack] (example_sender, example_net)) (\<lambda>(r', rctx').
     sock_inv 25 100 500 1000 (r', rctx') \<and> (\<exists>b eof rest. delivered 0 example_net rctx' b eof \<and> [104, 101, 121] = b @ rest \<and> (eof \<longrightarrow> rest = [])))"
proof -
  let ?es = "[Peer_Datagram hello [0], Peer_Timers, Peer_Datagram hello [0], Peer_Ack]"
  obtain s ctx where s: "session (example_writer, example_net) 2 [104, 101, 121] (s, ctx)" "fin_sent s" "self s = 0" "sent 0 0 ctx = [hello]"
    by (rule example_session)
  have ex: "expects 1 (example_sender, example_net)" "self example_sender = 0"
    by (simp_all add: expects_def example_sender_def example_fields example_net_def)
  have es: "list_all (peer_ok (\<lambda>d. d \<in> set (sent 0 (self s) ctx) \<and> \<not> syn_datagram d \<and> length d < 2 ^ 31)) ?es"
    using hello_not_syn by (simp add: s) (simp add: hello_def)
  have "(\<exists>pkts. concat pkts = [104, 101, 121] \<and> packets (fin_sent s) 1 pkts (set (sent 0 (self s) ctx)) \<and> length pkts \<le> length [104 :: byte, 101, 121] + 2) \<and>
     (\<forall>pkts. concat pkts = [104, 101, 121] \<longrightarrow> packets (fin_sent s) 1 pkts (set (sent 0 (self s) ctx)) \<longrightarrow> length pkts < 64000 \<longrightarrow>
       wpo (receive ?es (example_sender, example_net)) (\<lambda>(r', rctx'). sock_inv (1 + 6 * length ?es) 100 500 1000 (r', rctx') \<and>
         (\<exists>b eof rest. delivered (self example_sender) example_net rctx' b eof \<and> [104, 101, 121] = b @ rest \<and> (eof \<longrightarrow> fin_sent s \<and> rest = []))))"
    by (rule end_to_end [OF example_opened s(1) _ _ example_net_inv ex(1) _ _ es]) (simp_all add: s span_def)
  moreover from this obtain pkts where "concat pkts = [104, 101, 121]" "packets (fin_sent s) 1 pkts (set (sent 0 (self s) ctx))" "length pkts < 64000" by auto
  ultimately have "wpo (receive ?es (example_sender, example_net)) (\<lambda>(r', rctx'). sock_inv (1 + 6 * length ?es) 100 500 1000 (r', rctx') \<and>
     (\<exists>b eof rest. delivered (self example_sender) example_net rctx' b eof \<and> [104, 101, 121] = b @ rest \<and> (eof \<longrightarrow> fin_sent s \<and> rest = [])))" by blast
  then show ?thesis unfolding ex(2) by (rule wpo_mono) auto
qed

end
