(* ===== verification/Utp_Array.thy ===== *)
theory Utp_Array
  imports Utp_Context
begin

section \<open>The growing array\<close>

text \<open>
  \<^verbatim>\<open>Array\<close> of \<^verbatim>\<open>utp_templates.h\<close>, which holds the pending acks and the sent resets of a context. The context
  is modelled with plain lists; here the array itself is modelled, with its spare memory, and every
  operation is shown to do on the array what it does on the list.
\<close>

subsection \<open>Operations\<close>

text \<open>\<open>arr_mem\<close> is the allocated memory, of which the first \<open>arr_count\<close> elements are in use. \<open>junk\<close> is what \<^verbatim>\<open>realloc\<close> finds in new memory.\<close>

record 'a Array =
  arr_mem :: "'a list"
  arr_count :: nat

definition arr_Init :: "'a Array" where
  "arr_Init = \<lparr>arr_mem = [], arr_count = 0\<rparr>"

definition arr_GetAlloc :: "'a Array \<Rightarrow> nat" where
  "arr_GetAlloc a = length (arr_mem a)"

definition arr_at :: "'a Array \<Rightarrow> nat \<Rightarrow> 'a option" where
  "arr_at a offset = do { cassert (offset = 0 \<or> offset < arr_GetAlloc a); array_at (arr_mem a) offset }"

definition arr_Resize :: "(nat \<Rightarrow> 'a) \<Rightarrow> nat \<Rightarrow> 'a Array \<Rightarrow> 'a Array" where
  "arr_Resize junk n a = (if n = 0 then arr_Init
     else a\<lparr>arr_mem := take n (arr_mem a) @ map junk [arr_GetAlloc a..<n]\<rparr>)"

definition arr_Grow :: "nat \<Rightarrow> (nat \<Rightarrow> 'a) \<Rightarrow> 'a Array \<Rightarrow> 'a Array" where
  "arr_Grow minsize junk a = arr_Resize junk (max minsize (arr_GetAlloc a * 2)) a"

definition arr_Append :: "nat \<Rightarrow> (nat \<Rightarrow> 'a) \<Rightarrow> 'a \<Rightarrow> 'a Array \<Rightarrow> (nat \<times> 'a Array) option" where
  "arr_Append minsize junk t a = do {
     let a1 = (if arr_GetAlloc a \<le> arr_count a then arr_Grow minsize junk a else a);
     let r = arr_count a1;
     cassert (r < arr_GetAlloc a1);
     Some (r, a1\<lparr>arr_count := r + 1, arr_mem := (arr_mem a1)[r := t]\<rparr>)
   }"

definition arr_Compact :: "(nat \<Rightarrow> 'a) \<Rightarrow> 'a Array \<Rightarrow> 'a Array" where
  "arr_Compact junk a = arr_Resize junk (arr_count a) a"

definition arr_Clear :: "'a Array \<Rightarrow> 'a Array" where
  "arr_Clear a = a\<lparr>arr_count := 0\<rparr>"

definition arr_MoveUpLast :: "nat \<Rightarrow> 'a Array \<Rightarrow> (bool \<times> 'a Array) option" where
  "arr_MoveUpLast index a = do {
     cassert (index < arr_count a);
     let c = arr_count a - 1;
     let a1 = a\<lparr>arr_count := c\<rparr>;
     if index \<noteq> c then do { x \<leftarrow> array_at (arr_mem a1) c; Some (True, a1\<lparr>arr_mem := (arr_mem a1)[index := x]\<rparr>) }
     else Some (False, a1)
   }"

fun arr_lookup_from :: "nat \<Rightarrow> 'a \<Rightarrow> 'a list \<Rightarrow> nat option" where
  "arr_lookup_from i v [] = None"
| "arr_lookup_from i v (x # xs) = (if x = v then Some i else arr_lookup_from (i + 1) v xs)"

definition arr_LookupElement :: "'a \<Rightarrow> 'a Array \<Rightarrow> nat option" where
  "arr_LookupElement v a = arr_lookup_from 0 v (take (arr_count a) (arr_mem a))"

definition arr_HasElement :: "'a \<Rightarrow> 'a Array \<Rightarrow> bool" where
  "arr_HasElement v a \<longleftrightarrow> arr_LookupElement v a \<noteq> None"

subsection \<open>The array implements the list\<close>

definition arr_ok :: "'a Array \<Rightarrow> bool" where
  "arr_ok a \<longleftrightarrow> arr_count a \<le> arr_GetAlloc a"

definition arr_list :: "'a Array \<Rightarrow> 'a list" where
  "arr_list a = take (arr_count a) (arr_mem a)"

lemma arr_list_length [simp]: "arr_ok a \<Longrightarrow> length (arr_list a) = arr_count a"
  by (simp add: arr_ok_def arr_list_def arr_GetAlloc_def)

lemma arr_Init_ok [simp]: "arr_ok arr_Init" "arr_list arr_Init = []"
  by (simp_all add: arr_ok_def arr_list_def arr_Init_def arr_GetAlloc_def)

lemma arr_Resize_ok:
  assumes "arr_ok a" and "arr_count a \<le> n"
  shows "arr_ok (arr_Resize junk n a)" "arr_list (arr_Resize junk n a) = arr_list a" "n \<noteq> 0 \<Longrightarrow> arr_count (arr_Resize junk n a) = arr_count a"
    "arr_GetAlloc (arr_Resize junk n a) = n"
  using assms by (auto simp: arr_Resize_def arr_ok_def arr_list_def arr_GetAlloc_def arr_Init_def min_def)

lemma arr_at_list: "arr_ok a \<Longrightarrow> i < arr_count a \<Longrightarrow> arr_at a i = array_at (arr_list a) i"
  by (simp add: arr_at_def array_at_def arr_list_def arr_ok_def arr_GetAlloc_def)

lemma arr_Append_list:
  assumes ok: "arr_ok a" and m: "0 < minsize"
  shows "wpo (arr_Append minsize junk t a) (\<lambda>(r, a'). r = length (arr_list a) \<and> arr_ok a' \<and> arr_list a' = arr_list a @ [t])"
proof -
  define a1 where "a1 = (if arr_GetAlloc a \<le> arr_count a then arr_Grow minsize junk a else a)"
  have 1: "arr_ok a1" "arr_list a1 = arr_list a" "arr_count a1 = arr_count a" "arr_count a1 < arr_GetAlloc a1"
  proof -
    have "arr_count a \<le> max minsize (arr_GetAlloc a * 2)" "max minsize (arr_GetAlloc a * 2) \<noteq> 0" using ok m by (simp_all add: arr_ok_def)
    note g = arr_Resize_ok [OF ok this(1), of junk] this(2)
    have "arr_count a < max minsize (arr_GetAlloc a * 2)" if "arr_GetAlloc a \<le> arr_count a" using ok m that by (auto simp: arr_ok_def)
    then show "arr_ok a1" "arr_list a1 = arr_list a" "arr_count a1 = arr_count a" "arr_count a1 < arr_GetAlloc a1"
      using ok g by (simp_all add: a1_def arr_Grow_def not_le)
  qed
  have "take (Suc (arr_count a1)) ((arr_mem a1)[arr_count a1 := t]) = arr_list a1 @ [t]"
    using 1(4) by (simp add: arr_list_def arr_GetAlloc_def take_Suc_conv_app_nth)
  then show ?thesis using 1 ok by (simp add: arr_Append_def a1_def [symmetric] Let_def) (simp add: arr_ok_def arr_list_def arr_GetAlloc_def)
qed

lemma arr_MoveUpLast_list:
  assumes ok: "arr_ok a" and i: "i < length (arr_list a)"
  shows "wpo (arr_MoveUpLast i a) (\<lambda>(b, a'). arr_ok a' \<and> MoveUpLast (arr_list a) i = Some (arr_list a', b))"
proof -
  let ?c = "arr_count a - 1" and ?m = "arr_mem a"
  have c: "i < arr_count a" "?c < length ?m" "arr_count a \<le> length ?m" using ok i by (simp_all add: arr_ok_def arr_GetAlloc_def)
  have len: "length (arr_list a) = arr_count a" using ok by simp
  have nth: "arr_list a ! ?c = ?m ! ?c" using c by (simp add: arr_list_def)
  have "take ?c ((arr_list a)[i := ?m ! ?c]) = take ?c (?m[i := ?m ! ?c])"
    using c by (simp add: arr_list_def take_update_swap [symmetric] min_def)
  moreover have "take ?c (arr_list a) = take ?c ?m" using c by (simp add: arr_list_def min_def)
  ultimately show ?thesis
    using c by (simp add: arr_MoveUpLast_def MoveUpLast_def len Let_def array_at_def nth) (simp add: arr_ok_def arr_list_def arr_GetAlloc_def)
qed

lemma arr_lookup_from_spec:
  "arr_lookup_from i v xs = (if v \<in> set xs then Some (i + length (takeWhile (\<lambda>x. x \<noteq> v) xs)) else None)"
  by (induction i v xs rule: arr_lookup_from.induct) auto

lemma arr_HasElement_list: "arr_HasElement v a \<longleftrightarrow> v \<in> set (arr_list a)"
  by (simp add: arr_HasElement_def arr_LookupElement_def arr_lookup_from_spec arr_list_def)

subsection \<open>Any sequence of operations\<close>

text \<open>What the users of an array rely on, for any implementation of a list.\<close>

datatype 'a list_op = Push 'a | Move_Up nat | Shrink | Empty

fun list_step :: "'a list_op \<Rightarrow> 'a list \<Rightarrow> 'a list option" where
  "list_step (Push x) xs = Some (xs @ [x])"
| "list_step (Move_Up i) xs = map_option fst (MoveUpLast xs i)"
| "list_step Shrink xs = Some xs"
| "list_step Empty xs = Some []"

fun list_run :: "('o \<Rightarrow> 's \<Rightarrow> 's option) \<Rightarrow> 'o list \<Rightarrow> 's \<Rightarrow> 's option" where
  "list_run step [] s = Some s"
| "list_run step (p # ps) s = Option.bind (step p s) (list_run step ps)"

locale list_impl =
  fixes ok :: "'s \<Rightarrow> bool" and contents :: "'s \<Rightarrow> 'a list" and step :: "'a list_op \<Rightarrow> 's \<Rightarrow> 's option"
  assumes step_list: "ok s \<Longrightarrow> list_step p (contents s) = Some xs \<Longrightarrow> wpo (step p s) (\<lambda>s'. ok s' \<and> contents s' = xs)"
begin

lemma run_list: "ok s \<Longrightarrow> list_run list_step ps (contents s) = Some xs \<Longrightarrow> wpo (list_run step ps s) (\<lambda>s'. ok s' \<and> contents s' = xs)"
proof (induction ps arbitrary: s)
  case (Cons p ps)
  then obtain ys where ys: "list_step p (contents s) = Some ys" "list_run list_step ps ys = Some xs" by (auto split: Option.bind_splits)
  have "wpo (Option.bind (step p s) (list_run step ps)) (\<lambda>s'. ok s' \<and> contents s' = xs)"
    by (rule wpo_bindI [OF step_list [OF Cons.prems(1) ys(1)]]) (use Cons.IH ys(2) in auto)
  then show ?case by simp
qed simp

end

fun arr_step :: "nat \<Rightarrow> (nat \<Rightarrow> 'a) \<Rightarrow> 'a list_op \<Rightarrow> 'a Array \<Rightarrow> 'a Array option" where
  "arr_step minsize junk (Push x) a = map_option snd (arr_Append minsize junk x a)"
| "arr_step minsize junk (Move_Up i) a = map_option snd (arr_MoveUpLast i a)"
| "arr_step minsize junk Shrink a = Some (arr_Compact junk a)"
| "arr_step minsize junk Empty a = Some (arr_Clear a)"

interpretation ar: list_impl arr_ok arr_list "arr_step 16 junk"
proof
  fix s :: "'a Array" and p xs assume ok: "arr_ok s" and l: "list_step p (arr_list s) = Some xs"
  show "wpo (arr_step 16 junk p s) (\<lambda>s'. arr_ok s' \<and> arr_list s' = xs)"
  proof (cases p)
    case (Push x)
    then show ?thesis using arr_Append_list [OF ok, of 16 junk x] l by (auto simp: wpo_ex)
  next
    case (Move_Up i)
    then have "i < length (arr_list s)" using l by (auto simp: MoveUpLast_def cassert_def split: if_splits)
    then show ?thesis using arr_MoveUpLast_list [OF ok, of i] l Move_Up by (auto simp: wpo_ex)
  next
    case Shrink
    then show ?thesis using arr_Resize_ok(1,2) [OF ok order_refl, of junk] l by (simp add: arr_Compact_def)
  next
    case Empty
    then show ?thesis using ok l by (simp add: arr_Clear_def arr_ok_def arr_list_def arr_GetAlloc_def)
  qed
qed

end
