(* ===== verification/Utp_Hash_Iter.thy ===== *)
theory Utp_Hash_Iter
  imports Utp_Hash
begin

section \<open>Iterating over the table\<close>

text \<open>
  \<^verbatim>\<open>utp_hash_iterate\<close> hands out the elements bucket by bucket; its position is the bucket and the element that
  comes next. The loops of the library delete the element they have just been handed: its link has
  been read before, and a deletion changes no other element that is still to come.
\<close>

lemma chain_tail: "chain es c (ys @ zs) \<Longrightarrow> \<exists>c'. chain es c' zs"
  by (induction ys arbitrary: c) auto

lemma chain_head_unique: "chain es c xs \<Longrightarrow> chain es' c' xs \<Longrightarrow> c = c'"
  by (cases xs) (auto simp: word_unat_eq_iff)

text \<open>The elements that an iterator still has to visit: the rest of its bucket and the buckets behind.\<close>

definition iter_rest :: "('k, 'v) utp_hash_t \<Rightarrow> (nat \<Rightarrow> nat list) \<Rightarrow> utp_hash_iterator_t \<Rightarrow> nat list \<Rightarrow> bool" where
  "iter_rest h bs it xs \<longleftrightarrow> (\<exists>pre cur. chain (hash_entries h) (it_elem it) cur \<and>
     (cur \<noteq> [] \<longrightarrow> unat (it_bucket it) < unat (hash_N h) \<and> bs (unat (it_bucket it)) = pre @ cur) \<and>
     xs = cur @ concat (map bs [unat (it_bucket it + 1)..<unat (hash_N h)]))"

declare utp_hash_next_bucket.simps [simp del]

lemma next_bucket_spec:
  assumes "hash_rep h bs fl"
  shows "case utp_hash_next_bucket h b of
      None \<Rightarrow> concat (map bs [unat b..<unat (hash_N h)]) = []
    | Some c \<Rightarrow> unat c < unat (hash_N h) \<and> bs (unat c) \<noteq> [] \<and>
        concat (map bs [unat b..<unat (hash_N h)]) = bs (unat c) @ concat (map bs [Suc (unat c)..<unat (hash_N h)])"
  using assms
proof (induction h b rule: utp_hash_next_bucket.induct)
  case (1 h b)
  show ?case
  proof (cases "hash_N h \<le> b")
    case True
    then show ?thesis by (subst utp_hash_next_bucket.simps) (simp add: word_le_nat_alt)
  next
    case False
    then have lt: "unat b < unat (hash_N h)" by (simp add: word_le_nat_alt)
    have ch: "chain (hash_entries h) (hash_inits h ! unat b) (bs (unat b))" using "1.prems" lt by (simp add: hash_rep_def)
    have up: "[unat b..<unat (hash_N h)] = unat b # [Suc (unat b)..<unat (hash_N h)]" using lt by (rule upt_conv_Cons)
    show ?thesis
    proof (cases "hash_inits h ! unat b = LIBUTP_HASH_UNUSED")
      case True
      then have e: "bs (unat b) = []" using ch by (cases "bs (unat b)") auto
      have s: "unat (b + 1) = Suc (unat b)" using False by (intro unat_Suc_less [of b "hash_N h"]) simp
      have nb: "utp_hash_next_bucket h b = utp_hash_next_bucket h (b + 1)" using False True by (subst utp_hash_next_bucket.simps) simp
      have "case utp_hash_next_bucket h (b + 1) of
          None \<Rightarrow> concat (map bs [unat (b + 1)..<unat (hash_N h)]) = []
        | Some c \<Rightarrow> unat c < unat (hash_N h) \<and> bs (unat c) \<noteq> [] \<and>
            concat (map bs [unat (b + 1)..<unat (hash_N h)]) = bs (unat c) @ concat (map bs [Suc (unat c)..<unat (hash_N h)])"
        using False True "1.prems" by (intro "1.IH") simp_all
      then show ?thesis unfolding nb up s using e by (simp split: option.splits)
    next
      case ne: False
      then have "bs (unat b) \<noteq> []" using ch by (cases "bs (unat b)") auto
      moreover have "utp_hash_next_bucket h b = Some b" using False ne by (subst utp_hash_next_bucket.simps) simp
      ultimately show ?thesis using lt by (simp add: up)
    qed
  qed
qed

lemma iterate_step:
  assumes rep: "hash_rep h bs fl" and rest: "iter_rest h bs it xs"
  shows "case xs of [] \<Rightarrow> utp_hash_iterate h it = Some (it, None)
    | x # xs' \<Rightarrow> \<exists>it'. utp_hash_iterate h it = Some (it', Some (of_nat x)) \<and> iter_rest h bs it' xs' \<and> x \<in> live h bs"
proof -
  let ?es = "hash_entries h"
  obtain pre cur where c: "chain ?es (it_elem it) cur" "cur \<noteq> [] \<Longrightarrow> unat (it_bucket it) < unat (hash_N h) \<and> bs (unat (it_bucket it)) = pre @ cur"
    and xs: "xs = cur @ concat (map bs [unat (it_bucket it + 1)..<unat (hash_N h)])"
    using rest unfolding iter_rest_def by auto
  have found: "\<exists>it'. utp_hash_iterate h it = Some (it', Some (of_nat x)) \<and> iter_rest h bs it' (ys @ concat (map bs [unat (b + 1)..<unat (hash_N h)])) \<and> x \<in> live h bs"
    if b: "unat b < unat (hash_N h)" and s: "bs (unat b) = p @ x # ys" and e: "chain ?es e (x # ys)"
      and i: "(if it_elem it = LIBUTP_HASH_UNUSED
        then map_option (\<lambda>b. (b, hash_inits h ! unat b)) (utp_hash_next_bucket h (it_bucket it + 1))
        else Some (it_bucket it, it_elem it)) = Some (b, e)" for b e x ys p
  proof -
    have x: "x \<in> live h bs" using b s by (auto simp: live_def intro!: bexI [of _ "unat b"])
    have e': "e = of_nat x" "unat e = x" "x < length ?es" using e by auto
    then have "entry_at h e = Some (?es ! x)" by (simp add: entry_at_def)
    then have "utp_hash_iterate h it = Some (\<lparr>it_bucket = b, it_elem = entry_link (?es ! x)\<rparr>, Some (of_nat x))"
      using e'(1) unfolding utp_hash_iterate_def Let_def i by simp
    moreover have "iter_rest h bs \<lparr>it_bucket = b, it_elem = entry_link (?es ! x)\<rparr> (ys @ concat (map bs [unat (b + 1)..<unat (hash_N h)]))"
      unfolding iter_rest_def using e b s by (intro exI [of _ "p @ [x]"] exI [of _ ys]) simp
    ultimately show ?thesis using x by blast
  qed
  show ?thesis
  proof (cases cur)
    case (Cons x ys)
    have "it_elem it \<noteq> LIBUTP_HASH_UNUSED" using c(1) Cons by simp
    then show ?thesis using found [of "it_bucket it" pre x ys "it_elem it"] c Cons xs by simp
  next
    case Nil
    then have u: "it_elem it = LIBUTP_HASH_UNUSED" using c(1) by simp
    note nb = next_bucket_spec [OF rep, of "it_bucket it + 1"]
    show ?thesis
    proof (cases "utp_hash_next_bucket h (it_bucket it + 1)")
      case None
      then have "xs = []" using nb Nil xs by (simp del: concat_eq_Nil_conv)
      then show ?thesis using None u by (simp add: utp_hash_iterate_def)
    next
      case (Some b)
      then have b: "unat b < unat (hash_N h)" "bs (unat b) \<noteq> []"
        and cc: "xs = bs (unat b) @ concat (map bs [Suc (unat b)..<unat (hash_N h)])" using nb xs Nil by simp_all
      obtain x ys where s: "bs (unat b) = x # ys" using b(2) by (cases "bs (unat b)") auto
      have ch: "chain ?es (hash_inits h ! unat b) (x # ys)" using rep b(1) by (simp add: hash_rep_def flip: s)
      have sb: "unat (b + 1) = Suc (unat b)" using b(1) by (intro unat_Suc_less [of b "hash_N h"]) (simp add: word_less_nat_alt)
      show ?thesis using found [OF b(1) _ ch, of "[]"] u Some cc s sb by simp
    qed
  qed
qed

subsection \<open>What a loop over the table sees\<close>

definition iter_items :: "('k, 'v) utp_hash_t \<Rightarrow> utp_hash_iterator_t \<Rightarrow> ('k \<times> 'v) list \<Rightarrow> bool" where
  "iter_items h it kvs \<longleftrightarrow> (\<exists>bs fl xs. hash_rep h bs fl \<and> iter_rest h bs it xs \<and> distinct xs \<and> set xs \<subseteq> live h bs \<and>
     kvs = map (\<lambda>x. (entry_key (hash_entries h ! x), the (entry_val (hash_entries h ! x)))) xs)"

lemma distinct_buckets:
  assumes rep: "hash_rep h bs fl" and "n \<le> unat (hash_N h)"
  shows "distinct (concat (map bs [0..<n])) \<and> set (concat (map bs [0..<n])) = (\<Union>i < n. set (bs i))"
  using assms(2)
proof (induction n)
  case (Suc n)
  have "set (bs n) \<inter> set (bs i) = {}" if "i < n" for i
  proof -
    have k: "unat (utp_hash_mkidx h (entry_key (hash_entries h ! x))) = j" if "j < unat (hash_N h)" "x \<in> set (bs j)" for j x
      using rep that by (simp add: hash_rep_def)
    show ?thesis using k [of n] k [of i] that Suc.prems by fastforce
  qed
  moreover have "distinct (bs n)" using rep Suc.prems by (simp add: hash_rep_def)
  ultimately show ?case using Suc by (auto simp: lessThan_Suc)
qed simp

lemma iter_items_init:
  assumes "hash_ok h"
  obtains kvs where "iter_items h utp_hash_iterator_init kvs" "distinct (map fst kvs)" "map_of kvs = hash_abs h"
proof -
  obtain bs fl where rep: "hash_rep h bs fl" using assms by (auto simp: hash_ok_def)
  let ?xs = "concat (map bs [0..<unat (hash_N h)])" and ?f = "\<lambda>x. (entry_key (hash_entries h ! x), the (entry_val (hash_entries h ! x)))"
  have xs: "distinct ?xs" "set ?xs = live h bs" using distinct_buckets [OF rep, of "unat (hash_N h)"] by (simp_all add: live_def)
  have e: "it_elem utp_hash_iterator_init = LIBUTP_HASH_UNUSED" "it_bucket utp_hash_iterator_init + 1 = 0"
    by (simp_all add: utp_hash_iterator_init_def LIBUTP_HASH_UNUSED_def)
  have "iter_rest h bs utp_hash_iterator_init ?xs" unfolding iter_rest_def by (intro exI [of _ "[]"]) (simp add: e)
  then have "iter_items h utp_hash_iterator_init (map ?f ?xs)" using rep xs unfolding iter_items_def by blast
  moreover have inj: "inj_on (\<lambda>x. entry_key (hash_entries h ! x)) (live h bs)" using rep by (simp add: hash_rep_def)
  then have d: "distinct (map fst (map ?f ?xs))" using xs by (simp add: distinct_map comp_def)
  moreover have "map_of (map ?f ?xs) = hash_abs h"
  proof
    fix k
    have v: "entry_val (hash_entries h ! x) \<noteq> None" if "x \<in> live h bs" for x using rep that by (simp add: hash_rep_def)
    have "map_of (map ?f ?xs) k = Some w \<longleftrightarrow> hash_abs h k = Some w" for w
      using d v by (auto simp: map_of_eq_Some_iff xs(2) hash_abs_Some_iff [OF rep] image_iff simp del: set_concat)
    then show "map_of (map ?f ?xs) k = hash_abs h k" by (metis not_Some_eq)
  qed
  ultimately show ?thesis using that by blast
qed

lemma iter_items_Nil: "iter_items h it [] \<Longrightarrow> utp_hash_iterate h it = Some (it, None)"
  unfolding iter_items_def using iterate_step by fastforce

lemma iter_items_Cons:
  assumes "iter_items h it ((k, v) # kvs)"
  obtains it' e ent where "utp_hash_iterate h it = Some (it', Some e)" "entry_at h e = Some ent" "entry_key ent = k" "entry_val ent = Some v"
    "iter_items h it' kvs" "hash_abs h k = Some v" "k \<notin> fst ` set kvs"
proof -
  let ?es = "hash_entries h"
  obtain bs fl x xs where rep: "hash_rep h bs fl" and r: "iter_rest h bs it (x # xs)" and d: "distinct (x # xs)" "set (x # xs) \<subseteq> live h bs"
    and k: "k = entry_key (?es ! x)" "v = the (entry_val (?es ! x))"
    and kvs: "kvs = map (\<lambda>x. (entry_key (?es ! x), the (entry_val (?es ! x)))) xs"
    using assms unfolding iter_items_def by (auto simp: Cons_eq_map_conv)
  obtain it' where it': "utp_hash_iterate h it = Some (it', Some (of_nat x))" "iter_rest h bs it' xs" "x \<in> live h bs"
    using iterate_step [OF rep r] by auto
  have lt: "x < length ?es" by (rule hash_rep_live_lt [OF rep it'(3)])
  have at: "entry_at h (of_nat x) = Some (?es ! x)" using lt unat_of_nat_entry [OF rep it'(3)] by (simp add: entry_at_def)
  have "entry_val (?es ! x) \<noteq> None" using rep it'(3) unfolding hash_rep_def by blast
  then have v: "entry_val (?es ! x) = Some v" using k(2) by auto
  have rest: "iter_items h it' kvs" using rep it'(2) d kvs unfolding iter_items_def by auto
  have abs: "hash_abs h k = Some v" using it'(3) k(1) v by (auto simp: hash_abs_Some_iff [OF rep])
  have inj: "inj_on (\<lambda>x. entry_key (?es ! x)) (live h bs)" using rep by (simp add: hash_rep_def)
  have "entry_key (?es ! y) \<noteq> k" if "y \<in> set xs" for y
    using inj_onD [OF inj, of y x] that d it'(3) k(1) by auto
  then have "k \<notin> fst ` set kvs" unfolding kvs by (fastforce simp: image_iff)
  from that [OF it'(1) at k(1) [symmetric] v rest abs this] show ?thesis .
qed

lemma iter_items_del:
  assumes it: "iter_items h it kvs" and k: "hash_abs h k \<noteq> None" "k \<notin> fst ` set kvs"
  shows "wpo (utp_hash_del h k) (\<lambda>(h', r). iter_items h' it kvs)"
proof -
  let ?es = "hash_entries h"
  obtain bs fl xs where rep: "hash_rep h bs fl" and r: "iter_rest h bs it xs" and d: "distinct xs" "set xs \<subseteq> live h bs"
    and kvs: "kvs = map (\<lambda>x. (entry_key (?es ! x), the (entry_val (?es ! x)))) xs"
    using it unfolding iter_items_def by auto
  obtain x where x: "x \<in> live h bs" "entry_key (?es ! x) = k" using k(1) by (auto simp: hash_abs_Some_iff [OF rep])
  have nx: "x \<notin> set xs" using k(2) x(2) by (auto simp: kvs image_iff)
  obtain pre cur where c: "chain ?es (it_elem it) cur" "cur \<noteq> [] \<Longrightarrow> unat (it_bucket it) < unat (hash_N h) \<and> bs (unat (it_bucket it)) = pre @ cur"
    and xs: "xs = cur @ concat (map bs [unat (it_bucket it + 1)..<unat (hash_N h)])"
    using r unfolding iter_rest_def by auto
  let ?i = "unat (utp_hash_mkidx h k)"
  show ?thesis
  proof (rule wpo_mono [OF utp_hash_del_rep [OF rep x]], clarify)
    fix h' assume rep': "hash_rep h' (bs(?i := remove1 x (bs ?i))) (x # fl)" and N: "hash_N h' = hash_N h"
      and kv: "\<forall>y. entry_key (hash_entries h' ! y) = entry_key (?es ! y) \<and> entry_val (hash_entries h' ! y) = entry_val (?es ! y)"
    let ?bs = "bs(?i := remove1 x (bs ?i))" and ?b = "unat (it_bucket it)"
    have live': "live h' ?bs = live h bs - {x}"
    proof -
      have "set (?bs j) = set (bs j) - {x}" if "j < unat (hash_N h)" for j
      proof -
        have dj: "distinct (bs j)" using rep that by (simp add: hash_rep_def)
        have "x \<in> set (bs j) \<Longrightarrow> j = ?i" using rep that x(2) by (auto simp: hash_rep_def)
        then show ?thesis using dj by (auto simp: set_remove1_eq)
      qed
      then show ?thesis by (auto simp: live_def N)
    qed
    have rest: "concat (map ?bs [unat (it_bucket it + 1)..<unat (hash_N h)]) = concat (map bs [unat (it_bucket it + 1)..<unat (hash_N h)])"
    proof (intro arg_cong [of _ _ concat] map_cong refl)
      fix j assume "j \<in> set [unat (it_bucket it + 1)..<unat (hash_N h)]"
      then have "x \<notin> set (bs j)" using nx xs by auto
      then show "?bs j = bs j" by (auto simp: remove1_idem)
    qed
    have "\<exists>pre'. cur \<noteq> [] \<longrightarrow> ?bs ?b = pre' @ cur"
    proof (cases "?b = ?i \<and> cur \<noteq> []")
      case True
      then have "x \<notin> set cur" using nx xs by simp
      then have "?bs ?b = remove1 x pre @ cur" using True c(2) by (auto simp: remove1_append remove1_idem)
      then show ?thesis by blast
    qed (use c(2) in auto)
    then obtain pre' where p': "cur \<noteq> [] \<Longrightarrow> ?bs ?b = pre' @ cur" by blast
    have "chain (hash_entries h') (it_elem it) cur"
    proof (cases "cur = []")
      case False
      then have b: "?b < unat (hash_N h')" using c(2) N by simp
      have "chain (hash_entries h') (hash_inits h' ! ?b) (?bs ?b)" using rep' b unfolding hash_rep_def by blast
      then obtain c' where "chain (hash_entries h') c' cur" using p' [OF False] chain_tail by metis
      then show ?thesis using chain_head_unique [OF c(1)] by blast
    qed (use c(1) in simp)
    then have "iter_rest h' ?bs it xs" unfolding iter_rest_def using c(2) p' by (intro exI [of _ pre'] exI [of _ cur]) (simp add: N rest xs)
    then show "iter_items h' it kvs"
      using rep' d nx live' kv unfolding iter_items_def kvs by (intro exI [of _ ?bs] exI [of _ "x # fl"] exI [of _ xs]) auto
  qed
qed

subsection \<open>Loops\<close>

text \<open>\<^verbatim>\<open>while ((keyData = table->Iterate(it)))\<close>: the body works on the value that the element carries.\<close>

definition utp_hash_next :: "('k, 'v) utp_hash_t \<Rightarrow> utp_hash_iterator_t \<Rightarrow> (utp_hash_iterator_t \<times> 'v option) option" where
  "utp_hash_next h it = do {
     (it', r) \<leftarrow> utp_hash_iterate h it;
     case r of None \<Rightarrow> Some (it', None)
     | Some i \<Rightarrow> do { e \<leftarrow> entry_at h i; v \<leftarrow> entry_val e; Some (it', Some v) }
   }"

partial_function (option) for_each ::
    "('t \<Rightarrow> 'i \<Rightarrow> ('i \<times> 'v option) option) \<Rightarrow> ('c \<Rightarrow> 't) \<Rightarrow> ('v \<Rightarrow> 'c \<Rightarrow> 'c option) \<Rightarrow> 'i \<Rightarrow> 'c \<Rightarrow> 'c option" where
  "for_each nxt tab body it c = Option.bind (nxt (tab c) it) (\<lambda>(it', r). case r of
      None \<Rightarrow> Some c
    | Some v \<Rightarrow> Option.bind (body v c) (for_each nxt tab body it'))"

declare for_each.simps [code]

text \<open>
  What a loop relies on: the iterator hands out the items that are left one by one, and the deletion
  of a key that is not among them leaves them as they are.
\<close>

locale table_iteration =
  fixes items :: "'t \<Rightarrow> 'i \<Rightarrow> ('k \<times> 'v) list \<Rightarrow> bool" and lookup :: "'t \<Rightarrow> 'k \<Rightarrow> 'v option"
    and nxt :: "'t \<Rightarrow> 'i \<Rightarrow> ('i \<times> 'v option) option" and del :: "'t \<Rightarrow> 'k \<Rightarrow> ('t \<times> 'r) option"
  assumes nxt_end: "items t it [] \<Longrightarrow> nxt t it = Some (it, None)"
    and nxt_item: "items t it ((k, v) # kvs) \<Longrightarrow> \<exists>it'. nxt t it = Some (it', Some v) \<and> items t it' kvs \<and> lookup t k = Some v \<and> k \<notin> fst ` set kvs"
    and del_other: "items t it kvs \<Longrightarrow> lookup t k \<noteq> None \<Longrightarrow> k \<notin> fst ` set kvs \<Longrightarrow> wpo (del t k) (\<lambda>(t', _). items t' it kvs)"
begin

lemma for_each_rule:
  assumes "items (tab c) it kvs" and "P kvs c"
    and step: "\<And>k v kvs c it. P ((k, v) # kvs) c \<Longrightarrow> items (tab c) it kvs \<Longrightarrow> lookup (tab c) k = Some v \<Longrightarrow> k \<notin> fst ` set kvs \<Longrightarrow>
      wpo (body v c) (\<lambda>c'. P kvs c' \<and> items (tab c') it kvs)"
  shows "wpo (for_each nxt tab body it c) (P [])"
  using assms(1,2)
proof (induction kvs arbitrary: it c)
  case Nil
  then show ?case using nxt_end [OF Nil(1)] by (subst for_each.simps) simp
next
  case (Cons kv kvs)
  obtain k v where kv: "kv = (k, v)" by (cases kv)
  obtain it' where it': "nxt (tab c) it = Some (it', Some v)" "items (tab c) it' kvs" "lookup (tab c) k = Some v" "k \<notin> fst ` set kvs"
    using nxt_item Cons.prems(1) unfolding kv by blast
  have "wpo (Option.bind (body v c) (for_each nxt tab body it')) (P [])"
  proof (rule wpo_bindI [OF step [OF _ it'(2-4)]])
    show "P ((k, v) # kvs) c" using Cons.prems(2) by (simp add: kv)
    show "wpo (for_each nxt tab body it' c') (P [])" if "P kvs c' \<and> items (tab c') it' kvs" for c'
      using Cons.IH that by blast
  qed
  then show ?case using it'(1) by (subst for_each.simps) simp
qed

end

interpretation ht: table_iteration iter_items hash_abs utp_hash_next utp_hash_del
proof unfold_locales
  show "utp_hash_next h it = Some (it, None)" if "iter_items h it []" for h :: "('k, 'v) utp_hash_t" and it
    using iter_items_Nil [OF that] by (simp add: utp_hash_next_def)
  show "\<exists>it'. utp_hash_next h it = Some (it', Some v) \<and> iter_items h it' kvs \<and> hash_abs h k = Some v \<and> k \<notin> fst ` set kvs"
    if "iter_items h it ((k, v) # kvs)" for h :: "('k, 'v) utp_hash_t" and it k v kvs
  proof -
    note it = that
    obtain it' e ent where i: "utp_hash_iterate h it = Some (it', Some e)" "entry_at h e = Some ent" "entry_val ent = Some v"
      and r: "iter_items h it' kvs" "hash_abs h k = Some v" "k \<notin> fst ` set kvs"
      using iter_items_Cons [OF it] by metis
    have "utp_hash_next h it = Some (it', Some v)" by (simp add: utp_hash_next_def i)
    then show ?thesis using r by blast
  qed
  show "wpo (utp_hash_del h k) (\<lambda>(h', _). iter_items h' it kvs)"
    if "iter_items h it kvs" "hash_abs h k \<noteq> None" "k \<notin> fst ` set kvs" for h :: "('k, 'v) utp_hash_t" and it kvs k
    by (rule iter_items_del [OF that])
qed

end
