(* ===== verification/Utp_Hash_Cmp.thy ===== *)
theory Utp_Hash_Cmp
  imports Utp_Hash_Iter
begin

section \<open>The bytewise comparison of keys\<close>

text \<open>
  \<^verbatim>\<open>compare\<close> of \<^verbatim>\<open>utp_hash.cpp\<close>, which a table without a comparison of its own would use: the first four bytes as a number,
  the rest with \<^verbatim>\<open>memcmp\<close>. The memory at a key is a list of bytes.
\<close>

definition read32_at :: "byte list \<Rightarrow> uint32 option" where
  "read32_at p = (if length p < 4 then None else Some (Read32 (p ! 0) (p ! 1) (p ! 2) (p ! 3)))"

definition compare_bytes :: "byte list \<Rightarrow> byte list \<Rightarrow> nat \<Rightarrow> bool option" where
  "compare_bytes a b n = do {
     cassert (4 \<le> n);
     x \<leftarrow> read32_at a;
     y \<leftarrow> read32_at b;
     if x \<noteq> y then Some False
     else do {
       cassert (n \<le> length a \<and> n \<le> length b);
       Some (take (n - 4) (drop 4 a) = take (n - 4) (drop 4 b))
     }
   }"

lemma Read32_byte:
  "ucast (Read32 a b c d) = a" "ucast (drop_bit 8 (Read32 a b c d)) = b" "ucast (drop_bit 16 (Read32 a b c d)) = c" "ucast (drop_bit 24 (Read32 a b c d)) = d"
  by (rule bit_word_eqI; auto simp: Read32_def bit_simps dest: bit_imp_le_length)+

lemma Read32_eq_iff: "Read32 a b c d = Read32 a' b' c' d' \<longleftrightarrow> a = a' \<and> b = b' \<and> c = c' \<and> d = d'"
  using Read32_byte [of a b c d] Read32_byte [of a' b' c' d'] by metis

lemma compare_bytes_spec:
  assumes "4 \<le> n" and "n \<le> length a" and "n \<le> length b"
  shows "compare_bytes a b n = Some (take n a = take n b)"
proof -
  have four: "\<exists>x0 x1 x2 x3 ys. xs = x0 # x1 # x2 # x3 # ys" if "4 \<le> length xs" for xs :: "byte list"
    using that by (auto simp: numeral_eq_Suc Suc_le_length_iff)
  obtain a0 a1 a2 a3 as where a: "a = a0 # a1 # a2 # a3 # as" using four [of a] assms by auto
  obtain b0 b1 b2 b3 bs where b: "b = b0 # b1 # b2 # b3 # bs" using four [of b] assms by auto
  obtain m where n: "n = Suc (Suc (Suc (Suc m)))" using assms(1) le_Suc_ex [OF assms(1)] by (auto simp: numeral_eq_Suc)
  show ?thesis using assms by (auto simp: compare_bytes_def read32_at_def a b n Read32_eq_iff numeral_eq_Suc)
qed

end
