(* ===== verification/Utp_Platform.thy ===== *)
theory Utp_Platform
  imports Utp_Clock Utp_Double "HOL-Library.Signed_Division"
begin

section \<open>The clocks of the operating systems\<close>

text \<open>
  The three versions of \<^verbatim>\<open>__GetMicroseconds\<close> in \<^verbatim>\<open>utp_utils.cpp\<close>, from which the clock of the library
  is made. The answers of the operating system are arguments.
\<close>

subsection \<open>POSIX\<close>

text \<open>
  The first reading finds out whether \<^verbatim>\<open>clock_gettime\<close> works (\<open>have\<close> is the static variable, negative before);
  \<open>probe\<close> and \<open>reading\<close> are the answers of the two calls, \<open>tod\<close> the one of \<^verbatim>\<open>gettimeofday\<close>.
  A reading that fails leaves the result undefined.
\<close>

definition posix_GetMicroseconds ::
    "(uint64 \<times> uint64) option \<Rightarrow> (uint64 \<times> uint64) option \<Rightarrow> uint64 \<times> uint64 \<Rightarrow> int \<Rightarrow> (uint64 \<times> int) option" where
  "posix_GetMicroseconds probe reading tod have_clocks = (
     let have1 = (if have_clocks < 0 then if probe = None then 0 else 1 else have_clocks)
     in if have1 \<noteq> 0 then do { (s, ns) \<leftarrow> reading; Some (posix_microseconds s ns, have1) }
        else Some (fst tod * 1000000 + snd tod, have1))"

fun posix_readings :: "((uint64 \<times> uint64) option \<times> (uint64 \<times> uint64) option \<times> uint64 \<times> uint64) list \<Rightarrow> int \<Rightarrow> uint64 list option" where
  "posix_readings [] hv = Some []"
| "posix_readings ((p, r, tod) # xs) hv = do {
     (t, hv') \<leftarrow> posix_GetMicroseconds p r tod hv;
     ts \<leftarrow> posix_readings xs hv';
     Some (t # ts)
   }"

text \<open>The two clocks are never mixed: the first reading decides.\<close>

lemma posix_one_clock:
  assumes "0 \<le> hv" and "\<forall>x \<in> set xs. fst (snd x) \<noteq> None"
  shows "posix_readings xs hv = Some (map (\<lambda>(p, r, tod). if hv \<noteq> 0 then posix_microseconds (fst (the r)) (snd (the r)) else fst tod * 1000000 + snd tod) xs)"
  using assms
proof (induction xs)
  case (Cons x xs)
  obtain p r tod where x: "x = (p, r, tod)" by (cases x) auto
  then obtain s ns where "r = Some (s, ns)" using Cons.prems(2) by auto
  then show ?case using Cons by (cases "hv = 0") (simp_all add: x posix_GetMicroseconds_def)
qed simp

lemma posix_first_reading:
  "posix_readings ((p, Some (s, ns), tod) # xs) (- 1) =
     map_option (Cons (if p \<noteq> None then posix_microseconds s ns else fst tod * 1000000 + snd tod)) (posix_readings xs (if p = None then 0 else 1))"
  by (cases "posix_readings xs (if p = None then 0 else 1)") (auto simp: posix_GetMicroseconds_def)

subsection \<open>Darwin\<close>

record mach_clock =
  tb_numer :: uint32
  tb_denom :: uint32
  start_tick :: uint64

definition mach_GetMicroseconds :: "uint32 \<times> uint32 \<Rightarrow> uint64 \<Rightarrow> mach_clock \<Rightarrow> (uint64 \<times> mach_clock) option" where
  "mach_GetMicroseconds timebase tick c = do {
     let c1 = (if tb_denom c = 0 then \<lparr>tb_numer = fst timebase, tb_denom = snd timebase, start_tick = tick\<rparr> else c);
     let d = tb_denom c1 * 1000;
     cassert (d \<noteq> 0);
     Some ((tick - start_tick c1) * ucast (tb_numer c1) div ucast d, c1)
   }"

lemma mach_elapsed:
  assumes "tb_denom c \<noteq> 0" and d: "unat (tb_denom c) * 1000 < 2 ^ 32" and t: "start_tick c \<le> tick"
    and n: "(unat tick - unat (start_tick c)) * unat (tb_numer c) < 2 ^ 64"
  shows "\<exists>us. mach_GetMicroseconds tb tick c = Some (us, c) \<and>
     unat us = (unat tick - unat (start_tick c)) * unat (tb_numer c) div (unat (tb_denom c) * 1000)"
proof -
  have d1: "unat (tb_denom c * 1000) = unat (tb_denom c) * 1000" using d by (simp add: unat_word_ariths)
  then have d2: "tb_denom c * 1000 \<noteq> 0" using assms(1) by (metis mult_is_0 unat_0 unat_eq_0 zero_neq_numeral)
  have s: "unat (tick - start_tick c) = unat tick - unat (start_tick c)" using t by (rule unat_sub)
  have m: "unat ((tick - start_tick c) * ucast (tb_numer c)) = (unat tick - unat (start_tick c)) * unat (tb_numer c)"
    using n by (simp add: unat_word_ariths s unat_ucast_up)
  have "unat ((tick - start_tick c) * ucast (tb_numer c) div ucast (tb_denom c * 1000 :: uint32)) =
      (unat tick - unat (start_tick c)) * unat (tb_numer c) div (unat (tb_denom c) * 1000)"
    by (simp only: unat_div m) (simp add: unat_ucast_up d1)
  then show ?thesis using assms(1) d2 by (simp add: mach_GetMicroseconds_def)
qed

subsection \<open>Windows\<close>

text \<open>
  The performance counter, corrected by the tick count when the two are more than a second apart. \<open>tick64\<close> and
  \<open>real_tick\<close> are the functions found in \<^verbatim>\<open>kernel32.dll\<close>, if they exist.
\<close>

definition UTGetTickCount64 :: "uint64 option \<Rightarrow> uint64 option \<Rightarrow> uint32 \<Rightarrow> uint64" where
  "UTGetTickCount64 tick64 real_tick ticks = (case tick64 of
      Some t \<Rightarrow> t
    | None \<Rightarrow> (case real_tick of
        Some v \<Rightarrow> ucast (ucast v :: uint32) OR (drop_bit 24 v AND 0xFFFFFFFF00000000)
      | None \<Rightarrow> ucast ticks))"

record win_clock =
  time_init :: bool
  startPerformanceCounter :: uint64
  startGetTickCount :: uint64
  counterPerMicrosecond :: double

definition Time_Initialize :: "uint64 \<Rightarrow> uint64 \<Rightarrow> uint64 \<Rightarrow> win_clock \<Rightarrow> win_clock" where
  "Time_Initialize counter frequency tick c = c\<lparr>startPerformanceCounter := counter,
     counterPerMicrosecond := ddiv (double_of_int (uint frequency)) 1000000, startGetTickCount := tick\<rparr>"

definition abs64 :: "int \<Rightarrow> int" where
  "abs64 x = (if x < 0 then - x else x)"

definition int64_of_double :: "double \<Rightarrow> int option" where
  "int64_of_double x = (if - (2 ^ 63) - 1 < x \<and> x < 2 ^ 63 then Some (if x < 0 then \<lceil>x\<rceil> else \<lfloor>x\<rfloor>) else None)"

text \<open>\<open>init\<close> is what the initialization reads: the counter, its frequency and the tick count.\<close>

definition win_GetMicroseconds :: "uint64 \<times> uint64 \<times> uint64 \<Rightarrow> uint64 \<Rightarrow> uint64 \<Rightarrow> win_clock \<Rightarrow> (int \<times> win_clock) option" where
  "win_GetMicroseconds init counter tick c = do {
     let c1 = (if \<not> time_init c then (let (pc, fr, tk) = init in Time_Initialize pc fr tk (c\<lparr>time_init := True\<rparr>)) else c);
     ret \<leftarrow> int64_of_double (ddiv (double_of_int (sint counter - sint (startPerformanceCounter c1))) (counterPerMicrosecond c1));
     let tick_diff = sint (tick - startGetTickCount c1);
     if abs64 (ret sdiv 100000 - tick_diff sdiv 100) > 10 then do {
       d \<leftarrow> size_of_double (dmul (double_of_int (tick_diff * 1000 - ret)) (counterPerMicrosecond c1));
       let c2 = c1\<lparr>startPerformanceCounter := startPerformanceCounter c1 - d\<rparr>;
       ret2 \<leftarrow> int64_of_double (ddiv (double_of_int (uint (counter - startPerformanceCounter c2))) (counterPerMicrosecond c2));
       Some (ret2, c2)
     } else Some (ret, c1)
   }"

text \<open>
  A performance counter that is ahead of the tick count by more than a second makes the correction negative, and
  its conversion to an unsigned number is undefined.
\<close>

lemma win_clock_ahead_undefined:
  "win_GetMicroseconds (0, 1000000, 0) 2000000 0 \<lparr>time_init = True, startPerformanceCounter = 0, startGetTickCount = 0, counterPerMicrosecond = 1\<rparr> = None"
proof -
  have r: "rnd (of_int 2000000) = of_int 2000000" "rnd (of_int (- 2000000)) = of_int (- 2000000)" by (rule rnd_int, simp)+
  have s: "sint (2000000 :: uint64) = 2000000" by code_simp
  have d: "ddiv (double_of_int 2000000) 1 = 2000000" "dmul (double_of_int (- 2000000)) 1 = - 2000000" using r by (simp_all add: ddiv_def dmul_def double_of_int_def)
  have q: "abs64 20 = 20" by (simp add: abs64_def)
  show ?thesis by (simp add: win_GetMicroseconds_def Let_def s d int64_of_double_def q size_of_double_def)
qed

end
