(* ===== verification/Utp_Names.thy ===== *)
theory Utp_Names
  imports Utp_Socket_Ops
begin

section \<open>Names and queries\<close>

text \<open>
  The tables that translate the codes of callbacks, errors, states and packet types into names for the log, and the
  functions that only hand out a field.
\<close>

fun cb_nr :: "cb_name \<Rightarrow> nat" where
  "cb_nr UTP_ON_FIREWALL = 0"
| "cb_nr UTP_ON_ACCEPT = 1"
| "cb_nr UTP_ON_CONNECT = 2"
| "cb_nr UTP_ON_ERROR = 3"
| "cb_nr UTP_ON_READ = 4"
| "cb_nr UTP_ON_OVERHEAD_STATISTICS = 5"
| "cb_nr UTP_ON_STATE_CHANGE = 6"
| "cb_nr UTP_GET_READ_BUFFER_SIZE = 7"
| "cb_nr UTP_ON_DELAY_SAMPLE = 8"
| "cb_nr UTP_GET_UDP_MTU = 9"
| "cb_nr UTP_GET_UDP_OVERHEAD = 10"
| "cb_nr UTP_GET_MILLISECONDS = 11"
| "cb_nr UTP_GET_MICROSECONDS = 12"
| "cb_nr UTP_GET_RANDOM = 13"
| "cb_nr UTP_LOG = 14"
| "cb_nr UTP_SENDTO = 15"

definition utp_callback_names :: "string list" where
  "utp_callback_names = [''UTP_ON_FIREWALL'', ''UTP_ON_ACCEPT'', ''UTP_ON_CONNECT'', ''UTP_ON_ERROR'', ''UTP_ON_READ'',
     ''UTP_ON_OVERHEAD_STATISTICS'', ''UTP_ON_STATE_CHANGE'', ''UTP_GET_READ_BUFFER_SIZE'', ''UTP_ON_DELAY_SAMPLE'', ''UTP_GET_UDP_MTU'',
     ''UTP_GET_UDP_OVERHEAD'', ''UTP_GET_MILLISECONDS'', ''UTP_GET_MICROSECONDS'', ''UTP_GET_RANDOM'', ''UTP_LOG'', ''UTP_SENDTO'']"

fun error_nr :: "utp_error \<Rightarrow> nat" where
  "error_nr UTP_ECONNREFUSED = 0"
| "error_nr UTP_ECONNRESET = 1"
| "error_nr UTP_ETIMEDOUT = 2"

definition utp_error_code_names :: "string list" where
  "utp_error_code_names = [''UTP_ECONNREFUSED'', ''UTP_ECONNRESET'', ''UTP_ETIMEDOUT'']"

fun utp_state_nr :: "utp_state \<Rightarrow> nat" where
  "utp_state_nr UTP_STATE_CONNECT = 1"
| "utp_state_nr UTP_STATE_WRITABLE = 2"
| "utp_state_nr UTP_STATE_EOF = 3"
| "utp_state_nr UTP_STATE_DESTROYING = 4"

definition utp_state_names :: "string option list" where
  "utp_state_names = [None, Some ''UTP_STATE_CONNECT'', Some ''UTP_STATE_WRITABLE'', Some ''UTP_STATE_EOF'', Some ''UTP_STATE_DESTROYING'']"

definition flagnames :: "string list" where
  "flagnames = [''ST_DATA'', ''ST_FIN'', ''ST_STATE'', ''ST_RESET'', ''ST_SYN'']"

definition statenames :: "string list" where
  "statenames = [''UNINITIALIZED'', ''IDLE'', ''SYN_SENT'', ''SYN_RECV'', ''CONNECTED'', ''CONNECTED_FULL'', ''DESTROY_DELAY'', ''RESET'', ''DESTROY'']"

definition utp_get_context_stats :: "utp_context \<Rightarrow> uint32 list \<times> uint32 list" where
  "utp_get_context_stats ctx = (nraw_recv ctx, nraw_send ctx)"

text \<open>Without \<^verbatim>\<open>_DEBUG\<close> a socket keeps no statistics.\<close>

definition utp_get_stats :: "UTPSocket \<Rightarrow> (uint64 \<times> uint32) option" where
  "utp_get_stats s = None"

text \<open>Every code is inside its table and has its own name.\<close>

lemma name_tables:
  "cb_nr c < length utp_callback_names" "error_nr e < length utp_error_code_names"
  "utp_state_nr st < length utp_state_names \<and> utp_state_names ! utp_state_nr st \<noteq> None" "state_nr cs < length statenames"
  by (cases c; simp add: utp_callback_names_def)
    ((cases e; simp add: utp_error_code_names_def), (cases st; simp add: utp_state_names_def), (cases cs; simp add: statenames_def))

lemma distinct_names: "distinct utp_callback_names" "distinct statenames"
  by (simp_all add: utp_callback_names_def statenames_def)

lemma cb_nr_name: "utp_callback_names ! cb_nr c = utp_callback_names ! cb_nr c' \<Longrightarrow> c = c'"
proof -
  assume "utp_callback_names ! cb_nr c = utp_callback_names ! cb_nr c'"
  then have "cb_nr c = cb_nr c'" using name_tables(1) distinct_names(1) by (simp add: nth_eq_iff_index_eq)
  then show "c = c'" by (cases c; cases c'; simp)
qed

text \<open>The table of the connection states has one name too many: the last two states get the wrong names.\<close>

lemma state_names_shifted:
  "statenames ! state_nr CS_CONNECTED_FULL = ''CONNECTED_FULL''" "statenames ! state_nr CS_RESET = ''DESTROY_DELAY''" "statenames ! state_nr CS_DESTROY = ''RESET''"
  by (simp_all add: statenames_def)

text \<open>The statistics of a context count every datagram in one of five classes.\<close>

lemma sum_list_bump: "i < length xs \<Longrightarrow> sum_list (xs[i := xs ! i + y]) = sum_list xs + (y :: 'a::comm_monoid_add)"
  by (induction xs arbitrary: i) (auto simp: ac_simps split: nat.split)

lemma sent_statistics:
  assumes "length (nraw_send ctx) = 5"
  shows "sum_list (snd (utp_get_context_stats (utp_register_sent_packet ctx n))) = sum_list (snd (utp_get_context_stats ctx)) + 1"
proof -
  have "packet_bucket n < 5" by (simp add: packet_bucket_def)
  then have "packet_bucket n < length (nraw_send ctx)" using assms by simp
  then show ?thesis by (simp add: utp_get_context_stats_def utp_register_sent_packet_def Let_def sum_list_bump)
qed

end
