(* ===== verification/Utp_Dispatch.thy ===== *)
theory Utp_Dispatch
  imports Utp_Socket_Ops Utp_Hash_Iter
begin

section \<open>The entry points of a context\<close>

text \<open>
  The calls that work on a context: a datagram or an ICMP message from the network, the deferred
  acks, the timers of all sockets and the end of the context. They find the socket and run the
  operations of the other theories on it. \<open>on_sock\<close> fetches the object from the heap \<open>socks\<close>, runs an
  operation and stores the object back; a pointer to an object that does not exist is a fault.
\<close>

definition on_sock :: "sid \<Rightarrow> (conn \<Rightarrow> ('a \<times> conn) option) \<Rightarrow> utp_context \<Rightarrow> ('a \<times> utp_context) option" where
  "on_sock i f ctx = do {
     s \<leftarrow> socks ctx i;
     (r, s', ctx') \<leftarrow> f (s, ctx);
     Some (r, ctx'\<lparr>socks := (socks ctx')(i \<mapsto> s')\<rparr>)
   }"

definition run_sock :: "sid \<Rightarrow> (conn \<Rightarrow> conn option) \<Rightarrow> utp_context \<Rightarrow> utp_context option" where
  "run_sock i f ctx = map_option snd (on_sock i (\<lambda>c. map_option (Pair ()) (f c)) ctx)"

subsection \<open>Finding the connection\<close>

text \<open>
  The id of a reset or of a packet quoted in an ICMP message may be the id we receive on or the one we send with.
\<close>

definition find_by_send_id :: "PackedSockAddr \<Rightarrow> uint32 \<Rightarrow> uint32 \<Rightarrow> utp_context \<Rightarrow> sid option option" where
  "find_by_send_id a rid cid ctx = do {
     r \<leftarrow> utp_hash_find (utp_sockets ctx) \<lparr>key_addr = a, recv_id = rid\<rparr>;
     case r of
       None \<Rightarrow> Some None
     | Some i \<Rightarrow> do { s \<leftarrow> socks ctx i; Some (if conn_id_send s = cid then Some i else None) }
   }"

definition find_conn :: "PackedSockAddr \<Rightarrow> uint32 \<Rightarrow> utp_context \<Rightarrow> sid option option" where
  "find_conn a cid ctx = do {
     r0 \<leftarrow> utp_hash_find (utp_sockets ctx) \<lparr>key_addr = a, recv_id = cid\<rparr>;
     if r0 \<noteq> None then Some r0
     else do {
       r1 \<leftarrow> find_by_send_id a (cid + 1) cid ctx;
       if r1 \<noteq> None then Some r1 else find_by_send_id a (cid - 1) cid ctx
     }
   }"

text \<open>Any other packet is looked up by the id we receive on; the last socket is remembered.\<close>

definition lookup_conn :: "PackedSockAddr \<Rightarrow> uint32 \<Rightarrow> utp_context \<Rightarrow> (sid option \<times> utp_context) option" where
  "lookup_conn a cid ctx = do {
     hit \<leftarrow> (case last_utp_socket ctx of
        None \<Rightarrow> Some None
      | Some i \<Rightarrow> do { s \<leftarrow> socks ctx i; Some (if psa_eq (addr s) a \<and> conn_id_recv s = cid then Some i else None) });
     if hit \<noteq> None then Some (hit, ctx)
     else do {
       r \<leftarrow> utp_hash_find (utp_sockets ctx) \<lparr>key_addr = a, recv_id = cid\<rparr>;
       Some (r, if r = None then ctx else ctx\<lparr>last_utp_socket := r\<rparr>)
     }
   }"

subsection \<open>Incoming datagrams\<close>

definition recv_overhead :: "size_t \<Rightarrow> bandwidth_type_t \<Rightarrow> conn \<Rightarrow> conn" where
  "recv_overhead len type = (\<lambda>(s, ctx). let (n, ctx1) = get_udp_overhead (s, ctx)
     in (s, utp_call_on_overhead_statistics ctx1 (self s) False (len + n) type))"

text \<open>A reset for a known connection: the state has changed when the error code is chosen.\<close>

definition reset_conn :: "size_t \<Rightarrow> conn \<Rightarrow> conn" where
  "reset_conn len = (\<lambda>(s, ctx).
     let s1 = s\<lparr>state := (if close_requested s then CS_DESTROY else CS_RESET)\<rparr>;
         (s2, ctx1) = recv_overhead len close_overhead (s1, ctx);
         err = (if state s2 = CS_SYN_SENT then UTP_ECONNREFUSED else UTP_ECONNRESET)
     in (s2, utp_call_on_error ctx1 (self s2) err))"

definition process_rst :: "size_t \<Rightarrow> PackedSockAddr \<Rightarrow> uint32 \<Rightarrow> utp_context \<Rightarrow> utp_context option" where
  "process_rst len a cid ctx = do {
     r \<leftarrow> find_conn a cid ctx;
     case r of None \<Rightarrow> Some ctx | Some i \<Rightarrow> run_sock i (\<lambda>c. Some (reset_conn len c)) ctx
   }"

definition incoming_conn :: "byte list \<Rightarrow> byte list \<Rightarrow> conn \<Rightarrow> conn option" where
  "incoming_conn p slack c = do {
     (n, c1) \<leftarrow> utp_process_incoming p slack False c;
     Some (recv_overhead (of_nat (length p) - n) header_overhead c1)
   }"

definition RST_INFO_TIMEOUT :: int where "RST_INFO_TIMEOUT = 10000"
definition RST_INFO_LIMIT :: nat where "RST_INFO_LIMIT = 1000"
definition TIMEOUT_CHECK_INTERVAL :: uint64 where "TIMEOUT_CHECK_INTERVAL = 500"

text \<open>A packet of no known connection is answered by a reset, unless one for the same packet has been sent lately.\<close>

fun touch_rst :: "PackedSockAddr \<Rightarrow> uint32 \<Rightarrow> uint32 \<Rightarrow> uint64 \<Rightarrow> RST_Info list \<Rightarrow> RST_Info list option" where
  "touch_rst a cid seqn now [] = None"
| "touch_rst a cid seqn now (r # rs) =
     (if rst_connid r = cid \<and> psa_eq (rst_addr r) a \<and> ucast (rst_ack_nr r) = seqn
      then Some (r\<lparr>rst_timestamp := now\<rparr> # rs)
      else map_option (Cons r) (touch_rst a cid seqn now rs))"

definition reject_packet :: "PackedSockAddr \<Rightarrow> uint32 \<Rightarrow> uint32 \<Rightarrow> utp_context \<Rightarrow> utp_context" where
  "reject_packet a cid seqn ctx = (
     let (ms, ctx1) = utp_call_get_milliseconds ctx None;
         ctx2 = ctx1\<lparr>current_ms := ms\<rparr>
     in case touch_rst a cid seqn ms (rst_info ctx2) of
          Some rs \<Rightarrow> ctx2\<lparr>rst_info := rs\<rparr>
        | None \<Rightarrow>
            if RST_INFO_LIMIT < length (rst_info ctx2) then ctx2
            else let ctx3 = ctx2\<lparr>rst_info := rst_info ctx2 @
                       [\<lparr>rst_addr = a, rst_connid = cid, rst_ack_nr = ucast seqn, rst_timestamp = ms\<rparr>]\<rparr>;
                     (r, ctx4) = utp_call_get_random ctx3 None
                 in send_rst ctx4 a cid (ucast seqn) (ucast r))"

text \<open>
  A SYN makes a new socket, unless its id is taken, there are too many sockets or the application
  blocks the address. \<open>junk\<close> and \<open>i\<close> are the memory and the address that \<^verbatim>\<open>new\<close> returns.
\<close>

definition accept_conn :: "byte list \<Rightarrow> byte list \<Rightarrow> SOCKADDR_STORAGE \<Rightarrow> nat \<Rightarrow> uint32 \<Rightarrow> uint32 \<Rightarrow> conn \<Rightarrow> conn option" where
  "accept_conn p slack to tolen cid seq c = do {
     (s1, ctx1) \<leftarrow> utp_initialize_socket to tolen False cid (cid + 1) cid c;
     let (r, ctx2) = utp_call_get_random ctx1 None;
     let s2 = s1\<lparr>state := CS_SYN_RECV, ack_nr := ucast seq, seq_nr := ucast r, fast_resend_seq_nr := ucast r\<rparr>;
     (n, c3) \<leftarrow> utp_process_incoming p slack True (s2, ctx2);
     (s4, ctx4) \<leftarrow> send_ack True c3;
     let ctx5 = utp_call_on_accept ctx4 (self s4) to tolen;
     let (s6, ctx6) = recv_overhead (of_nat (length p) - n) header_overhead (s4, ctx5);
     let (len, ctx7) = get_overhead (s6, ctx6);
     Some (s6, utp_call_on_overhead_statistics ctx7 (self s6) True len ack_overhead)
   }"

definition accept_syn :: "UTPSocket \<Rightarrow> sid \<Rightarrow> byte list \<Rightarrow> byte list \<Rightarrow> SOCKADDR_STORAGE \<Rightarrow> nat \<Rightarrow> PackedSockAddr \<Rightarrow> uint32 \<Rightarrow> uint32 \<Rightarrow>
    utp_context \<Rightarrow> utp_context option" where
  "accept_syn junk i p slack to tolen a cid seq ctx =
     (if callbacks ctx UTP_ON_ACCEPT \<noteq> None then do {
        r \<leftarrow> utp_hash_find (utp_sockets ctx) \<lparr>key_addr = a, recv_id = cid + 1\<rparr>;
        if r \<noteq> None then Some ctx
        else if 3000 < hash_count (utp_sockets ctx) then Some ctx
        else do {
          let (blocked, ctx1) = utp_call_on_firewall ctx to tolen;
          if blocked \<noteq> 0 then Some ctx1
          else run_sock i (accept_conn p slack to tolen cid seq) (utp_create_socket junk i ctx1)
        }
      } else Some ctx)"

definition utp_process_udp :: "UTPSocket \<Rightarrow> sid \<Rightarrow> byte list \<Rightarrow> byte list \<Rightarrow> SOCKADDR_STORAGE \<Rightarrow> nat \<Rightarrow> utp_context \<Rightarrow> (int \<times> utp_context) option" where
  "utp_process_udp junk i p slack to tolen ctx = do {
     a \<leftarrow> psa_set to tolen;
     if length p < sizeof_PacketFormatV1 then Some (0, ctx)
     else do {
       pf1 \<leftarrow> pf_of_bytes (p @ slack);
       let cid = ucast (pf_connid pf1);
       let seq = ucast (pf_seq_nr pf1);
       if UTP_Version pf1 \<noteq> 1 then Some (0, ctx)
       else if pf_type pf1 = ST_RESET then map_option (Pair 1) (process_rst (of_nat (length p)) a cid ctx)
       else if pf_type pf1 \<noteq> ST_SYN then do {
         (found, ctx1) \<leftarrow> lookup_conn a cid ctx;
         case found of
           Some j \<Rightarrow> map_option (Pair 1) (run_sock j (incoming_conn p slack) ctx1)
         | None \<Rightarrow> Some (1, reject_packet a cid seq ctx1)
       }
       else map_option (Pair 1) (accept_syn junk i p slack to tolen a cid seq ctx)
     }
   }"

subsection \<open>ICMP messages\<close>

definition parse_icmp_payload :: "byte list \<Rightarrow> SOCKADDR_STORAGE \<Rightarrow> nat \<Rightarrow> utp_context \<Rightarrow> sid option option" where
  "parse_icmp_payload p to tolen ctx = do {
     a \<leftarrow> psa_set to tolen;
     if length p < sizeof_PacketFormatV1 then Some None
     else do {
       pf \<leftarrow> pf_of_bytes p;
       if UTP_Version pf \<noteq> 1 then Some None else find_conn a (ucast (pf_connid pf)) ctx
     }
   }"

definition utp_process_icmp_fragmentation :: "byte list \<Rightarrow> SOCKADDR_STORAGE \<Rightarrow> nat \<Rightarrow> uint16 \<Rightarrow> utp_context \<Rightarrow> (int \<times> utp_context) option" where
  "utp_process_icmp_fragmentation p to tolen next_hop_mtu ctx = do {
     r \<leftarrow> parse_icmp_payload p to tolen ctx;
     case r of None \<Rightarrow> Some (0, ctx) | Some i \<Rightarrow> map_option (Pair 1) (run_sock i (mtu_icmp next_hop_mtu) ctx)
   }"

definition icmp_error_conn :: "conn \<Rightarrow> conn" where
  "icmp_error_conn = (\<lambda>(s, ctx).
     let err = (if state s = CS_SYN_SENT then UTP_ECONNREFUSED else UTP_ECONNRESET)
     in if state s = CS_IDLE then (s, ctx)
        else (s\<lparr>state := (if close_requested s then CS_DESTROY else CS_RESET)\<rparr>, utp_call_on_error ctx (self s) err))"

definition utp_process_icmp_error :: "byte list \<Rightarrow> SOCKADDR_STORAGE \<Rightarrow> nat \<Rightarrow> utp_context \<Rightarrow> (int \<times> utp_context) option" where
  "utp_process_icmp_error p to tolen ctx = do {
     r \<leftarrow> parse_icmp_payload p to tolen ctx;
     case r of None \<Rightarrow> Some (0, ctx) | Some i \<Rightarrow> map_option (Pair 1) (run_sock i (\<lambda>c. Some (icmp_error_conn c)) ctx)
   }"

subsection \<open>Deferred acks and timers\<close>

text \<open>Every ack takes its socket off the list, so the loop stays at the first position.\<close>

partial_function (option) utp_issue_deferred_acks :: "utp_context \<Rightarrow> utp_context option" where
  "utp_issue_deferred_acks ctx =
     (if length (ack_sockets ctx) \<le> 0 then Some ctx
      else Option.bind (array_at (ack_sockets ctx) 0) (\<lambda>i.
        Option.bind (run_sock i (send_ack False) ctx) utp_issue_deferred_acks))"

declare utp_issue_deferred_acks.simps [code]

partial_function (option) expire_rst :: "uint64 \<Rightarrow> nat \<Rightarrow> RST_Info list \<Rightarrow> RST_Info list option" where
  "expire_rst now i rs =
     (if i < length rs then
        if RST_INFO_TIMEOUT \<le> as_int (now - rst_timestamp (rs ! i))
        then Option.bind (MoveUpLast rs i) (\<lambda>(rs', _). expire_rst now i rs')
        else expire_rst now (i + 1) rs
      else Some rs)"

declare expire_rst.simps [code]

definition check_socket :: "sid \<Rightarrow> utp_context \<Rightarrow> utp_context option" where
  "check_socket i ctx = do {
     ctx1 \<leftarrow> run_sock i check_timeouts ctx;
     s \<leftarrow> socks ctx1 i;
     if state s = CS_DESTROY then destroy_socket i ctx1 else Some ctx1
   }"

definition utp_check_timeouts :: "utp_context \<Rightarrow> utp_context option" where
  "utp_check_timeouts ctx = do {
     let (ms, ctx1) = utp_call_get_milliseconds ctx None;
     let ctx2 = ctx1\<lparr>current_ms := ms\<rparr>;
     if ms - last_check ctx2 < TIMEOUT_CHECK_INTERVAL then Some ctx2
     else do {
       rs \<leftarrow> expire_rst ms 0 (rst_info ctx2);
       for_each utp_hash_next utp_sockets check_socket utp_hash_iterator_init (ctx2\<lparr>last_check := ms, rst_info := rs\<rparr>)
     }
   }"

subsection \<open>The end of a context\<close>

definition UTP_FreeAll :: "utp_context \<Rightarrow> utp_context option" where
  "UTP_FreeAll ctx = for_each utp_hash_next utp_sockets destroy_socket utp_hash_iterator_init ctx"

text \<open>\<^verbatim>\<open>delete ctx\<close> deletes the table, whose destructor deletes the sockets.\<close>

definition utp_destroy :: "utp_context \<Rightarrow> utp_context option" where
  "utp_destroy ctx = UTP_FreeAll ctx"

end
