(* ===== verification/Utp_World.thy ===== *)
theory Utp_World
  imports Utp_Dispatch
begin

section \<open>The invariant of a context\<close>

text \<open>
  A context is well-formed when every socket in its heap is, when the table holds exactly the
  initialized sockets, each under its own address and id, and when the list of pending acks and the
  remembered socket refer to sockets that exist. Every entry point keeps this.
\<close>

definition active :: "utp_context \<Rightarrow> sid \<Rightarrow> bool" where
  "active ctx i \<longleftrightarrow> (\<exists>s. socks ctx i = Some s \<and> state s \<noteq> CS_UNINITIALIZED)"

definition sock_ok :: "nat \<Rightarrow> nat \<Rightarrow> nat \<Rightarrow> nat \<Rightarrow> utp_context \<Rightarrow> sid \<Rightarrow> UTPSocket \<Rightarrow> bool" where
  "sock_ok T L lo hi ctx i s \<longleftrightarrow> self s = i \<and> (if state s = CS_UNINITIALIZED then fresh_sock s
     else sock_inv T L lo hi (s, ctx) \<and> fin_room s \<and> hash_abs (utp_sockets ctx) (sock_key s) = Some i)"

definition world_inv :: "nat \<Rightarrow> nat \<Rightarrow> nat \<Rightarrow> nat \<Rightarrow> utp_context \<Rightarrow> bool" where
  "world_inv T L lo hi ctx \<longleftrightarrow> ctx_good L lo hi ctx \<and> hash_ok (utp_sockets ctx) \<and> unat (ctx_opt_sndbuf ctx) < 2 ^ 40 \<and>
     (\<forall>i s. socks ctx i = Some s \<longrightarrow> sock_ok T L lo hi ctx i s) \<and>
     (\<forall>k i. hash_abs (utp_sockets ctx) k = Some i \<longrightarrow> (\<exists>s. socks ctx i = Some s \<and> state s \<noteq> CS_UNINITIALIZED \<and> sock_key s = k)) \<and>
     (\<forall>i \<in> set (ack_sockets ctx). active ctx i) \<and> (\<forall>i. last_utp_socket ctx = Some i \<longrightarrow> active ctx i) \<and>
     length (rst_info ctx) \<le> RST_INFO_LIMIT + 1"

lemma world_invD:
  assumes "world_inv T L lo hi ctx"
  shows "ctx_good L lo hi ctx" "hash_ok (utp_sockets ctx)" "unat (ctx_opt_sndbuf ctx) < 2 ^ 40" "socks ctx i = Some s \<Longrightarrow> sock_ok T L lo hi ctx i s"
    "hash_abs (utp_sockets ctx) k = Some i \<Longrightarrow> \<exists>s. socks ctx i = Some s \<and> state s \<noteq> CS_UNINITIALIZED \<and> sock_key s = k"
    "i \<in> set (ack_sockets ctx) \<Longrightarrow> active ctx i" "last_utp_socket ctx = Some i \<Longrightarrow> active ctx i"
    "length (rst_info ctx) \<le> RST_INFO_LIMIT + 1"
  using assms unfolding world_inv_def by blast+

lemma world_invI:
  assumes "ctx_good L lo hi ctx" "hash_ok (utp_sockets ctx)" "unat (ctx_opt_sndbuf ctx) < 2 ^ 40"
    "\<And>i s. socks ctx i = Some s \<Longrightarrow> sock_ok T L lo hi ctx i s"
    "\<And>k i. hash_abs (utp_sockets ctx) k = Some i \<Longrightarrow> \<exists>s. socks ctx i = Some s \<and> state s \<noteq> CS_UNINITIALIZED \<and> sock_key s = k"
    "\<And>i. i \<in> set (ack_sockets ctx) \<Longrightarrow> active ctx i" "\<And>i. last_utp_socket ctx = Some i \<Longrightarrow> active ctx i"
    "length (rst_info ctx) \<le> RST_INFO_LIMIT + 1"
  shows "world_inv T L lo hi ctx"
  unfolding world_inv_def by (intro conjI allI ballI impI; (rule assms)?; assumption)

lemma world_sock:
  assumes "world_inv T L lo hi ctx" and "socks ctx i = Some s" and "state s \<noteq> CS_UNINITIALIZED"
  shows "self s = i" "sock_inv T L lo hi (s, ctx)" "fin_room s" "hash_abs (utp_sockets ctx) (sock_key s) = Some i"
  using world_invD(4) [OF assms(1,2)] assms(3) by (simp_all add: sock_ok_def)

subsection \<open>Changes of the context alone\<close>

text \<open>A change that no socket notices.\<close>

definition quiet :: "utp_context \<Rightarrow> utp_context \<Rightarrow> bool" where
  "quiet ctx ctx' \<longleftrightarrow> callbacks ctx' = callbacks ctx \<and> (\<exists>cs. calls ctx' = calls ctx @ cs) \<and> (ctx_ok ctx \<longrightarrow> ctx_ok ctx')"

lemma quiet_sock_inv:
  assumes "quiet ctx ctx'" and "sock_inv T L lo hi (s, ctx)"
  shows "sock_inv T L lo hi (s, ctx')"
proof -
  obtain cs where cs: "calls ctx' = calls ctx @ cs" using assms(1) unfolding quiet_def by blast
  have r: "reading ctx' = reading ctx" using assms(1) by (simp add: quiet_def reading_def fun_eq_iff)
  have "app_ok L ctx' = app_ok L ctx" using assms(1) by (intro app_ok_cong) (simp add: quiet_def)
  moreover have "clock_ok lo hi ctx \<Longrightarrow> clock_ok lo hi ctx'" "times_ok lo ctx s \<Longrightarrow> times_ok lo ctx' s"
    by (auto simp: clock_ok_def times_ok_def stamped_def r cs)
  ultimately show ?thesis using assms by (simp add: sock_inv_def ack_inv_def quiet_def)
qed

lemma quiet_good:
  assumes "quiet ctx ctx'" and "ctx_good L lo hi ctx"
  shows "ctx_good L lo hi ctx'"
proof -
  obtain cs where cs: "calls ctx' = calls ctx @ cs" using assms(1) unfolding quiet_def by blast
  have r: "reading ctx' = reading ctx" using assms(1) by (simp add: quiet_def reading_def fun_eq_iff)
  have "app_ok L ctx' = app_ok L ctx" using assms(1) by (intro app_ok_cong) (simp add: quiet_def)
  moreover have "clock_ok lo hi ctx \<Longrightarrow> clock_ok lo hi ctx'" by (auto simp: clock_ok_def r cs)
  ultimately show ?thesis using assms by (simp add: ctx_good_def quiet_def)
qed

lemma quiet_trans: "quiet a b \<Longrightarrow> quiet b c \<Longrightarrow> quiet a c"
  by (auto simp: quiet_def)

lemma quiet_evolve: "ctx_evolve i ctx ctx' \<Longrightarrow> quiet ctx ctx'"
  using ctx_evolve_fields(3,7,10) by (auto simp: quiet_def)

lemma quiet_trace: "trace_ext ctx ctx' \<Longrightarrow> quiet ctx ctx'"
  by (rule quiet_evolve [OF ctx_evolve_trace])

lemma quiet_update [simp]:
  "quiet ctx (ctx'\<lparr>current_ms := ms\<rparr>) = quiet ctx ctx'" "quiet ctx (ctx'\<lparr>rst_info := rs\<rparr>) = quiet ctx ctx'"
  "quiet ctx (ctx'\<lparr>last_check := ms\<rparr>) = quiet ctx ctx'" "quiet ctx (ctx'\<lparr>last_utp_socket := l\<rparr>) = quiet ctx ctx'"
  "quiet ctx (ctx'\<lparr>socks := so\<rparr>) = quiet ctx ctx'" "quiet ctx (ctx'\<lparr>utp_sockets := h\<rparr>) = quiet ctx ctx'" "quiet ctx ctx"
  by (simp_all add: quiet_def ctx_ok_def ack_ok_def)

text \<open>The parts of the context that the invariant is about.\<close>

definition world_core :: "utp_context \<Rightarrow> _" where
  "world_core ctx = (socks ctx, utp_sockets ctx, set (ack_sockets ctx), last_utp_socket ctx, ctx_opt_sndbuf ctx)"

lemma world_quiet:
  assumes W: "world_inv T L lo hi ctx" and q: "quiet ctx ctx'" and e: "world_core ctx' = world_core ctx"
    and rst: "length (rst_info ctx') \<le> RST_INFO_LIMIT + 1"
  shows "world_inv T L lo hi ctx'"
proof -
  have eq: "socks ctx' = socks ctx" "utp_sockets ctx' = utp_sockets ctx" "set (ack_sockets ctx') = set (ack_sockets ctx)"
    "last_utp_socket ctx' = last_utp_socket ctx" "ctx_opt_sndbuf ctx' = ctx_opt_sndbuf ctx" using e by (simp_all add: world_core_def)
  have ac: "active ctx' = active ctx" by (simp add: fun_eq_iff active_def eq)
  show ?thesis
  proof (rule world_invI)
    show "sock_ok T L lo hi ctx' i s" if "socks ctx' i = Some s" for i s
      using world_invD(4) [OF W that [unfolded eq]] quiet_sock_inv [OF q] by (auto simp: sock_ok_def eq split: if_splits)
  qed (use world_invD(1-3,5-7) [OF W] quiet_good [OF q] rst in \<open>simp_all add: eq ac\<close>)
qed

lemma world_trace: "world_inv T L lo hi ctx \<Longrightarrow> trace_ext ctx ctx' \<Longrightarrow> world_inv T L lo hi ctx'"
proof -
  assume W: "world_inv T L lo hi ctx" and tr: "trace_ext ctx ctx'"
  have "world_core ctx' = world_core ctx" using tr by (auto simp: trace_ext_def world_core_def)
  moreover have "rst_info ctx' = rst_info ctx" using tr by (auto simp: trace_ext_def)
  ultimately show ?thesis using world_invD(8) [OF W] by (intro world_quiet [OF W quiet_trace [OF tr]]) simp_all
qed

lemma world_update [simp]:
  assumes "world_inv T L lo hi ctx"
  shows "world_inv T L lo hi (ctx\<lparr>current_ms := ms\<rparr>)" "world_inv T L lo hi (ctx\<lparr>last_check := ms\<rparr>)"
    "length rs \<le> RST_INFO_LIMIT + 1 \<Longrightarrow> world_inv T L lo hi (ctx\<lparr>rst_info := rs\<rparr>)"
  using world_invD(8) [OF assms] by (auto intro: world_quiet [OF assms] simp: world_core_def)

lemma sock_ok_mono: "sock_ok T L lo hi ctx i s \<Longrightarrow> T \<le> T' \<Longrightarrow> sock_ok T' L lo hi ctx i s"
  using sock_inv_mono [of T L lo hi "(s, ctx)" T'] by (auto simp: sock_ok_def split: if_splits)

lemma world_mono: "world_inv T L lo hi ctx \<Longrightarrow> T \<le> T' \<Longrightarrow> world_inv T' L lo hi ctx"
  by (rule world_invI) (auto dest: world_invD intro: sock_ok_mono)

subsection \<open>An operation on one socket\<close>

definition stepped :: "nat \<Rightarrow> nat \<Rightarrow> nat \<Rightarrow> nat \<Rightarrow> conn \<Rightarrow> conn \<Rightarrow> bool" where
  "stepped T L lo hi = (\<lambda>(s, ctx) (s', ctx'). self s' = self s \<and> sock_key s' = sock_key s \<and> ctx_evolve (self s) ctx ctx' \<and>
     sock_inv T L lo hi (s', ctx') \<and> fin_room s')"

lemma stepped_trans: "stepped T L lo hi a b \<Longrightarrow> stepped T' L lo hi b c \<Longrightarrow> stepped T' L lo hi a c"
  by (cases a; cases b; cases c) (auto simp: stepped_def intro: ctx_evolve_trans)

lemma conn_done_stepped: "conn_done T L lo hi (s, ctx) c' \<Longrightarrow> fin_room s \<Longrightarrow> stepped T L lo hi (s, ctx) c'"
  by (cases c') (auto simp: stepped_def conn_done_def same_conn_def sock_key_def fin_room_def)

lemma called_stepped: "called T L lo hi (s, ctx) c' \<Longrightarrow> stepped T L lo hi (s, ctx) c'"
  by (cases c') (auto simp: stepped_def called_def same_peer_def sock_key_def)

text \<open>The other sockets and the table stay.\<close>

definition others_stay :: "sid \<Rightarrow> utp_context \<Rightarrow> utp_context \<Rightarrow> bool" where
  "others_stay i ctx ctx' \<longleftrightarrow> (\<forall>j. j \<noteq> i \<longrightarrow> socks ctx' j = socks ctx j) \<and> utp_sockets ctx' = utp_sockets ctx \<and>
     set (ack_sockets ctx') - {i} = set (ack_sockets ctx) - {i} \<and> last_utp_socket ctx' = last_utp_socket ctx \<and>
     rst_info ctx' = rst_info ctx \<and> quiet ctx ctx'"

lemma world_store:
  assumes W: "world_inv T L lo hi ctx" and s: "socks ctx i = Some s" "state s \<noteq> CS_UNINITIALIZED" and T: "T \<le> T'"
    and st: "stepped T' L lo hi (s, ctx) (s', ctx')"
  shows "world_inv T' L lo hi (ctx'\<lparr>socks := (socks ctx')(i \<mapsto> s')\<rparr>)" "others_stay i ctx (ctx'\<lparr>socks := (socks ctx')(i \<mapsto> s')\<rparr>)"
proof -
  let ?c = "ctx'\<lparr>socks := (socks ctx')(i \<mapsto> s')\<rparr>"
  note w = world_sock [OF W s]
  have ev: "ctx_evolve i ctx ctx'" and f: "self s' = i" "sock_key s' = sock_key s" "sock_inv T' L lo hi (s', ctx')" "fin_room s'"
    using st w(1) by (auto simp: stepped_def)
  note e = ctx_evolve_fields [OF ev]
  have q: "quiet ctx ?c" using quiet_evolve [OF ev] by simp
  have un: "state s' \<noteq> CS_UNINITIALIZED" using f(3) by (simp add: sock_inv_def syn_ok_def)
  have q': "quiet ctx' ?c" by simp
  have ac: "active ctx j \<Longrightarrow> active ?c j" "active ?c i" for j using un by (auto simp: active_def e(2))
  show "world_inv T' L lo hi ?c"
  proof (rule world_invI)
    show "sock_ok T' L lo hi ?c j t" if "socks ?c j = Some t" for j t
    proof (cases "j = i")
      case True
      then show ?thesis using that f un w(4) quiet_sock_inv [OF q' f(3)] by (simp add: sock_ok_def e(1))
    next
      case False
      then have "sock_ok T' L lo hi ctx j t" using sock_ok_mono [OF world_invD(4) [OF W] T] that e(2) by simp
      then show ?thesis using quiet_sock_inv [OF q] by (auto simp: sock_ok_def e(1) split: if_splits)
    qed
    show "\<exists>t. socks ?c j = Some t \<and> state t \<noteq> CS_UNINITIALIZED \<and> sock_key t = k" if "hash_abs (utp_sockets ?c) k = Some j" for k j
    proof -
      have "hash_abs (utp_sockets ctx) k = Some j" using that e(1) by simp
      then obtain t where "socks ctx j = Some t" "state t \<noteq> CS_UNINITIALIZED" "sock_key t = k" using world_invD(5) [OF W] by blast
      then show ?thesis using un f(2) s(1) e(2) by (cases "j = i") simp_all
    qed
    show "active ?c j" if "j \<in> set (ack_sockets ?c)" for j
    proof (cases "j = i")
      case False
      then have "j \<in> set (ack_sockets ctx)" using that e(6) by auto
      then show ?thesis by (rule ac(1) [OF world_invD(6) [OF W]])
    qed (simp add: ac(2))
    show "active ?c j" if "last_utp_socket ?c = Some j" for j using ac(1) [OF world_invD(7) [OF W]] that e(4) by simp
  qed (use quiet_good [OF q world_invD(1) [OF W]] world_invD(2,3,8) [OF W] e(1,5,8) in simp_all)
  show "others_stay i ctx ?c" using e q by (simp add: others_stay_def)
qed

lemma world_on_sock:
  assumes W: "world_inv T L lo hi ctx" and s: "socks ctx i = Some s" "state s \<noteq> CS_UNINITIALIZED" and T: "T \<le> T'"
    and f: "wpo (f (s, ctx)) (\<lambda>(r, c'). stepped T' L lo hi (s, ctx) c' \<and> Q r (fst c'))"
  shows "wpo (on_sock i f ctx) (\<lambda>(r, ctx'). world_inv T' L lo hi ctx' \<and> others_stay i ctx ctx' \<and> (\<exists>s'. socks ctx' i = Some s' \<and> sock_key s' = sock_key s \<and> Q r s'))"
  unfolding on_sock_def s(1) bind.bind_lunit
proof (rule wpo_bindI [OF f], clarify, goal_cases)
  case (1 r s' ctx')
  then show ?case using world_store [OF W s T 1(1)] by (simp add: stepped_def)
qed

lemma world_run_sock:
  assumes W: "world_inv T L lo hi ctx" and s: "socks ctx i = Some s" "state s \<noteq> CS_UNINITIALIZED" and T: "T \<le> T'"
    and f: "wpo (f (s, ctx)) (\<lambda>c'. stepped T' L lo hi (s, ctx) c' \<and> Q (fst c'))"
  shows "wpo (run_sock i f ctx) (\<lambda>ctx'. world_inv T' L lo hi ctx' \<and> others_stay i ctx ctx' \<and> (\<exists>s'. socks ctx' i = Some s' \<and> sock_key s' = sock_key s \<and> Q s'))"
proof -
  have "wpo (map_option (Pair ()) (f (s, ctx))) (\<lambda>(r, c'). stepped T' L lo hi (s, ctx) c' \<and> Q (fst c'))"
    using f by (auto simp: wpo_ex)
  from world_on_sock [OF W s T, of "\<lambda>c. map_option (Pair ()) (f c)" "\<lambda>_. Q", OF this] show ?thesis
    unfolding run_sock_def by (auto simp: wpo_ex)
qed

subsection \<open>Finding the connection\<close>

lemma find_spec:
  assumes "world_inv T L lo hi ctx"
  shows "utp_hash_find (utp_sockets ctx) k = Some (hash_abs (utp_sockets ctx) k)"
  by (rule utp_hash_find_spec [OF world_invD(2) [OF assms]])

lemma find_by_send_id_spec:
  assumes W: "world_inv T L lo hi ctx"
  shows "wpo (find_by_send_id a rid cid ctx) (\<lambda>r. r = None \<or> (\<exists>i s. r = Some i \<and> socks ctx i = Some s \<and> state s \<noteq> CS_UNINITIALIZED))"
proof (cases "hash_abs (utp_sockets ctx) \<lparr>key_addr = a, recv_id = rid\<rparr>")
  case None
  then show ?thesis by (simp add: find_by_send_id_def find_spec [OF W])
next
  case (Some i)
  then obtain s where "socks ctx i = Some s" "state s \<noteq> CS_UNINITIALIZED" using world_invD(5) [OF W Some] by blast
  then show ?thesis by (simp add: find_by_send_id_def find_spec [OF W] Some)
qed

lemma find_conn_spec:
  assumes W: "world_inv T L lo hi ctx"
  shows "wpo (find_conn a cid ctx) (\<lambda>r. r = None \<or> (\<exists>i s. r = Some i \<and> socks ctx i = Some s \<and> state s \<noteq> CS_UNINITIALIZED))"
proof (cases "hash_abs (utp_sockets ctx) \<lparr>key_addr = a, recv_id = cid\<rparr>")
  case None
  have "wpo (find_by_send_id a (cid + 1) cid ctx \<bind> (\<lambda>r1. if r1 \<noteq> None then Some r1 else find_by_send_id a (cid - 1) cid ctx))
      (\<lambda>r. r = None \<or> (\<exists>i s. r = Some i \<and> socks ctx i = Some s \<and> state s \<noteq> CS_UNINITIALIZED))"
    by (rule wpo_bindI [OF find_by_send_id_spec [OF W]]) (use find_by_send_id_spec [OF W] in auto)
  then show ?thesis by (simp add: find_conn_def find_spec [OF W] None)
next
  case (Some i)
  then show ?thesis using world_invD(5) [OF W Some] by (auto simp: find_conn_def find_spec [OF W])
qed

text \<open>The remembered socket is a cache: it does not change the answer.\<close>

lemma lookup_conn_spec:
  assumes W: "world_inv T L lo hi ctx"
  shows "wpo (lookup_conn a cid ctx) (\<lambda>(r, ctx'). r = hash_abs (utp_sockets ctx) \<lparr>key_addr = a, recv_id = cid\<rparr> \<and> world_inv T L lo hi ctx' \<and>
     (\<exists>l. ctx' = ctx\<lparr>last_utp_socket := l\<rparr>))"
proof -
  let ?k = "\<lparr>key_addr = a, recv_id = cid\<rparr>"
  have set: "world_inv T L lo hi (ctx\<lparr>last_utp_socket := Some i\<rparr>)" if i: "hash_abs (utp_sockets ctx) ?k = Some i" for i
  proof -
    let ?c = "ctx\<lparr>last_utp_socket := Some i\<rparr>"
    have ac: "active (ctx\<lparr>last_utp_socket := l\<rparr>) = active ctx" for l by (simp add: fun_eq_iff active_def)
    have q: "quiet ctx ?c" by simp
    have "active ctx i" using world_invD(5) [OF W i] by (auto simp: active_def)
    moreover have "sock_ok T L lo hi ?c j t" if "socks ctx j = Some t" for j t
      using world_invD(4) [OF W that] quiet_sock_inv [OF q] by (auto simp: sock_ok_def split: if_splits)
    ultimately show ?thesis using world_invD [OF W] quiet_good [OF q] by (intro world_invI) (simp_all add: ac)
  qed
  have miss: "wpo (do { r \<leftarrow> utp_hash_find (utp_sockets ctx) ?k; Some (r, if r = None then ctx else ctx\<lparr>last_utp_socket := r\<rparr>) })
      (\<lambda>(r, ctx'). r = hash_abs (utp_sockets ctx) ?k \<and> world_inv T L lo hi ctx' \<and> (\<exists>l. ctx' = ctx\<lparr>last_utp_socket := l\<rparr>))"
    using set W by (cases "hash_abs (utp_sockets ctx) ?k") (auto simp: find_spec [OF W] intro: exI [of _ "last_utp_socket ctx"])
  show ?thesis
  proof (cases "last_utp_socket ctx")
    case None
    then show ?thesis using miss by (simp add: lookup_conn_def)
  next
    case (Some i)
    obtain s where s: "socks ctx i = Some s" "state s \<noteq> CS_UNINITIALIZED" using world_invD(7) [OF W Some] by (auto simp: active_def)
    show ?thesis
    proof (cases "psa_eq (addr s) a \<and> conn_id_recv s = cid")
      case True
      then have "sock_key s = ?k" by (simp add: sock_key_def psa_eq_iff)
      then have "hash_abs (utp_sockets ctx) ?k = Some i" using world_sock(4) [OF W s] by simp
      then show ?thesis using True W Some s by (auto simp: lookup_conn_def intro: exI [of _ "last_utp_socket ctx"])
    next
      case False
      then show ?thesis using miss Some s by (auto simp: lookup_conn_def)
    qed
  qed
qed

subsection \<open>Datagrams and ICMP messages for a connection\<close>

lemma recv_overhead_trace: "\<exists>ctx'. recv_overhead len ty (s, ctx) = (s, ctx') \<and> trace_ext ctx ctx'"
proof -
  obtain n ctx1 where n: "get_udp_overhead (s, ctx) = (n, ctx1)" by fastforce
  have "trace_ext ctx ctx1" using n by (auto simp: get_udp_overhead_def utp_call_get_udp_overhead_def split: prod.splits) (metis snd_conv trace_ext_call)
  moreover have "trace_ext ctx1 (utp_call_on_overhead_statistics ctx1 (self s) False (len + n) ty)" by (simp add: utp_call_on_overhead_statistics_def)
  ultimately show ?thesis using trace_ext_trans by (auto simp: recv_overhead_def n)
qed

lemma trace_stepped:
  assumes "sock_inv T L lo hi (s, ctx)" and "fin_room s" and "trace_ext ctx ctx'"
  shows "stepped T L lo hi (s, ctx) (s, ctx')"
  using conn_done_stepped [OF _ assms(2)] trace_conn_step [OF assms(1,3)] by (simp add: conn_step_def)

lemma state_stepped:
  assumes "sock_inv T L lo hi (s, ctx)" and "fin_room s" and "trace_ext ctx ctx'" and "st \<noteq> CS_SYN_SENT" and "st \<noteq> CS_UNINITIALIZED"
  shows "stepped T L lo hi (s, ctx) (s\<lparr>state := st\<rparr>, ctx')"
  using conn_done_stepped [OF _ assms(2)] state_conn_step(1) [OF assms(1,4,5,3)] by (simp add: conn_step_def)

lemma reset_conn_eq:
  "\<exists>ctx'. trace_ext ctx ctx' \<and> reset_conn len (s, ctx) =
     (s\<lparr>state := (if close_requested s then CS_DESTROY else CS_RESET)\<rparr>, utp_call_on_error ctx' (self s) UTP_ECONNRESET)"
proof -
  let ?s = "s\<lparr>state := (if close_requested s then CS_DESTROY else CS_RESET)\<rparr>"
  obtain ctx1 where "recv_overhead len close_overhead (?s, ctx) = (?s, ctx1)" "trace_ext ctx ctx1" using recv_overhead_trace by blast
  then show ?thesis by (intro exI [of _ ctx1]) (simp add: reset_conn_def)
qed

lemma reset_conn_spec:
  assumes inv: "sock_inv T L lo hi (s, ctx)" and room: "fin_room s"
  shows "stepped T L lo hi (s, ctx) (reset_conn len (s, ctx))"
proof -
  obtain ctx1 where o1: "trace_ext ctx ctx1" and eq: "reset_conn len (s, ctx) =
     (s\<lparr>state := (if close_requested s then CS_DESTROY else CS_RESET)\<rparr>, utp_call_on_error ctx1 (self s) UTP_ECONNRESET)" using reset_conn_eq by blast
  have "trace_ext ctx1 (utp_call_on_error ctx1 (self s) UTP_ECONNRESET)" by (simp add: utp_call_on_error_def)
  then have "trace_ext ctx (utp_call_on_error ctx1 (self s) UTP_ECONNRESET)" by (rule trace_ext_trans [OF o1])
  then show ?thesis unfolding eq by (rule state_stepped [OF inv room]) simp_all
qed

lemma process_rst_spec:
  assumes W: "world_inv T L lo hi ctx"
  shows "wpo (process_rst len a cid ctx) (world_inv T L lo hi)"
  unfolding process_rst_def
proof (rule wpo_bindI [OF find_conn_spec [OF W]])
  fix r assume "r = None \<or> (\<exists>i s. r = Some i \<and> socks ctx i = Some s \<and> state s \<noteq> CS_UNINITIALIZED)"
  then show "wpo (case r of None \<Rightarrow> Some ctx | Some i \<Rightarrow> run_sock i (\<lambda>c. Some (reset_conn len c)) ctx) (world_inv T L lo hi)"
  proof (elim disjE exE conjE)
    fix i s assume r: "r = Some i" and s: "socks ctx i = Some s" "state s \<noteq> CS_UNINITIALIZED"
    note w = world_sock [OF W s]
    have "wpo (run_sock i (\<lambda>c. Some (reset_conn len c)) ctx) (\<lambda>ctx'. world_inv T L lo hi ctx' \<and> others_stay i ctx ctx' \<and> (\<exists>s'. socks ctx' i = Some s' \<and> sock_key s' = sock_key s \<and> True))"
      using reset_conn_spec [OF w(2,3)] by (intro world_run_sock [OF W s order_refl]) simp
    then show ?thesis unfolding r by (simp, elim wpo_mono) simp
  qed (simp add: W)
qed

lemma incoming_conn_spec:
  assumes inv: "sock_inv T L lo hi (s, ctx)" and room: "fin_room s" and sp: "span lo hi" and T: "T + 6 < 2 ^ 31"
    and p: "20 \<le> length p" "length p < 2 ^ 31" and slack: "slack \<noteq> []" and rst: "drop_bit 4 (p ! 0) \<noteq> ST_RESET"
  shows "wpo (incoming_conn p slack (s, ctx)) (stepped (T + 6) L lo hi (s, ctx))"
  unfolding incoming_conn_def
proof (rule wpo_bindI [OF utp_process_incoming_keeps [OF inv sp T p slack rst]], clarify)
  fix n s1 ctx1 assume d: "conn_done (T + 6) L lo hi (s, ctx) (s1, ctx1)"
  obtain ctx2 where o2: "recv_overhead (of_nat (length p) - n) header_overhead (s1, ctx1) = (s1, ctx2)" "trace_ext ctx1 ctx2" using recv_overhead_trace by blast
  have st: "stepped (T + 6) L lo hi (s, ctx) (s1, ctx1)" by (rule conn_done_stepped [OF d room])
  then have "sock_inv (T + 6) L lo hi (s1, ctx1)" "fin_room s1" by (simp_all add: stepped_def)
  from stepped_trans [OF st trace_stepped [OF this o2(2)]]
  show "wpo (Some (recv_overhead (of_nat (length p) - n) header_overhead (s1, ctx1))) (stepped (T + 6) L lo hi (s, ctx))" by (simp add: o2(1))
qed

end
