(* ===== verification/Utp_Entry.thy ===== *)
theory Utp_Entry
  imports Utp_World "HOL-Library.Multiset"
begin

section \<open>The entry points keep the invariant of the context\<close>

text \<open>
  Every entry point of \<^verbatim>\<open>Utp_Dispatch\<close> runs to its end on a well-formed context and leaves a well-formed
  one; what it does beyond that to the sockets, the list of pending acks and the list of resets is stated with it.
\<close>

subsection \<open>Packets of no connection\<close>

lemma world_frame:
  assumes W: "world_inv T L lo hi ctx" and "ctx_frame i ctx ctx'" and "set (ack_sockets ctx') = set (ack_sockets ctx)"
  shows "world_inv T L lo hi ctx'"
proof -
  have ev: "ctx_evolve i ctx ctx'" by (rule ctx_step_evolve [OF ctx_frame_step [OF assms(2)]])
  show ?thesis
    using ctx_evolve_fields [OF ev] assms(3) world_invD(8) [OF W]
    by (intro world_quiet [OF W quiet_evolve [OF ev]]) (simp_all add: world_core_def)
qed

lemma touch_rst_length: "touch_rst a cid seqn now rs = Some rs' \<Longrightarrow> length rs' = length rs"
  by (induction rs arbitrary: rs') (auto split: if_splits)

lemma utp_call_fields [simp]: "ack_sockets (snd (utp_call cb c ctx)) = ack_sockets ctx" "rst_info (snd (utp_call cb c ctx)) = rst_info ctx"
  by (simp_all add: utp_call_def split: option.split)

lemma send_rst_frame: "ctx_frame i ctx (send_rst ctx a cid ack seq)" "ack_sockets (send_rst ctx a cid ack seq) = ack_sockets ctx"
  "rst_info (send_rst ctx a cid ack seq) = rst_info ctx"
  unfolding send_rst_def Let_def
  by (rule ctx_frame_send_to_addr)
    (simp_all add: send_to_addr_def utp_call_defs utp_call_fields utp_register_sent_packet_def Let_def split: prod.splits)

lemma trace_ext_random: "utp_call_get_random ctx so = (r, ctx') \<Longrightarrow> trace_ext ctx ctx'"
  by (auto simp: utp_call_get_random_def split: prod.splits) (metis snd_conv trace_ext_call)

lemma reject_packet_spec:
  assumes W: "world_inv T L lo hi ctx"
  shows "world_inv T L lo hi (reject_packet a cid seqn ctx)"
proof -
  obtain ms ctx1 where ms: "utp_call_get_milliseconds ctx None = (ms, ctx1)" by fastforce
  have tr: "trace_ext ctx ctx1" by (rule trace_ext_milliseconds [OF ms])
  define ctx2 where "ctx2 = ctx1\<lparr>current_ms := ms\<rparr>"
  have W2: "world_inv T L lo hi ctx2" using world_trace [OF W tr] by (simp add: ctx2_def)
  have eq: "reject_packet a cid seqn ctx = (case touch_rst a cid seqn ms (rst_info ctx2) of
          Some rs \<Rightarrow> ctx2\<lparr>rst_info := rs\<rparr>
        | None \<Rightarrow>
            if RST_INFO_LIMIT < length (rst_info ctx2) then ctx2
            else let ctx3 = ctx2\<lparr>rst_info := rst_info ctx2 @
                       [\<lparr>rst_addr = a, rst_connid = cid, rst_ack_nr = ucast seqn, rst_timestamp = ms\<rparr>]\<rparr>;
                     (r, ctx4) = utp_call_get_random ctx3 None
                 in send_rst ctx4 a cid (ucast seqn) (ucast r))"
    by (simp only: reject_packet_def ms ctx2_def Let_def prod.case)
  have app: "world_inv T L lo hi (send_rst ctx4 a cid (ucast seqn) (ucast r))"
    if "utp_call_get_random (ctx2\<lparr>rst_info := rs\<rparr>) None = (r, ctx4)" "length rs \<le> RST_INFO_LIMIT + 1" for rs r ctx4
  proof -
    have "world_inv T L lo hi ctx4" by (rule world_trace [OF _ trace_ext_random [OF that(1)]]) (rule world_update(3) [OF W2 that(2)])
    from world_frame [OF this send_rst_frame(1)] show ?thesis by (simp add: send_rst_frame)
  qed
  show ?thesis
  proof (cases "touch_rst a cid seqn ms (rst_info ctx2)")
    case None
    then show ?thesis unfolding eq using W2 app by (simp split: prod.split)
  next
    case (Some rs)
    then show ?thesis unfolding eq using world_update(3) [OF W2] touch_rst_length [OF Some] world_invD(8) [OF W2] by simp
  qed
qed

subsection \<open>ICMP messages\<close>

lemma parse_icmp_spec:
  assumes W: "world_inv T L lo hi ctx" and a: "psa_set to tolen \<noteq> None"
  shows "wpo (parse_icmp_payload p to tolen ctx) (\<lambda>r. r = None \<or> (\<exists>i s. r = Some i \<and> socks ctx i = Some s \<and> state s \<noteq> CS_UNINITIALIZED))"
proof -
  obtain x where x: "psa_set to tolen = Some x" using a by auto
  show ?thesis
  proof (cases "length p < sizeof_PacketFormatV1")
    case False
    then obtain pf where "pf_of_bytes p = Some pf" by (simp add: pf_of_bytes_def)
    then show ?thesis using False x find_conn_spec [OF W] by (auto simp: parse_icmp_payload_def)
  qed (simp add: parse_icmp_payload_def x)
qed

lemma world_found:
  assumes W: "world_inv T L lo hi ctx" and T: "T \<le> T'" and r: "r = None \<or> (\<exists>i s. r = Some i \<and> socks ctx i = Some s \<and> state s \<noteq> CS_UNINITIALIZED)"
    and f: "\<And>s. sock_inv T L lo hi (s, ctx) \<Longrightarrow> fin_room s \<Longrightarrow> wpo (f (s, ctx)) (stepped T' L lo hi (s, ctx))"
  shows "wpo (case r of None \<Rightarrow> Some (k, ctx) | Some i \<Rightarrow> map_option (Pair m) (run_sock i f ctx)) (\<lambda>(_, ctx'). world_inv T' L lo hi ctx')"
  using r
proof (elim disjE exE conjE)
  fix i s assume r: "r = Some i" and s: "socks ctx i = Some s" "state s \<noteq> CS_UNINITIALIZED"
  note w = world_sock [OF W s]
  have "wpo (f (s, ctx)) (\<lambda>c'. stepped T' L lo hi (s, ctx) c' \<and> (\<lambda>_. True) (fst c'))" using f [OF w(2,3)] by simp
  from world_run_sock [OF W s T, of f "\<lambda>_. True", OF this] show ?thesis by (auto simp: r wpo_ex)
qed (use world_mono [OF W T] in simp)

lemma mtu_icmp_spec:
  assumes inv: "sock_inv T L lo hi (s, ctx)" and room: "fin_room s"
  shows "wpo (mtu_icmp hop (s, ctx)) (stepped T L lo hi (s, ctx))"
proof -
  have a: "ack_inv T L lo hi (s, ctx)" and o: "out_ok T s" and m: "mtu_ok L s" using inv by (simp_all add: sock_inv_def ack_inv_def)
  show ?thesis
  proof (rule wpo_mono [OF mtu_icmp_ok [OF m]], clarify)
    fix s' ctx' assume t: "mtu_ok L s'" "mtu_only s s'" and tr: "trace_ext ctx ctx'"
    note st = mtu_only_ack_step [OF a t tr]
    have "conn_step T L lo hi (s, ctx) (s', ctx')" using ack_step_conn_step [OF inv st(1)] st(3) o by simp
    then show "stepped T L lo hi (s, ctx) (s', ctx')" by (intro conn_done_stepped [OF _ room] conn_step_done)
  qed
qed

lemma icmp_error_conn_spec:
  assumes inv: "sock_inv T L lo hi (s, ctx)" and room: "fin_room s"
  shows "stepped T L lo hi (s, ctx) (icmp_error_conn (s, ctx))"
proof (cases "state s = CS_IDLE")
  case True
  then show ?thesis using trace_stepped [OF inv room, of ctx] by (simp add: icmp_error_conn_def)
next
  case False
  have "trace_ext ctx (utp_call_on_error ctx (self s) e)" for e by (simp add: utp_call_on_error_def)
  then show ?thesis using False state_stepped [OF inv room] by (simp add: icmp_error_conn_def)
qed

lemma icmp_fragmentation_spec:
  assumes W: "world_inv T L lo hi ctx" and a: "psa_set to tolen \<noteq> None"
  shows "wpo (utp_process_icmp_fragmentation p to tolen hop ctx) (\<lambda>(_, ctx'). world_inv T L lo hi ctx')"
  unfolding utp_process_icmp_fragmentation_def
  by (rule wpo_bindI [OF parse_icmp_spec [OF W a]], rule world_found [OF W order_refl]) (auto intro: mtu_icmp_spec)

lemma icmp_error_spec:
  assumes W: "world_inv T L lo hi ctx" and a: "psa_set to tolen \<noteq> None"
  shows "wpo (utp_process_icmp_error p to tolen ctx) (\<lambda>(_, ctx'). world_inv T L lo hi ctx')"
  unfolding utp_process_icmp_error_def
  by (rule wpo_bindI [OF parse_icmp_spec [OF W a]], rule world_found [OF W order_refl]) (auto intro: icmp_error_conn_spec)

subsection \<open>Deferred acks\<close>

text \<open>The loop ends because every ack takes its socket off the list.\<close>

lemma deferred_ack_step:
  assumes inv: "sock_inv T L lo hi (s, ctx)" and room: "fin_room s"
  shows "wpo (send_ack False (s, ctx)) (\<lambda>c'. stepped T L lo hi (s, ctx) c' \<and> ack_sent (s, ctx) c')"
proof -
  have pre: "in_ok s" "ctx_ok ctx" "app_ok L ctx" using inv by (simp_all add: sock_inv_def ack_inv_def)
  show ?thesis
  proof (rule wpo_mono [OF send_ack_spec [OF pre(2,3)]])
    show "reorder_count s \<noteq> 0 \<and> \<not> got_fin_reached s \<longrightarrow> \<not> False \<and> cb_get (inbuf s) (ucast (ack_nr s) + 1) = None"
      using in_ok_slots(1) [OF pre(1)] by auto
    fix c' assume a: "ack_sent (s, ctx) c'"
    obtain s' ctx' where c': "c' = (s', ctx')" by (cases c')
    have "conn_done T L lo hi (s, ctx) c'" using conn_step_done [OF ack_sent_conn_step [OF inv]] a by (simp add: c')
    then show "stepped T L lo hi (s, ctx) c' \<and> ack_sent (s, ctx) c'" using a conn_done_stepped [OF _ room] by simp
  qed
qed

lemma deferred_acks_spec:
  assumes "world_inv T L lo hi ctx"
  shows "wpo (utp_issue_deferred_acks ctx) (\<lambda>ctx'. world_inv T L lo hi ctx' \<and> ack_sockets ctx' = [] \<and>
     utp_sockets ctx' = utp_sockets ctx \<and> rst_info ctx' = rst_info ctx \<and> (\<forall>j. j \<notin> set (ack_sockets ctx) \<longrightarrow> socks ctx' j = socks ctx j))"
  using assms
proof (induction "card (set (ack_sockets ctx))" arbitrary: ctx rule: less_induct)
  case less
  note W = less.prems
  show ?case
  proof (cases "ack_sockets ctx")
    case Nil
    then show ?thesis using W by (subst utp_issue_deferred_acks.simps) simp
  next
    case (Cons i rest)
    then have i: "i \<in> set (ack_sockets ctx)" "array_at (ack_sockets ctx) 0 = Some i" by (simp_all add: array_at_def)
    obtain s where s: "socks ctx i = Some s" "state s \<noteq> CS_UNINITIALIZED" using world_invD(6) [OF W i(1)] unfolding active_def by blast
    note w = world_sock [OF W s]
    have "wpo (run_sock i (send_ack False) ctx) (\<lambda>ctx'. world_inv T L lo hi ctx' \<and> others_stay i ctx ctx' \<and> i \<notin> set (ack_sockets ctx'))"
      unfolding run_sock_def on_sock_def s(1)
      using deferred_ack_step [OF w(2,3)] world_store [OF W s order_refl] w(1) by (auto simp: wpo_ex ack_sent_def)
    then have "wpo (Option.bind (run_sock i (send_ack False) ctx) utp_issue_deferred_acks) (\<lambda>ctx'. world_inv T L lo hi ctx' \<and> ack_sockets ctx' = [] \<and>
     utp_sockets ctx' = utp_sockets ctx \<and> rst_info ctx' = rst_info ctx \<and> (\<forall>j. j \<notin> set (ack_sockets ctx) \<longrightarrow> socks ctx' j = socks ctx j))"
    proof (rule wpo_bindI, elim conjE)
      fix ctx1 assume 1: "world_inv T L lo hi ctx1" "others_stay i ctx ctx1" "i \<notin> set (ack_sockets ctx1)"
      then have st: "set (ack_sockets ctx1) = set (ack_sockets ctx) - {i}" by (auto simp: others_stay_def)
      then have "card (set (ack_sockets ctx1)) < card (set (ack_sockets ctx))" using i(1) by (simp only: st) (rule card_Diff1_less, simp_all)
      from less.hyps [OF this 1(1)] show "wpo (utp_issue_deferred_acks ctx1) (\<lambda>ctx'. world_inv T L lo hi ctx' \<and> ack_sockets ctx' = [] \<and>
        utp_sockets ctx' = utp_sockets ctx \<and> rst_info ctx' = rst_info ctx \<and> (\<forall>j. j \<notin> set (ack_sockets ctx) \<longrightarrow> socks ctx' j = socks ctx j))"
      proof (rule wpo_mono, elim conjE)
        fix ctx2 assume 2: "world_inv T L lo hi ctx2" "ack_sockets ctx2 = []" "utp_sockets ctx2 = utp_sockets ctx1" "rst_info ctx2 = rst_info ctx1"
          "\<forall>j. j \<notin> set (ack_sockets ctx1) \<longrightarrow> socks ctx2 j = socks ctx1 j"
        have "socks ctx2 j = socks ctx j" if "j \<notin> set (ack_sockets ctx)" for j
          using 2(5) 1(2) that i(1) st by (metis Diff_iff others_stay_def)
        then show "world_inv T L lo hi ctx2 \<and> ack_sockets ctx2 = [] \<and> utp_sockets ctx2 = utp_sockets ctx \<and> rst_info ctx2 = rst_info ctx \<and>
          (\<forall>j. j \<notin> set (ack_sockets ctx) \<longrightarrow> socks ctx2 j = socks ctx j)" using 2 1(2) by (simp add: others_stay_def)
      qed
    qed
    then show ?thesis using Cons i(2) by (subst utp_issue_deferred_acks.simps) simp
  qed
qed

subsection \<open>Old resets\<close>

definition rst_expired :: "uint64 \<Rightarrow> RST_Info \<Rightarrow> bool" where
  "rst_expired now r \<longleftrightarrow> RST_INFO_TIMEOUT \<le> as_int (now - rst_timestamp r)"

lemma MoveUpLast_mset:
  assumes "i < length xs"
  shows "wpo (MoveUpLast xs i) (\<lambda>(ys, _). mset xs = add_mset (xs ! i) (mset ys) \<and> take i ys = take i xs \<and> Suc (length ys) = length xs)"
proof -
  obtain ys y where xs: "xs = ys @ [y]" using assms by (cases xs rule: rev_cases) auto
  show ?thesis
  proof (cases "i = length ys")
    case True
    then show ?thesis by (simp add: MoveUpLast_def xs)
  next
    case False
    then have i: "i < length ys" using assms by (simp add: xs)
    then show ?thesis using False by (simp add: MoveUpLast_def xs list_update_append nth_append mset_update)
  qed
qed

lemma expire_rst_spec:
  assumes "\<And>r. r \<in> set (take i rs) \<Longrightarrow> \<not> rst_expired now r"
  shows "wpo (expire_rst now i rs) (\<lambda>rs'. mset rs' = filter_mset (\<lambda>r. \<not> rst_expired now r) (mset rs))"
  using assms
proof (induction "length rs - i" arbitrary: i rs rule: less_induct)
  case less
  consider (stop) "length rs \<le> i" | (old) "i < length rs" "rst_expired now (rs ! i)" | (keep) "i < length rs" "\<not> rst_expired now (rs ! i)" by linarith
  then show ?case
  proof cases
    case stop
    then have "filter_mset (\<lambda>r. \<not> rst_expired now r) (mset rs) = mset rs" using less.prems by (simp add: filter_mset_eq_conv)
    then show ?thesis using stop by (subst expire_rst.simps) simp
  next
    case old
    have "wpo (Option.bind (MoveUpLast rs i) (\<lambda>(rs', _). expire_rst now i rs')) (\<lambda>rs'. mset rs' = filter_mset (\<lambda>r. \<not> rst_expired now r) (mset rs))"
    proof (rule wpo_bindI [OF MoveUpLast_mset [OF old(1)]], clarify)
      fix ys b assume y: "mset rs = add_mset (rs ! i) (mset ys)" "take i ys = take i rs" "Suc (length ys) = length rs"
      have "length ys - i < length rs - i" using old(1) y(3) by simp
      moreover have "\<not> rst_expired now r" if "r \<in> set (take i ys)" for r using less.prems that y(2) by simp
      ultimately have "wpo (expire_rst now i ys) (\<lambda>rs'. mset rs' = filter_mset (\<lambda>r. \<not> rst_expired now r) (mset ys))" by (rule less.hyps)
      then show "wpo (expire_rst now i ys) (\<lambda>rs'. mset rs' = filter_mset (\<lambda>r. \<not> rst_expired now r) (mset rs))" using old(2) by (simp add: y(1))
    qed
    then show ?thesis using old by (subst expire_rst.simps) (simp add: rst_expired_def)
  next
    case keep
    have "\<not> rst_expired now r" if "r \<in> set (take (i + 1) rs)" for r
      using less.prems [of r] that keep by (auto simp: take_Suc_conv_app_nth)
    then have "wpo (expire_rst now (i + 1) rs) (\<lambda>rs'. mset rs' = filter_mset (\<lambda>r. \<not> rst_expired now r) (mset rs))"
      using keep(1) by (intro less.hyps) auto
    then show ?thesis using keep by (subst expire_rst.simps) (simp add: rst_expired_def)
  qed
qed

subsection \<open>Destroying sockets\<close>

lemma destroy_table:
  assumes s: "socks ctx i = Some s" and d: "destroy_socket i ctx = Some ctx'"
  shows "\<exists>kd. utp_hash_del (utp_sockets ctx) (sock_key s) = Some (utp_sockets ctx', kd)"
proof -
  have 1: "utp_sockets (utp_call_on_state_change ctx i UTP_STATE_DESTROYING) = utp_sockets ctx"
    using trace_ext_fields [of ctx "utp_call_on_state_change ctx i UTP_STATE_DESTROYING"] by (simp add: utp_call_on_state_change_def)
  have 2: "utp_sockets c' = utp_sockets c" if "removeSocketFromAckList i c = Some c'" for c c'
    using that by (auto simp: removeSocketFromAckList_def Let_def cassert_def split: if_splits Option.bind_splits)
  show ?thesis using d 1 by (auto simp: destroy_socket_def s Let_def cassert_def dest!: 2 split: if_splits Option.bind_splits)
qed

lemma world_destroyed:
  assumes W: "world_inv T L lo hi ctx" and s: "socks ctx i = Some s" "state s \<noteq> CS_UNINITIALIZED" and d: "destroyed i ctx ctx'"
  shows "world_inv T L lo hi ctx'" "quiet ctx ctx'"
proof -
  note w = world_sock [OF W s]
  obtain cs where cs: "calls (utp_call_on_state_change ctx i UTP_STATE_DESTROYING) = calls ctx @ cs"
    by (cases "callbacks ctx UTP_ON_STATE_CHANGE") (auto simp: utp_call_on_state_change_def utp_call_def)
  have d': "socks ctx' = (socks ctx)(i := None)" "hash_ok (utp_sockets ctx')" "hash_abs (utp_sockets ctx') = (hash_abs (utp_sockets ctx))(sock_key s := None)"
    "last_utp_socket ctx' = (if last_utp_socket ctx = Some i then None else last_utp_socket ctx)" "set (ack_sockets ctx') = set (ack_sockets ctx) - {i}"
    "ctx_ok ctx'" "calls ctx' = calls ctx @ cs" "callbacks ctx' = callbacks ctx" "rst_info ctx' = rst_info ctx" "ctx_opt_sndbuf ctx' = ctx_opt_sndbuf ctx"
    using d s cs by (auto simp: destroyed_def)
  show q: "quiet ctx ctx'" using d' by (auto simp: quiet_def)
  have ac: "active ctx' j" if "active ctx j" "j \<noteq> i" for j using that by (simp add: active_def d'(1))
  show "world_inv T L lo hi ctx'"
  proof (rule world_invI)
    show "sock_ok T L lo hi ctx' j t" if "socks ctx' j = Some t" for j t
    proof -
      have j: "j \<noteq> i" "socks ctx j = Some t" using that by (auto simp: d'(1) split: if_splits)
      note ok = world_invD(4) [OF W j(2)]
      have "sock_key t \<noteq> sock_key s" if "state t \<noteq> CS_UNINITIALIZED" using world_sock(4) [OF W j(2) that] w(4) j(1) by auto
      then show ?thesis using ok quiet_sock_inv [OF q] by (auto simp: sock_ok_def d'(3) split: if_splits)
    qed
    show "\<exists>t. socks ctx' j = Some t \<and> state t \<noteq> CS_UNINITIALIZED \<and> sock_key t = k" if "hash_abs (utp_sockets ctx') k = Some j" for k j
    proof -
      have k: "k \<noteq> sock_key s" "hash_abs (utp_sockets ctx) k = Some j" using that by (auto simp: d'(3) split: if_splits)
      obtain t where t: "socks ctx j = Some t" "state t \<noteq> CS_UNINITIALIZED" "sock_key t = k" using world_invD(5) [OF W k(2)] by blast
      then have "j \<noteq> i" using k(1) s(1) by auto
      then show ?thesis using t by (simp add: d'(1))
    qed
    show "active ctx' j" if "j \<in> set (ack_sockets ctx')" for j using ac [OF world_invD(6) [OF W]] that by (simp add: d'(5))
    show "active ctx' j" if "last_utp_socket ctx' = Some j" for j using ac [OF world_invD(7) [OF W]] that by (simp add: d'(4) split: if_splits)
  qed (use quiet_good [OF q world_invD(1) [OF W]] d'(2) world_invD(3,8) [OF W] in \<open>simp_all add: d'\<close>)
qed

lemma world_destroy:
  assumes W: "world_inv T L lo hi ctx" and s: "socks ctx i = Some s" "state s \<noteq> CS_UNINITIALIZED"
  shows "wpo (destroy_socket i ctx) (\<lambda>ctx'. world_inv T L lo hi ctx' \<and> quiet ctx ctx' \<and> socks ctx' = (socks ctx)(i := None) \<and>
     rst_info ctx' = rst_info ctx \<and> (\<exists>kd. utp_hash_del (utp_sockets ctx) (sock_key s) = Some (utp_sockets ctx', kd)))"
proof -
  note w = world_sock [OF W s]
  have ok: "ctx_ok ctx" using world_invD(1) [OF W] by (simp add: ctx_good_def)
  obtain ctx' where run: "destroy_socket i ctx = Some ctx'" and d: "destroyed i ctx ctx'"
    using destroy_spec [OF s(1) ok world_invD(2) [OF W]] w(4) by (auto simp: wpo_ex)
  show ?thesis unfolding run wpo_Some
    using world_destroyed [OF W s d] destroy_table [OF s(1) run] d by (auto simp: destroyed_def)
qed

text \<open>A step of a loop over the table: the socket of the item has been destroyed or kept, the others have not changed.\<close>

lemma item_sock:
  assumes W: "world_inv T L lo hi ctx" and k: "hash_abs (utp_sockets ctx) k = Some i"
  obtains s where "socks ctx i = Some s" "state s \<noteq> CS_UNINITIALIZED" "sock_key s = k"
  using world_invD(5) [OF W k] that by blast

definition no_active :: "(UTPSocketKey \<times> sid) list \<Rightarrow> utp_context \<Rightarrow> bool" where
  "no_active kvs ctx \<longleftrightarrow> (\<forall>i s. socks ctx i = Some s \<longrightarrow> state s \<noteq> CS_UNINITIALIZED \<longrightarrow> (sock_key s, i) \<in> set kvs)"

lemma no_activeD: "no_active kvs ctx \<Longrightarrow> socks ctx i = Some s \<Longrightarrow> state s \<noteq> CS_UNINITIALIZED \<Longrightarrow> (sock_key s, i) \<in> set kvs"
  by (simp add: no_active_def)

lemma free_all_spec:
  assumes W: "world_inv T L lo hi ctx"
  shows "wpo (UTP_FreeAll ctx) (\<lambda>ctx'. world_inv T L lo hi ctx' \<and> no_active [] ctx' \<and>
     (\<forall>i s. socks ctx i = Some s \<longrightarrow> state s = CS_UNINITIALIZED \<longrightarrow> socks ctx' i = Some s))"
proof -
  let ?un = "\<lambda>c. \<forall>i s. socks ctx i = Some s \<longrightarrow> state s = CS_UNINITIALIZED \<longrightarrow> socks c i = Some s"
  let ?P = "\<lambda>kvs c. world_inv T L lo hi c \<and> no_active kvs c \<and> ?un c"
  obtain kvs where it: "iter_items (utp_sockets ctx) utp_hash_iterator_init kvs" and m: "map_of kvs = hash_abs (utp_sockets ctx)"
    using iter_items_init [OF world_invD(2) [OF W]] by blast
  have "no_active kvs ctx" unfolding no_active_def using world_sock(4) [OF W] map_of_SomeD [of kvs] by (simp add: m)
  then have P0: "?P kvs ctx" using W by simp
  show ?thesis unfolding UTP_FreeAll_def
  proof (rule ht.for_each_rule [where P = ?P and tab = utp_sockets, OF it P0], elim conjE)
    fix k v kvs c it
    assume 1: "world_inv T L lo hi c" "no_active ((k, v) # kvs) c" "?un c" and it: "iter_items (utp_sockets c) it kvs"
      and k: "hash_abs (utp_sockets c) k = Some v" "k \<notin> fst ` set kvs"
    obtain s where s: "socks c v = Some s" "state s \<noteq> CS_UNINITIALIZED" "sock_key s = k" by (rule item_sock [OF 1(1) k(1)])
    show "wpo (destroy_socket v c) (\<lambda>c'. ?P kvs c' \<and> iter_items (utp_sockets c') it kvs)"
    proof (rule wpo_mono [OF world_destroy [OF 1(1) s(1,2)]], elim conjE exE)
      fix c' kd assume 2: "world_inv T L lo hi c'" "socks c' = (socks c)(v := None)" "utp_hash_del (utp_sockets c) (sock_key s) = Some (utp_sockets c', kd)"
      have "iter_items (utp_sockets c') it kvs" using ht.del_other [OF it _ k(2)] k(1) 2(3) by (simp add: s(3))
      moreover have "no_active kvs c'" unfolding no_active_def
      proof (intro allI impI)
        fix i t assume t: "socks c' i = Some t" "state t \<noteq> CS_UNINITIALIZED"
        then have "i \<noteq> v" "socks c i = Some t" by (auto simp: 2(2) split: if_splits)
        then show "(sock_key t, i) \<in> set kvs" using no_activeD [OF 1(2) _ t(2)] by auto
      qed
      moreover have "?un c'" using 1(3) s(1,2) by (auto simp: 2(2))
      ultimately show "?P kvs c' \<and> iter_items (utp_sockets c') it kvs" using 2(1) by simp
    qed
  qed
qed

subsection \<open>The timers of all sockets\<close>

lemma world_check_socket:
  assumes W: "world_inv (T + 2) L lo hi ctx" and s: "socks ctx i = Some s" "state s \<noteq> CS_UNINITIALIZED"
    and inv: "sock_inv T L lo hi (s, ctx)" and T: "T + 2 < 2 ^ 31"
  shows "wpo (check_socket i ctx) (\<lambda>ctx'. world_inv (T + 2) L lo hi ctx' \<and> quiet ctx ctx' \<and> rst_info ctx' = rst_info ctx \<and>
     (\<forall>j. j \<noteq> i \<longrightarrow> socks ctx' j = socks ctx j) \<and>
     ((\<exists>s'. socks ctx' i = Some s' \<and> state s' \<noteq> CS_DESTROY \<and> state s' \<noteq> CS_UNINITIALIZED \<and> sock_key s' = sock_key s) \<and> utp_sockets ctx' = utp_sockets ctx \<or>
      socks ctx' i = None \<and> (\<exists>kd. utp_hash_del (utp_sockets ctx) (sock_key s) = Some (utp_sockets ctx', kd))))"
proof -
  note w = world_sock [OF W s]
  have "wpo (check_timeouts (s, ctx)) (\<lambda>c'. stepped (T + 2) L lo hi (s, ctx) c' \<and> state (fst c') \<noteq> CS_UNINITIALIZED)"
  proof (rule wpo_mono [OF check_timeouts_spec [OF inv T]])
    fix c' assume "conn_step (T + 2) L lo hi (s, ctx) c'"
    then have "stepped (T + 2) L lo hi (s, ctx) c'" by (intro conn_done_stepped [OF _ w(3)] conn_step_done)
    then show "stepped (T + 2) L lo hi (s, ctx) c' \<and> state (fst c') \<noteq> CS_UNINITIALIZED"
      by (cases c') (simp add: stepped_def sock_inv_def syn_ok_def)
  qed
  from world_run_sock [OF W s order_refl, of check_timeouts "\<lambda>s'. state s' \<noteq> CS_UNINITIALIZED", OF this]
  show ?thesis unfolding check_socket_def
  proof (rule wpo_bindI, elim conjE exE)
    fix ctx1 s1 assume 1: "world_inv (T + 2) L lo hi ctx1" "others_stay i ctx ctx1" "socks ctx1 i = Some s1" "sock_key s1 = sock_key s" "state s1 \<noteq> CS_UNINITIALIZED"
    have o: "quiet ctx ctx1" "rst_info ctx1 = rst_info ctx" "utp_sockets ctx1 = utp_sockets ctx" "\<forall>j. j \<noteq> i \<longrightarrow> socks ctx1 j = socks ctx j"
      using 1(2) by (simp_all add: others_stay_def)
    have d: "wpo (destroy_socket i ctx1) (\<lambda>ctx'. world_inv (T + 2) L lo hi ctx' \<and> quiet ctx ctx' \<and> rst_info ctx' = rst_info ctx \<and>
        (\<forall>j. j \<noteq> i \<longrightarrow> socks ctx' j = socks ctx j) \<and> socks ctx' i = None \<and> (\<exists>kd. utp_hash_del (utp_sockets ctx) (sock_key s) = Some (utp_sockets ctx', kd)))"
    proof (rule wpo_mono [OF world_destroy [OF 1(1,3,5)]], elim conjE exE, intro conjI)
      fix ctx' kd assume 2: "quiet ctx1 ctx'" "socks ctx' = (socks ctx1)(i := None)" "rst_info ctx' = rst_info ctx1"
        "utp_hash_del (utp_sockets ctx1) (sock_key s1) = Some (utp_sockets ctx', kd)"
      show "quiet ctx ctx'" by (rule quiet_trans [OF o(1) 2(1)])
      show "\<exists>kd. utp_hash_del (utp_sockets ctx) (sock_key s) = Some (utp_sockets ctx', kd)" using 2(4) by (simp add: 1(4) o(3))
      show "rst_info ctx' = rst_info ctx" "\<forall>j. j \<noteq> i \<longrightarrow> socks ctx' j = socks ctx j" "socks ctx' i = None" using o 2(2,3) by simp_all
    qed
    show "wpo (do { s \<leftarrow> socks ctx1 i; if state s = CS_DESTROY then destroy_socket i ctx1 else Some ctx1 }) (\<lambda>ctx'. world_inv (T + 2) L lo hi ctx' \<and>
      quiet ctx ctx' \<and> rst_info ctx' = rst_info ctx \<and> (\<forall>j. j \<noteq> i \<longrightarrow> socks ctx' j = socks ctx j) \<and>
     ((\<exists>s'. socks ctx' i = Some s' \<and> state s' \<noteq> CS_DESTROY \<and> state s' \<noteq> CS_UNINITIALIZED \<and> sock_key s' = sock_key s) \<and> utp_sockets ctx' = utp_sockets ctx \<or>
      socks ctx' i = None \<and> (\<exists>kd. utp_hash_del (utp_sockets ctx) (sock_key s) = Some (utp_sockets ctx', kd))))"
    proof (cases "state s1 = CS_DESTROY")
      case True
      then show ?thesis using wpo_mono [OF d] by (simp add: 1(3))
    next
      case False
      then show ?thesis using 1 o by (simp add: 1(3))
    qed
  qed
qed

text \<open>In the loop the sockets that are still to come are as before, and no other one waits for its destruction.\<close>

definition swept :: "nat \<Rightarrow> nat \<Rightarrow> nat \<Rightarrow> nat \<Rightarrow> (UTPSocketKey \<times> sid) list \<Rightarrow> utp_context \<Rightarrow> bool" where
  "swept T L lo hi kvs ctx \<longleftrightarrow> (\<forall>i s. socks ctx i = Some s \<longrightarrow> state s \<noteq> CS_UNINITIALIZED \<longrightarrow>
     (if (sock_key s, i) \<in> set kvs then sock_inv T L lo hi (s, ctx) else state s \<noteq> CS_DESTROY))"

lemma sweptD:
  assumes "swept T L lo hi kvs ctx" "socks ctx i = Some s" "state s \<noteq> CS_UNINITIALIZED"
  shows "(sock_key s, i) \<in> set kvs \<Longrightarrow> sock_inv T L lo hi (s, ctx)" "(sock_key s, i) \<notin> set kvs \<Longrightarrow> state s \<noteq> CS_DESTROY"
  using assms by (auto simp: swept_def split: if_splits)

lemma swept_Nil: "swept T L lo hi [] ctx \<Longrightarrow> \<forall>i s. socks ctx i = Some s \<longrightarrow> state s \<noteq> CS_DESTROY"
  by (intro allI impI) (auto dest: sweptD(2))

lemma swept_step:
  assumes sw: "swept T L lo hi ((k, v) # kvs) c" and k: "k \<notin> fst ` set kvs" and q: "quiet c c'" and j: "\<forall>j. j \<noteq> v \<longrightarrow> socks c' j = socks c j"
    and v: "\<And>s'. socks c' v = Some s' \<Longrightarrow> state s' \<noteq> CS_DESTROY \<and> sock_key s' = k"
  shows "swept T L lo hi kvs c'"
  unfolding swept_def
proof (intro allI impI)
  fix i t assume t: "socks c' i = Some t" "state t \<noteq> CS_UNINITIALIZED"
  show "if (sock_key t, i) \<in> set kvs then sock_inv T L lo hi (t, c') else state t \<noteq> CS_DESTROY"
  proof (cases "i = v")
    case True
    have "(k, v) \<notin> set kvs" using k by force
    then show ?thesis using v [of t] t(1) True by simp
  next
    case False
    then have "socks c i = Some t" using t(1) j by simp
    note d = sweptD [OF sw this t(2)]
    show ?thesis using d(1) d(2) quiet_sock_inv [OF q] False by simp
  qed
qed

lemma check_sockets_spec:
  assumes W: "world_inv T L lo hi ctx" and T: "T + 2 < 2 ^ 31"
  shows "wpo (for_each utp_hash_next utp_sockets check_socket utp_hash_iterator_init ctx) (\<lambda>ctx'. world_inv (T + 2) L lo hi ctx' \<and>
     swept T L lo hi [] ctx' \<and> rst_info ctx' = rst_info ctx \<and>
     (\<forall>i s. socks ctx i = Some s \<longrightarrow> state s = CS_UNINITIALIZED \<longrightarrow> socks ctx' i = Some s))"
proof -
  let ?un = "\<lambda>c. rst_info c = rst_info ctx \<and> (\<forall>i s. socks ctx i = Some s \<longrightarrow> state s = CS_UNINITIALIZED \<longrightarrow> socks c i = Some s)"
  let ?P = "\<lambda>kvs c. world_inv (T + 2) L lo hi c \<and> swept T L lo hi kvs c \<and> ?un c"
  obtain kvs where it: "iter_items (utp_sockets ctx) utp_hash_iterator_init kvs" and m: "map_of kvs = hash_abs (utp_sockets ctx)"
    using iter_items_init [OF world_invD(2) [OF W]] by blast
  have "swept T L lo hi kvs ctx" unfolding swept_def using world_sock(2,4) [OF W] map_of_SomeD [of kvs] by (simp add: m)
  moreover have "world_inv (T + 2) L lo hi ctx" by (rule world_mono [OF W]) simp
  ultimately have P0: "?P kvs ctx" by simp
  have fin: "wpo (for_each utp_hash_next utp_sockets check_socket utp_hash_iterator_init ctx) (?P [])"
  proof (rule ht.for_each_rule [where P = ?P and tab = utp_sockets, OF it P0], elim conjE)
    fix k v kvs c it
    assume 1: "world_inv (T + 2) L lo hi c" "swept T L lo hi ((k, v) # kvs) c" "rst_info c = rst_info ctx"
        "\<forall>i s. socks ctx i = Some s \<longrightarrow> state s = CS_UNINITIALIZED \<longrightarrow> socks c i = Some s"
      and it: "iter_items (utp_sockets c) it kvs" and k: "hash_abs (utp_sockets c) k = Some v" "k \<notin> fst ` set kvs"
    obtain s where s: "socks c v = Some s" "state s \<noteq> CS_UNINITIALIZED" "sock_key s = k" by (rule item_sock [OF 1(1) k(1)])
    have inv: "sock_inv T L lo hi (s, c)" by (rule sweptD(1) [OF 1(2) s(1,2)]) (simp add: s(3))
    show "wpo (check_socket v c) (\<lambda>c'. ?P kvs c' \<and> iter_items (utp_sockets c') it kvs)"
    proof (rule wpo_mono [OF world_check_socket [OF 1(1) s(1,2) inv T]], elim conjE)
      fix c' assume 2: "world_inv (T + 2) L lo hi c'" "quiet c c'" "rst_info c' = rst_info c" "\<forall>j. j \<noteq> v \<longrightarrow> socks c' j = socks c j"
        and 3: "(\<exists>s'. socks c' v = Some s' \<and> state s' \<noteq> CS_DESTROY \<and> state s' \<noteq> CS_UNINITIALIZED \<and> sock_key s' = sock_key s) \<and> utp_sockets c' = utp_sockets c \<or>
          socks c' v = None \<and> (\<exists>kd. utp_hash_del (utp_sockets c) (sock_key s) = Some (utp_sockets c', kd))"
      have "iter_items (utp_sockets c') it kvs" using 3 it ht.del_other [OF it _ k(2)] k(1) by (auto simp: s(3))
      moreover have "swept T L lo hi kvs c'" by (rule swept_step [OF 1(2) k(2) 2(2,4)]) (use 3 s(3) in auto)
      moreover have "?un c'" using 1(3,4) 2(3,4) s(1,2) by (metis option.inject)
      ultimately show "?P kvs c' \<and> iter_items (utp_sockets c') it kvs" using 2(1) by simp
    qed
  qed
  then show ?thesis by (rule wpo_mono) simp
qed

definition checked :: "uint64 \<Rightarrow> utp_context \<Rightarrow> utp_context \<Rightarrow> bool" where
  "checked ms ctx ctx' \<longleftrightarrow> (\<forall>i s. socks ctx' i = Some s \<longrightarrow> state s \<noteq> CS_DESTROY) \<and>
     mset (rst_info ctx') = filter_mset (\<lambda>r. \<not> rst_expired ms r) (mset (rst_info ctx)) \<and>
     (\<forall>i s. socks ctx i = Some s \<longrightarrow> state s = CS_UNINITIALIZED \<longrightarrow> socks ctx' i = Some s)"

lemma check_timeouts_all_spec:
  assumes W: "world_inv T L lo hi ctx" and T: "T + 2 < 2 ^ 31"
  shows "wpo (utp_check_timeouts ctx) (\<lambda>ctx'. world_inv (T + 2) L lo hi ctx' \<and>
     (let ms = fst (utp_call_get_milliseconds ctx None) in if ms - last_check ctx < TIMEOUT_CHECK_INTERVAL
      then socks ctx' = socks ctx \<and> rst_info ctx' = rst_info ctx else checked ms ctx ctx'))"
proof -
  obtain ms ctx1 where ms: "utp_call_get_milliseconds ctx None = (ms, ctx1)" by fastforce
  have tr: "trace_ext ctx ctx1" by (rule trace_ext_milliseconds [OF ms])
  then obtain cs where c1: "ctx1 = ctx\<lparr>calls := calls ctx @ cs\<rparr>" unfolding trace_ext_def by blast
  have W1: "world_inv T L lo hi ctx1" by (rule world_trace [OF W tr])
  show ?thesis
  proof (cases "ms - last_check ctx < TIMEOUT_CHECK_INTERVAL")
    case True
    then show ?thesis using world_mono [OF W1, of "T + 2"] by (simp add: utp_check_timeouts_def ms c1)
  next
    case False
    let ?c = "\<lambda>rs. ctx1\<lparr>current_ms := ms, last_check := ms, rst_info := rs\<rparr>"
    have "wpo (expire_rst ms 0 (rst_info ctx) \<bind> (\<lambda>rs. for_each utp_hash_next utp_sockets check_socket utp_hash_iterator_init (?c rs)))
      (\<lambda>ctx'. world_inv (T + 2) L lo hi ctx' \<and> checked ms ctx ctx')"
    proof (rule wpo_bindI [OF expire_rst_spec])
      fix rs assume rs: "mset rs = filter_mset (\<lambda>r. \<not> rst_expired ms r) (mset (rst_info ctx))"
      then have "length rs \<le> length (rst_info ctx)" by (metis size_filter_mset_lesseq size_mset)
      then have W3: "world_inv T L lo hi (?c rs)" using world_update(3) [OF world_update(2) [OF world_update(1) [OF W1]]] world_invD(8) [OF W] by simp
      show "wpo (for_each utp_hash_next utp_sockets check_socket utp_hash_iterator_init (?c rs)) (\<lambda>ctx'. world_inv (T + 2) L lo hi ctx' \<and> checked ms ctx ctx')"
      proof (rule wpo_mono [OF check_sockets_spec [OF W3 T]], elim conjE)
        fix ctx' assume "world_inv (T + 2) L lo hi ctx'" "swept T L lo hi [] ctx'" "rst_info ctx' = rst_info (?c rs)"
          "\<forall>i s. socks (?c rs) i = Some s \<longrightarrow> state s = CS_UNINITIALIZED \<longrightarrow> socks ctx' i = Some s"
        then show "world_inv (T + 2) L lo hi ctx' \<and> checked ms ctx ctx'" using rs swept_Nil [of T L lo hi ctx'] by (simp add: checked_def c1)
      qed
    qed simp
    then show ?thesis using False by (simp add: utp_check_timeouts_def ms c1)
  qed
qed

end
