(* ===== verification/Utp_Accept.thy ===== *)
theory Utp_Accept
  imports Utp_Entry
begin

section \<open>New connections and the whole datagram handler\<close>

text \<open>
  A socket is made by the application or for an incoming SYN, it is entered into the table when it connects or
  is accepted. With this the handler of all datagrams, \<^const>\<open>utp_process_udp\<close>, keeps the invariant of the context.
\<close>

subsection \<open>A socket enters the table\<close>

definition adopted :: "nat \<Rightarrow> nat \<Rightarrow> nat \<Rightarrow> nat \<Rightarrow> conn \<Rightarrow> conn \<Rightarrow> bool" where
  "adopted T L lo hi = (\<lambda>(s, ctx) (s', ctx'). self s' = self s \<and> sock_inv T L lo hi (s', ctx') \<and> fin_room s' \<and> hash_ok (utp_sockets ctx') \<and>
     hash_abs (utp_sockets ctx) (sock_key s') = None \<and>
     hash_abs (utp_sockets ctx') = (hash_abs (utp_sockets ctx))(sock_key s' \<mapsto> self s) \<and> ctx_table (self s) ctx ctx')"

lemma ctx_table_fields:
  assumes "ctx_table i ctx ctx'"
  shows "socks ctx' = socks ctx" "last_utp_socket ctx' = last_utp_socket ctx" "rst_info ctx' = rst_info ctx"
    "set (ack_sockets ctx') - {i} = set (ack_sockets ctx) - {i}" "ctx_opt_sndbuf ctx' = ctx_opt_sndbuf ctx" "quiet ctx ctx'"
proof -
  obtain ctx1 h where 1: "ctx_evolve i ctx ctx1" "ctx' = ctx1\<lparr>utp_sockets := h\<rparr>" using assms unfolding ctx_table_def by blast
  show "quiet ctx ctx'" using quiet_evolve [OF 1(1)] by (simp add: 1(2))
  show "socks ctx' = socks ctx" "last_utp_socket ctx' = last_utp_socket ctx" "rst_info ctx' = rst_info ctx"
    "set (ack_sockets ctx') - {i} = set (ack_sockets ctx) - {i}" "ctx_opt_sndbuf ctx' = ctx_opt_sndbuf ctx"
    using ctx_evolve_fields [OF 1(1)] by (simp_all add: 1(2))
qed

lemma world_adopt:
  assumes W: "world_inv T L lo hi ctx" and s: "socks ctx i = Some s" "state s = CS_UNINITIALIZED" and T: "T \<le> T'"
    and ad: "adopted T' L lo hi (s, ctx) (s', ctx')"
  shows "world_inv T' L lo hi (ctx'\<lparr>socks := (socks ctx')(i \<mapsto> s')\<rparr>)"
proof -
  let ?c = "ctx'\<lparr>socks := (socks ctx')(i \<mapsto> s')\<rparr>"
  have i: "self s = i" using world_invD(4) [OF W s(1)] by (simp add: sock_ok_def)
  have f: "self s' = i" "sock_inv T' L lo hi (s', ctx')" "fin_room s'" "hash_ok (utp_sockets ctx')" "hash_abs (utp_sockets ctx) (sock_key s') = None"
    "hash_abs (utp_sockets ctx') = (hash_abs (utp_sockets ctx))(sock_key s' \<mapsto> i)" and tab: "ctx_table i ctx ctx'"
    using ad i by (simp_all add: adopted_def)
  note e = ctx_table_fields [OF tab]
  have un: "state s' \<noteq> CS_UNINITIALIZED" using f(2) by (simp add: sock_inv_def syn_ok_def)
  have q: "quiet ctx ?c" "quiet ctx' ?c" using e(6) by simp_all
  have ac: "active ?c j" if "active ctx j" for j using that un s by (auto simp: active_def e(1))
  show ?thesis
  proof (rule world_invI)
    show "sock_ok T' L lo hi ?c j t" if "socks ?c j = Some t" for j t
    proof (cases "j = i")
      case True
      then show ?thesis using that f un quiet_sock_inv [OF q(2) f(2)] by (simp add: sock_ok_def)
    next
      case False
      then have j: "socks ctx j = Some t" using that by (simp add: e(1))
      have ok: "sock_ok T' L lo hi ctx j t" by (rule sock_ok_mono [OF world_invD(4) [OF W j] T])
      have "sock_key t \<noteq> sock_key s'" if "state t \<noteq> CS_UNINITIALIZED" using world_sock(4) [OF W j that] f(5) by auto
      then show ?thesis using ok quiet_sock_inv [OF q(1)] by (auto simp: sock_ok_def f(6) split: if_splits)
    qed
    show "\<exists>t. socks ?c j = Some t \<and> state t \<noteq> CS_UNINITIALIZED \<and> sock_key t = k" if "hash_abs (utp_sockets ?c) k = Some j" for k j
    proof (cases "k = sock_key s'")
      case True
      then show ?thesis using that un by (simp add: f(6))
    next
      case False
      then have "hash_abs (utp_sockets ctx) k = Some j" using that by (simp add: f(6))
      then obtain t where t: "socks ctx j = Some t" "state t \<noteq> CS_UNINITIALIZED" "sock_key t = k" using world_invD(5) [OF W] by blast
      then have "j \<noteq> i" using s by auto
      then show ?thesis using t by (simp add: e(1))
    qed
    show "active ?c j" if "j \<in> set (ack_sockets ?c)" for j
    proof (cases "j = i")
      case False
      then have "j \<in> set (ack_sockets ctx)" using that e(4) by auto
      then show ?thesis by (rule ac [OF world_invD(6) [OF W]])
    qed (use un in \<open>simp add: active_def\<close>)
    show "active ?c j" if "last_utp_socket ?c = Some j" for j using ac [OF world_invD(7) [OF W]] that e(2) by simp
  qed (use quiet_good [OF q(1) world_invD(1) [OF W]] world_invD(3,8) [OF W] f(4) in \<open>simp_all add: e\<close>)
qed

lemma world_create:
  assumes W: "world_inv T L lo hi ctx" and new: "socks ctx i = None"
  shows "world_inv T L lo hi (utp_create_socket junk i ctx)"
proof -
  have "i \<notin> set (ack_sockets ctx)" using world_invD(6) [OF W, of i] new by (auto simp: active_def)
  moreover have ok: "ack_ok ctx" using world_invD(1) [OF W] by (simp add: ctx_good_def ctx_ok_def)
  ultimately have "ida ctx i = - 1" using ack_ok_mem [OF ok] ok by (simp add: ack_ok_def) (smt (verit))
  then have "(ida ctx)(i := - 1) = ida ctx" by (simp add: fun_eq_iff)
  then have eq: "utp_create_socket junk i ctx = ctx\<lparr>socks := (socks ctx)(i \<mapsto> new_socket junk i ctx)\<rparr>" (is "_ = ?c")
    unfolding utp_create_socket_def by simp
  have q: "quiet ctx ?c" by simp
  have ac: "active ?c j" if "active ctx j" for j using that new by (auto simp: active_def)
  have "state (new_socket junk i ctx) = CS_UNINITIALIZED" "self (new_socket junk i ctx) = i" by (simp_all add: new_socket_def)
  then have fresh: "sock_ok T L lo hi ?c i (new_socket junk i ctx)" using new_socket_fresh [OF world_invD(3) [OF W]] by (simp add: sock_ok_def)
  show ?thesis unfolding eq
  proof (rule world_invI)
    show "sock_ok T L lo hi ?c j t" if "socks ?c j = Some t" for j t
    proof (cases "j = i")
      case False
      then show ?thesis using world_invD(4) [OF W, of j t] that quiet_sock_inv [OF q] by (auto simp: sock_ok_def split: if_splits)
    qed (use that fresh in simp)
    show "\<exists>t. socks ?c j = Some t \<and> state t \<noteq> CS_UNINITIALIZED \<and> sock_key t = k" if "hash_abs (utp_sockets ?c) k = Some j" for k j
      using world_invD(5) [OF W, of k j] that new by auto
  qed (use world_invD [OF W] ac quiet_good [OF q] in \<open>simp_all\<close>)
qed

subsection \<open>Accepting a connection\<close>

lemma incoming_syn:
  assumes run: "utp_process_incoming p slack True (s, ctx) = Some (n, (s', ctx'))" and st: "state s \<noteq> CS_SYN_SENT"
  shows "rx_core s' = rx_core s \<and> state s' = state s \<and> cur_window_packets s' = cur_window_packets s"
  using run st
  by (auto simp: utp_process_incoming_def process_parsed_def Let_def rx_core_def cassert_def
      split: prod.splits if_splits Option.bind_splits ext_result.splits)

lemma overhead_trace:
  "get_overhead (s, ctx) = (n, ctx') \<Longrightarrow> trace_ext ctx ctx'"
  by (auto simp: get_overhead_def get_udp_overhead_def utp_call_get_udp_overhead_def split: prod.splits) (metis snd_conv trace_ext_call)

definition accepted :: "PackedSockAddr \<Rightarrow> uint32 \<Rightarrow> uint16 \<Rightarrow> UTPSocket \<Rightarrow> bool" where
  "accepted a cid seq s \<longleftrightarrow> state s = CS_SYN_RECV \<and> addr s = a \<and> conn_id_recv s = cid + 1 \<and> conn_id_send s = cid \<and> ack_nr s = seq"

lemma accept_tail:
  assumes inv: "sock_inv 0 L lo hi (s, ctx)" and room: "fin_room s" and re: "reorder_count s = 0" and st: "state s \<noteq> CS_SYN_SENT"
    and acc: "accepted a cid seq s" and sp: "span lo hi" and p: "20 \<le> length p" "length p < 2 ^ 31" and slack: "slack \<noteq> []"
    and rst: "drop_bit 4 (p ! 0) \<noteq> ST_RESET"
  shows "wpo (utp_process_incoming p slack True (s, ctx) \<bind> (\<lambda>(n, c3). send_ack True c3 \<bind> (\<lambda>(s4, ctx4).
      let ctx5 = utp_call_on_accept ctx4 (self s4) to tolen; (s6, ctx6) = recv_overhead (of_nat (length p) - n) header_overhead (s4, ctx5);
          (len, ctx7) = get_overhead (s6, ctx6)
      in Some (s6, utp_call_on_overhead_statistics ctx7 (self s6) True len ack_overhead))))
    (\<lambda>c'. stepped 6 L lo hi (s, ctx) c' \<and> accepted a cid seq (fst c'))"
proof -
  have T: "0 + 6 < (2::nat) ^ 31" by simp
  obtain n s3 ctx3 where run: "utp_process_incoming p slack True (s, ctx) = Some (n, (s3, ctx3))" and d: "conn_done (0 + 6) L lo hi (s, ctx) (s3, ctx3)"
    using utp_process_incoming_keeps [OF inv sp T p slack rst, of True] by (auto simp: wpo_ex)
  note k = incoming_syn [OF run st]
  have d3: "stepped 6 L lo hi (s, ctx) (s3, ctx3)" using conn_done_stepped [OF d room] by simp
  have inv3: "sock_inv 6 L lo hi (s3, ctx3)" and room3: "fin_room s3" using d3 by (simp_all add: stepped_def)
  have "same_conn s s3" using d by (simp add: conn_done_def)
  then have acc3: "accepted a cid seq s3" and re3: "reorder_count s3 = 0" using acc k re by (simp_all add: accepted_def rx_core_def same_conn_def)
  have pre: "ctx_ok ctx3" "app_ok L ctx3" using inv3 by (simp_all add: sock_inv_def ack_inv_def)
  obtain s4 ctx4 where ack: "send_ack True (s3, ctx3) = Some (s4, ctx4)" and sent: "ack_sent (s3, ctx3) (s4, ctx4)"
    using send_ack_spec [OF pre, of s3 True] re3 by (auto simp: wpo_ex)
  have d4: "stepped 6 L lo hi (s, ctx) (s4, ctx4)"
    by (rule stepped_trans [OF d3 conn_done_stepped [OF conn_step_done [OF ack_sent_conn_step [OF inv3 sent]] room3]])
  have acc4: "accepted a cid seq s4" using acc3 sent by (auto simp: ack_sent_def accepted_def)
  define ctx5 where "ctx5 = utp_call_on_accept ctx4 (self s4) to tolen"
  obtain ctx6 where o6: "recv_overhead (of_nat (length p) - n) header_overhead (s4, ctx5) = (s4, ctx6)" and tr6: "trace_ext ctx5 ctx6"
    using recv_overhead_trace by blast
  obtain len ctx7 where o7: "get_overhead (s4, ctx6) = (len, ctx7)" by fastforce
  define ctx8 where "ctx8 = utp_call_on_overhead_statistics ctx7 (self s4) True len ack_overhead"
  have "trace_ext ctx4 ctx5" "trace_ext ctx7 ctx8" by (simp_all add: ctx5_def ctx8_def utp_call_on_accept_def utp_call_on_overhead_statistics_def)
  then have tr: "trace_ext ctx4 ctx8" using tr6 overhead_trace [OF o7] by (metis trace_ext_trans)
  have "stepped 6 L lo hi (s4, ctx4) (s4, ctx8)" using d4 by (intro trace_stepped [OF _ _ tr]) (simp_all add: stepped_def)
  then have "stepped 6 L lo hi (s, ctx) (s4, ctx8)" by (rule stepped_trans [OF d4])
  then show ?thesis using acc4 by (simp add: run ack ctx5_def [symmetric] o6 o7 ctx8_def [symmetric])
qed

lemma accept_conn_spec:
  assumes fresh: "fresh_sock s" and good: "ctx_good L lo hi ctx" and ht: "hash_ok (utp_sockets ctx)" "hash_count (utp_sockets ctx) < 0xffffffff"
    and a: "psa_set to tolen = Some a" and free: "hash_abs (utp_sockets ctx) \<lparr>key_addr = a, recv_id = cid + 1\<rparr> = None"
    and sp: "span lo hi" and p: "20 \<le> length p" "length p < 2 ^ 31" and slack: "slack \<noteq> []" and rst: "drop_bit 4 (p ! 0) \<noteq> ST_RESET"
  shows "wpo (accept_conn p slack to tolen cid seq (s, ctx)) (\<lambda>c'. adopted 6 L lo hi (s, ctx) c' \<and> accepted a cid (ucast seq) (fst c'))"
  unfolding accept_conn_def
proof (rule wpo_bindI [OF initialize_spec [OF fresh good ht a free, of _ _ 0]], clarify, goal_cases)
  case (1 s1 ctx1)
  have init: "initialized a cid (cid + 1) cid s s1" and inv1: "sock_inv 0 L lo hi (s1, ctx1)" and tab: "ctx_table (self s) ctx ctx1"
    and h1: "hash_ok (utp_sockets ctx1)" "hash_abs (utp_sockets ctx) (sock_key s1) = None"
      "hash_abs (utp_sockets ctx1) = (hash_abs (utp_sockets ctx))(sock_key s1 \<mapsto> self s)"
    using 1 by (simp_all add: init_done_def)
  note f = initialized_fields [OF init]
  have e: "cur_window_packets s1 = 0" "cur_window s1 = 0" "outbuf s1 = cb_new 4" "inbuf s1 = cb_new 4" "reorder_count s1 = 0" "\<not> fin_sent s1"
    using fresh by (simp_all add: fresh_sock_def f)
  obtain r ctx2 where r: "utp_call_get_random ctx1 None = (r, ctx2)" by fastforce
  define s2 where "s2 = s1\<lparr>state := CS_SYN_RECV, ack_nr := ucast seq, seq_nr := ucast r, fast_resend_seq_nr := ucast r\<rparr>"
  have inv1': "sock_inv 0 L lo hi (s1, ctx2)" by (rule conn_stepD [OF trace_conn_step [OF inv1 trace_ext_random [OF r]]])
  have inv2: "sock_inv 0 L lo hi (s2, ctx2)" unfolding s2_def by (rule idle_inv(2) [OF inv1' e(1-5)]) simp
  have ev2: "ctx_evolve (self s) ctx1 ctx2" by (rule ctx_evolve_trace [OF trace_ext_random [OF r]])
  have f2: "self s2 = self s" "sock_key s2 = sock_key s1" "fin_room s2" "accepted a cid (ucast seq) s2" "reorder_count s2 = 0" "cur_window_packets s2 = 0"
    using fresh by (simp_all add: s2_def f sock_key_def fin_room_def accepted_def fresh_sock_def)
  have T: "0 + 6 < (2::nat) ^ 31" by simp
  have body: "wpo (utp_process_incoming p slack True (s2, ctx2) \<bind> (\<lambda>(n, c3). send_ack True c3 \<bind> (\<lambda>(s4, ctx4).
      let ctx5 = utp_call_on_accept ctx4 (self s4) to tolen; (s6, ctx6) = recv_overhead (of_nat (length p) - n) header_overhead (s4, ctx5);
          (len, ctx7) = get_overhead (s6, ctx6)
      in Some (s6, utp_call_on_overhead_statistics ctx7 (self s6) True len ack_overhead))))
    (\<lambda>c'. stepped 6 L lo hi (s2, ctx2) c' \<and> accepted a cid (ucast seq) (fst c'))"
    by (rule accept_tail [OF inv2 f2(3,5) _ f2(4) sp p slack rst]) (simp add: s2_def)
  have fin: "adopted 6 L lo hi (s, ctx) c'" if st: "stepped 6 L lo hi (s2, ctx2) c'" for c'
  proof -
    obtain s' ctx' where c': "c' = (s', ctx')" by (cases c')
    have g: "self s' = self s" "sock_key s' = sock_key s1" "ctx_evolve (self s) ctx2 ctx'" "sock_inv 6 L lo hi (s', ctx')" "fin_room s'"
      using st f2 by (simp_all add: stepped_def c')
    have ev: "ctx_evolve (self s) ctx1 ctx'" by (rule ctx_evolve_trans [OF ev2 g(3)])
    have "ctx_table (self s) ctx ctx'" by (rule ctx_table_evolve [OF tab ev])
    then show ?thesis using g h1 ctx_evolve_fields(1) [OF ev] by (simp add: adopted_def c')
  qed
  show ?case unfolding r prod.case Let_def s2_def [symmetric]
    by (rule wpo_mono [OF body [unfolded Let_def]]) (use fin in blast)
qed

lemma accept_new_spec:
  assumes W: "world_inv T L lo hi ctx" and new: "socks ctx i = None" and a: "psa_set to tolen = Some a"
    and sp: "span lo hi" and p: "20 \<le> length p" "length p < 2 ^ 31" and slack: "slack \<noteq> []" and rst: "drop_bit 4 (p ! 0) \<noteq> ST_RESET"
    and free: "hash_abs (utp_sockets ctx) \<lparr>key_addr = a, recv_id = cid + 1\<rparr> = None" and n: "hash_count (utp_sockets ctx) \<le> 3000"
  shows "wpo (run_sock i (accept_conn p slack to tolen cid seq) (utp_create_socket junk i ctx)) (\<lambda>ctx'. world_inv (max T 6) L lo hi ctx' \<and>
     (\<forall>j. j \<noteq> i \<longrightarrow> socks ctx' j = socks ctx j) \<and> (\<exists>s. socks ctx' i = Some s \<and> accepted a cid (ucast seq) s))"
proof -
  let ?c = "utp_create_socket junk i ctx" and ?s = "new_socket junk i ctx"
  have Wc: "world_inv T L lo hi ?c" by (rule world_create [OF W new])
  have c: "socks ?c i = Some ?s" "state ?s = CS_UNINITIALIZED" "self ?s = i" "utp_sockets ?c = utp_sockets ctx"
    by (simp_all add: utp_create_socket_def new_socket_def)
  have fresh: "fresh_sock ?s" using world_invD(4) [OF Wc c(1)] c(2) by (simp add: sock_ok_def)
  have n': "hash_count (utp_sockets ?c) < 0xffffffff" using n c(4) by (simp add: word_le_nat_alt word_less_nat_alt)
  obtain s' ctx' where r: "accept_conn p slack to tolen cid seq (?s, ?c) = Some (s', ctx')" and ad: "adopted 6 L lo hi (?s, ?c) (s', ctx')"
    and acc: "accepted a cid (ucast seq) s'"
    using accept_conn_spec [OF fresh world_invD(1) [OF Wc] world_invD(2) [OF Wc] n' a free [folded c(4)] sp p slack rst, of seq] by (auto simp: wpo_ex)
  have ad': "adopted (max T 6) L lo hi (?s, ?c) (s', ctx')" using ad sock_inv_mono [of 6 L lo hi "(s', ctx')" "max T 6"] by (simp add: adopted_def)
  have "world_inv (max T 6) L lo hi (ctx'\<lparr>socks := (socks ctx')(i \<mapsto> s')\<rparr>)" by (rule world_adopt [OF Wc c(1,2) _ ad']) simp
  moreover have "socks ctx' = socks ?c" using ctx_table_fields(1) ad by (auto simp: adopted_def)
  ultimately show ?thesis using acc by (simp add: run_sock_def on_sock_def c(1) r) (simp add: utp_create_socket_def)
qed

lemma firewall_trace: "utp_call_on_firewall ctx to tolen = (b, ctx') \<Longrightarrow> trace_ext ctx ctx'"
  by (auto simp: utp_call_on_firewall_def split: prod.splits) (metis snd_conv trace_ext_call)

lemma accept_syn_spec:
  assumes W: "world_inv T L lo hi ctx" and new: "socks ctx i = None" and a: "psa_set to tolen = Some a"
    and sp: "span lo hi" and p: "20 \<le> length p" "length p < 2 ^ 31" and slack: "slack \<noteq> []" and rst: "drop_bit 4 (p ! 0) \<noteq> ST_RESET"
  shows "wpo (accept_syn junk i p slack to tolen a cid seq ctx) (\<lambda>ctx'. world_inv (max T 6) L lo hi ctx' \<and> (\<forall>j. j \<noteq> i \<longrightarrow> socks ctx' j = socks ctx j) \<and>
     (if callbacks ctx UTP_ON_ACCEPT \<noteq> None \<and> hash_abs (utp_sockets ctx) \<lparr>key_addr = a, recv_id = cid + 1\<rparr> = None \<and>
         hash_count (utp_sockets ctx) \<le> 3000 \<and> fst (utp_call_on_firewall ctx to tolen) = 0
      then \<exists>s. socks ctx' i = Some s \<and> accepted a cid (ucast seq) s else socks ctx' i = None))"
proof -
  obtain b ctx1 where b: "utp_call_on_firewall ctx to tolen = (b, ctx1)" by fastforce
  note tr = firewall_trace [OF b]
  note t1 = trace_ext_fields [OF tr]
  have W1: "world_inv T L lo hi ctx1" by (rule world_trace [OF W tr])
  have m: "world_inv (max T 6) L lo hi ctx" "world_inv (max T 6) L lo hi ctx1" using world_mono [OF W] world_mono [OF W1] by simp_all
  have run: "wpo (run_sock i (accept_conn p slack to tolen cid seq) (utp_create_socket junk i ctx1)) (\<lambda>ctx'. world_inv (max T 6) L lo hi ctx' \<and>
     (\<forall>j. j \<noteq> i \<longrightarrow> socks ctx' j = socks ctx j) \<and> (\<exists>s. socks ctx' i = Some s \<and> accepted a cid (ucast seq) s))"
    if "hash_abs (utp_sockets ctx) \<lparr>key_addr = a, recv_id = cid + 1\<rparr> = None" "hash_count (utp_sockets ctx) \<le> 3000"
    using accept_new_spec [OF W1 _ a sp p slack rst] that new by (simp add: t1)
  have le: "hash_count (utp_sockets ctx) \<le> 3000 \<longleftrightarrow> \<not> 3000 < hash_count (utp_sockets ctx)" by (simp add: not_less)
  show ?thesis
    unfolding accept_syn_def find_spec [OF W] bind.bind_lunit b prod.case Let_def fst_conv le
    using m run new by (simp add: t1 del: not_less)
qed

lemma utp_process_udp_spec:
  assumes W: "world_inv T L lo hi ctx" and new: "socks ctx i = None" and a: "psa_set to tolen \<noteq> None" and T: "T + 6 < 2 ^ 31"
    and sp: "span lo hi" and p: "length p < 2 ^ 31" and slack: "slack \<noteq> []"
  shows "wpo (utp_process_udp junk i p slack to tolen ctx) (\<lambda>(r, ctx'). world_inv (T + 6) L lo hi ctx')"
proof -
  obtain x where x: "psa_set to tolen = Some x" using a by auto
  have W6: "world_inv (T + 6) L lo hi ctx" by (rule world_mono [OF W]) simp
  show ?thesis
  proof (cases "length p < sizeof_PacketFormatV1")
    case True
    then show ?thesis using W6 by (simp add: utp_process_udp_def x)
  next
    case False
    then have p20: "20 \<le> length p" by (simp add: sizeof_PacketFormatV1_def)
    obtain pf where pf: "pf_of_bytes (p @ slack) = Some pf" "pf_type pf = drop_bit 4 (p ! 0)"
      using p20 by (cases p) (simp_all add: pf_of_bytes_def pf_type_def sizeof_PacketFormatV1_def nth_append)
    let ?cid = "ucast (pf_connid pf) :: uint32" and ?seq = "ucast (pf_seq_nr pf) :: uint32"
    have rst: "wpo (map_option (Pair (1::int)) (process_rst (of_nat (length p)) x ?cid ctx)) (\<lambda>(r, ctx'). world_inv (T + 6) L lo hi ctx')"
      using wpo_mono [OF process_rst_spec [OF W6]] by (auto simp: wpo_ex)
    have syn: "wpo (map_option (Pair (1::int)) (accept_syn junk i p slack to tolen x ?cid ?seq ctx)) (\<lambda>(r, ctx'). world_inv (T + 6) L lo hi ctx')"
      if "pf_type pf \<noteq> ST_RESET"
    proof -
      have "max T 6 \<le> T + 6" by simp
      then show ?thesis
        using accept_syn_spec [OF W new x sp p20 p slack, of junk ?cid ?seq] that pf(2) world_mono [of "max T 6" L lo hi _ "T + 6"] by (auto simp: wpo_ex)
    qed
    have dat: "wpo (do { (found, ctx1) \<leftarrow> lookup_conn x ?cid ctx; case found of Some j \<Rightarrow> map_option (Pair (1::int)) (run_sock j (incoming_conn p slack) ctx1)
         | None \<Rightarrow> Some (1::int, reject_packet x ?cid ?seq ctx1) }) (\<lambda>(r, ctx'). world_inv (T + 6) L lo hi ctx')" if nr: "pf_type pf \<noteq> ST_RESET"
    proof (rule wpo_bindI [OF lookup_conn_spec [OF W]], clarify)
      fix ctx1 l assume W1: "world_inv T L lo hi (ctx\<lparr>last_utp_socket := l\<rparr>)"
      let ?f = "hash_abs (utp_sockets ctx) \<lparr>key_addr = x, recv_id = ?cid\<rparr>" and ?c = "ctx\<lparr>last_utp_socket := l\<rparr>"
      have f: "?f = None \<or> (\<exists>j s. ?f = Some j \<and> socks ?c j = Some s \<and> state s \<noteq> CS_UNINITIALIZED)"
        using world_invD(5) [OF W, of "\<lparr>key_addr = x, recv_id = ?cid\<rparr>"] by (cases ?f) auto
      have conn: "wpo (incoming_conn p slack (s, ?c)) (stepped (T + 6) L lo hi (s, ?c))" if "sock_inv T L lo hi (s, ?c)" "fin_room s" for s
        using that nr pf(2) by (intro incoming_conn_spec [OF that sp T p20 p slack]) simp
      have "T \<le> T + 6" by simp
      note world_found [OF W1 this f, of "incoming_conn p slack" "0::int" "1::int"]
      then show "wpo (case ?f of Some j \<Rightarrow> map_option (Pair (1::int)) (run_sock j (incoming_conn p slack) ?c) | None \<Rightarrow> Some (1::int, reject_packet x ?cid ?seq ?c))
          (\<lambda>(r, ctx'). world_inv (T + 6) L lo hi ctx')"
        using conn world_mono [OF reject_packet_spec [OF W1]] by (cases ?f) simp_all
    qed
    show ?thesis using False W6 rst syn dat by (simp add: utp_process_udp_def x pf(1) Let_def)
  qed
qed

subsection \<open>Connecting\<close>

lemma world_connect:
  assumes W: "world_inv T L lo hi ctx" and s: "socks ctx i = Some s" "state s = CS_UNINITIALIZED"
    and h: "hash_count (utp_sockets ctx) < 0xffffffff" and a: "psa_set sa len = Some a" and n: "length (calls ctx) \<le> n" "seed_free ctx a i n"
  shows "wpo (on_sock i (utp_connect sa len) ctx) (\<lambda>(r, ctx'). r = 0 \<and> world_inv (T + 1) L lo hi ctx' \<and>
     (\<exists>s'. socks ctx' i = Some s' \<and> state s' = CS_SYN_SENT \<and> addr s' = a))"
proof -
  have fresh: "fresh_sock s" and i: "self s = i" using world_invD(4) [OF W s(1)] s(2) by (simp_all add: sock_ok_def)
  obtain s' ctx' where run: "utp_connect sa len (s, ctx) = Some (0, (s', ctx'))" and cd: "connect_done a 1 L lo hi (s, ctx) (s', ctx')"
    using connect_spec [OF fresh world_invD(1,2) [OF W] h a n [folded i]] by (auto simp: wpo_ex)
  have "adopted (T + 1) L lo hi (s, ctx) (s', ctx')"
    using cd sock_inv_mono [of 1 L lo hi "(s', ctx')" "T + 1"] by (simp add: adopted_def connect_done_def fin_room_def)
  from world_adopt [OF W s _ this] show ?thesis using cd by (simp add: on_sock_def s(1) run) (simp add: connect_done_def)
qed

end
