(* ===== verification/Utp_Library.thy ===== *)
theory Utp_Library
  imports Utp_Accept
begin

section \<open>The library as a state machine\<close>

text \<open>
  A program uses the library by calling its entry points one after the other. The steps are these
  calls, with the arguments that the application and the network choose; the states that a new
  context reaches in this way satisfy the invariant of the context, and no call fails in them.
\<close>

subsection \<open>The calls\<close>

datatype api_call =
  Create_Socket UTPSocket sid
| Connect sid SOCKADDR_STORAGE nat
| Writev sid "byte list list"
| Read_Drained sid
| Shutdown sid shut_how
| Close sid
| Set_Socket_Option sid utp_option int
| Set_Context_Option utp_option int
| Process_Udp UTPSocket sid "byte list" "byte list" SOCKADDR_STORAGE nat
| Icmp_Fragmentation "byte list" SOCKADDR_STORAGE nat uint16
| Icmp_Error "byte list" SOCKADDR_STORAGE nat
| Issue_Deferred_Acks
| Check_Timeouts

fun exec :: "api_call \<Rightarrow> utp_context \<Rightarrow> utp_context option" where
  "exec (Create_Socket junk i) ctx = Some (utp_create_socket junk i ctx)"
| "exec (Connect i sa len) ctx = map_option snd (on_sock i (utp_connect sa len) ctx)"
| "exec (Writev i iov) ctx = map_option snd (on_sock i (utp_writev iov) ctx)"
| "exec (Read_Drained i) ctx = run_sock i utp_read_drained ctx"
| "exec (Shutdown i how) ctx = run_sock i (utp_shutdown how) ctx"
| "exec (Close i) ctx = run_sock i utp_close ctx"
| "exec (Set_Socket_Option i opt val) ctx =
     run_sock i (\<lambda>(s, c). map_option (\<lambda>(r, s'). (s', c)) (utp_setsockopt opt val s)) ctx"
| "exec (Set_Context_Option opt val) ctx = map_option snd (utp_context_set_option ctx opt val)"
| "exec (Process_Udp junk i p slack to tolen) ctx = map_option snd (utp_process_udp junk i p slack to tolen ctx)"
| "exec (Icmp_Fragmentation p to tolen hop) ctx = map_option snd (utp_process_icmp_fragmentation p to tolen hop ctx)"
| "exec (Icmp_Error p to tolen) ctx = map_option snd (utp_process_icmp_error p to tolen ctx)"
| "exec Issue_Deferred_Acks ctx = utp_issue_deferred_acks ctx"
| "exec Check_Timeouts ctx = utp_check_timeouts ctx"

text \<open>
  What a caller has to observe: it passes sockets that exist, connects a socket once, uses only connected
  sockets otherwise and closes none twice; addresses are of a known family and options positive. \<^verbatim>\<open>new\<close> returns
  unused memory, the kernel delivers datagrams of less than 2 GB, and the random numbers hit at
  some time an id that is not in use.
\<close>

definition handle :: "utp_context \<Rightarrow> sid \<Rightarrow> CONN_STATE set \<Rightarrow> bool" where
  "handle ctx i sts \<longleftrightarrow> (\<exists>s. socks ctx i = Some s \<and> state s \<notin> sts)"

fun option_ok :: "utp_option \<Rightarrow> int \<Rightarrow> bool" where
  "option_ok OPT_SNDBUF val \<longleftrightarrow> 1 \<le> val \<and> val < 2 ^ 31"
| "option_ok OPT_RCVBUF val \<longleftrightarrow> 1 \<le> val \<and> val < 2 ^ 31"
| "option_ok _ val \<longleftrightarrow> True"

fun legal :: "api_call \<Rightarrow> utp_context \<Rightarrow> bool" where
  "legal (Create_Socket junk i) ctx \<longleftrightarrow> socks ctx i = None"
| "legal (Connect i sa len) ctx \<longleftrightarrow> map_option state (socks ctx i) = Some CS_UNINITIALIZED \<and>
     hash_count (utp_sockets ctx) < 0xffffffff \<and>
     (\<exists>a n. psa_set sa len = Some a \<and> length (calls ctx) \<le> n \<and> seed_free ctx a i n)"
| "legal (Writev i iov) ctx \<longleftrightarrow> handle ctx i {CS_UNINITIALIZED} \<and> iov \<noteq> []"
| "legal (Read_Drained i) ctx \<longleftrightarrow> handle ctx i {CS_UNINITIALIZED}"
| "legal (Shutdown i how) ctx \<longleftrightarrow> handle ctx i {CS_UNINITIALIZED, CS_DESTROY}"
| "legal (Close i) ctx \<longleftrightarrow> handle ctx i {CS_UNINITIALIZED, CS_DESTROY}"
| "legal (Set_Socket_Option i opt val) ctx \<longleftrightarrow> handle ctx i {} \<and> option_ok opt val"
| "legal (Set_Context_Option opt val) ctx \<longleftrightarrow> option_ok opt val"
| "legal (Process_Udp junk i p slack to tolen) ctx \<longleftrightarrow> socks ctx i = None \<and> psa_set to tolen \<noteq> None \<and> length p < 2 ^ 31 \<and> slack \<noteq> []"
| "legal (Icmp_Fragmentation p to tolen hop) ctx \<longleftrightarrow> psa_set to tolen \<noteq> None"
| "legal (Icmp_Error p to tolen) ctx \<longleftrightarrow> psa_set to tolen \<noteq> None"
| "legal Issue_Deferred_Acks ctx \<longleftrightarrow> True"
| "legal Check_Timeouts ctx \<longleftrightarrow> True"

text \<open>How often a call sends a packet of a socket at most: the transmissions of a packet are counted by 31 bits.\<close>

fun cost :: "api_call \<Rightarrow> nat" where
  "cost (Connect i sa len) = 1"
| "cost (Writev i iov) = length (concat (take UTP_IOV_MAX iov)) + 1"
| "cost (Shutdown i how) = 1"
| "cost (Close i) = 1"
| "cost (Process_Udp junk i p slack to tolen) = 6"
| "cost Check_Timeouts = 2"
| "cost _ = 0"

subsection \<open>Calls on one socket\<close>

lemma handle_call:
  assumes W: "world_inv T L lo hi ctx" and h: "handle ctx i sts" "CS_UNINITIALIZED \<in> sts" and T: "T \<le> T'"
    and f: "\<And>s. sock_inv T L lo hi (s, ctx) \<Longrightarrow> fin_room s \<Longrightarrow> state s \<notin> sts \<Longrightarrow> wpo (f (s, ctx)) (stepped T' L lo hi (s, ctx))"
  shows "wpo (run_sock i f ctx) (world_inv T' L lo hi)"
proof -
  obtain s where s: "socks ctx i = Some s" "state s \<notin> sts" using h(1) unfolding handle_def by blast
  then have un: "state s \<noteq> CS_UNINITIALIZED" using h(2) by auto
  note w = world_sock [OF W s(1) un]
  have "wpo (f (s, ctx)) (\<lambda>c'. stepped T' L lo hi (s, ctx) c' \<and> (\<lambda>_. True) (fst c'))" using f [OF w(2,3) s(2)] by simp
  from world_run_sock [OF W s(1) un T, of f "\<lambda>_. True", OF this] show ?thesis by (rule wpo_mono) simp
qed

lemma writev_world:
  assumes W: "world_inv T L lo hi ctx" and h: "handle ctx i {CS_UNINITIALIZED}" and ne: "iov \<noteq> []"
    and T: "T + (length (concat (take UTP_IOV_MAX iov)) + 1) < 2 ^ 31"
  shows "wpo (on_sock i (utp_writev iov) ctx) (\<lambda>(_, ctx'). world_inv (T + (length (concat (take UTP_IOV_MAX iov)) + 1)) L lo hi ctx')"
proof -
  let ?T = "T + (length (concat (take UTP_IOV_MAX iov)) + 1)"
  obtain s where s: "socks ctx i = Some s" "state s \<noteq> CS_UNINITIALIZED" using h by (auto simp: handle_def)
  note w = world_sock [OF W s]
  have inv': "sock_inv ?T L lo hi (s, ctx)" by (rule sock_inv_mono [OF w(2)]) simp
  have "wpo (utp_writev iov (s, ctx)) (\<lambda>(r, c'). stepped ?T L lo hi (s, ctx) c' \<and> (\<lambda>_ _. True) r (fst c'))"
  proof (cases "state s = CS_CONNECTED \<and> \<not> fin_sent s")
    case True
    then have st: "state s = CS_CONNECTED" "\<not> fin_sent s" by simp_all
    have T': "T + length (concat (take UTP_IOV_MAX iov)) + 1 < 2 ^ 31" using T by linarith
    show ?thesis
    proof (rule wpo_mono [OF writev_spec [OF w(2) st ne T']], clarify)
      fix n s' ctx' assume p: "writev_post (T + length (concat (take UTP_IOV_MAX iov)) + 1) L lo hi (concat (take UTP_IOV_MAX iov)) (unat n) (s, ctx) (s', ctx')"
      have "unat (cur_window_packets s) < 1024" using w(3) st(2) by (simp add: fin_room_def)
      then have "unat (cur_window_packets s') < 1024" using p by (simp add: writev_post_def)
      moreover have "written ?T L lo hi (take (unat n) (concat (take UTP_IOV_MAX iov))) (s, ctx) (s', ctx')"
        using p by (simp add: writev_post_def add.assoc del: length_concat)
      ultimately have "called ?T L lo hi (s, ctx) (s', ctx')" by (intro written_called) (simp_all add: same_peer_def)
      then show "stepped ?T L lo hi (s, ctx) (s', ctx') \<and> True" by (simp add: called_stepped)
    qed
  next
    case False
    then show ?thesis using ne trace_stepped [OF inv' w(3), of ctx] by (auto simp: utp_writev_def Let_def)
  qed
  from world_on_sock [where Q = "\<lambda>_ _. True" and f = "utp_writev iov", OF W s _ this] show ?thesis by (rule wpo_mono) auto
qed

lemma world_put:
  assumes W: "world_inv T L lo hi ctx" and s: "socks ctx i = Some s" and ok: "sock_ok T L lo hi ctx i s'"
    and eq: "sock_key s' = sock_key s" "state s' = state s"
  shows "world_inv T L lo hi (ctx\<lparr>socks := (socks ctx)(i \<mapsto> s')\<rparr>)"
proof -
  let ?c = "ctx\<lparr>socks := (socks ctx)(i \<mapsto> s')\<rparr>"
  have q: "quiet ctx ?c" by simp
  have ac: "active ?c j" if "active ctx j" for j using that s eq by (auto simp: active_def)
  show ?thesis
  proof (rule world_invI)
    show "sock_ok T L lo hi ?c j t" if "socks ?c j = Some t" for j t
      using that world_invD(4) [OF W, of j t] ok quiet_sock_inv [OF q] by (auto simp: sock_ok_def split: if_splits)
    show "\<exists>t. socks ?c j = Some t \<and> state t \<noteq> CS_UNINITIALIZED \<and> sock_key t = k" if "hash_abs (utp_sockets ?c) k = Some j" for k j
      using world_invD(5) [OF W, of k j] that s eq by auto
  qed (use world_invD [OF W] ac quiet_good [OF q] in \<open>simp_all\<close>)
qed

lemma option_value: "option_ok OPT_SNDBUF val \<Longrightarrow> unat (word_of_int val :: size_t) < 2 ^ 40"
proof -
  assume a: "option_ok OPT_SNDBUF val"
  then have "word_of_int val = (word_of_nat (nat val) :: size_t)" by simp
  moreover have "unat (word_of_nat (nat val) :: size_t) = nat val" using a by (intro unat_of_nat_small) (simp add: nat_less_iff)
  ultimately show ?thesis using a by (simp add: nat_less_iff)
qed

lemma setsockopt_world:
  assumes W: "world_inv T L lo hi ctx" and h: "handle ctx i {}" and ok: "option_ok opt val"
  shows "wpo (run_sock i (\<lambda>(s, c). map_option (\<lambda>(r, s'). (s', c)) (utp_setsockopt opt val s)) ctx) (world_inv T L lo hi)"
proof -
  obtain s where s: "socks ctx i = Some s" using h by (auto simp: handle_def)
  obtain r s' where run: "utp_setsockopt opt val s = Some (r, s')" using ok by (cases opt) (auto simp: utp_setsockopt_def)
  have s': "s' = s \<or> (\<exists>w. unat w < 2 ^ 40 \<and> s' = s\<lparr>opt_sndbuf := w\<rparr>) \<or> (\<exists>w. s' = s\<lparr>opt_rcvbuf := w\<rparr>) \<or> (\<exists>w. s' = s\<lparr>target_delay := w\<rparr>)"
    using run ok option_value [of val] by (cases opt) (auto simp: utp_setsockopt_def)
  note k = world_invD(4) [OF W s]
  have inv: "sock_inv T L lo hi (s', ctx)" if i: "sock_inv T L lo hi (s, ctx)"
    using s'
  proof (elim disjE exE conjE)
    fix w :: size_t assume b: "unat w < 2 ^ 40" and e: "s' = s\<lparr>opt_sndbuf := w\<rparr>"
    have "out_ok T (s\<lparr>opt_sndbuf := w\<rparr>) = out_ok T s" by (rule core_window(2)) (simp add: core_def)
    moreover have "in_ok (s\<lparr>opt_sndbuf := w\<rparr>) = in_ok s" by (rule in_ok_cong) simp_all
    moreover have "ack_inv T L lo hi (s\<lparr>opt_sndbuf := w\<rparr>, ctx)"
    proof -
      have c: "core (s\<lparr>opt_sndbuf := w\<rparr>) = core s" by (simp add: core_def)
      have a: "ack_inv T L lo hi (s, ctx)" using i by (simp add: sock_inv_def)
      then have "unat (max_window (s\<lparr>opt_sndbuf := w\<rparr>)) < 2 ^ 40" by (simp add: ack_inv_def)
      then show ?thesis by (rule core_ack_inv [OF c a])
    qed
    ultimately show ?thesis unfolding e using i b by (simp add: sock_inv_def delay_ok_def syn_ok_def)
  next
    assume "s' = s"
    then show ?thesis using i by simp
  next
    fix w assume e: "s' = s\<lparr>opt_rcvbuf := w\<rparr>"
    show ?thesis unfolding e by (rule sock_inv_cong [OF i]) (simp_all add: core_def rx_core_def delay_core_def)
  next
    fix w assume e: "s' = s\<lparr>target_delay := w\<rparr>"
    show ?thesis unfolding e by (rule sock_inv_cong [OF i]) (simp_all add: core_def rx_core_def delay_core_def)
  qed
  have eq: "sock_key s' = sock_key s" "state s' = state s" "self s' = self s" "fin_room s' = fin_room s" "fresh_sock s \<Longrightarrow> fresh_sock s'"
    using s' by (auto simp: sock_key_def fin_room_def fresh_sock_def)
  have "sock_ok T L lo hi ctx i s'" using k inv eq by (auto simp: sock_ok_def split: if_splits)
  from world_put [OF W s this eq(1,2)] show ?thesis by (simp add: run_sock_def on_sock_def s run)
qed

lemma context_option_world:
  assumes W: "world_inv T L lo hi ctx" and ok: "option_ok opt val"
  shows "wpo (utp_context_set_option ctx opt val) (\<lambda>(_, ctx'). world_inv T L lo hi ctx')"
proof -
  have put: "world_inv T L lo hi ctx'"
    if "quiet ctx ctx'" "socks ctx' = socks ctx" "utp_sockets ctx' = utp_sockets ctx" "ack_sockets ctx' = ack_sockets ctx"
      "last_utp_socket ctx' = last_utp_socket ctx" "rst_info ctx' = rst_info ctx" "unat (ctx_opt_sndbuf ctx') < 2 ^ 40" for ctx'
  proof (rule world_invI)
    have ac: "active ctx' = active ctx" by (simp add: fun_eq_iff active_def that(2))
    show "sock_ok T L lo hi ctx' j t" if "socks ctx' j = Some t" for j t
      using world_invD(4) [OF W, of j t] that quiet_sock_inv [OF \<open>quiet ctx ctx'\<close>] \<open>socks ctx' = socks ctx\<close> \<open>utp_sockets ctx' = utp_sockets ctx\<close>
      by (auto simp: sock_ok_def split: if_splits)
    show "active ctx' j" if "j \<in> set (ack_sockets ctx')" for j using that world_invD(6) [OF W] \<open>ack_sockets ctx' = ack_sockets ctx\<close> by (simp add: ac)
    show "active ctx' j" if "last_utp_socket ctx' = Some j" for j using that world_invD(7) [OF W] \<open>last_utp_socket ctx' = last_utp_socket ctx\<close> by (simp add: ac)
  qed (use world_invD(2,5,8) [OF W] quiet_good [OF that(1) world_invD(1) [OF W]] that in simp_all)
  show ?thesis using world_invD(3) [OF W] option_value [of val] ok
    by (cases opt) (auto simp: utp_context_set_option_def quiet_def ctx_ok_def ack_ok_def intro!: put)
qed

subsection \<open>Every call keeps the invariant\<close>

lemma wpo_snd: "wpo m (\<lambda>(_, c'). P c') \<Longrightarrow> wpo (map_option snd m) P"
  by (auto simp: wpo_ex)

lemma connect_world:
  assumes W: "world_inv T L lo hi ctx" and l: "legal (Connect i sa len) ctx"
  shows "wpo (exec (Connect i sa len) ctx) (world_inv (T + 1) L lo hi)"
proof -
  obtain s a n where s: "socks ctx i = Some s" "state s = CS_UNINITIALIZED" and h: "hash_count (utp_sockets ctx) < 0xffffffff"
    and a: "psa_set sa len = Some a" "length (calls ctx) \<le> n" "seed_free ctx a i n" using l by auto
  have "wpo (on_sock i (utp_connect sa len) ctx) (\<lambda>(_, ctx'). world_inv (T + 1) L lo hi ctx')"
    by (rule wpo_mono [OF world_connect [OF W s h a]]) auto
  then show ?thesis using wpo_snd by simp
qed

lemma read_drained_world:
  assumes W: "world_inv T L lo hi ctx" and h: "handle ctx i {CS_UNINITIALIZED}"
  shows "wpo (run_sock i utp_read_drained ctx) (world_inv T L lo hi)"
proof (rule handle_call [OF W h])
  fix s assume s: "sock_inv T L lo hi (s, ctx)" "fin_room s" "state s \<notin> {CS_UNINITIALIZED}"
  then show "wpo (utp_read_drained (s, ctx)) (stepped T L lo hi (s, ctx))"
    by (intro wpo_mono [OF read_drained_spec [OF s(1,2)]]) (auto intro: called_stepped)
qed simp_all

lemma end_call_world:
  assumes W: "world_inv T L lo hi ctx" and h: "handle ctx i {CS_UNINITIALIZED, CS_DESTROY}" and T: "T + 1 < 2 ^ 31"
  shows "wpo (run_sock i (utp_shutdown how) ctx) (world_inv (T + 1) L lo hi)" "wpo (run_sock i utp_close ctx) (world_inv (T + 1) L lo hi)"
proof -
  show "wpo (run_sock i (utp_shutdown how) ctx) (world_inv (T + 1) L lo hi)"
  proof (rule handle_call [OF W h])
    fix s assume s: "sock_inv T L lo hi (s, ctx)" "fin_room s" "state s \<notin> {CS_UNINITIALIZED, CS_DESTROY}"
    then show "wpo (utp_shutdown how (s, ctx)) (stepped (T + 1) L lo hi (s, ctx))"
      by (intro wpo_mono [OF shutdown_spec [OF s(1) T s(2)]]) (auto intro: called_stepped)
  qed simp_all
  show "wpo (run_sock i utp_close ctx) (world_inv (T + 1) L lo hi)"
  proof (rule handle_call [OF W h])
    fix s assume s: "sock_inv T L lo hi (s, ctx)" "fin_room s" "state s \<notin> {CS_UNINITIALIZED, CS_DESTROY}"
    then show "wpo (utp_close (s, ctx)) (stepped (T + 1) L lo hi (s, ctx))"
      by (intro wpo_mono [OF close_spec [OF s(1) T s(2)]]) (auto intro: called_stepped)
  qed simp_all
qed

lemma exec_keeps:
  assumes W: "world_inv T L lo hi ctx" and c: "legal c ctx" and T: "T + cost c < 2 ^ 31" and sp: "span lo hi"
  shows "wpo (exec c ctx) (world_inv (T + cost c) L lo hi)"
proof (cases c)
  case (Connect i sa len)
  then show ?thesis using connect_world [OF W] c by (simp del: exec.simps legal.simps)
next
  case (Writev i iov)
  have "wpo (on_sock i (utp_writev iov) ctx) (\<lambda>(_, ctx'). world_inv (T + (length (concat (take UTP_IOV_MAX iov)) + 1)) L lo hi ctx')"
    by (rule writev_world [OF W]) (use c T Writev in \<open>simp_all del: length_concat\<close>)
  then show ?thesis using wpo_snd by (simp add: Writev del: length_concat)
next
  case (Process_Udp junk i p slack to tolen)
  have "wpo (utp_process_udp junk i p slack to tolen ctx) (\<lambda>(r, ctx'). world_inv (T + 6) L lo hi ctx')"
    by (rule utp_process_udp_spec [OF W _ _ _ sp]) (use c T Process_Udp in simp_all)
  then show ?thesis using wpo_snd by (simp add: Process_Udp)
next
  case Check_Timeouts
  then have "T + 2 < 2 ^ 31" using T by simp
  then show ?thesis using wpo_mono [OF check_timeouts_all_spec [OF W]] Check_Timeouts by simp
qed (use c T world_create [OF W] read_drained_world [OF W] end_call_world [OF W] setsockopt_world [OF W] wpo_snd [OF context_option_world [OF W]]
      wpo_snd [OF icmp_fragmentation_spec [OF W]] wpo_snd [OF icmp_error_spec [OF W]] wpo_mono [OF deferred_acks_spec [OF W]] in simp_all)

subsection \<open>Reachable states\<close>

text \<open>A new context, with the callbacks that the application has set.\<close>

definition open_context :: "(nat \<Rightarrow> uint64) \<Rightarrow> (nat \<Rightarrow> uint64) \<Rightarrow> (cb_name \<times> utp_callback_t option) list \<Rightarrow> utp_context option" where
  "open_context now_us random cbs = map_option (fold (\<lambda>(name, proc) ctx. utp_set_callback ctx name proc) cbs) (utp_init 2 now_us random)"

inductive reaches :: "utp_context \<Rightarrow> nat \<Rightarrow> utp_context \<Rightarrow> bool" for ctx0 where
  start: "reaches ctx0 0 ctx0"
| step: "reaches ctx0 n ctx \<Longrightarrow> legal c ctx \<Longrightarrow> exec c ctx = Some ctx' \<Longrightarrow> reaches ctx0 (n + cost c) ctx'"

lemma set_callbacks:
  "\<exists>f. fold (\<lambda>(name, proc) ctx. utp_set_callback ctx name proc) cbs ctx = ctx\<lparr>callbacks := f\<rparr>"
proof (induction cbs arbitrary: ctx)
  case Nil
  show ?case by (rule exI [of _ "callbacks ctx"]) simp
next
  case (Cons np cbs)
  from Cons.IH [of "utp_set_callback ctx (fst np) (snd np)"] show ?case by (auto simp: utp_set_callback_def split_beta)
qed

lemma open_context_inv:
  assumes "open_context now_us random cbs = Some ctx" and good: "app_ok L ctx" "clock_ok lo hi ctx" "20 < L" "L \<le> 576"
  shows "world_inv 0 L lo hi ctx"
proof -
  obtain ctx0 where c0: "utp_context_new now_us random = Some ctx0" and ctx: "ctx = fold (\<lambda>(name, proc) ctx. utp_set_callback ctx name proc) cbs ctx0"
    using assms(1) by (auto simp: open_context_def utp_init_def cassert_def)
  obtain f where f: "ctx = ctx0\<lparr>callbacks := f\<rparr>" using set_callbacks [of cbs ctx0] ctx by auto
  have sp: "ack_ok ctx0" "hash_ok (utp_sockets ctx0)" "hash_abs (utp_sockets ctx0) = Map.empty"
    using utp_context_new_spec [of now_us random] by (simp_all add: c0)
  have e: "ack_sockets ctx0 = []" "rst_info ctx0 = []" "socks ctx0 = Map.empty" "last_utp_socket ctx0 = None" "length (nraw_send ctx0) = 5"
    "ctx_opt_sndbuf ctx0 = 1024 * 1024"
    using c0 by (auto simp: utp_context_new_def split: Option.bind_splits)
  have "ctx_ok ctx" using sp(1) e(5) by (simp add: f ctx_ok_def ack_ok_def)
  then show ?thesis using good sp by (intro world_invI) (simp_all add: ctx_good_def, simp_all add: f e)
qed

lemma reaches_inv:
  assumes "reaches ctx0 n ctx" and "world_inv 0 L lo hi ctx0" and "span lo hi" and "n < 2 ^ 31"
  shows "world_inv n L lo hi ctx"
  using assms
proof induction
  case (step n ctx c ctx')
  then have W: "world_inv n L lo hi ctx" by simp
  from exec_keeps [OF W step.hyps(2) step.prems(3,2)] show ?case using step.hyps(3) by simp
qed

text \<open>
  The states of a running library: a context with callbacks that behave as documented (every path carries packets of
  \<open>L\<close> bytes, the clock does not go back and stays between \<open>lo\<close> and \<open>hi\<close>, which are
  less than 36 minutes apart), after any calls that send less than \<open>2 ^ 31\<close> packets.
\<close>

definition running :: "nat \<Rightarrow> nat \<Rightarrow> nat \<Rightarrow> nat \<Rightarrow> utp_context \<Rightarrow> bool" where
  "running L lo hi n ctx \<longleftrightarrow> (\<exists>now_us random cbs ctx0. open_context now_us random cbs = Some ctx0 \<and> app_ok L ctx0 \<and> clock_ok lo hi ctx0 \<and>
     20 < L \<and> L \<le> 576 \<and> span lo hi \<and> reaches ctx0 n ctx \<and> n < 2 ^ 31)"

lemma running_inv:
  assumes "running L lo hi n ctx"
  shows "world_inv n L lo hi ctx" "span lo hi" "n < 2 ^ 31"
proof -
  obtain now_us random cbs ctx0 where o: "open_context now_us random cbs = Some ctx0" "app_ok L ctx0" "clock_ok lo hi ctx0" "20 < L" "L \<le> 576"
    and sp: "span lo hi" and r: "reaches ctx0 n ctx" and n: "n < 2 ^ 31" using assms unfolding running_def by (elim exE conjE)
  show "world_inv n L lo hi ctx" by (rule reaches_inv [OF r open_context_inv [OF o] sp n])
  show "span lo hi" "n < 2 ^ 31" by (fact sp) (fact n)
qed

lemma running_step:
  assumes "running L lo hi n ctx" and "legal c ctx" and "exec c ctx = Some ctx'" and "n + cost c < 2 ^ 31"
  shows "running L lo hi (n + cost c) ctx'"
proof -
  obtain now_us random cbs ctx0 where o: "open_context now_us random cbs = Some ctx0" "app_ok L ctx0" "clock_ok lo hi ctx0" "20 < L" "L \<le> 576"
    "span lo hi" and r: "reaches ctx0 n ctx" using assms(1) unfolding running_def by (elim exE conjE)
  show ?thesis unfolding running_def using o reaches.step [OF r assms(2,3)] assms(4) by (intro exI conjI)
qed

subsection \<open>An example\<close>

text \<open>A context that accepts connections, and one whose socket 3 is connecting to 127.0.0.1.\<close>

definition example_listener :: utp_context where
  "example_listener = utp_set_callback example_stopped UTP_ON_ACCEPT (Some (\<lambda>_ _. 0))"

lemma example_listener_running: "running 100 500 1000 0 example_listener"
proof -
  have "open_context (\<lambda>i. of_nat i * 1000) (\<lambda>i. of_nat i) [(UTP_GET_MICROSECONDS, Some (\<lambda>_ _. 1000)), (UTP_ON_ACCEPT, Some (\<lambda>_ _. 0))] = Some example_listener"
    unfolding open_context_def example_context_new by (simp add: utp_set_callback_def example_listener_def example_stopped_def)
  moreover have "app_ok 100 example_listener" "clock_ok 500 1000 example_listener" "span 500 1000"
    using example_stopped_ok
    by (simp_all add: example_listener_def utp_set_callback_def app_ok_def mtu_callback_ok_def rcv_callback_ok_def clock_ok_def reading_def span_def)
  ultimately show ?thesis unfolding running_def by (intro exI conjI) (rule reaches.start | assumption | simp)+
qed

lemma example_listener_table:
  "hash_abs (utp_sockets example_listener) = Map.empty" "socks example_listener = Map.empty" "hash_count (utp_sockets example_listener) = 0"
proof -
  have "wpo (utp_init 2 (\<lambda>i. of_nat i * 1000) (\<lambda>i. of_nat i)) (\<lambda>ctx. hash_ok (utp_sockets ctx) \<and> hash_abs (utp_sockets ctx) = Map.empty)"
    unfolding utp_init_def by (simp, rule wpo_mono [OF utp_context_new_spec]) blast
  then show "hash_abs (utp_sockets example_listener) = Map.empty"
    by (simp add: example_context_new example_listener_def utp_set_callback_def example_stopped_def)
  show "socks example_listener = Map.empty" "hash_count (utp_sockets example_listener) = 0"
    by (simp_all add: example_listener_def utp_set_callback_def example_stopped_def example_context_def)
qed

definition example_peer :: PackedSockAddr where
  "example_peer = \<lparr>in6 = replicate 10 0 @ [0xff, 0xff] @ [127, 0, 0, 1], port = ntohs 0xE11A\<rparr>"

lemma example_peer_set: "psa_set (Sockaddr_in 0xE11A [127, 0, 0, 1]) 16 = Some example_peer"
  by (simp add: psa_set_def sockaddr_sizes example_peer_def)

lemma example_connecting:
  "\<exists>ctx s. running 100 500 1000 1 ctx \<and> socks ctx 3 = Some s \<and> state s = CS_SYN_SENT \<and> addr s = example_peer"
proof -
  let ?c0 = "utp_create_socket zero_socket 3 example_listener" and ?call = "Connect 3 (Sockaddr_in 0xE11A [127, 0, 0, 1]) 16"
  have r0: "running 100 500 1000 0 ?c0"
    using running_step [OF example_listener_running, of "Create_Socket zero_socket 3" ?c0] by (simp add: example_listener_table)
  note W = running_inv(1) [OF r0]
  have s: "socks ?c0 3 = Some (new_socket zero_socket 3 example_listener)" "state (new_socket zero_socket 3 example_listener) = CS_UNINITIALIZED"
    by (simp_all add: utp_create_socket_def new_socket_def)
  have t: "utp_sockets ?c0 = utp_sockets example_listener" by (simp add: utp_create_socket_def)
  have h: "hash_count (utp_sockets ?c0) < 0xffffffff" by (simp add: t example_listener_table)
  have f: "seed_free ?c0 example_peer 3 (length (calls ?c0))" by (simp add: seed_free_def t example_listener_table)
  have l: "legal ?call ?c0" using s h f example_peer_set by auto
  obtain r ctx' s' where run: "on_sock 3 (utp_connect (Sockaddr_in 0xE11A [127, 0, 0, 1]) 16) ?c0 = Some (r, ctx')"
    and s': "socks ctx' 3 = Some s'" "state s' = CS_SYN_SENT" "addr s' = example_peer"
    using world_connect [OF W s h example_peer_set order_refl f] by (auto simp: wpo_ex)
  have "running 100 500 1000 (0 + cost ?call) ctx'" by (rule running_step [OF r0 l]) (simp_all add: run)
  then show ?thesis using s' by auto
qed

end
