(* ===== verification/Spec2Isabelle.thy ===== *)
theory Spec2Isabelle
  imports Utp_Write Utp_Transfer Utp_Array Utp_Hash_Cmp Utp_Platform Utp_Names Utp_Library
begin

text \<open>
  A verification development of \<^verbatim>\<open>libutp\<close>, the C++ core of go-libutp: the uTorrent transport protocol, a reliable ordered
  byte stream over UDP with delay-based congestion control.

  \<^bold>\<open>The program.\<close> A \<^verbatim>\<open>utp_context\<close> (\<^verbatim>\<open>utp_internal.h\<close>, \<^verbatim>\<open>utp_api.cpp\<close>) owns a hash table from peer address and connection id to
  sockets, a list of sockets with a deferred ack, a list of the resets it has sent and the callbacks of the
  application. The application feeds it with datagrams (\<^verbatim>\<open>utp_process_udp\<close>), ICMP messages, a call after each batch of
  datagrams (\<^verbatim>\<open>utp_issue_deferred_acks\<close>) and one every 500 ms (\<^verbatim>\<open>utp_check_timeouts\<close>), and it works on single sockets with
  \<^verbatim>\<open>utp_connect\<close>, \<^verbatim>\<open>utp_writev\<close>, \<^verbatim>\<open>utp_read_drained\<close>, \<^verbatim>\<open>utp_shutdown\<close> and \<^verbatim>\<open>utp_close\<close>; the library sends datagrams and reports data, errors
  and state changes through callbacks. A socket (\<^verbatim>\<open>UTPSocket\<close> in \<^verbatim>\<open>utp_internal.cpp\<close>) keeps its unacked packets and its reordered data in two circular buffers indexed
  by sequence number, the congestion window, the delay histories of both directions, the path MTU search and the
  timers.

  \<^bold>\<open>The theories\<close>, bottom up, with the code they model.
  \<^item> \<open>Utp_Prelude\<close>: machine types, faults, the predicate \<open>wpo\<close> and its rules, word arithmetic.
  \<^item> \<open>Circular_Buffer\<close>: \<^verbatim>\<open>SizableCircularBuffer\<close>. Locale \<open>ring_buffer\<close>, interpreted for the model.
  \<^item> \<open>Utp_Hash\<close>, \<open>Utp_Hash_Iter\<close>, \<open>Utp_Hash_Cmp\<close>: \<^verbatim>\<open>utp_hash.cpp\<close> and \<^verbatim>\<open>utp_hash.h\<close> with indices, links and free list as in memory. Locales
    \<open>key_table\<close> (a finite map) and \<open>table_iteration\<close> (loops that delete while they iterate).
  \<^item> \<open>Utp_Array\<close>: \<^verbatim>\<open>Array\<close> of \<^verbatim>\<open>utp_templates.h\<close>. Locale \<open>list_impl\<close>: the array behaves as the lists of the context.
  \<^item> \<open>Delay_Hist\<close>: \<^verbatim>\<open>wrapping_compare_less\<close> and \<^verbatim>\<open>DelayHist\<close>. \<open>Utp_Double\<close>: floating point.
  \<^item> \<open>Packed_Sock_Addr\<close>, \<open>Packet_Format\<close>, \<open>Utp_Clock\<close>, \<open>Utp_Platform\<close>, \<open>Utp_Names\<close>: \<^verbatim>\<open>utp_packedsockaddr.cpp\<close>, the packet headers and the parser of the
    extensions, \<^verbatim>\<open>utp_utils.cpp\<close>, the name tables.
  \<^item> \<open>Utp_Types\<close>, \<open>Utp_Context\<close>: the records of a socket and a context, \<^verbatim>\<open>utp_callbacks.cpp\<close>, \<^verbatim>\<open>utp_api.cpp\<close>, the list of pending acks (locale \<open>pending_acks\<close>).
  \<^item> \<open>Utp_Mtu\<close>, \<open>Utp_Send\<close>, \<open>Utp_Send_Inv\<close>, \<open>Utp_Write\<close>: path MTU search, \<^verbatim>\<open>send_data\<close>, \<^verbatim>\<open>send_packet\<close>, \<^verbatim>\<open>flush_packets\<close>,
    \<^verbatim>\<open>write_outgoing_packet\<close> and the invariant of the send queue.
  \<^item> \<open>Utp_Recv\<close>, \<open>Utp_Reorder\<close>, \<open>Utp_Stream\<close>: acks, the data part of \<^verbatim>\<open>utp_process_incoming\<close>, the invariant of the reordering buffer
    and the stream that the application sees.
  \<^item> \<open>Utp_Ccontrol\<close>, \<open>Utp_Ack\<close>, \<open>Utp_Delay\<close>, \<open>Utp_Incoming\<close>: \<^verbatim>\<open>apply_ccontrol\<close>, \<^verbatim>\<open>ack_packet\<close>, \<^verbatim>\<open>selective_ack\<close>, the delay samples and
    the whole of \<^verbatim>\<open>utp_process_incoming\<close>, with \<open>sock_inv\<close>, the invariant of a connection.
  \<^item> \<open>Utp_Timeouts\<close>: \<^verbatim>\<open>UTPSocket::check_timeouts\<close>. \<open>Utp_Socket\<close>, \<open>Utp_Socket_Ops\<close>: the calls on a socket from \<^verbatim>\<open>utp_create_socket\<close> to its destructor.
  \<^item> \<open>Utp_Dispatch\<close>: \<^verbatim>\<open>utp_process_udp\<close>, the ICMP handlers, \<^verbatim>\<open>utp_issue_deferred_acks\<close>, \<^verbatim>\<open>utp_check_timeouts\<close>, \<^verbatim>\<open>utp_destroy\<close>. \<open>Utp_World\<close>, \<open>Utp_Entry\<close>, \<open>Utp_Accept\<close>:
    \<open>world_inv\<close>, the invariant of a context, and that every entry point keeps it.
  \<^item> \<open>Utp_Wire\<close>, \<open>Utp_Wire_In\<close>, \<open>Utp_Wire_Write\<close>, \<open>Utp_Session\<close>: what a socket puts on the wire. \<open>wlp\<close> states what holds of an operation if it returns, and goes through
    the same code as \<open>wpo\<close>; the relation \<open>wired\<close> says that a step sends only packets that are queued already, \<open>advances\<close> that it
    queues given bytes behind them. A \<open>session\<close> is any sequence of calls, datagrams, ICMP messages and timers of one socket.
  \<^item> \<open>Utp_Delivery\<close>, \<open>Utp_Transfer\<close>: the whole handler of incoming packets delivers the stream of the peer, and the datagrams of a session at a receiver.
  \<^item> \<open>Utp_Library\<close>: the calls of \<^verbatim>\<open>utp.h\<close> as steps of a state machine (\<open>exec\<close>, \<open>legal\<close>) and its reachable states (\<open>reaches\<close>, \<open>running\<close>).

  \<^bold>\<open>Representation.\<close> The fields of the records have the names of the C++ members; unsigned integers are words of their width, so every wrap-around of the code is
  one of the model. Signed integers are unbounded where the code stays inside their range, and conversions to them are explicit (\<open>as_int\<close>). Functions that can fail
  an \<^verbatim>\<open>assert\<close>, leave an array or follow a dangling pointer return an option; \<open>None\<close> is the fault. An operation of a socket maps a \<open>conn\<close>, the socket and its
  context, to a new one. \<open>socks\<close> is the heap of socket objects, a pointer is a \<open>sid\<close>; \<open>on_sock\<close> loads and stores the object. Memory that \<^verbatim>\<open>new\<close> does not initialize is an argument
  (\<open>junk\<close>), and so are the address it returns and the bytes behind a datagram in its buffer (\<open>slack\<close>). A callback is a function of its arguments and of the number of calls made before it, and every call is recorded
  in \<open>calls\<close>: so the model can say what was sent, delivered and reported, and in which order.
  Doubles are rationals rounded to 53 bits after every operation.

  \<^bold>\<open>Loops.\<close> A loop whose end depends on the data is a \<open>partial_function (option)\<close>, so that a loop that does not end is the same value \<open>None\<close> as a fault: the chains and the
  iteration of the table, the search for a connection id, the growth of a buffer, flushing, writing, reordering, the deferred acks and the resets. The
  lemmas with \<open>wpo\<close> show that they return. No fuel is used.

  \<^bold>\<open>Bounds.\<close> \<open>world_inv T L lo hi\<close> and \<open>sock_inv T L lo hi\<close> have as parameters \<open>T\<close>, a bound of the transmissions of a packet, which the code counts in 31 bits (every call adds its \<open>cost\<close>), \<open>L\<close>, a lower bound of
  the MTU that the callback reports (21 to 576 bytes), and the range of the microsecond clock while the library runs, less than \<open>2 ^ 31\<close> microseconds wide and monotonic
  (\<open>span\<close>, \<open>clock_ok\<close>), because the round trip times are computed in 32 bits. The theorems on sessions are for less than \<open>2 ^ 31\<close> datagrams and less than 4 GB of data; end to end the stream has less than
  64000 packets, since the numbers of packets have 16 bits and a datagram that was delayed for longer than they take to wrap around is taken for a new one.

  \<^bold>\<open>What is shown.\<close> Each component has the lemmas that its clients use (refinement of a map, a set, a list or a ring; safety and exact effect of each operation). On top, every reachable
  state of the library is well-formed and no legal call fails in it; what a socket sends is the stream that was written, cut into packets that never change, and what the other end reads is a prefix of it; the stream of a peer is delivered in order, once and to its end; writing, acking, selective acks and timeouts keep the unacked data exactly;
  a silent peer is given up; the MTU search converges; the congestion window stays in its bounds. The theorems about flaws of the code
  (\<open>selective_ack_overread\<close>, \<open>packet_before_eof_dropped\<close>, \<open>reset_reports_connreset\<close>, \<open>win_clock_ahead_undefined\<close>, \<open>state_names_shifted\<close>) state what it does.

  \<^bold>\<open>Not modelled.\<close> A callback does not call back into the library. The text of log lines and the formatting of addresses, the counters of a build with \<^verbatim>\<open>_DEBUG\<close>, prototypes and compiler selection, and failing
  allocations (the code does not handle them). The Go package around the library is not part of this development.
\<close>

section \<open>Properties of the whole library\<close>



text \<open>C7: The hash table is exact. In every reachable state a lookup in the table succeeds, and it finds a socket under an address and an
  id if and only if this is an initialized socket of the context with this peer and this receive id. So a destroyed socket is never
  found, a live one always, and no two connections with the same peer share an id.\<close>

theorem table_holds_initialized_sockets:
  assumes "running L lo hi n ctx"
  shows "\<exists>r. utp_hash_find (utp_sockets ctx) \<lparr>key_addr = a, recv_id = cid\<rparr> = Some r \<and>
     (r = Some i \<longleftrightarrow> (\<exists>s. socks ctx i = Some s \<and> state s \<noteq> CS_UNINITIALIZED \<and> addr s = a \<and> conn_id_recv s = cid))"
proof -
  note W = running_inv(1) [OF assms]
  let ?k = "\<lparr>key_addr = a, recv_id = cid\<rparr>"
  have key: "sock_key s = ?k \<longleftrightarrow> addr s = a \<and> conn_id_recv s = cid" for s by (simp add: sock_key_def)
  have "hash_abs (utp_sockets ctx) ?k = Some i \<longleftrightarrow> (\<exists>s. socks ctx i = Some s \<and> state s \<noteq> CS_UNINITIALIZED \<and> sock_key s = ?k)"
    using world_invD(5) [OF W, of ?k i] world_sock(4) [OF W, of i] by metis
  then show ?thesis by (simp add: find_spec [OF W] key)
qed

theorem table_holds_initialized_sockets_witness:
  "\<exists>ctx s. running 100 500 1000 1 ctx \<and> socks ctx 3 = Some s \<and>
     utp_hash_find (utp_sockets ctx) \<lparr>key_addr = example_peer, recv_id = conn_id_recv s\<rparr> = Some (Some 3)"
proof -
  obtain ctx s where c: "running 100 500 1000 1 ctx" "socks ctx 3 = Some s" "state s = CS_SYN_SENT" "addr s = example_peer" using example_connecting by blast
  show ?thesis using table_holds_initialized_sockets [OF c(1), of example_peer "conn_id_recv s" 3] c by auto
qed

text \<open>C24: The socket that the context remembers from the last datagram is only a cache: the lookup of the connection of a
  datagram gives in every reachable state what the hash table alone gives, and changes nothing but the remembered socket.\<close>

theorem last_socket_is_cache:
  assumes "running L lo hi n ctx"
  shows "\<exists>l. lookup_conn a cid ctx = map_option (\<lambda>r. (r, ctx\<lparr>last_utp_socket := l\<rparr>)) (utp_hash_find (utp_sockets ctx) \<lparr>key_addr = a, recv_id = cid\<rparr>)"
  using lookup_conn_spec [OF running_inv(1) [OF assms], of a cid] by (auto simp: wpo_ex find_spec [OF running_inv(1) [OF assms]])

theorem last_socket_is_cache_witness:
  "\<exists>ctx s l. running 100 500 1000 1 ctx \<and> socks ctx 3 = Some s \<and> lookup_conn example_peer (conn_id_recv s) ctx = Some (Some 3, ctx\<lparr>last_utp_socket := l\<rparr>)"
proof -
  obtain ctx s where c: "running 100 500 1000 1 ctx" "socks ctx 3 = Some s" "state s = CS_SYN_SENT" "addr s = example_peer" using example_connecting by blast
  note W = running_inv(1) [OF c(1)]
  have "hash_abs (utp_sockets ctx) \<lparr>key_addr = example_peer, recv_id = conn_id_recv s\<rparr> = Some 3"
    using world_sock(4) [OF W c(2)] c(3,4) by (simp add: sock_key_def)
  then show ?thesis using last_socket_is_cache [OF c(1), of example_peer "conn_id_recv s"] c(1,2) by (auto simp: find_spec [OF W])
qed

text \<open>C21: An incoming SYN makes a connection. When the application accepts connections, the id is not in use,
  there are at most 3000 sockets and the firewall callback does not object, a SYN creates one socket in \<^verbatim>\<open>CS_SYN_RECV\<close> that is entered in the table under the id of the SYN plus
  one, sends with the id of the SYN and acks its sequence number; every other socket stays as it is.\<close>

theorem syn_makes_connection:
  assumes "running L lo hi n ctx" and "socks ctx i = None" and "psa_set to tolen = Some a" and "length p < 2 ^ 31" and "slack \<noteq> []"
    and "pf_of_bytes p = Some pf" and "UTP_Version pf = 1" and "pf_type pf = ST_SYN" and "cid = ucast (pf_connid pf)"
    and "callbacks ctx UTP_ON_ACCEPT \<noteq> None" and "utp_hash_find (utp_sockets ctx) \<lparr>key_addr = a, recv_id = cid + 1\<rparr> = Some None"
    and "hash_count (utp_sockets ctx) \<le> 3000" and "fst (utp_call_on_firewall ctx to tolen) = 0"
  shows "\<exists>ctx' s. utp_process_udp junk i p slack to tolen ctx = Some (1, ctx') \<and> socks ctx' i = Some s \<and> state s = CS_SYN_RECV \<and> addr s = a \<and>
     conn_id_recv s = cid + 1 \<and> conn_id_send s = cid \<and> ack_nr s = pf_seq_nr pf \<and>
     utp_hash_find (utp_sockets ctx') \<lparr>key_addr = a, recv_id = cid + 1\<rparr> = Some (Some i) \<and> (\<forall>j. j \<noteq> i \<longrightarrow> socks ctx' j = socks ctx j)"
proof -
  note W = running_inv(1) [OF assms(1)]
  have len: "20 \<le> length p" and pf: "pf_of_bytes (p @ slack) = Some pf" and ty: "pf_type pf = drop_bit 4 (p ! 0)"
    using assms(6) by (auto simp: pf_of_bytes_def sizeof_PacketFormatV1_def pf_type_def nth_append split: if_splits)
  have rst: "drop_bit 4 (p ! 0) \<noteq> ST_RESET" using ty assms(8) by (simp add: packet_types)
  have free: "hash_abs (utp_sockets ctx) \<lparr>key_addr = a, recv_id = cid + 1\<rparr> = None" using assms(11) by (simp add: find_spec [OF W])
  obtain ctx' s where run: "accept_syn junk i p slack to tolen a cid (ucast (pf_seq_nr pf)) ctx = Some ctx'"
    and W': "world_inv (max n 6) L lo hi ctx'" and o: "\<forall>j. j \<noteq> i \<longrightarrow> socks ctx' j = socks ctx j" and s: "socks ctx' i = Some s" "accepted a cid (pf_seq_nr pf) s"
    using accept_syn_spec [OF W assms(2,3) running_inv(2) [OF assms(1)] len assms(4,5) rst, of junk cid "ucast (pf_seq_nr pf)"] free assms(10,12,13)
    by (auto simp: wpo_ex)
  have key: "sock_key s = \<lparr>key_addr = a, recv_id = cid + 1\<rparr>" "state s \<noteq> CS_UNINITIALIZED" using s(2) by (simp_all add: sock_key_def accepted_def)
  have "hash_abs (utp_sockets ctx') \<lparr>key_addr = a, recv_id = cid + 1\<rparr> = Some i" using world_sock(4) [OF W' s(1) key(2)] by (simp add: key(1))
  moreover have "utp_process_udp junk i p slack to tolen ctx = Some (1, ctx')"
    using len run assms(3,7,8) pf by (simp add: utp_process_udp_def sizeof_PacketFormatV1_def Let_def assms(9) [symmetric] packet_types)
  ultimately show ?thesis using s o by (auto simp: find_spec [OF W'] accepted_def)
qed

theorem syn_makes_connection_witness:
  "\<exists>ctx' s. utp_process_udp zero_socket 5 (pf_bytes (pf_set_type ST_SYN (pf_set_version 1 (pf_zero\<lparr>pf_connid := 7, pf_seq_nr := 9\<rparr>)))) [0]
       (Sockaddr_in 0xE11A [127, 0, 0, 1]) 16 example_listener = Some (1, ctx') \<and> socks ctx' 5 = Some s \<and> state s = CS_SYN_RECV \<and>
     conn_id_recv s = 8 \<and> conn_id_send s = 7 \<and> ack_nr s = 9"
proof -
  let ?pf = "pf_set_type ST_SYN (pf_set_version 1 (pf_zero\<lparr>pf_connid := 7, pf_seq_nr := 9\<rparr>))"
  have h: "pf_of_bytes (pf_bytes ?pf) = Some ?pf" using pf_of_bytes_pf_bytes [of ?pf "[]"] by simp
  have v: "UTP_Version ?pf = 1" "pf_type ?pf = ST_SYN" "(7 :: uint32) = ucast (pf_connid ?pf)" by code_simp+
  have q: "pf_seq_nr ?pf = 9" "sizeof_PacketFormatV1 < 2 ^ 31" by code_simp (simp add: sizeof_PacketFormatV1_def)
  have c: "callbacks example_listener UTP_ON_ACCEPT \<noteq> None" "fst (utp_call_on_firewall example_listener (Sockaddr_in 0xE11A [127, 0, 0, 1]) 16) = 0"
    "socks example_listener 5 = None" "hash_count (utp_sockets example_listener) \<le> 3000"
    by (simp_all add: example_listener_def utp_set_callback_def example_stopped_def example_context_def default_callbacks_def utp_call_on_firewall_def utp_call_def as_int_def)
  have f: "utp_hash_find (utp_sockets example_listener) \<lparr>key_addr = example_peer, recv_id = 7 + 1\<rparr> = Some None"
    using find_spec [OF running_inv(1) [OF example_listener_running]] by (simp add: example_listener_table)
  show ?thesis
    using syn_makes_connection [OF example_listener_running c(3) example_peer_set _ _ h v c(1) f c(4,2), of "[0]" zero_socket] q by auto
qed



text \<open>C22: The timer check sweeps the context. When the interval of 500 ms has passed, no socket that waits for its destruction is
  left afterwards, the resets that were sent at least ten seconds ago are forgotten, exactly these, and a socket that has not been connected
  stays as it is. Before that nothing but the time changes. The check always ends, though it deletes sockets from the table over which it iterates.\<close>

theorem check_timeouts_sweeps:
  assumes "running L lo hi n ctx" and "n + 2 < 2 ^ 31" and "ms = fst (utp_call_get_milliseconds ctx None)"
  shows "\<exists>ctx'. utp_check_timeouts ctx = Some ctx' \<and>
     (if ms - last_check ctx < 500 then socks ctx' = socks ctx \<and> rst_info ctx' = rst_info ctx
      else (\<forall>i s. socks ctx' i = Some s \<longrightarrow> state s \<noteq> CS_DESTROY) \<and>
        mset (rst_info ctx') = filter_mset (\<lambda>r. as_int (ms - rst_timestamp r) < 10000) (mset (rst_info ctx)) \<and>
        (\<forall>i s. socks ctx i = Some s \<longrightarrow> state s = CS_UNINITIALIZED \<longrightarrow> socks ctx' i = Some s))"
  using check_timeouts_all_spec [OF running_inv(1) [OF assms(1)] assms(2)] unfolding wpo_ex assms(3)
  by (auto simp: checked_def TIMEOUT_CHECK_INTERVAL_def rst_expired_def RST_INFO_TIMEOUT_def not_le Let_def)

theorem check_timeouts_sweeps_witness:
  "\<exists>ctx ctx'. running 100 500 1000 1 ctx \<and> utp_check_timeouts ctx = Some ctx'"
proof -
  obtain ctx where c: "running 100 500 1000 1 ctx" using example_connecting by blast
  from check_timeouts_sweeps [OF c _ refl] show ?thesis using c by auto
qed

text \<open>C40: A reset always tells the application that the connection was reset. The error that the reset of a connection reports is chosen after the
  state has been overwritten, so \<^verbatim>\<open>UTP_ECONNREFUSED\<close> is never reported, not even for the answer to our own SYN.\<close>

theorem reset_reports_connreset:
  "\<exists>ctx'. trace_ext ctx ctx' \<and> reset_conn len (s, ctx) =
     (s\<lparr>state := (if close_requested s then CS_DESTROY else CS_RESET)\<rparr>, utp_call_on_error ctx' (self s) UTP_ECONNRESET)"
  by (rule reset_conn_eq)

text \<open>C25: The end of a context destroys every socket that has been connected or accepted: the loop ends and none is left. A socket that was
  created and never connected is not in the table, and its memory stays allocated.\<close>

theorem destroy_frees_connections:
  assumes "running L lo hi n ctx"
  shows "\<exists>ctx'. utp_destroy ctx = Some ctx' \<and> (\<forall>i s. socks ctx' i = Some s \<longrightarrow> state s = CS_UNINITIALIZED) \<and>
     (\<forall>i s. socks ctx i = Some s \<longrightarrow> state s = CS_UNINITIALIZED \<longrightarrow> socks ctx' i = Some s)"
  using free_all_spec [OF running_inv(1) [OF assms]] by (auto simp: wpo_ex utp_destroy_def no_active_def)

theorem destroy_frees_connections_witness:
  "\<exists>ctx ctx'. running 100 500 1000 1 ctx \<and> socks ctx 3 \<noteq> None \<and> utp_destroy ctx = Some ctx' \<and> map_option state (socks ctx' 3) \<noteq> Some CS_SYN_SENT"
proof -
  obtain ctx s where c: "running 100 500 1000 1 ctx" "socks ctx 3 = Some s" using example_connecting by blast
  from destroy_frees_connections [OF c(1)] obtain ctx' where d: "utp_destroy ctx = Some ctx'" "\<forall>i s. socks ctx' i = Some s \<longrightarrow> state s = CS_UNINITIALIZED" by blast
  have "map_option state (socks ctx' 3) \<noteq> Some CS_SYN_SENT" using d(2) by (cases "socks ctx' 3") auto
  then show ?thesis using c d(1) by blast
qed

end
